(* ===== verification/Prelude.thy ===== *)
theory Prelude
  imports Main "HOL-Library.Word"
begin

text \<open>
  Shared vocabulary of the development: Python errors as values, the control state of a greenlet,
  outgoing messages, Python indexing and slicing, the generic receive loop, and the lemmas on lists,
  maps and finite sets that several components use.
\<close>

section \<open>Errors, control flow and messages\<close>

text \<open>The exceptions the modelled code raises or catches.\<close>

datatype py_error =
    AssertionError
  | IndexError
  | KeyError
  | ValueError
  | TypeError
  | NameError
  | AttributeError
  | ZeroDivisionError
  | QueueFull
  | QueueEmpty
  | RedundantMessageError
  | UnknownTagError
  | AbandonedNodeError

text \<open>
  A protocol instance is a greenlet around a receive loop: after one message it still runs, it has
  returned a value, or an exception ended it.
\<close>

datatype 'r ctl = Running | Returned 'r | Raised py_error

text \<open>
  One call \<open>send(k, o)\<close>. The network client reads \<open>k = -1\<close> as "everybody", \<open>k = -2\<close> as
  "everybody but me", and any other \<open>k\<close> as a node number.
\<close>

datatype 'm out = Send int 'm

definition to_all :: "nat \<Rightarrow> 'm \<Rightarrow> 'm out list" where
  "to_all N o1 = map (\<lambda>i. Send (int i) o1) [0..<N]"

text \<open>What a handler returns: the new state, the messages it sent, and how it ended.\<close>

type_synonym ('s, 'm, 'r) reply = "'s \<times> 'm out list \<times> 'r ctl"

abbreviation stay :: "'s \<Rightarrow> ('s, 'm, 'r) reply" where
  "stay s \<equiv> (s, [], Running)"

abbreviation out_of :: "('s, 'm, 'r) reply \<Rightarrow> 'm out list" where
  "out_of x \<equiv> fst (snd x)"

abbreviation ctl_of :: "('s, 'm, 'r) reply \<Rightarrow> 'r ctl" where
  "ctl_of x \<equiv> snd (snd x)"

fun out_msg :: "'m out \<Rightarrow> 'm" where
  "out_msg (Send k m) = m"

definition raise_or :: "(py_error + 'r) \<Rightarrow> 'r ctl" where
  "raise_or x = (case x of Inl e \<Rightarrow> Raised e | Inr v \<Rightarrow> Returned v)"

text \<open>Sequencing of computations that may raise, and a loop that collects their results.\<close>

definition res_bind :: "(py_error + 'a) \<Rightarrow> ('a \<Rightarrow> py_error + 'b) \<Rightarrow> py_error + 'b" where
  "res_bind x k = (case x of Inl e \<Rightarrow> Inl e | Inr v \<Rightarrow> k v)"

fun res_map :: "('a \<Rightarrow> py_error + 'b) \<Rightarrow> 'a list \<Rightarrow> py_error + 'b list" where
  "res_map k [] = Inr []"
| "res_map k (x # xs) = res_bind (k x) (\<lambda>y. res_bind (res_map k xs) (\<lambda>ys. Inr (y # ys)))"

lemma res_bind_simps [simp]:
  "res_bind (Inl e) k = Inl e" "res_bind (Inr v) k = k v"
  by (simp_all add: res_bind_def)

lemma res_bind_Inr: "res_bind x k = Inr y \<longleftrightarrow> (\<exists>v. x = Inr v \<and> k v = Inr y)"
  by (cases x) auto

lemma res_map_all: "(\<And>x. x \<in> set xs \<Longrightarrow> k x = Inr (g x)) \<Longrightarrow> res_map k xs = Inr (map g xs)"
  by (induction xs) auto

lemma res_map_Inr_mem: "res_map k xs = Inr ys \<Longrightarrow> y \<in> set ys \<Longrightarrow> \<exists>x \<in> set xs. k x = Inr y"
  by (induction xs arbitrary: ys) (auto simp: res_bind_Inr)

named_theorems handler_defs \<open>definitions a handler's proofs unfold\<close>

section \<open>Bytes, indices and slices\<close>

type_synonym bytes = "8 word list"

text \<open>\<open>xs[i]\<close>: negative indices count from the end, anything else out of range raises.\<close>

definition py_index :: "'a list \<Rightarrow> int \<Rightarrow> py_error + 'a" where
  "py_index xs i =
     (let k = (if 0 \<le> i then i else i + int (length xs))
      in if k < 0 \<or> int (length xs) \<le> k then Inl IndexError else Inr (xs ! nat k))"

text \<open>\<open>xs[:e]\<close>: a negative end counts from the end of the list.\<close>

definition py_take :: "'a list \<Rightarrow> int \<Rightarrow> 'a list" where
  "py_take xs e = take (nat (if e < 0 then int (length xs) + e else e)) xs"

lemma py_index_nonneg [simp]: "i < length xs \<Longrightarrow> py_index xs (int i) = Inr (xs ! i)"
  by (simp add: py_index_def Let_def)

lemma py_index_negative: "0 < i \<Longrightarrow> i \<le> length xs \<Longrightarrow>
    py_index xs (- int i) = Inr (xs ! (length xs - i))"
  by (simp add: py_index_def Let_def nat_diff_distrib of_nat_diff [symmetric] del: of_nat_diff)

lemma py_index_in_set: "py_index xs i = Inr x \<Longrightarrow> x \<in> set xs"
  by (auto simp: py_index_def Let_def split: if_splits)

lemma py_take_minus: "p \<le> length xs \<Longrightarrow> 0 < p \<Longrightarrow> py_take xs (- int p) = take (length xs - p) xs"
proof -
  assume "p \<le> length xs" "0 < p"
  then have "nat (int (length xs) - int p) = length xs - p" by simp
  then show ?thesis using \<open>0 < p\<close> by (simp add: py_take_def)
qed

lemma unat_byte: "c < 256 \<Longrightarrow> unat (of_nat c :: 8 word) = c"
  by (simp add: unat_of_nat)

section \<open>The receive loop\<close>

text \<open>
  The loop \<open>while True: sender, msg = receive(); ...\<close> over a finite prefix of what the node
  receives: it stops at the first message whose handler returns or raises.
\<close>

fun run_loop :: "('s \<Rightarrow> 'e \<Rightarrow> ('s, 'm, 'r) reply) \<Rightarrow> 's \<Rightarrow> 'e list \<Rightarrow> ('s, 'm, 'r) reply" where
  "run_loop h s [] = (s, [], Running)"
| "run_loop h s (e # es) =
     (case h s e of (s', outs, c) \<Rightarrow>
       (case c of
          Running \<Rightarrow> (case run_loop h s' es of (s'', outs', c') \<Rightarrow> (s'', outs @ outs', c'))
        | _ \<Rightarrow> (s', outs, c)))"

text \<open>A receive loop whose handler keeps an invariant of the node's state.\<close>

locale node_invariant =
  fixes h :: "nat \<Rightarrow> 's \<Rightarrow> 'e \<Rightarrow> ('s, 'm, 'r) reply"
    and inv :: "'s \<Rightarrow> bool"
  assumes step_inv: "inv s \<Longrightarrow> h p s e = (s', outs, k) \<Longrightarrow> inv s'"
begin

lemma run_inv: "inv s \<Longrightarrow> run_loop (h p) s es = (s', outs, k) \<Longrightarrow> inv s'"
proof (induction es arbitrary: s outs)
  case Nil
  then show ?case by simp
next
  case (Cons e es)
  obtain s1 o1 c1 where h1: "h p s e = (s1, o1, c1)"
    by (cases "h p s e")
  with Cons.prems(1) have i1: "inv s1"
    by (rule step_inv)
  show ?case
    using Cons.prems(2) Cons.IH [OF i1] i1 h1
    by (auto split: ctl.splits prod.splits)
qed

lemma run_returned:
  "inv s \<Longrightarrow> run_loop (h p) s es = (s', outs, Returned v) \<Longrightarrow>
     \<exists>l e o1. inv l \<and> e \<in> set es \<and> h p l e = (s', o1, Returned v)"
proof (induction es arbitrary: s outs)
  case Nil
  then show ?case by simp
next
  case (Cons e es)
  obtain s1 o1 c1 where h1: "h p s e = (s1, o1, c1)" by (cases "h p s e")
  with Cons.prems(1) have i1: "inv s1" by (rule step_inv)
  show ?case
  proof (cases c1)
    case Running
    then obtain outs' where "run_loop (h p) s1 es = (s', outs', Returned v)"
      using Cons.prems(2) h1 by (auto split: prod.splits)
    from Cons.IH [OF i1 this] show ?thesis by auto
  next
    case (Returned w)
    then show ?thesis using Cons.prems h1 by (intro exI [of _ s] exI [of _ e] exI [of _ o1]) auto
  next
    case (Raised x)
    then show ?thesis using Cons.prems(2) h1 by simp
  qed
qed

end

lemma run_loop_append:
  "run_loop h s (xs @ ys) =
    (case run_loop h s xs of (s', outs, c) \<Rightarrow>
      (case c of
         Running \<Rightarrow> (case run_loop h s' ys of (s'', outs', c') \<Rightarrow> (s'', outs @ outs', c'))
       | _ \<Rightarrow> (s', outs, c)))"
  by (induction xs arbitrary: s) (auto split: prod.splits ctl.splits)

section \<open>Lists, maps and finite sets\<close>

lemma foldl_length: "(\<And>xs i. length (g xs i) = length xs) \<Longrightarrow> length (foldl g xs is) = length xs"
  by (induction "is" arbitrary: xs) auto

lemma map_nth_eqI: "length xs = n \<Longrightarrow> (\<And>i. i < n \<Longrightarrow> f i = xs ! i) \<Longrightarrow> map f [0..<n] = xs"
  by (rule nth_equalityI) auto

lemma below_card_le: "A \<subseteq> {..<n} \<Longrightarrow> card A \<le> n"
  using card_mono [of "{..<n}" A] by simp

lemma below_finite: "A \<subseteq> {..<n::nat} \<Longrightarrow> finite A"
  using finite_subset by blast

lemma card_diff_faulty: "finite B \<Longrightarrow> card B \<le> f \<Longrightarrow> card A \<le> card (A - B) + f"
  by (metis add_le_cancel_left diff_card_le_card_Diff le_diff_conv le_trans)

text \<open>Dictionaries built by one insertion per sender keep the insertion order of their keys.\<close>

type_synonym ('k, 'v) odict = "('k \<times> 'v) list"

fun od_set :: "'k \<Rightarrow> 'v \<Rightarrow> ('k, 'v) odict \<Rightarrow> ('k, 'v) odict" where
  "od_set k v [] = [(k, v)]"
| "od_set k v ((k', v') # d) = (if k = k' then (k, v) # d else (k', v') # od_set k v d)"

lemma od_set_keys: "fst ` set (od_set k v d) = insert k (fst ` set d)"
proof (induction d)
  case Nil
  then show ?case by simp
next
  case (Cons e d)
  then show ?case by (cases e) auto
qed

lemma od_set_distinct: "distinct (map fst d) \<Longrightarrow> distinct (map fst (od_set k v d))"
proof (induction d)
  case Nil
  then show ?case by simp
next
  case (Cons e d)
  obtain k' v' where e: "e = (k', v')" by (cases e)
  have "fst ` set (od_set k v d) = insert k (fst ` set d)" by (rule od_set_keys)
  with Cons e show ?case by auto
qed

lemma od_set_map_of: "map_of (od_set k v d) = (map_of d)(k \<mapsto> v)"
  by (induction d) (auto simp: fun_eq_iff)

lemma od_set_length: "length (od_set k v d) =
    (if k \<in> fst ` set d then length d else Suc (length d))"
proof (induction d)
  case Nil
  then show ?case by simp
next
  case (Cons e d)
  then show ?case by (cases e) auto
qed

lemma od_set_mem: "distinct (map fst d) \<Longrightarrow>
    x \<in> set (od_set k v d) \<longleftrightarrow> x = (k, v) \<or> x \<in> set d \<and> fst x \<noteq> k"
proof (induction d)
  case Nil
  then show ?case by simp
next
  case (Cons e d)
  have k: "fst e \<noteq> k \<or> (\<forall>y \<in> set d. fst y \<noteq> k)"
  proof -
    have "fst e \<notin> fst ` set d"
      using Cons.prems by simp
    then show ?thesis
      by (metis imageI)
  qed
  have ih: "x \<in> set (od_set k v d) \<longleftrightarrow> x = (k, v) \<or> x \<in> set d \<and> fst x \<noteq> k"
    using Cons by simp
  show ?case
  proof (cases "fst e = k")
    case True
    then have "set (od_set k v (e # d)) = insert (k, v) (set d)"
      by (cases e) simp
    with True k show ?thesis by auto
  next
    case False
    then have "set (od_set k v (e # d)) = insert e (set (od_set k v d))"
      by (cases e) simp
    with False ih show ?thesis by auto
  qed
qed

end
