(* ===== verification/ThreshSig.thy ===== *)
theory ThreshSig
  imports Prelude Complex_Main
begin

text \<open>
  Boldyreva's threshold signatures, \<open>src/crypto/threshsig/boldyreva.py\<close>. The exponents are a field
  \<open>'z\<close> (the scalars of the pairing group); the pairing library (charm) is a parameter, the record
  \<open>pairing\<close> with its laws \<open>pairing_ok\<close>. The core is Lagrange interpolation at 0: any \<open>k\<close> shares
  recombine to the secret.
\<close>

section \<open>Model\<close>

record ('z, 'g, 'h, 't) pairing =
  gexp :: "'g \<Rightarrow> 'z \<Rightarrow> 'g"
  gmul :: "'g \<Rightarrow> 'g \<Rightarrow> 'g"
  gone :: 'g
  hexp :: "'h \<Rightarrow> 'z \<Rightarrow> 'h"
  hgen :: 'h
  gpair :: "'g \<Rightarrow> 'h \<Rightarrow> 't"

text \<open>The loop of \<open>polynom_eval\<close>: the accumulators \<open>y\<close> and \<open>xx\<close>.\<close>

definition polynom_eval :: "'z::field \<Rightarrow> 'z list \<Rightarrow> 'z" where
  "polynom_eval x coeffs = fst (foldl (\<lambda>(y, xx) c. (y + c * xx, xx * x)) (0, 1) coeffs)"

text \<open>\<open>lagrange(S, j)\<close>: \<open>S\<close> as a list without repetition; the asserts first.\<close>

definition lagrange :: "nat \<Rightarrow> nat \<Rightarrow> nat list \<Rightarrow> nat \<Rightarrow> py_error + 'z::field" where
  "lagrange l k S j =
     (if length S = k \<and> (\<forall>i \<in> set S. i < l) \<and> j \<in> set S then
        (let others = filter (\<lambda>jj. jj \<noteq> j) (sort S);
             num = foldl (*) 1 (map (\<lambda>jj. 0 - of_nat jj - 1) others);
             den = foldl (*) 1 (map (\<lambda>jj. of_nat j - of_nat jj) others)
         in Inr (num / den))
      else Inl AssertionError)"

record ('h) tbls_key =
  tl :: nat
  tk :: nat
  tVK :: 'h
  tVKs :: "'h list"

definition verify_share ::
    "('z, 'g, 'h, 't, 'y) pairing_scheme \<Rightarrow> 'h tbls_key \<Rightarrow> 'g \<Rightarrow> nat \<Rightarrow> 'g \<Rightarrow> py_error + bool" where
  "verify_share P PK sig i h =
     (if \<not> i < tl PK then Inl AssertionError
      else res_bind (py_index (tVKs PK) (int i)) (\<lambda>B.
        if gpair P sig (hgen P) = gpair P h B then Inr True else Inl AssertionError))"

definition verify_signature ::
    "('z, 'g, 'h, 't, 'y) pairing_scheme \<Rightarrow> 'h tbls_key \<Rightarrow> 'g \<Rightarrow> 'g \<Rightarrow> py_error + bool" where
  "verify_signature P PK sig h =
     (if gpair P sig (hgen P) = gpair P h (tVK PK) then Inr True else Inl AssertionError)"

text \<open>\<open>combine_shares\<close> over a dictionary from indices to shares.\<close>

definition combine_shares ::
    "('z::field, 'g, 'h, 't, 'y) pairing_scheme \<Rightarrow> 'h tbls_key \<Rightarrow> (nat, 'g) odict \<Rightarrow> py_error + 'g" where
  "combine_shares P PK sigs =
     (if \<forall>i \<in> set (map fst sigs). i < tl PK then
        res_bind (res_map (\<lambda>(j, sig).
            res_bind (lagrange (tl PK) (tk PK) (map fst sigs) j) (\<lambda>c. Inr (gexp P sig c))) sigs)
          (\<lambda>terms. Inr (foldl (gmul P) (gone P) terms))
      else Inl AssertionError)"

definition tsign :: "('z, 'g, 'h, 't, 'y) pairing_scheme \<Rightarrow> 'z \<Rightarrow> 'g \<Rightarrow> 'g" where
  "tsign P SK h = gexp P h SK"

text \<open>
  \<open>dealer\<close> with the random coefficients as an argument; the two asserts that check the polynomial at
  0 and the reconstruction from the shares \<open>0..k-1\<close> are part of it.
\<close>

definition dealer ::
    "('z::field, 'g, 'h, 't, 'y) pairing_scheme \<Rightarrow> nat \<Rightarrow> nat \<Rightarrow> 'z list \<Rightarrow> py_error + 'h tbls_key \<times> 'z list" where
  "dealer P players k a =
     (if length a \<noteq> k then Inl AssertionError
      else res_bind (py_index a 0) (\<lambda>secret.
        let SKs = map (\<lambda>i. polynom_eval (of_nat i) a) [1..<players + 1];
            PK = \<lparr>tl = players, tk = k, tVK = hexp P (hgen P) secret, tVKs = map (hexp P (hgen P)) SKs\<rparr>
        in if polynom_eval 0 a \<noteq> secret then Inl AssertionError
           else res_bind (res_map (\<lambda>j. res_bind (lagrange players k [0..<k] j) (\<lambda>c.
                    Inr (c * polynom_eval (of_nat (j + 1)) a))) [0..<k]) (\<lambda>terms.
             if polynom_eval 0 a = sum_list terms then Inr (PK, SKs) else Inl AssertionError)))"

text \<open>The laws of the pairing library.\<close>

definition pairing_ok :: "('z::field, 'g, 'h, 't, 'y) pairing_scheme \<Rightarrow> bool" where
  "pairing_ok P \<longleftrightarrow>
     (\<forall>g. gexp P g 0 = gone P) \<and>
     (\<forall>g a b. gmul P (gexp P g a) (gexp P g b) = gexp P g (a + b)) \<and>
     (\<forall>g a b. gexp P (gexp P g a) b = gexp P g (a * b)) \<and>
     (\<forall>g a. gpair P (gexp P g a) (hgen P) = gpair P g (hexp P (hgen P) a)) \<and>
     (\<forall>g g'. gpair P g (hgen P) = gpair P g' (hgen P) \<longrightarrow> g = g')"

lemma pairing_okD:
  assumes "pairing_ok P"
  shows "gexp P g 0 = gone P" and "gmul P (gexp P g a) (gexp P g b) = gexp P g (a + b)"
    and "gexp P (gexp P g a) b = gexp P g (a * b)"
    and "gpair P (gexp P g a) (hgen P) = gpair P g (hexp P (hgen P) a)"
    and "gpair P g (hgen P) = gpair P g' (hgen P) \<Longrightarrow> g = g'"
  using assms unfolding pairing_ok_def by blast+

section \<open>Interpolation\<close>

lemma polynom_eval_sum: "polynom_eval x a = (\<Sum>i<length a. a ! i * x ^ i)"
proof -
  have "foldl (\<lambda>(y, xx) c. (y + c * xx, xx * x)) (y0, x ^ n) cs =
      (y0 + (\<Sum>i<length cs. cs ! i * x ^ (n + i)), x ^ (n + length cs))" for y0 n and cs :: "'a list"
  proof (induction cs arbitrary: y0 n)
    case Nil
    then show ?case by simp
  next
    case (Cons c cs)
    have "foldl (\<lambda>(y, xx) c. (y + c * xx, xx * x)) (y0, x ^ n) (c # cs) =
        foldl (\<lambda>(y, xx) c. (y + c * xx, xx * x)) (y0 + c * x ^ n, x ^ Suc n) cs"
      by (simp add: mult.commute)
    then have "foldl (\<lambda>(y, xx) c. (y + c * xx, xx * x)) (y0, x ^ n) (c # cs) =
        (y0 + c * x ^ n + (\<Sum>i<length cs. cs ! i * x ^ (Suc n + i)), x ^ (Suc n + length cs))"
      by (simp only: Cons.IH)
    moreover have "(\<Sum>i<length (c # cs). (c # cs) ! i * x ^ (n + i)) =
        c * x ^ n + (\<Sum>i<length cs. cs ! i * x ^ (Suc n + i))"
      by (simp add: sum.lessThan_Suc_shift del: sum.lessThan_Suc)
    ultimately show ?case by (simp add: algebra_simps)
  qed
  from this [of 0 0 a] show ?thesis by (simp add: polynom_eval_def)
qed

definition basis :: "'z::field set \<Rightarrow> 'z \<Rightarrow> 'z \<Rightarrow> 'z" where
  "basis X x u = (\<Prod>v \<in> X - {u}. (x - v) / (u - v))"

lemma basis_remove:
  assumes "finite X" and "w \<in> X" and "u \<in> X" and "u \<noteq> w"
  shows "(u - w) * basis X x u = (x - w) * basis (X - {w}) x u"
proof -
  have "X - {u} = insert w (X - {w} - {u})" using assms by auto
  then have "basis X x u = (x - w) / (u - w) * basis (X - {w}) x u"
    using assms by (simp add: basis_def)
  then show ?thesis using assms(4) by simp
qed

lemma basis_shift:
  assumes "finite X" and "w \<in> X"
  shows "(\<Sum>u \<in> X. f u * ((u - w) * basis X x u)) = (x - w) * (\<Sum>u \<in> X - {w}. f u * basis (X - {w}) x u)"
proof -
  have "(\<Sum>u \<in> X. f u * ((u - w) * basis X x u)) = (\<Sum>u \<in> X - {w}. f u * ((u - w) * basis X x u))"
    using assms by (simp add: sum.remove [OF assms])
  also have "\<dots> = (\<Sum>u \<in> X - {w}. f u * ((x - w) * basis (X - {w}) x u))"
    using basis_remove [OF assms] by (intro sum.cong) auto
  also have "\<dots> = (x - w) * (\<Sum>u \<in> X - {w}. f u * basis (X - {w}) x u)"
    by (simp add: sum_distrib_left algebra_simps)
  finally show ?thesis .
qed

lemma interpolate_power:
  "finite X \<Longrightarrow> m < card X \<Longrightarrow> (\<Sum>u \<in> X. u ^ m * basis X x u) = x ^ m"
proof (induction "card X" arbitrary: X m rule: less_induct)
  case less
  have IH: "(\<Sum>u \<in> X - {w}. u ^ i * basis (X - {w}) x u) = x ^ i" if "w \<in> X" "i + 1 < card X" for w i
    using less.hyps [of "X - {w}" i] less.prems(1) that by simp
  show ?case
  proof (cases "card X = 1")
    case True
    then obtain w where "X = {w}" by (auto simp: card_1_singleton_iff)
    then show ?thesis using less.prems(2) by (simp add: basis_def)
  next
    case False
    then have "2 \<le> card X" using less.prems(2) by linarith
    then obtain w z where wz: "w \<in> X" "z \<in> X" "w \<noteq> z"
      by (meson card_2_iff' obtain_subset_with_card_n subsetD)
    have zero: "(\<Sum>u \<in> X. u ^ 0 * basis X x u) = 1"
    proof -
      have "(z - w) * (\<Sum>u \<in> X. basis X x u) =
          (\<Sum>u \<in> X. 1 * ((u - w) * basis X x u)) - (\<Sum>u \<in> X. 1 * ((u - z) * basis X x u))"
        by (simp add: sum_subtractf [symmetric] sum_distrib_left algebra_simps)
      also have "\<dots> = (x - w) * (\<Sum>u \<in> X - {w}. 1 * basis (X - {w}) x u) -
          (x - z) * (\<Sum>u \<in> X - {z}. 1 * basis (X - {z}) x u)"
        by (simp only: basis_shift [OF less.prems(1) wz(1)] basis_shift [OF less.prems(1) wz(2)])
      also have "\<dots> = (x - w) - (x - z)"
        using IH [OF wz(1), of 0] IH [OF wz(2), of 0] \<open>2 \<le> card X\<close> by simp
      finally have "(z - w) * (\<Sum>u \<in> X. basis X x u) = (z - w) * 1" by simp
      then show ?thesis using wz(3) by (simp del: mult_1_right)
    qed
    show ?thesis
      using less.prems(2)
    proof (induction m)
      case 0
      then show ?case using zero by simp
    next
      case (Suc m)
      have "(\<Sum>u \<in> X. u ^ Suc m * basis X x u) =
          (\<Sum>u \<in> X. u ^ m * ((u - w) * basis X x u)) + w * (\<Sum>u \<in> X. u ^ m * basis X x u)"
        by (simp add: sum.distrib [symmetric] sum_distrib_left algebra_simps)
      also have "\<dots> = (x - w) * x ^ m + w * x ^ m"
        using basis_shift [OF less.prems(1) wz(1), of "\<lambda>u. u ^ m" x] IH [OF wz(1), of m] Suc by simp
      finally show ?case by (simp add: algebra_simps)
    qed
  qed
qed

lemma interpolate:
  assumes "finite X" and "length a \<le> card X"
  shows "(\<Sum>u \<in> X. polynom_eval u a * basis X x u) = polynom_eval x a"
proof -
  have "(\<Sum>u \<in> X. polynom_eval u a * basis X x u) =
      (\<Sum>u \<in> X. \<Sum>i<length a. a ! i * (u ^ i * basis X x u))"
    by (simp add: polynom_eval_sum sum_distrib_right mult.assoc)
  also have "\<dots> = (\<Sum>i<length a. a ! i * (\<Sum>u \<in> X. u ^ i * basis X x u))"
    by (subst sum.swap) (simp add: sum_distrib_left)
  also have "\<dots> = (\<Sum>i<length a. a ! i * x ^ i)"
    using interpolate_power [OF assms(1)] assms(2) by simp
  finally show ?thesis by (simp add: polynom_eval_sum)
qed

section \<open>Shares\<close>

definition point :: "nat \<Rightarrow> 'z::field" where
  "point j = of_nat j + 1"

lemma foldl_prod: "foldl (*) c (map f xs) = c * prod_list (map f xs)" for f :: "'a \<Rightarrow> 'z::field"
  by (induction xs arbitrary: c) (auto simp: mult.assoc)

lemma prod_list_others:
  "distinct S \<Longrightarrow> prod_list (map f (filter (\<lambda>jj. jj \<noteq> j) (sort S))) = (\<Prod>jj \<in> set S - {j}. f jj)"
  for f :: "nat \<Rightarrow> 'z::field"
proof -
  assume "distinct S"
  then have "distinct (filter (\<lambda>jj. jj \<noteq> j) (sort S))" by simp
  then have "prod_list (map f (filter (\<lambda>jj. jj \<noteq> j) (sort S))) =
      (\<Prod>jj \<in> set (filter (\<lambda>jj. jj \<noteq> j) (sort S)). f jj)"
    by (simp only: prod.distinct_set_conv_list)
  moreover have "set (filter (\<lambda>jj. jj \<noteq> j) (sort S)) = set S - {j}" by auto
  ultimately show ?thesis by simp
qed

lemma lagrange_basis:
  assumes "distinct S" and "length S = k" and "\<forall>i \<in> set S. i < l" and "j \<in> set S"
    and "inj_on (point :: nat \<Rightarrow> 'z) (set S)"
  shows "lagrange l k S j = Inr (basis (point ` set S) 0 (point j :: 'z::field))"
proof -
  have "point ` set S - {point j} = (point ` (set S - {j}) :: 'z set)"
    using assms(4) inj_on_image_set_diff [OF assms(5), of "set S" "{j}"] by (simp add: insert_absorb)
  moreover have "inj_on (point :: nat \<Rightarrow> 'z) (set S - {j})"
    using assms(5) by (rule inj_on_subset) auto
  ultimately have "basis (point ` set S) 0 (point j :: 'z) =
      (\<Prod>jj \<in> set S - {j}. (0 - point jj) / (point j - point jj))"
    by (simp add: basis_def prod.reindex)
  also have "\<dots> = (\<Prod>jj \<in> set S - {j}. 0 - of_nat jj - 1) / (\<Prod>jj \<in> set S - {j}. of_nat j - of_nat jj)"
    by (simp add: prod_dividef point_def diff_diff_eq del: prod_dividef [symmetric])
  finally show ?thesis
    using assms(1-4) by (auto simp: lagrange_def Let_def foldl_prod prod_list_others)
qed

lemma secret_from_shares:
  assumes "distinct S" and "length S = k" and "\<forall>i \<in> set S. i < l" and "length a = k"
    and "inj_on (point :: nat \<Rightarrow> 'z::field) (set S)"
  shows "(\<Sum>j \<in> set S. polynom_eval (point j) a * basis (point ` set S) 0 (point j)) = polynom_eval (0::'z) a"
proof -
  have "card (point ` set S :: 'z set) = k"
    using assms(1,2,5) by (simp add: card_image distinct_card)
  then have "(\<Sum>u \<in> point ` set S. polynom_eval u a * basis (point ` set S) 0 u) = polynom_eval (0::'z) a"
    by (intro interpolate) (simp_all add: assms(4))
  then show ?thesis using assms(5) by (simp add: sum.reindex)
qed

lemma combine_exponents:
  assumes "pairing_ok P"
  shows "foldl (gmul P) (gexp P h e) (map (\<lambda>j. gexp P h (c j)) xs) = gexp P h (e + sum_list (map c xs))"
  by (induction xs arbitrary: e) (simp_all add: pairing_okD [OF assms] add.assoc)

lemma combine_genuine:
  fixes P :: "('z::field, 'g, 'h, 't, 'y) pairing_scheme"
  assumes "pairing_ok P" and "distinct (map fst sigs)" and "length sigs = tk PK"
    and "\<forall>(j, sig) \<in> set sigs. j < tl PK \<and> sig = gexp P h (polynom_eval (point j) a)"
    and "length a = tk PK" and "inj_on (point :: nat \<Rightarrow> 'z) {..<tl PK}"
  shows "combine_shares P PK sigs = Inr (gexp P h (polynom_eval 0 a))"
proof -
  let ?S = "map fst sigs"
  let ?c = "\<lambda>j. basis (point ` set ?S) 0 (point j :: 'z)"
  let ?sh = "\<lambda>j. polynom_eval (point j :: 'z) a * ?c j"
  have S: "distinct ?S" "length ?S = tk PK" "\<forall>i \<in> set ?S. i < tl PK"
    using assms(2-4) by auto
  then have inj: "inj_on (point :: nat \<Rightarrow> 'z) (set ?S)"
    using assms(6) by (rule_tac inj_on_subset) auto
  have "res_map (\<lambda>(j, sig). res_bind (lagrange (tl PK) (tk PK) ?S j) (\<lambda>c. Inr (gexp P sig c))) sigs =
      Inr (map (\<lambda>e. gexp P h (?sh (fst e))) sigs)"
  proof (rule res_map_all)
    fix e assume e: "e \<in> set sigs"
    then have "fst e \<in> set ?S" by simp
    from lagrange_basis [OF S this inj]
    have l: "lagrange (tl PK) (tk PK) ?S (fst e) = Inr (?c (fst e))" .
    have "snd e = gexp P h (polynom_eval (point (fst e)) a)" using e assms(4) by auto
    then show "(\<lambda>(j, sig). res_bind (lagrange (tl PK) (tk PK) ?S j) (\<lambda>c. Inr (gexp P sig c))) e =
        Inr (gexp P h (?sh (fst e)))"
      by (simp add: case_prod_unfold l pairing_okD [OF assms(1)])
  qed
  moreover have "foldl (gmul P) (gone P) (map (\<lambda>j. gexp P h (?sh j)) ?S) = gexp P h (0 + sum_list (map ?sh ?S))"
    using combine_exponents [OF assms(1), of h 0 ?sh ?S] pairing_okD(1) [OF assms(1)] by metis
  moreover have "sum_list (map ?sh ?S) = polynom_eval 0 a"
    using secret_from_shares [OF S assms(5) inj] S(1) by (simp only: sum.distinct_set_conv_list)
  ultimately show ?thesis using S(3) by (simp add: combine_shares_def comp_def)
qed

section \<open>The dealer and its keys\<close>

text \<open>The key pair of a dealer with the polynomial \<open>a\<close>.\<close>

definition key_of ::
    "('z::field, 'g, 'h, 't, 'y) pairing_scheme \<Rightarrow> nat \<Rightarrow> nat \<Rightarrow> 'z list \<Rightarrow> 'h tbls_key \<times> 'z list" where
  "key_of P l k a =
     (\<lparr>tl = l, tk = k, tVK = hexp P (hgen P) (polynom_eval 0 a),
       tVKs = map (\<lambda>i. hexp P (hgen P) (polynom_eval (point i) a)) [0..<l]\<rparr>,
      map (\<lambda>i. polynom_eval (point i) a) [0..<l])"

lemma polynom_eval_0: "a \<noteq> [] \<Longrightarrow> polynom_eval 0 a = a ! 0"
  by (cases a) (simp_all add: polynom_eval_sum sum.lessThan_Suc_shift del: sum.lessThan_Suc)

lemma shares_points: "map (\<lambda>i. polynom_eval (of_nat i) a) [1..<n + 1] = map (\<lambda>i. polynom_eval (point i) a) [0..<n]"
  by (induction n) (auto simp: point_def add.commute)

lemma dealer_key_of: "dealer P l k a = Inr (PK, SKs) \<Longrightarrow> (PK, SKs) = key_of P l k a"
  unfolding dealer_def key_of_def Let_def shares_points
  by (auto simp: res_bind_Inr comp_def split: if_splits)

lemma dealer_total:
  fixes P :: "('z::field, 'g, 'h, 't, 'y) pairing_scheme"
  assumes "length a = k" and "0 < k" and "k \<le> l" and "inj_on (point :: nat \<Rightarrow> 'z) {..<l}"
  shows "dealer P l k a = Inr (key_of P l k a)"
proof -
  let ?S = "[0..<k]"
  let ?c = "\<lambda>j. basis (point ` set ?S) 0 (point j :: 'z)"
  have S: "distinct ?S" "length ?S = k" "\<forall>i \<in> set ?S. i < l" using assms(3) by auto
  have inj: "inj_on (point :: nat \<Rightarrow> 'z) (set ?S)"
    using assms(3) by (intro inj_on_subset [OF assms(4)]) auto
  have terms: "res_map (\<lambda>j. res_bind (lagrange l k ?S j) (\<lambda>c. Inr (c * polynom_eval (of_nat (j + 1)) a))) ?S =
      Inr (map (\<lambda>j. polynom_eval (point j) a * ?c j) ?S)"
    by (rule res_map_all)
      (simp only: lagrange_basis [OF S _ inj] res_bind_simps, simp add: point_def mult.commute add.commute)
  have sum: "sum_list (map (\<lambda>j. polynom_eval (point j) a * ?c j) ?S) = polynom_eval 0 a"
    using secret_from_shares [OF S assms(1) inj] S(1) by (simp only: sum.distinct_set_conv_list)
  have "a \<noteq> []" using assms(1,2) by auto
  then have "py_index a 0 = Inr (polynom_eval 0 a)"
    using py_index_nonneg [of 0 a] polynom_eval_0 [of a] by simp
  then show ?thesis
    using assms(1) unfolding dealer_def key_of_def Let_def shares_points terms
    by (simp only: res_bind_simps sum [symmetric] if_True) (simp add: sum comp_def)
qed

lemma verified_share_genuine:
  assumes "pairing_ok P" and "verify_share P (fst (key_of P l k a)) sig i h = Inr True"
  shows "i < l" and "sig = gexp P h (polynom_eval (point i) a)"
proof -
  show i: "i < l" using assms(2) by (auto simp: verify_share_def key_of_def split: if_splits)
  with assms(2) have "gpair P sig (hgen P) = gpair P h (hexp P (hgen P) (polynom_eval (point i) a))"
    by (auto simp: verify_share_def key_of_def res_bind_Inr split: if_splits)
  then show "sig = gexp P h (polynom_eval (point i) a)"
    using pairing_okD(4,5) [OF assms(1)] by metis
qed

lemma verify_share_genuine:
  assumes "pairing_ok P" and "i < l"
  shows "verify_share P (fst (key_of P l k a)) (tsign P (snd (key_of P l k a) ! i) h) i h = Inr True"
  using assms(2) by (simp add: verify_share_def key_of_def tsign_def pairing_okD(4) [OF assms(1)])

lemma threshold_signature_aux:
  fixes P :: "('z::field, 'g, 'h, 't, 'y) pairing_scheme"
  assumes "pairing_ok P" and "inj_on (point :: nat \<Rightarrow> 'z) {..<l}"
    and "dealer P l k a = Inr (PK, SKs)"
    and "distinct (map fst sigs)" and "length sigs = k"
    and "\<forall>(i, sig) \<in> set sigs. verify_share P PK sig i h = Inr True"
  shows "combine_shares P PK sigs = Inr (tsign P (polynom_eval 0 a) h) \<and>
    verify_signature P PK (tsign P (polynom_eval 0 a) h) h = Inr True"
proof -
  have key: "PK = fst (key_of P l k a)" using dealer_key_of [OF assms(3)] by (metis fst_conv)
  have a: "length a = k" using assms(3) by (auto simp: dealer_def split: if_splits)
  have g: "\<forall>(j, sig) \<in> set sigs. j < l \<and> sig = gexp P h (polynom_eval (point j) a)"
    using assms(6) verified_share_genuine [OF assms(1)] unfolding key by blast
  have "tl PK = l" "tk PK = k" "tVK PK = hexp P (hgen P) (polynom_eval 0 a)"
    by (simp_all add: key key_of_def)
  then show ?thesis
    using combine_genuine [OF assms(1,4), of PK h a] g a assms(2,5)
    by (simp add: tsign_def verify_signature_def pairing_okD(4) [OF assms(1)])
qed

section \<open>Properties\<close>

text \<open>
  C12: Threshold signatures are complete and unique. For keys that the dealer made, any \<open>k\<close> shares of
  different members that pass \<open>verify_share\<close> combine to one signature, the message raised to the
  dealer's secret, and this signature passes \<open>verify_signature\<close>. No assert of \<open>combine_shares\<close> or
  \<open>lagrange\<close> fails on the way.
\<close>

theorem threshold_signature:
  fixes P :: "('z::field, 'g, 'h, 't, 'y) pairing_scheme"
  assumes "pairing_ok P" and "inj_on (point :: nat \<Rightarrow> 'z) {..<l}"
    and "dealer P l k a = Inr (PK, SKs)"
    and "distinct (map fst sigs)" and "length sigs = k"
    and "\<forall>(i, sig) \<in> set sigs. verify_share P PK sig i h = Inr True"
  shows "combine_shares P PK sigs = Inr (tsign P (polynom_eval 0 a) h) \<and>
    verify_signature P PK (tsign P (polynom_eval 0 a) h) h = Inr True"
  using assms by (rule threshold_signature_aux)

section \<open>Witnesses\<close>

text \<open>The additive group of the rationals: exponentiation and the pairing are multiplication.\<close>

definition ex_pairing :: "(rat, rat, rat, rat) pairing" where
  "ex_pairing = \<lparr>gexp = (*), gmul = (+), gone = 0, hexp = (*), hgen = 1, gpair = (*)\<rparr>"

lemma ex_pairing_ok: "pairing_ok ex_pairing"
  by (simp add: pairing_ok_def ex_pairing_def algebra_simps)

lemma point_rat_inj: "inj_on (point :: nat \<Rightarrow> rat) S"
  by (simp add: inj_on_def point_def)

lemma ex_dealer: "dealer ex_pairing 3 2 [5, 2] =
    Inr (fst (key_of ex_pairing 3 2 [5, 2]), snd (key_of ex_pairing 3 2 [5, 2]))"
  using dealer_total [of "[5, 2]" 2 3 ex_pairing, OF _ _ _ point_rat_inj] by simp

lemma ex_shares:
  "\<forall>(i, sig) \<in> set [(2, 33), (0, 21)]. verify_share ex_pairing (fst (key_of ex_pairing 3 2 [5, 2])) sig i 3 = Inr True"
  by (simp add: verify_share_def key_of_def py_index_def Let_def nth_append polynom_eval_def point_def
      ex_pairing_def upt_rec numeral_2_eq_2 [symmetric])

theorem threshold_signature_witness:
  "combine_shares ex_pairing (fst (key_of ex_pairing 3 2 [5, 2])) [(2, 33), (0, 21)] = Inr 15 \<and>
   verify_signature ex_pairing (fst (key_of ex_pairing 3 2 [5, 2])) 15 3 = Inr True"
  using threshold_signature [OF ex_pairing_ok point_rat_inj ex_dealer _ _ ex_shares]
  by (simp add: tsign_def polynom_eval_def ex_pairing_def)

end
