(* ===== verification/TPKE.thy ===== *)
theory TPKE
  imports ThreshSig
begin

text \<open>
  Threshold encryption after Baek and Zheng, \<open>src/crypto/threshenc/tpke.py\<close>, and the padding of its
  symmetric cipher. The pairing group here is symmetric, \<open>g1 = g2\<close>, so both groups of the record
  \<open>pairing\<close> are one type. SHA-256, the hash into the group and AES are parameters; random values are
  arguments.
\<close>

section \<open>Model\<close>

record ('z, 'g, 't) tpke_env =
  eP :: "('z, 'g, 'g, 't) pairing"
  eHashG :: "'g \<Rightarrow> bytes"
  eHashH :: "'g \<Rightarrow> bytes \<Rightarrow> 'g"
  eAes :: "bytes \<Rightarrow> bytes \<Rightarrow> bytes \<Rightarrow> bytes"
  eAesInv :: "bytes \<Rightarrow> bytes \<Rightarrow> bytes \<Rightarrow> bytes"

unbundle bit_operations_syntax

definition xor_bytes :: "bytes \<Rightarrow> bytes \<Rightarrow> py_error + bytes" where
  "xor_bytes x y =
     (if length x = length y \<and> length y = 32 then Inr (map (\<lambda>(a, b). a XOR b) (zip x y)) else Inl AssertionError)"

definition hashH :: "('z, 'g, 't) tpke_env \<Rightarrow> 'g \<Rightarrow> bytes \<Rightarrow> py_error + 'g" where
  "hashH E g x = (if length x = 32 then Inr (eHashH E g x) else Inl AssertionError)"

definition tpke_lagrange :: "nat \<Rightarrow> nat \<Rightarrow> nat list \<Rightarrow> nat \<Rightarrow> py_error + 'z::field" where
  "tpke_lagrange l k S j =
     (if length S = k \<and> (\<forall>i \<in> set S. i < l) \<and> j \<in> set S then
        (let others = filter (\<lambda>jj. jj \<noteq> j) (sort S);
             num = foldl (*) 1 (map (\<lambda>jj. 0 - of_nat jj - 1) others);
             den = foldl (*) 1 (map (\<lambda>jj. of_nat j - of_nat jj) others)
         in Inr (num / den))
      else Inl AssertionError)"

text \<open>\<open>encrypt(m)\<close> with the random exponent \<open>r\<close>: the ciphertext \<open>(U, V, W)\<close>.\<close>

definition tpke_encrypt ::
    "('z, 'g, 't) tpke_env \<Rightarrow> 'g tbls_key \<Rightarrow> 'z \<Rightarrow> bytes \<Rightarrow> py_error + 'g \<times> bytes \<times> 'g" where
  "tpke_encrypt E PK r m =
     (if length m \<noteq> 32 then Inl AssertionError
      else let U = gexp (eP E) (hgen (eP E)) r in
        res_bind (xor_bytes m (eHashG E (gexp (eP E) (tVK PK) r))) (\<lambda>V.
        res_bind (hashH E U V) (\<lambda>H. Inr (U, V, gexp (eP E) H r))))"

definition verify_ciphertext :: "('z, 'g, 't) tpke_env \<Rightarrow> 'g \<Rightarrow> bytes \<Rightarrow> 'g \<Rightarrow> py_error + bool" where
  "verify_ciphertext E U V W =
     res_bind (hashH E U V) (\<lambda>H.
       if gpair (eP E) (hgen (eP E)) W = gpair (eP E) U H then Inr True else Inl AssertionError)"

definition tpke_verify_share ::
    "('z, 'g, 't) tpke_env \<Rightarrow> 'g tbls_key \<Rightarrow> nat \<Rightarrow> 'g \<Rightarrow> 'g \<Rightarrow> py_error + bool" where
  "tpke_verify_share E PK i Ui U =
     (if \<not> i < tl PK then Inl AssertionError
      else res_bind (py_index (tVKs PK) (int i)) (\<lambda>Y.
        if gpair (eP E) Ui (hgen (eP E)) = gpair (eP E) U Y then Inr True else Inl AssertionError))"

definition tpke_combine_shares ::
    "('z::field, 'g, 't) tpke_env \<Rightarrow> 'g tbls_key \<Rightarrow> 'g \<Rightarrow> bytes \<Rightarrow> 'g \<Rightarrow> (nat, 'g) odict \<Rightarrow> py_error + bytes" where
  "tpke_combine_shares E PK U V W shares =
     (if \<forall>i \<in> set (map fst shares). i < tl PK then
        res_bind (res_map (\<lambda>(j, share). tpke_verify_share E PK j share U) shares) (\<lambda>_.
        res_bind (res_map (\<lambda>(j, share).
            res_bind (tpke_lagrange (tl PK) (tk PK) (map fst shares) j) (\<lambda>c. Inr (gexp (eP E) share c))) shares) (\<lambda>terms.
        xor_bytes (eHashG E (foldl (gmul (eP E)) (gone (eP E)) terms)) V))
      else Inl AssertionError)"

definition decrypt_share ::
    "('z, 'g, 't) tpke_env \<Rightarrow> 'z \<Rightarrow> 'g \<Rightarrow> bytes \<Rightarrow> 'g \<Rightarrow> py_error + 'g" where
  "decrypt_share E SK U V W =
     res_bind (verify_ciphertext E U V W) (\<lambda>ok. if ok then Inr (gexp (eP E) U SK) else Inl AssertionError)"

text \<open>\<open>dealer\<close>: the secret, and the random source for the other coefficients.\<close>

definition tpke_coeffs :: "nat \<Rightarrow> 'z \<Rightarrow> (nat \<Rightarrow> 'z) \<Rightarrow> 'z list" where
  "tpke_coeffs k secret rnd = secret # map rnd [1..<k]"

definition tpke_dealer ::
    "('z::field, 'g, 't) tpke_env \<Rightarrow> nat \<Rightarrow> nat \<Rightarrow> 'z \<Rightarrow> (nat \<Rightarrow> 'z) \<Rightarrow> py_error + 'g tbls_key \<times> 'z list" where
  "tpke_dealer E players k secret rnd =
     (let a = tpke_coeffs k secret rnd in
      if length a \<noteq> k then Inl AssertionError
      else let SKs = map (\<lambda>i. polynom_eval (of_nat i) a) [1..<players + 1];
               PK = \<lparr>tl = players, tk = k, tVK = gexp (eP E) (hgen (eP E)) secret,
                     tVKs = map (gexp (eP E) (hgen (eP E))) SKs\<rparr>
        in if polynom_eval 0 a \<noteq> secret then Inl AssertionError
           else res_bind (res_map (\<lambda>j. res_bind (tpke_lagrange players k [0..<k] j) (\<lambda>c.
                    Inr (c * polynom_eval (of_nat (j + 1)) a))) [0..<k]) (\<lambda>terms.
             if polynom_eval 0 a = sum_list terms then Inr (PK, SKs) else Inl AssertionError))"

text \<open>The symmetric part: \<open>pad\<close> and \<open>unpad\<close> to blocks of 16, and CBC mode with the vector in front.\<close>

definition tpke_pad :: "bytes \<Rightarrow> bytes" where
  "tpke_pad s = s @ replicate (16 - length s mod 16) (of_nat (16 - length s mod 16))"

definition tpke_unpad :: "bytes \<Rightarrow> py_error + bytes" where
  "tpke_unpad s = (case rev s of [] \<Rightarrow> Inl TypeError | c # _ \<Rightarrow> Inr (py_take s (- int (unat c))))"

definition aes_encrypt :: "('z, 'g, 't) tpke_env \<Rightarrow> bytes \<Rightarrow> bytes \<Rightarrow> bytes \<Rightarrow> py_error + bytes" where
  "aes_encrypt E iv key raw =
     (if length key = 32 then Inr (iv @ eAes E key iv (tpke_pad raw)) else Inl AssertionError)"

definition aes_decrypt :: "('z, 'g, 't) tpke_env \<Rightarrow> bytes \<Rightarrow> bytes \<Rightarrow> py_error + bytes" where
  "aes_decrypt E key enc = tpke_unpad (eAesInv E key (take 16 enc) (drop 16 enc))"

text \<open>What is assumed of the parameters.\<close>

definition tpke_ok :: "('z::field, 'g, 't) tpke_env \<Rightarrow> bool" where
  "tpke_ok E \<longleftrightarrow>
     pairing_ok (eP E) \<and> hexp (eP E) = gexp (eP E) \<and>
     (\<forall>g h r. gpair (eP E) g (gexp (eP E) h r) = gpair (eP E) (gexp (eP E) g r) h) \<and>
     (\<forall>g. length (eHashG E g) = 32)"

definition aes_ok :: "('z, 'g, 't) tpke_env \<Rightarrow> bool" where
  "aes_ok E \<longleftrightarrow>
     (\<forall>key iv m. length key = 32 \<longrightarrow> length iv = 16 \<longrightarrow> length m mod 16 = 0 \<longrightarrow>
        eAesInv E key iv (eAes E key iv m) = m)"

section \<open>The symmetric part\<close>

lemma pad_blocks: "length (tpke_pad s) mod 16 = 0"
proof -
  define q where "q = length s div 16"
  define r where "r = length s mod 16"
  have "r < 16" "length s = r + 16 * q" by (simp_all add: q_def r_def)
  then have "length s + (16 - r) = 16 * (q + 1)" by simp
  then have "length s + (16 - length s mod 16) = 16 * (q + 1)" by (simp add: r_def)
  then show ?thesis by (simp add: tpke_pad_def)
qed

lemma tpke_unpad_pad: "tpke_unpad (tpke_pad s) = Inr s"
proof -
  let ?n = "16 - length s mod 16"
  have n: "0 < ?n" "?n \<le> 16" by simp_all
  obtain k where k: "?n = Suc k" using n(1) by (cases ?n) auto
  have "replicate ?n (of_nat ?n :: 8 word) = replicate k (of_nat ?n) @ [of_nat ?n]"
    by (subst k) (simp add: replicate_append_same)
  then have "rev (tpke_pad s) = of_nat ?n # rev (s @ replicate k (of_nat ?n))"
    by (simp add: tpke_pad_def del: of_nat_diff)
  then have "tpke_unpad (tpke_pad s) = Inr (py_take (tpke_pad s) (- int (unat (of_nat ?n :: 8 word))))"
    by (simp add: tpke_unpad_def)
  moreover have "unat (of_nat ?n :: 8 word) = ?n"
    by (rule unat_byte) (use n in linarith)
  moreover have "py_take (tpke_pad s) (- int ?n) = s"
    using py_take_minus [of ?n "tpke_pad s"] n by (simp add: tpke_pad_def)
  ultimately show ?thesis by metis
qed

lemma aes_round_trip_aux:
  assumes "aes_ok E" and "length iv = 16" and "aes_encrypt E iv key raw = Inr enc"
  shows "aes_decrypt E key enc = Inr raw"
proof -
  have enc: "length key = 32" "enc = iv @ eAes E key iv (tpke_pad raw)"
    using assms(3) by (auto simp: aes_encrypt_def split: if_splits)
  then have "eAesInv E key (take 16 enc) (drop 16 enc) = tpke_pad raw"
    using assms(1,2) pad_blocks by (simp add: aes_ok_def)
  then show ?thesis by (simp add: aes_decrypt_def tpke_unpad_pad)
qed

section \<open>Decryption\<close>

lemma tpke_lagrange_eq: "tpke_lagrange = lagrange"
  by (intro ext) (simp add: tpke_lagrange_def lagrange_def)

lemma tpke_verify_share_eq: "tpke_verify_share E PK i Ui U = verify_share (eP E) PK Ui i U"
  by (simp add: tpke_verify_share_def verify_share_def)

lemma tpke_okD:
  assumes "tpke_ok E"
  shows "pairing_ok (eP E)" and "hexp (eP E) = gexp (eP E)"
    and "gpair (eP E) g (gexp (eP E) h r) = gpair (eP E) (gexp (eP E) g r) h"
    and "length (eHashG E g) = 32"
  using assms unfolding tpke_ok_def by blast+

lemma coeffs_secret: "polynom_eval 0 (tpke_coeffs k secret rnd) = secret"
  by (simp add: polynom_eval_0 tpke_coeffs_def)

lemma tpke_dealer_eq:
  assumes "tpke_ok E"
  shows "tpke_dealer E l k secret rnd = dealer (eP E) l k (tpke_coeffs k secret rnd)"
proof -
  have "py_index (tpke_coeffs k secret rnd) 0 = Inr secret"
    using py_index_nonneg [of 0 "tpke_coeffs k secret rnd"] by (simp add: tpke_coeffs_def)
  then show ?thesis
    unfolding tpke_dealer_def dealer_def Let_def tpke_lagrange_eq tpke_okD(2) [OF assms] by simp
qed

lemma xor_cancel: "length x = 32 \<Longrightarrow> length y = 32 \<Longrightarrow>
    \<exists>z. xor_bytes x y = Inr z \<and> length z = 32 \<and> xor_bytes y z = Inr x"
proof -
  assume len: "length x = 32" "length y = 32"
  have "map (\<lambda>(a, b). a XOR b) (zip y (map (\<lambda>(a, b). a XOR b) (zip x y))) = x"
  proof (rule nth_equalityI)
    fix i assume "i < length (map (\<lambda>(a, b). a XOR b) (zip y (map (\<lambda>(a, b). a XOR b) (zip x y))))"
    then have "i < 32" using len by simp
    moreover have "b XOR (a XOR b) = a" for a b :: "8 word"
      by (simp add: bit_eq_iff bit_xor_iff) blast
    ultimately show "map (\<lambda>(a, b). a XOR b) (zip y (map (\<lambda>(a, b). a XOR b) (zip x y))) ! i = x ! i"
      using len by simp
  qed (simp add: len)
  with len show ?thesis by (simp add: xor_bytes_def)
qed

lemma encrypt_cases:
  assumes ok: "tpke_ok E" and m: "length m = 32"
  shows "\<exists>V. tpke_encrypt E PK r m =
      Inr (gexp (eP E) (hgen (eP E)) r, V, gexp (eP E) (eHashH E (gexp (eP E) (hgen (eP E)) r) V) r) \<and>
    length V = 32 \<and> xor_bytes (eHashG E (gexp (eP E) (tVK PK) r)) V = Inr m"
proof -
  from xor_cancel [OF m tpke_okD(4) [OF ok]] obtain V where
    "xor_bytes m (eHashG E (gexp (eP E) (tVK PK) r)) = Inr V" "length V = 32"
    "xor_bytes (eHashG E (gexp (eP E) (tVK PK) r)) V = Inr m" by blast
  then show ?thesis using m by (simp add: tpke_encrypt_def Let_def hashH_def)
qed

lemma ciphertext_valid:
  assumes ok: "tpke_ok E" and e: "tpke_encrypt E PK r m = Inr (U, V, W)"
  shows "verify_ciphertext E U V W = Inr True"
proof -
  have "length m = 32" using e by (simp add: tpke_encrypt_def split: if_splits)
  from encrypt_cases [OF ok this, of PK r] e
  have "length V = 32" "U = gexp (eP E) (hgen (eP E)) r" "W = gexp (eP E) (eHashH E U V) r" by auto
  then show ?thesis using tpke_okD(3) [OF ok] by (simp add: verify_ciphertext_def hashH_def)
qed

lemma tpke_decrypts_aux:
  fixes E :: "('z::field, 'g, 't) tpke_env"
  assumes ok: "tpke_ok E" and inj: "inj_on (point :: nat \<Rightarrow> 'z) {..<l}"
    and d: "tpke_dealer E l k secret rnd = Inr (PK, SKs)"
    and e: "tpke_encrypt E PK r m = Inr (U, V, W)"
    and sh: "distinct (map fst shares)" "length shares = k"
    and v: "\<forall>(i, share) \<in> set shares. tpke_verify_share E PK i share U = Inr True"
  shows "tpke_combine_shares E PK U V W shares = Inr m"
proof -
  let ?a = "tpke_coeffs k secret rnd"
  have d': "dealer (eP E) l k ?a = Inr (PK, SKs)" using d tpke_dealer_eq [OF ok] by metis
  have key: "PK = fst (key_of (eP E) l k ?a)" using dealer_key_of [OF d'] by (metis fst_conv)
  have "length m = 32" using e by (simp add: tpke_encrypt_def split: if_splits)
  from encrypt_cases [OF ok this, of PK r] e
  have m: "U = gexp (eP E) (hgen (eP E)) r" "xor_bytes (eHashG E (gexp (eP E) (tVK PK) r)) V = Inr m" by auto
  have vk: "gexp (eP E) (tVK PK) r = gexp (eP E) U secret"
    by (simp add: key key_of_def coeffs_secret m(1) tpke_okD(2) [OF ok] pairing_okD(3) [OF tpke_okD(1) [OF ok]] mult.commute)
  have "\<forall>(i, share) \<in> set shares. verify_share (eP E) PK share i U = Inr True"
    using v by (simp add: tpke_verify_share_eq)
  from threshold_signature_aux [OF tpke_okD(1) [OF ok] inj d' sh this]
  have c: "combine_shares (eP E) PK shares = Inr (gexp (eP E) U secret)"
    by (simp add: tsign_def coeffs_secret)
  have "res_map (\<lambda>(j, share). tpke_verify_share E PK j share U) shares = Inr (map (\<lambda>_. True) shares)"
    by (rule res_map_all) (use v in auto)
  then have "tpke_combine_shares E PK U V W shares =
      res_bind (combine_shares (eP E) PK shares) (\<lambda>x. xor_bytes (eHashG E x) V)"
    unfolding tpke_combine_shares_def combine_shares_def tpke_lagrange_eq
    by (auto simp: res_bind_def split: sum.splits)
  then show ?thesis using m(2) c vk by simp
qed

lemma decrypt_share_verifies:
  assumes ok: "tpke_ok E" and d: "tpke_dealer E l k secret rnd = Inr (PK, SKs)"
    and e: "tpke_encrypt E PK r m = Inr (U, V, W)" and i: "i < l"
  shows "\<exists>share. decrypt_share E (SKs ! i) U V W = Inr share \<and> tpke_verify_share E PK i share U = Inr True"
proof -
  let ?a = "tpke_coeffs k secret rnd"
  have "dealer (eP E) l k ?a = Inr (PK, SKs)" using d tpke_dealer_eq [OF ok] by metis
  then have "PK = fst (key_of (eP E) l k ?a)" "SKs = snd (key_of (eP E) l k ?a)"
    using dealer_key_of by (metis fst_conv, metis snd_conv)
  then show ?thesis
    using ciphertext_valid [OF ok e] verify_share_genuine [OF tpke_okD(1) [OF ok] i, of k ?a U]
    by (simp add: decrypt_share_def tpke_verify_share_eq tsign_def)
qed

section \<open>Properties\<close>

text \<open>
  C14: Any \<open>k\<close> shares decrypt. For keys the dealer made and a ciphertext of \<open>encrypt\<close>:
  \<open>verify_ciphertext\<close> accepts the ciphertext; \<open>decrypt_share\<close> of every member gives a share, and
  \<open>verify_share\<close> accepts it; and \<open>combine_shares\<close> of \<open>k\<close> different members' shares, each made by
  \<open>decrypt_share\<close> or accepted by \<open>verify_share\<close>, gives back the 32-byte message.
\<close>

theorem tpke_decrypts:
  fixes E :: "('z::field, 'g, 't) tpke_env"
  assumes "tpke_ok E" and "inj_on (point :: nat \<Rightarrow> 'z) {..<l}"
    and "tpke_dealer E l k secret rnd = Inr (PK, SKs)"
    and "tpke_encrypt E PK r m = Inr (U, V, W)"
    and "distinct (map fst shares)" and "length shares = k"
    and "\<forall>(i, share) \<in> set shares.
      i < l \<and> decrypt_share E (SKs ! i) U V W = Inr share \<or> tpke_verify_share E PK i share U = Inr True"
  shows "verify_ciphertext E U V W = Inr True \<and>
    (\<forall>i < l. \<exists>share. decrypt_share E (SKs ! i) U V W = Inr share \<and> tpke_verify_share E PK i share U = Inr True) \<and>
    tpke_combine_shares E PK U V W shares = Inr m"
proof (intro conjI allI impI)
  show "verify_ciphertext E U V W = Inr True" by (rule ciphertext_valid [OF assms(1,4)])
  show d: "\<exists>share. decrypt_share E (SKs ! i) U V W = Inr share \<and> tpke_verify_share E PK i share U = Inr True"
    if "i < l" for i by (rule decrypt_share_verifies [OF assms(1,3,4) that])
  have "\<forall>(i, share) \<in> set shares. tpke_verify_share E PK i share U = Inr True"
    using assms(7) d by fastforce
  then show "tpke_combine_shares E PK U V W shares = Inr m" by (rule tpke_decrypts_aux [OF assms(1-6)])
qed

text \<open>
  The symmetric cipher round trips. Whatever the length of the message, \<open>decrypt\<close> with the same
  key gives back what \<open>encrypt\<close> got, padding included, when AES inverts on whole blocks.
\<close>

theorem aes_round_trip:
  assumes "aes_ok E" and "length iv = 16" and "aes_encrypt E iv key raw = Inr enc"
  shows "aes_decrypt E key enc = Inr raw"
  using assms by (rule aes_round_trip_aux)

section \<open>Witnesses\<close>

definition ex_tpke :: "(rat, rat, rat) tpke_env" where
  "ex_tpke = \<lparr>eP = ex_pairing, eHashG = (\<lambda>g. replicate 32 (of_int (floor g))), eHashH = (\<lambda>g x. g + 1),
     eAes = (\<lambda>k i m. rev m), eAesInv = (\<lambda>k i m. rev m)\<rparr>"

lemma ex_tpke_ok: "tpke_ok ex_tpke" and ex_aes_ok: "aes_ok ex_tpke"
  using ex_pairing_ok by (simp_all add: tpke_ok_def aes_ok_def ex_tpke_def ex_pairing_def algebra_simps)

definition ex_tpke_key :: "rat tbls_key \<times> rat list" where
  "ex_tpke_key = key_of ex_pairing 4 2 [5, 2]"

lemma ex_tpke_dealer: "tpke_dealer ex_tpke 4 2 5 (\<lambda>_. 2) = Inr (fst ex_tpke_key, snd ex_tpke_key)"
  using dealer_total [of "[5, 2]" 2 4 ex_pairing, OF _ _ _ point_rat_inj] tpke_dealer_eq [OF ex_tpke_ok]
  by (simp add: ex_tpke_key_def tpke_coeffs_def ex_tpke_def upt_rec)

lemma ex_tpke_ciphertext:
  "tpke_encrypt ex_tpke (fst ex_tpke_key) 3 (replicate 32 6) = Inr (3, replicate 32 9, 12)"
  by code_simp

theorem tpke_decrypts_witness:
  "tpke_combine_shares ex_tpke (fst ex_tpke_key) 3 (replicate 32 9) 12 [(3, 39), (1, 27)] = Inr (replicate 32 6)"
proof -
  have "decrypt_share ex_tpke (snd ex_tpke_key ! 3) 3 (replicate 32 9) 12 = Inr 39"
    "tpke_verify_share ex_tpke (fst ex_tpke_key) 1 27 3 = Inr True" by code_simp+
  then have "\<forall>(i, share) \<in> set [(3, 39), (1, 27)].
      i < 4 \<and> decrypt_share ex_tpke (snd ex_tpke_key ! i) 3 (replicate 32 9) 12 = Inr share \<or>
      tpke_verify_share ex_tpke (fst ex_tpke_key) i share 3 = Inr True" by simp
  from tpke_decrypts [OF ex_tpke_ok point_rat_inj ex_tpke_dealer ex_tpke_ciphertext _ _ this] show ?thesis
    by simp
qed

theorem aes_round_trip_witness:
  "aes_decrypt ex_tpke (replicate 32 0) (replicate 16 1 @ rev (tpke_pad [1, 2, 3])) = Inr [1, 2, 3]"
  by (rule aes_round_trip [OF ex_aes_ok, of "replicate 16 1"]) (simp_all add: aes_encrypt_def ex_tpke_def)

end
