(* ===== verification/HBBlock.thy ===== *)
theory HBBlock
  imports TPKE
begin

text \<open>
  The body of one block, \<open>honeybadger_block\<close> of \<open>src/honeybadgerbft/core/honeybadger_block.py\<close>: encrypt
  the proposal, hand it to the common subset, broadcast decryption shares for its output, collect the
  shares of \<open>f+1\<close> nodes and decrypt. Pickling and the serialisation of group elements are parameters.
\<close>

section \<open>Model\<close>

record ('z, 'g, 't) hb_env =
  hN :: nat
  hf :: nat
  hE :: "('z, 'g, 't) tpke_env"
  hPK :: "'g tbls_key"
  hSer :: "'g \<Rightarrow> bytes"
  hDeser1 :: "bytes \<Rightarrow> py_error + 'g"
  hDeser2 :: "bytes \<Rightarrow> py_error + 'g"
  hDumps :: "(bytes \<times> bytes \<times> bytes) \<times> bytes \<Rightarrow> bytes"
  hLoads :: "bytes \<Rightarrow> py_error + (bytes \<times> bytes \<times> bytes) \<times> bytes"

definition serialize_UVW ::
    "('z, 'g, 't) hb_env \<Rightarrow> 'g \<Rightarrow> bytes \<Rightarrow> 'g \<Rightarrow> py_error + bytes \<times> bytes \<times> bytes" where
  "serialize_UVW E U V W =
     (if length (hSer E U) = 65 \<and> length V = 32 \<and> length (hSer E W) = 65
      then Inr (hSer E U, V, hSer E W) else Inl AssertionError)"

definition deserialize_UVW ::
    "('z, 'g, 't) hb_env \<Rightarrow> bytes \<times> bytes \<times> bytes \<Rightarrow> py_error + 'g \<times> bytes \<times> 'g" where
  "deserialize_UVW E t =
     (case t of (U, V, W) \<Rightarrow>
        if length U = 65 \<and> length V = 32 \<and> length W = 65
        then res_bind (hDeser1 E U) (\<lambda>U'. res_bind (hDeser2 E W) (\<lambda>W'. Inr (U', V, W')))
        else Inl AssertionError)"

definition tpke_serialize :: "('z, 'g, 't) hb_env \<Rightarrow> 'g option \<Rightarrow> bytes option" where
  "tpke_serialize E g = (case g of None \<Rightarrow> None | Some x \<Rightarrow> Some (hSer E x))"

definition tpke_deserialize :: "('z, 'g, 't) hb_env \<Rightarrow> bytes option \<Rightarrow> py_error + 'g option" where
  "tpke_deserialize E b = (case b of None \<Rightarrow> Inr None | Some x \<Rightarrow> res_bind (hDeser1 E x) (\<lambda>g. Inr (Some g)))"

text \<open>From the start to \<open>acs_put_in\<close>: the key, the vector and the exponent are the random choices.\<close>

definition hb_propose ::
    "('z, 'g, 't) hb_env \<Rightarrow> bytes \<Rightarrow> bytes \<Rightarrow> 'z \<Rightarrow> bytes \<Rightarrow> py_error + bytes" where
  "hb_propose E key iv r propose =
     res_bind (aes_encrypt (hE E) iv key propose) (\<lambda>ciphertext.
     res_bind (tpke_encrypt (hE E) (hPK E) r key) (\<lambda>(U, V, W).
     res_bind (serialize_UVW E U V W) (\<lambda>tkey. Inr (hDumps E (tkey, ciphertext)))))"

text \<open>The two asserts on the output of the common subset, and the shares to broadcast.\<close>

definition hb_load :: "('z, 'g, 't) hb_env \<Rightarrow> bytes \<Rightarrow> py_error + ('g \<times> bytes \<times> 'g) \<times> bytes" where
  "hb_load E v =
     res_bind (hLoads E v) (\<lambda>(tkey, ciph). res_bind (deserialize_UVW E tkey) (\<lambda>t. Inr (t, ciph)))"

definition hb_my_share :: "('z, 'g, 't) hb_env \<Rightarrow> 'z \<Rightarrow> bytes option \<Rightarrow> py_error + 'g option" where
  "hb_my_share E SK v =
     (case v of
        None \<Rightarrow> Inr None
      | Some b \<Rightarrow> res_bind (hb_load E b) (\<lambda>((U, V, W), ciph).
          res_bind (decrypt_share (hE E) SK U V W) (\<lambda>s. Inr (Some s))))"

definition hb_shares ::
    "('z, 'g, 't) hb_env \<Rightarrow> 'z \<Rightarrow> bytes option list \<Rightarrow> py_error + bytes option list" where
  "hb_shares E SK vall =
     (if length vall = hN E \<and> hN E - hf E \<le> length (filter (\<lambda>v. v \<noteq> None) vall)
      then res_bind (res_map (hb_my_share E SK) vall) (\<lambda>my. Inr (map (tpke_serialize E) my))
      else Inl AssertionError)"

text \<open>
  Decryption of entry \<open>i\<close>: the shares of all collected vectors at position \<open>i\<close>, an absent share being
  a type error of the pairing.
\<close>

definition hb_share_at :: "nat \<Rightarrow> nat \<times> 'g option list \<Rightarrow> py_error + nat \<times> 'g option" where
  "hb_share_at i e = res_bind (py_index (snd e) (int i)) (\<lambda>s. Inr (fst e, s))"

definition hb_checked ::
    "('z, 'g, 't) hb_env \<Rightarrow> 'g \<Rightarrow> nat \<times> 'g option \<Rightarrow> py_error + nat \<times> 'g" where
  "hb_checked E U e =
     (case snd e of
        None \<Rightarrow> Inl TypeError
      | Some g \<Rightarrow> res_bind (tpke_verify_share (hE E) (hPK E) (fst e) g U) (\<lambda>_. Inr (fst e, g)))"

definition hb_plain ::
    "('z::field, 'g, 't) hb_env \<Rightarrow> (nat, 'g option list) odict \<Rightarrow> nat \<Rightarrow> bytes \<Rightarrow> py_error + bytes" where
  "hb_plain E received i v =
     res_bind (res_map (hb_share_at i) received) (\<lambda>svec.
     res_bind (hb_load E v) (\<lambda>((U, V, W), ciph).
       if \<forall>j \<in> set (map fst svec). j < tl (hPK E) then
         res_bind (res_map (hb_checked E U) svec) (\<lambda>shares.
         res_bind (tpke_combine_shares (hE E) (hPK E) U V W shares) (\<lambda>key.
         aes_decrypt (hE E) key ciph))
       else Inl AssertionError))"

definition hb_decrypt ::
    "('z::field, 'g, 't) hb_env \<Rightarrow> bytes option list \<Rightarrow> (nat, 'g option list) odict \<Rightarrow> py_error + bytes list" where
  "hb_decrypt E vall received =
     res_map (\<lambda>(i, v). hb_plain E received i (the v)) (filter (\<lambda>(i, v). v \<noteq> None) (enumerate 0 vall))"

text \<open>The loop that collects share vectors until \<open>f+1\<close> nodes have sent one.\<close>

definition hb_recv ::
    "('z::field, 'g, 't) hb_env \<Rightarrow> bytes option list \<Rightarrow> (nat, 'g option list) odict \<Rightarrow>
       nat \<times> bytes option list \<Rightarrow> ((nat, 'g option list) odict, unit, bytes list) reply" where
  "hb_recv E vall received e =
     (case e of (j, raw) \<Rightarrow>
       (case res_map (tpke_deserialize E) raw of
          Inl x \<Rightarrow> (received, [], Raised x)
        | Inr shares \<Rightarrow>
            if j \<in> fst ` set received then stay received
            else let received' = od_set j shares received in
              if length received' < hf E + 1 then stay received'
              else (received', [], raise_or (hb_decrypt E vall received'))))"

section \<open>Decrypting with genuine shares\<close>

text \<open>
  The setting: keys of a dealer, well-behaved parameters, and an entry of the subset that is an
  honest proposal whose group elements survive serialisation.
\<close>

definition hb_setup :: "('z::field, 'g, 't) hb_env \<Rightarrow> 'z \<Rightarrow> (nat \<Rightarrow> 'z) \<Rightarrow> 'z list \<Rightarrow> bool" where
  "hb_setup E secret rnd SKs \<longleftrightarrow>
     tpke_ok (hE E) \<and> aes_ok (hE E) \<and> inj_on (point :: nat \<Rightarrow> 'z) {..<hN E} \<and>
     tpke_dealer (hE E) (hN E) (hf E + 1) secret rnd = Inr (hPK E, SKs) \<and>
     (\<forall>x. hLoads E (hDumps E x) = Inr x)"

definition ser_ok :: "('z, 'g, 't) hb_env \<Rightarrow> 'g \<Rightarrow> bool" where
  "ser_ok E g \<longleftrightarrow> hDeser1 E (hSer E g) = Inr g \<and> hDeser2 E (hSer E g) = Inr g"

definition honest_entry :: "('z::field, 'g, 't) hb_env \<Rightarrow> bytes \<Rightarrow> bytes \<Rightarrow> bool" where
  "honest_entry E v propose \<longleftrightarrow>
     (\<exists>key iv r U V W. length iv = 16 \<and> hb_propose E key iv r propose = Inr v \<and>
        tpke_encrypt (hE E) (hPK E) r key = Inr (U, V, W) \<and> ser_ok E U \<and> ser_ok E W)"

lemma hb_setupD:
  fixes E :: "('z::field, 'g, 't) hb_env"
  assumes "hb_setup E secret rnd SKs"
  shows "tpke_ok (hE E)" and "aes_ok (hE E)" and "inj_on (point :: nat \<Rightarrow> 'z) {..<hN E}"
    and "tpke_dealer (hE E) (hN E) (hf E + 1) secret rnd = Inr (hPK E, SKs)"
    and "hLoads E (hDumps E x) = Inr x"
  using assms unfolding hb_setup_def by blast+

lemma hb_key_size:
  assumes "hb_setup E secret rnd SKs"
  shows "tl (hPK E) = hN E"
proof -
  have "dealer (eP (hE E)) (hN E) (hf E + 1) (tpke_coeffs (hf E + 1) secret rnd) = Inr (hPK E, SKs)"
    using hb_setupD(4) [OF assms] tpke_dealer_eq [OF hb_setupD(1) [OF assms]] by metis
  from dealer_key_of [OF this] show ?thesis by (simp add: key_of_def)
qed

lemma honest_load:
  assumes su: "hb_setup E secret rnd SKs" and h: "honest_entry E v propose"
  obtains key iv r U V W ciph where
    "hb_load E v = Inr ((U, V, W), ciph)" "tpke_encrypt (hE E) (hPK E) r key = Inr (U, V, W)"
    "length iv = 16" "aes_encrypt (hE E) iv key propose = Inr ciph"
proof -
  from h obtain key iv r U V W where
    e: "length iv = 16" "hb_propose E key iv r propose = Inr v"
    "tpke_encrypt (hE E) (hPK E) r key = Inr (U, V, W)" "ser_ok E U" "ser_ok E W"
    unfolding honest_entry_def by blast
  from e(2,3) obtain ciph where c: "aes_encrypt (hE E) iv key propose = Inr ciph"
    and t: "length (hSer E U) = 65" "length V = 32" "length (hSer E W) = 65"
    and v: "v = hDumps E ((hSer E U, V, hSer E W), ciph)"
    by (auto simp: hb_propose_def serialize_UVW_def res_bind_Inr split: if_splits)
  have "hb_load E v = Inr ((U, V, W), ciph)"
    using t e(4,5) by (simp add: hb_load_def v hb_setupD(5) [OF su] deserialize_UVW_def ser_ok_def)
  with that c e(1,3) show ?thesis by blast
qed

lemma honest_plain:
  assumes su: "hb_setup E secret rnd SKs" and h: "honest_entry E v propose"
    and r: "distinct (map fst received)" "length received = hf E + 1"
    and s: "\<forall>(j, shares) \<in> set received. j < hN E \<and> i < length shares \<and> hb_my_share E (SKs ! j) (Some v) = Inr (shares ! i)"
  shows "hb_plain E received i v = Inr propose"
proof -
  from honest_load [OF su h] obtain key iv r U V W ciph where
    l: "hb_load E v = Inr ((U, V, W), ciph)" and e: "tpke_encrypt (hE E) (hPK E) r key = Inr (U, V, W)"
    and iv: "length iv = 16" and c: "aes_encrypt (hE E) iv key propose = Inr ciph" .
  let ?sh = "\<lambda>j. gexp (eP (hE E)) U (SKs ! j)"
  have share: "shares ! i = Some (?sh j) \<and> tpke_verify_share (hE E) (hPK E) j (?sh j) U = Inr True"
    if "(j, shares) \<in> set received" for j shares
  proof -
    from s that have j: "j < hN E" "hb_my_share E (SKs ! j) (Some v) = Inr (shares ! i)" by auto
    have "decrypt_share (hE E) (SKs ! j) U V W = Inr (?sh j)"
      by (simp add: decrypt_share_def ciphertext_valid [OF hb_setupD(1) [OF su] e])
    with decrypt_share_verifies [OF hb_setupD(1,4) [OF su] e j(1)] j(2) l show ?thesis
      by (auto simp: hb_my_share_def)
  qed
  have "res_map (hb_share_at i) received = Inr (map (\<lambda>e. (fst e, Some (?sh (fst e)))) received)"
  proof (rule res_map_all)
    fix e assume e: "e \<in> set received"
    obtain j shares where j: "e = (j, shares)" by (cases e)
    with e s have "i < length shares" by auto
    then show "hb_share_at i e = Inr (fst e, Some (?sh (fst e)))"
      using share e j by (simp add: hb_share_at_def)
  qed
  moreover have "res_map (hb_checked E U) (map (\<lambda>e. (fst e, Some (?sh (fst e)))) received) =
      Inr (map (\<lambda>e. (fst e, ?sh (fst e))) (map (\<lambda>e. (fst e, Some (?sh (fst e)))) received))"
    by (rule res_map_all) (use share in \<open>auto simp: hb_checked_def\<close>)
  moreover have "tpke_combine_shares (hE E) (hPK E) U V W (map (\<lambda>e. (fst e, ?sh (fst e))) received) = Inr key"
    by (rule tpke_decrypts_aux [OF hb_setupD(1,3,4) [OF su] e]) (use r share in \<open>auto simp: comp_def\<close>)
  moreover have "\<forall>j \<in> fst ` set received. j < tl (hPK E)" using s hb_key_size [OF su] by auto
  moreover have "aes_decrypt (hE E) key ciph = Inr propose"
    by (rule aes_round_trip_aux [OF hb_setupD(2) [OF su] iv c])
  ultimately show ?thesis using l by (simp add: hb_plain_def comp_def image_image)
qed

text \<open>The vectors a correct node sends: readable, and its own shares of the subset.\<close>

definition honest_vector ::
    "('z::field, 'g, 't) hb_env \<Rightarrow> 'z list \<Rightarrow> bytes option list \<Rightarrow> nat \<times> bytes option list \<Rightarrow> bool" where
  "honest_vector E SKs vall e \<longleftrightarrow>
     fst e < hN E \<and> hb_shares E (SKs ! fst e) vall = Inr (snd e) \<and>
     (\<exists>my. res_map (hb_my_share E (SKs ! fst e)) vall = Inr my \<and> res_map (tpke_deserialize E) (snd e) = Inr my)"

lemma res_map_nth: "res_map k xs = Inr ys \<Longrightarrow> length ys = length xs \<and> (\<forall>i < length xs. k (xs ! i) = Inr (ys ! i))"
proof (induction xs arbitrary: ys)
  case Nil
  then show ?case by simp
next
  case (Cons x xs)
  then obtain y zs where "k x = Inr y" "res_map k xs = Inr zs" "ys = y # zs" by (auto simp: res_bind_Inr)
  with Cons.IH [of zs] show ?case by (auto simp: nth_Cons split: nat.splits)
qed

definition hb_genuine :: "('z::field, 'g, 't) hb_env \<Rightarrow> 'z list \<Rightarrow> bytes option list \<Rightarrow> (nat, 'g option list) odict \<Rightarrow> bool" where
  "hb_genuine E SKs vall received \<longleftrightarrow>
     distinct (map fst received) \<and>
     (\<forall>(j, shares) \<in> set received. j < hN E \<and> res_map (hb_my_share E (SKs ! j)) vall = Inr shares)"

lemma hb_decrypt_genuine:
  assumes su: "hb_setup E secret rnd SKs" and g: "hb_genuine E SKs vall received" and l: "length received = hf E + 1"
    and h: "\<forall>i < length vall. \<forall>v. vall ! i = Some v \<longrightarrow> honest_entry E v (pr i)"
  shows "hb_decrypt E vall received = Inr (map (\<lambda>(i, v). pr i) (filter (\<lambda>(i, v). v \<noteq> None) (enumerate 0 vall)))"
  unfolding hb_decrypt_def
proof (rule res_map_all)
  fix e assume e: "e \<in> set (filter (\<lambda>(i, v). v \<noteq> None) (enumerate 0 vall))"
  then obtain i v where iv: "e = (i, Some v)" "i < length vall" "vall ! i = Some v"
    by (auto simp: in_set_enumerate_eq)
  have "hb_plain E received i v = Inr (pr i)"
  proof (rule honest_plain [OF su _ _ l])
    show "honest_entry E v (pr i)" using h iv by blast
    show "distinct (map fst received)" using g by (simp add: hb_genuine_def)
    show "\<forall>(j, shares) \<in> set received. j < hN E \<and> i < length shares \<and> hb_my_share E (SKs ! j) (Some v) = Inr (shares ! i)"
      using g iv(2,3) res_map_nth unfolding hb_genuine_def by fastforce
  qed
  with iv show "(\<lambda>(i, v). hb_plain E received i (the v)) e = Inr ((\<lambda>(i, v). pr i) e)" by simp
qed

lemma hb_collect:
  assumes su: "hb_setup E secret rnd SKs"
    and h: "\<forall>i < length vall. \<forall>v. vall ! i = Some v \<longrightarrow> honest_entry E v (pr i)"
  shows "hb_genuine E SKs vall received \<Longrightarrow> length received < hf E + 1 \<Longrightarrow>
    \<forall>e \<in> set es. honest_vector E SKs vall e \<Longrightarrow> hf E + 1 \<le> card (fst ` set received \<union> fst ` set es) \<Longrightarrow>
    \<exists>s outs. run_loop (hb_recv E vall) received es =
      (s, outs, Returned (map (\<lambda>(i, v). pr i) (filter (\<lambda>(i, v). v \<noteq> None) (enumerate 0 vall))))"
proof (induction es arbitrary: received)
  case Nil
  have "card (fst ` set received) \<le> length received" by (metis card_length length_map list.set_map)
  then show ?case using Nil by simp
next
  case (Cons e es)
  obtain j raw where e: "e = (j, raw)" by (cases e)
  have "honest_vector E SKs vall e" using Cons.prems(3) by simp
  then obtain my where my: "j < hN E" "res_map (hb_my_share E (SKs ! j)) vall = Inr my"
    "res_map (tpke_deserialize E) raw = Inr my" by (auto simp: honest_vector_def e)
  show ?case
  proof (cases "j \<in> fst ` set received")
    case True
    then have "hb_recv E vall received e = stay received" by (simp add: hb_recv_def e my)
    moreover have "fst ` set received \<union> fst ` set (e # es) = fst ` set received \<union> fst ` set es"
      using True e by auto
    ultimately show ?thesis using Cons.IH [OF Cons.prems(1,2)] Cons.prems(3,4) by auto
  next
    case False
    define r1 where "r1 = od_set j my received"
    have d: "distinct (map fst received)" using Cons.prems(1) by (simp add: hb_genuine_def)
    have r1: "hb_genuine E SKs vall r1" "length r1 = Suc (length received)" "fst ` set r1 = insert j (fst ` set received)"
      using Cons.prems(1) False my unfolding hb_genuine_def r1_def
      by (auto simp: od_set_distinct od_set_mem [OF d] od_set_length od_set_keys)
    show ?thesis
    proof (cases "length r1 < hf E + 1")
      case True
      then have "hb_recv E vall received e = stay r1" using False by (simp add: hb_recv_def e my r1_def)
      moreover have "fst ` set r1 \<union> fst ` set es = fst ` set received \<union> fst ` set (e # es)" using e r1(3) by auto
      ultimately show ?thesis using Cons.IH [OF r1(1) True] Cons.prems(3,4) by auto
    next
      case False
      then have "length r1 = hf E + 1" using r1(2) Cons.prems(2) by simp
      from hb_decrypt_genuine [OF su r1(1) this h] False
      have "hb_recv E vall received e = (r1, [], Returned (map (\<lambda>(i, v). pr i)
          (filter (\<lambda>(i, v). v \<noteq> None) (enumerate 0 vall))))"
        using \<open>j \<notin> fst ` set received\<close> unfolding hb_recv_def e by (simp add: my r1_def [symmetric] raise_or_def)
      then show ?thesis by simp
    qed
  qed
qed

lemma hb_block_aux:
  assumes "hb_setup E secret rnd SKs"
    and "\<forall>i < length vall. \<forall>v. vall ! i = Some v \<longrightarrow> honest_entry E v (pr i)"
    and "\<forall>e \<in> set es. honest_vector E SKs vall e" and "hf E + 1 \<le> card (fst ` set es)"
  shows "\<exists>s outs. run_loop (hb_recv E vall) [] es =
    (s, outs, Returned (map (\<lambda>(i, v). pr i) (filter (\<lambda>(i, v). v \<noteq> None) (enumerate 0 vall))))"
  by (rule hb_collect [OF assms(1,2) _ _ assms(3)]) (use assms(4) in \<open>simp_all add: hb_genuine_def\<close>)

section \<open>Properties\<close>

text \<open>
  C15: A block is the proposals of the common subset. When the entries of the subset are honest
  proposals and the collected vectors come from correct nodes, repeated ones included, the loop returns
  as soon as \<open>f+1\<close> nodes have sent a vector, and the block holds the plaintext proposals, in order.
\<close>

theorem hb_block:
  assumes "hb_setup E secret rnd SKs"
    and "\<forall>i < length vall. \<forall>v. vall ! i = Some v \<longrightarrow> honest_entry E v (pr i)"
    and "\<forall>e \<in> set es. honest_vector E SKs vall e" and "hf E + 1 \<le> card (fst ` set es)"
  shows "\<exists>s outs. run_loop (hb_recv E vall) [] es =
    (s, outs, Returned (map (\<lambda>(i, v). pr i) (filter (\<lambda>(i, v). v \<noteq> None) (enumerate 0 vall))))"
  using assms by (rule hb_block_aux)

section \<open>Witnesses\<close>

text \<open>Small group elements as 65 equal bytes; a pickle is the concatenation of its parts.\<close>

definition ex_put :: "bytes \<Rightarrow> bytes \<Rightarrow> bytes" where
  "ex_put u rest = replicate (length u) 1 @ 0 # u @ rest"

definition ex_get :: "bytes \<Rightarrow> bytes \<times> bytes" where
  "ex_get b = (let l = length (takeWhile ((=) 1) b); b' = drop (Suc l) b in (take l b', drop l b'))"

lemma ex_get_put: "ex_get (ex_put u rest) = (u, rest)"
proof -
  have "takeWhile ((=) 1) (replicate k (1 :: 8 word) @ 0 # ys) = replicate k 1" for k ys
    by (induction k) simp_all
  then show ?thesis by (simp add: ex_get_def ex_put_def Let_def)
qed

definition ex_hb :: "(rat, rat, rat) hb_env" where
  "ex_hb = \<lparr>hN = 4, hf = 1, hE = ex_tpke, hPK = fst ex_tpke_key,
     hSer = (\<lambda>g. replicate 65 (of_int (floor g))), hDeser1 = (\<lambda>b. Inr (of_nat (unat (hd b)))),
     hDeser2 = (\<lambda>b. Inr (of_nat (unat (hd b)))),
     hDumps = (\<lambda>((u, v, w), c). ex_put u (ex_put v (ex_put w c))),
     hLoads = (\<lambda>b. case ex_get b of (u, b1) \<Rightarrow> case ex_get b1 of (v, b2) \<Rightarrow> case ex_get b2 of (w, c) \<Rightarrow>
       Inr ((u, v, w), c))\<rparr>"

lemma ex_hb_setup: "hb_setup ex_hb 5 (\<lambda>_. 2) (snd ex_tpke_key)"
  unfolding hb_setup_def
proof (intro conjI allI)
  show "hLoads ex_hb (hDumps ex_hb x) = Inr x" for x
    by (cases x) (auto simp: ex_hb_def ex_get_put)
qed (use ex_tpke_ok ex_aes_ok point_rat_inj ex_tpke_dealer in \<open>simp_all add: ex_hb_def numeral_2_eq_2\<close>)

definition ex_entry :: bytes where
  "ex_entry = (case hb_propose ex_hb (replicate 32 6) (replicate 16 1) 3 [65, 66] of Inr v \<Rightarrow> v | Inl _ \<Rightarrow> [])"

definition ex_vall :: "bytes option list" where
  "ex_vall = [Some ex_entry, None, Some ex_entry, Some ex_entry]"

definition ex_vectors :: "(nat \<times> bytes option list) list" where
  "ex_vectors = map (\<lambda>j. (j, map (map_option (\<lambda>_. hSer ex_hb (3 * (snd ex_tpke_key ! j)))) ex_vall)) [2, 2, 0]"

lemma ex_entry_honest: "honest_entry ex_hb ex_entry [65, 66]"
  unfolding honest_entry_def
proof (intro exI conjI)
  show "hb_propose ex_hb (replicate 32 6) (replicate 16 1) 3 [65, 66] = Inr ex_entry" by code_simp
  show "tpke_encrypt (hE ex_hb) (hPK ex_hb) 3 (replicate 32 6) = Inr (3, replicate 32 9, 12)" by code_simp
  show "ser_ok ex_hb 3" by code_simp
  show "ser_ok ex_hb 12" by code_simp
qed simp

lemma ex_load: "hb_load ex_hb ex_entry = Inr ((3, replicate 32 9, 12), replicate 16 1 @ rev (tpke_pad [65, 66]))"
  by code_simp

lemma ex_keys: "snd ex_tpke_key = [7, 9, 11, 13]"
  by code_simp

lemma ex_my_share: "hb_my_share ex_hb x (Some ex_entry) = Inr (Some (3 * x))"
proof -
  have "verify_ciphertext ex_tpke 3 (replicate 32 9) 12 = Inr True"
    by (rule ciphertext_valid [OF ex_tpke_ok ex_tpke_ciphertext])
  then have "decrypt_share (hE ex_hb) x 3 (replicate 32 9) 12 = Inr (3 * x)"
    by (simp add: decrypt_share_def ex_hb_def) (simp add: ex_tpke_def ex_pairing_def)
  then show ?thesis by (simp add: hb_my_share_def ex_load)
qed

lemma ex_deserialize: "\<forall>x \<in> set [21, 27, 33]. tpke_deserialize ex_hb (Some (hSer ex_hb x)) = Inr (Some x)"
  by code_simp

lemma ex_vectors_honest: "\<forall>e \<in> set ex_vectors. honest_vector ex_hb (snd ex_tpke_key) ex_vall e"
proof -
  have "hb_my_share ex_hb x None = Inr None" for x by (simp add: hb_my_share_def)
  moreover have "tpke_deserialize ex_hb None = Inr None" by (simp add: tpke_deserialize_def)
  moreover have "hN ex_hb = 4" "hf ex_hb = 1" by (simp_all add: ex_hb_def)
  ultimately show ?thesis using ex_deserialize
    by (simp add: ex_vectors_def honest_vector_def hb_shares_def ex_vall_def ex_keys ex_my_share tpke_serialize_def)
qed

theorem hb_block_witness:
  "\<exists>s outs. run_loop (hb_recv ex_hb ex_vall) [] ex_vectors = (s, outs, Returned [[65, 66], [65, 66], [65, 66]])"
proof -
  have "\<forall>i < length ex_vall. \<forall>v. ex_vall ! i = Some v \<longrightarrow> honest_entry ex_hb v [65, 66]"
    using ex_entry_honest by (auto simp: ex_vall_def less_Suc_eq numeral_eq_Suc)
  from hb_block [OF ex_hb_setup this ex_vectors_honest]
  show ?thesis by (simp add: ex_vectors_def ex_vall_def) (simp add: ex_hb_def)
qed

end
