(* ===== verification/AsyncNet.thy ===== *)
theory AsyncNet
  imports Prelude
begin

text \<open>
  The asynchronous network the protocols run on, with a Byzantine adversary, and two interfaces:
  quorum systems, and handlers that follow the echo/ready pattern of Bracha's reliable broadcast.
  Channels are authenticated (the socket server derives the sender from the peer's address), may
  reorder, delay and repeat messages; a faulty node sends anything to anybody under its own name.
\<close>

section \<open>Configurations and quorums\<close>

text \<open>\<open>N\<close> nodes, the fault bound \<open>f\<close> the code is given, and the nodes that are faulty.\<close>

record cfg =
  cN :: nat
  cf :: nat
  cbyz :: "nat set"

definition wf_cfg :: "cfg \<Rightarrow> bool" where
  "wf_cfg c \<longleftrightarrow> 3 * cf c + 1 \<le> cN c \<and> cbyz c \<subseteq> {..<cN c} \<and> card (cbyz c) \<le> cf c"

definition nf_quorum :: "cfg \<Rightarrow> nat set \<Rightarrow> bool" where
  "nf_quorum c Q \<longleftrightarrow> Q \<subseteq> {..<cN c} \<and> cN c - cf c \<le> card Q"

definition f1_set :: "cfg \<Rightarrow> nat set \<Rightarrow> bool" where
  "f1_set c Q \<longleftrightarrow> Q \<subseteq> {..<cN c} \<and> cf c + 1 \<le> card Q"

text \<open>
  What the protocols use of their thresholds: two quorums share a correct node, a weak set holds a
  correct node, and the correct part of a quorum is a weak set.
\<close>

locale quorum_system =
  fixes wf :: "'c \<Rightarrow> bool"
    and quorum :: "'c \<Rightarrow> nat set \<Rightarrow> bool"
    and weak :: "'c \<Rightarrow> nat set \<Rightarrow> bool"
    and faulty :: "'c \<Rightarrow> nat set"
  assumes quorums_meet: "wf c \<Longrightarrow> quorum c Q \<Longrightarrow> quorum c Q' \<Longrightarrow> \<exists>p \<in> Q \<inter> Q'. p \<notin> faulty c"
    and weak_correct: "wf c \<Longrightarrow> weak c Q \<Longrightarrow> \<exists>p \<in> Q. p \<notin> faulty c"
    and quorum_weak: "wf c \<Longrightarrow> quorum c Q \<Longrightarrow> weak c (Q - faulty c)"
begin

lemma quorum_correct: "wf c \<Longrightarrow> quorum c Q \<Longrightarrow> \<exists>p \<in> Q. p \<notin> faulty c"
  using quorums_meet [of c Q Q] by auto

text \<open>If the correct members of two quorums all hold a value, it is one value.\<close>

lemma quorums_agree:
  assumes "wf c" and "quorum c Q" and "\<forall>x \<in> Q - faulty c. val x = Some v"
    and "quorum c Q'" and "\<forall>x \<in> Q' - faulty c. val x = Some v'"
  shows "v = v'"
proof -
  from quorums_meet [OF assms(1,2,4)] obtain p where p: "p \<in> Q" "p \<in> Q'" "p \<notin> faulty c"
    by blast
  have "val p = Some v"
    by (rule bspec [OF assms(3)]) (use p in simp)
  moreover have "val p = Some v'"
    by (rule bspec [OF assms(5)]) (use p in simp)
  ultimately show ?thesis by simp
qed

end

lemma quorum_overlap:
  assumes "wf_cfg c" and "nf_quorum c Q" and "nf_quorum c Q'"
  shows "cf c < card (Q \<inter> Q')"
proof -
  have fin: "finite Q" "finite Q'" and sub: "Q \<union> Q' \<subseteq> {..<cN c}"
    using assms(2,3) below_finite by (auto simp: nf_quorum_def)
  have "card Q + card Q' = card (Q \<union> Q') + card (Q \<inter> Q')"
    by (rule card_Un_Int [OF fin])
  moreover have "card (Q \<union> Q') \<le> cN c"
    by (rule below_card_le [OF sub])
  ultimately show ?thesis
    using assms by (auto simp: wf_cfg_def nf_quorum_def)
qed

lemma byz_finite: "wf_cfg c \<Longrightarrow> finite (cbyz c)"
  using below_finite by (auto simp: wf_cfg_def)

lemma big_set_correct:
  assumes "wf_cfg c" and "cf c < card Q"
  shows "\<exists>p \<in> Q. p \<notin> cbyz c"
proof (rule ccontr)
  assume "\<not> ?thesis"
  then have "Q \<subseteq> cbyz c" by auto
  with byz_finite [OF assms(1)] have "card Q \<le> card (cbyz c)" by (rule card_mono)
  with assms show False by (simp add: wf_cfg_def)
qed

interpretation nf: quorum_system wf_cfg nf_quorum f1_set cbyz
proof (unfold_locales, goal_cases)
  case (1 c Q Q')
  then show ?case
    using big_set_correct quorum_overlap by blast
next
  case (2 c Q)
  then show ?case
    using big_set_correct [of c Q] by (simp add: f1_set_def)
next
  case (3 c Q)
  then have "card Q \<le> card (Q - cbyz c) + cf c"
    using card_diff_faulty [OF byz_finite] by (simp add: wf_cfg_def)
  with 3 show ?case
    by (auto simp: f1_set_def nf_quorum_def wf_cfg_def)
qed

section \<open>The network\<close>

record ('s, 'm, 'r) sys =
  loc :: "nat \<Rightarrow> 's"
  ended :: "nat \<Rightarrow> 'r ctl"
  net :: "(nat \<times> nat \<times> 'm) set"

text \<open>The nodes that \<open>send(k, o)\<close> of node \<open>p\<close> reaches.\<close>

definition dests :: "nat \<Rightarrow> nat \<Rightarrow> int \<Rightarrow> nat set" where
  "dests N p k =
     (if k = -1 then {..<N}
      else if k = -2 then {..<N} - {p}
      else if 0 \<le> k \<and> k < int N then {nat k}
      else {})"

definition routed :: "nat \<Rightarrow> nat \<Rightarrow> 'm out list \<Rightarrow> (nat \<times> nat \<times> 'm) set" where
  "routed N p outs = {(p, q, m) | q m k. Send k m \<in> set outs \<and> q \<in> dests N p k}"

lemma routed_iff: "(a, b, m) \<in> routed N p outs \<longleftrightarrow>
    a = p \<and> (\<exists>k. Send k m \<in> set outs \<and> b \<in> dests N p k)"
  by (auto simp: routed_def)

lemma routed_msg: "(a, b, m) \<in> routed N p outs \<Longrightarrow> a = p \<and> m \<in> out_msg ` set outs"
  by (force simp: routed_def)

lemma routed_to_all: "(a, b, m) \<in> routed N p (to_all N o1) \<longleftrightarrow> a = p \<and> b < N \<and> m = o1"
  by (auto simp: routed_iff to_all_def dests_def intro!: exI [of _ "int b"])

inductive net_step ::
  "cfg \<Rightarrow> (nat \<Rightarrow> 's \<Rightarrow> nat \<times> 'm \<Rightarrow> ('s, 'm, 'r) reply) \<Rightarrow> ('s, 'm, 'r) sys \<Rightarrow> ('s, 'm, 'r) sys \<Rightarrow> bool"
  for c h where
  deliver: "p < cN c \<Longrightarrow> p \<notin> cbyz c \<Longrightarrow> (q, p, m) \<in> net s \<Longrightarrow> ended s p = Running \<Longrightarrow>
    h p (loc s p) (q, m) = (l', outs, k) \<Longrightarrow>
    net_step c h s (s\<lparr>loc := (loc s)(p := l'), ended := (ended s)(p := k),
                      net := net s \<union> routed (cN c) p outs\<rparr>)"
| forge: "q \<in> cbyz c \<Longrightarrow> net_step c h s (s\<lparr>net := insert (q, p, m) (net s)\<rparr>)"

inductive reaches ::
  "cfg \<Rightarrow> (nat \<Rightarrow> 's \<Rightarrow> nat \<times> 'm \<Rightarrow> ('s, 'm, 'r) reply) \<Rightarrow> ('s, 'm, 'r) sys \<Rightarrow> ('s, 'm, 'r) sys \<Rightarrow> bool"
  for c h s0 where
  start: "reaches c h s0 s0"
| step: "reaches c h s0 s \<Longrightarrow> net_step c h s s' \<Longrightarrow> reaches c h s0 s'"

text \<open>A start state: every correct node runs from its initial state, some messages are on the way.\<close>

definition start_sys :: "(nat \<Rightarrow> 's) \<Rightarrow> (nat \<times> nat \<times> 'm) set \<Rightarrow> ('s, 'm, 'r) sys" where
  "start_sys ini ms = \<lparr>loc = ini, ended = (\<lambda>_. Running), net = ms\<rparr>"

text \<open>An executable scheduler: it delivers the listed messages, skipping what cannot be delivered.\<close>

definition deliver_one ::
  "cfg \<Rightarrow> (nat \<Rightarrow> 's \<Rightarrow> nat \<times> 'm \<Rightarrow> ('s, 'm, 'r) reply) \<Rightarrow> ('s, 'm, 'r) sys \<Rightarrow> nat \<times> nat \<times> 'm \<Rightarrow>
    ('s, 'm, 'r) sys" where
  "deliver_one c h s e =
     (case e of (q, p, m) \<Rightarrow>
       if p < cN c \<and> p \<notin> cbyz c \<and> (q, p, m) \<in> net s \<and> (case ended s p of Running \<Rightarrow> True | _ \<Rightarrow> False)
       then (case h p (loc s p) (q, m) of (l', outs, k) \<Rightarrow>
              s\<lparr>loc := (loc s)(p := l'), ended := (ended s)(p := k),
                net := net s \<union> routed (cN c) p outs\<rparr>)
       else s)"

definition deliver_all ::
  "cfg \<Rightarrow> (nat \<Rightarrow> 's \<Rightarrow> nat \<times> 'm \<Rightarrow> ('s, 'm, 'r) reply) \<Rightarrow> ('s, 'm, 'r) sys \<Rightarrow>
    (nat \<times> nat \<times> 'm) list \<Rightarrow> ('s, 'm, 'r) sys" where
  "deliver_all c h s es = foldl (deliver_one c h) s es"

lemma dests_code [code]:
  "dests N p k =
     (if k = -1 then set [0..<N]
      else if k = -2 then set (filter (\<lambda>i. i \<noteq> p) [0..<N])
      else if 0 \<le> k \<and> k < int N then {nat k}
      else {})"
  by (auto simp: dests_def)

lemma routed_code [code]:
  "routed N p outs = (\<Union>x \<in> set outs. case x of Send k m \<Rightarrow> (\<lambda>q. (p, q, m)) ` dests N p k)"
  by (force simp: routed_def split: out.splits)

lemma deliver_one_step: "deliver_one c h s e = s \<or> net_step c h s (deliver_one c h s e)"
proof -
  obtain q p m where e: "e = (q, p, m)" by (cases e)
  obtain l' outs k where r: "h p (loc s p) (q, m) = (l', outs, k)"
    by (cases "h p (loc s p) (q, m)")
  show ?thesis
    using net_step.deliver [of p c q m s h l' outs k] r
    by (auto simp: deliver_one_def e split: ctl.splits)
qed

lemma deliver_all_reaches: "reaches c h s0 s \<Longrightarrow> reaches c h s0 (deliver_all c h s es)"
proof (induction es arbitrary: s)
  case Nil
  then show ?case by (simp add: deliver_all_def)
next
  case (Cons e es)
  have "reaches c h s0 (deliver_one c h s e)"
    using deliver_one_step [of c h s e] Cons.prems reaches.step by metis
  from Cons.IH [OF this] show ?case by (simp add: deliver_all_def)
qed

text \<open>The messages a faulty node injects, all at once.\<close>

definition forge_all :: "('s, 'm, 'r) sys \<Rightarrow> (nat \<times> nat \<times> 'm) list \<Rightarrow> ('s, 'm, 'r) sys" where
  "forge_all s fs = s\<lparr>net := net s \<union> set fs\<rparr>"

lemma forge_all_reaches:
  "reaches c h s0 s \<Longrightarrow> \<forall>(q, p, m) \<in> set fs. q \<in> cbyz c \<Longrightarrow> reaches c h s0 (forge_all s fs)"
proof (induction fs arbitrary: s)
  case Nil
  then show ?case by (simp add: forge_all_def)
next
  case (Cons e fs)
  obtain q p m where e: "e = (q, p, m)" by (cases e)
  have "net_step c h s (s\<lparr>net := insert (q, p, m) (net s)\<rparr>)"
    using Cons.prems(2) e by (intro net_step.forge) simp
  with Cons.prems(1) have "reaches c h s0 (s\<lparr>net := insert (q, p, m) (net s)\<rparr>)"
    by (rule reaches.step)
  from Cons.IH [OF this] Cons.prems(2) show ?case
    by (simp add: forge_all_def e)
qed

section \<open>The echo/ready pattern\<close>

text \<open>
  The contract of a handler that follows Bracha's pattern. \<open>echoed s\<close> is the root the node has
  echoed, \<open>echo_from s r\<close> and \<open>ready_from s r\<close> the senders it has counted for root \<open>r\<close>,
  \<open>is_echo\<close> and \<open>is_ready\<close> read the root off a message, and \<open>for_root v r\<close> says that the
  returned value \<open>v\<close> belongs to \<open>r\<close>.
\<close>

locale echo_ready = node_invariant h inv
  for h :: "nat \<Rightarrow> 's \<Rightarrow> nat \<times> 'm \<Rightarrow> ('s, 'm, 'r) reply" and inv :: "'s \<Rightarrow> bool" +
  fixes c :: cfg
    and ini :: "'s"
    and echoed :: "'s \<Rightarrow> 'h option"
    and echo_from :: "'s \<Rightarrow> 'h \<Rightarrow> nat set"
    and ready_from :: "'s \<Rightarrow> 'h \<Rightarrow> nat set"
    and is_echo :: "'m \<Rightarrow> 'h option"
    and is_ready :: "'m \<Rightarrow> 'h option"
    and for_root :: "'r \<Rightarrow> 'h \<Rightarrow> bool"
  assumes ini_inv: "inv ini"
    and ini_empty: "echo_from ini r = {}" "ready_from ini r = {}"
    and echoed_stable: "inv s \<Longrightarrow> h p s (q, m) = (s', outs, k) \<Longrightarrow> echoed s = Some r \<Longrightarrow>
          echoed s' = Some r"
    and echo_once: "inv s \<Longrightarrow> h p s (q, m) = (s', outs, k) \<Longrightarrow> m' \<in> out_msg ` set outs \<Longrightarrow>
          is_echo m' = Some r \<Longrightarrow> echoed s' = Some r"
    and echo_count: "inv s \<Longrightarrow> h p s (q, m) = (s', outs, k) \<Longrightarrow> x \<in> echo_from s' r \<Longrightarrow>
          x \<in> echo_from s r \<or> x = q \<and> is_echo m = Some r"
    and ready_count: "inv s \<Longrightarrow> h p s (q, m) = (s', outs, k) \<Longrightarrow> x \<in> ready_from s' r \<Longrightarrow>
          x \<in> ready_from s r \<or> x = q \<and> is_ready m = Some r"
    and ready_sent: "inv s \<Longrightarrow> h p s (q, m) = (s', outs, k) \<Longrightarrow> m' \<in> out_msg ` set outs \<Longrightarrow>
          is_ready m' = Some r \<Longrightarrow>
          cN c - cf c \<le> card (echo_from s' r) \<or> cf c + 1 \<le> card (ready_from s' r)"
    and returned: "wf_cfg c \<Longrightarrow> inv s \<Longrightarrow> h p s (q, m) = (s', outs, Returned v) \<Longrightarrow>
          \<exists>r. for_root v r \<and> cf c + 1 \<le> card (ready_from s' r)"
begin

text \<open>A root is supported when the correct members of some quorum have echoed it.\<close>

definition supported :: "('s, 'm, 'r) sys \<Rightarrow> 'h \<Rightarrow> bool" where
  "supported s r \<longleftrightarrow> (\<exists>Q. nf_quorum c Q \<and> (\<forall>x \<in> Q - cbyz c. echoed (loc s x) = Some r))"

lemma supported_unique: "wf_cfg c \<Longrightarrow> supported s r \<Longrightarrow> supported s r' \<Longrightarrow> r = r'"
  unfolding supported_def by (blast intro: nf.quorums_agree [where val = "\<lambda>x. echoed (loc s x)"])

definition good :: "('s, 'm, 'r) sys \<Rightarrow> bool" where
  "good s \<longleftrightarrow>
     (\<forall>p. inv (loc s p)) \<and>
     (\<forall>q p m. (q, p, m) \<in> net s \<longrightarrow> q < cN c) \<and>
     (\<forall>q p m r. (q, p, m) \<in> net s \<longrightarrow> q \<notin> cbyz c \<longrightarrow> is_echo m = Some r \<longrightarrow> echoed (loc s q) = Some r) \<and>
     (\<forall>q p m r. (q, p, m) \<in> net s \<longrightarrow> q \<notin> cbyz c \<longrightarrow> is_ready m = Some r \<longrightarrow> supported s r) \<and>
     (\<forall>p x r. x \<in> echo_from (loc s p) r \<longrightarrow>
        x < cN c \<and> (x \<notin> cbyz c \<longrightarrow> echoed (loc s x) = Some r)) \<and>
     (\<forall>p x r. x \<in> ready_from (loc s p) r \<longrightarrow> x < cN c \<and> (x \<notin> cbyz c \<longrightarrow> supported s r)) \<and>
     (\<forall>p v. ended s p = Returned v \<longrightarrow> (\<exists>r. for_root v r \<and> supported s r))"

lemma goodD:
  assumes "good s"
  shows "inv (loc s p)" and "(q, p, m) \<in> net s \<Longrightarrow> q < cN c"
    and "(q, p, m) \<in> net s \<Longrightarrow> q \<notin> cbyz c \<Longrightarrow> is_echo m = Some r \<Longrightarrow> echoed (loc s q) = Some r"
    and "(q, p, m) \<in> net s \<Longrightarrow> q \<notin> cbyz c \<Longrightarrow> is_ready m = Some r \<Longrightarrow> supported s r"
    and "x \<in> echo_from (loc s p) r \<Longrightarrow> x < cN c \<and> (x \<notin> cbyz c \<longrightarrow> echoed (loc s x) = Some r)"
    and "x \<in> ready_from (loc s p) r \<Longrightarrow> x < cN c \<and> (x \<notin> cbyz c \<longrightarrow> supported s r)"
  using assms [unfolded good_def] by (elim conjE; blast)+

lemma good_returned: "good s \<Longrightarrow> ended s p = Returned v \<Longrightarrow> \<exists>r. for_root v r \<and> supported s r"
  by (simp add: good_def)

lemma good_start:
  assumes "\<forall>(q, p, m) \<in> ms. q < cN c \<and> is_echo m = None \<and> is_ready m = None"
  shows "good (start_sys (\<lambda>_. ini) ms)"
  using assms ini_inv ini_empty by (auto simp: good_def start_sys_def)

lemma ready_supported:
  assumes "wf_cfg c" and "cf c + 1 \<le> card (ready_from l r)"
    and "\<forall>x \<in> ready_from l r. x < cN c \<and> (x \<notin> cbyz c \<longrightarrow> P)"
  shows P
proof -
  have "f1_set c (ready_from l r)"
    using assms(2,3) by (auto simp: f1_set_def)
  from nf.weak_correct [OF assms(1) this] assms(3) show P by blast
qed

lemma good_deliver:
  assumes wf: "wf_cfg c" and g: "good s" and p: "p < cN c" "p \<notin> cbyz c"
    and m: "(q, p, m) \<in> net s" and h: "h p (loc s p) (q, m) = (l', outs, k)"
  defines "s' \<equiv> s\<lparr>loc := (loc s)(p := l'), ended := (ended s)(p := k),
                   net := net s \<union> routed (cN c) p outs\<rparr>"
  shows "good s'"
proof -
  note inv = goodD(1) [OF g, of p]
  note laws = echoed_stable [OF inv h] echo_once [OF inv h] echo_count [OF inv h]
    ready_count [OF inv h] ready_sent [OF inv h]
  have stable: "echoed (loc s' x) = Some r" if "echoed (loc s x) = Some r" for x r
    using that laws(1) by (cases "x = p") (simp_all add: s'_def)
  have mono: "supported s' r" if "supported s r" for r
    using that stable unfolding supported_def by blast
  have q: "q < cN c" by (rule goodD(2) [OF g m])
  have echoes: "x < cN c \<and> (x \<notin> cbyz c \<longrightarrow> echoed (loc s' x) = Some r)"
    if "x \<in> echo_from (loc s' a) r" for a x r
  proof (cases "a = p")
    case True
    then have "x \<in> echo_from (loc s p) r \<or> x = q \<and> is_echo m = Some r"
      using that laws(3) by (simp add: s'_def)
    then show ?thesis
      using goodD(5) [OF g, of x p r] goodD(3) [OF g m, of r] q stable by blast
  next
    case False
    then have "x \<in> echo_from (loc s a) r"
      using that by (simp add: s'_def)
    then show ?thesis
      using goodD(5) [OF g, of x a r] stable by blast
  qed
  have readies: "x < cN c \<and> (x \<notin> cbyz c \<longrightarrow> supported s' r)"
    if "x \<in> ready_from (loc s' a) r" for a x r
  proof (cases "a = p")
    case True
    then have "x \<in> ready_from (loc s p) r \<or> x = q \<and> is_ready m = Some r"
      using that laws(4) by (simp add: s'_def)
    then show ?thesis
      using goodD(6) [OF g, of x p r] goodD(4) [OF g m, of r] q mono by blast
  next
    case False
    then have "x \<in> ready_from (loc s a) r"
      using that by (simp add: s'_def)
    then show ?thesis
      using goodD(6) [OF g, of x a r] mono by blast
  qed
  have by_echoes: "supported s' r" if "cN c - cf c \<le> card (echo_from l' r)" for r
    unfolding supported_def using that echoes [of _ p r]
    by (intro exI [of _ "echo_from l' r"]) (auto simp: nf_quorum_def s'_def)
  have by_readies: "supported s' r" if "cf c + 1 \<le> card (ready_from l' r)" for r
    by (rule ready_supported [OF wf that]) (use readies [of _ p r] in \<open>auto simp: s'_def\<close>)
  have sent: "supported s' r" if "m' \<in> out_msg ` set outs" "is_ready m' = Some r" for m' r
    using laws(5) [OF that] by_echoes by_readies by blast
  have old: "(a, b, m') \<in> net s' \<Longrightarrow> (a, b, m') \<in> net s \<or> a = p \<and> m' \<in> out_msg ` set outs"
    for a b m'
    by (auto simp: s'_def dest: routed_msg)
  have "inv (loc s' a)" for a
    using g step_inv [OF inv h] by (simp add: good_def s'_def)
  moreover have "a < cN c" if "(a, b, m') \<in> net s'" for a b m'
    using old [OF that] goodD(2) [OF g, of a b m'] p by blast
  moreover have "echoed (loc s' a) = Some r"
    if "(a, b, m') \<in> net s'" "a \<notin> cbyz c" "is_echo m' = Some r" for a b m' r
  proof -
    from old [OF that(1)] show ?thesis
    proof
      assume "(a, b, m') \<in> net s"
      then have "echoed (loc s a) = Some r"
        using goodD(3) [OF g] that(2,3) by blast
      then show ?thesis by (rule stable)
    next
      assume "a = p \<and> m' \<in> out_msg ` set outs"
      then show ?thesis
        using laws(2) [OF _ that(3)] by (simp add: s'_def)
    qed
  qed
  moreover have "supported s' r"
    if "(a, b, m') \<in> net s'" "a \<notin> cbyz c" "is_ready m' = Some r" for a b m' r
    using old [OF that(1)] goodD(4) [OF g, of a b m' r] that(2,3) mono sent by blast
  moreover have "\<exists>r. for_root v r \<and> supported s' r" if "ended s' a = Returned v" for a v
  proof (cases "a = p")
    case True
    then have "k = Returned v" using that by (simp add: s'_def)
    then show ?thesis
      using returned [OF wf inv, of p q m l' outs v] h by_readies by blast
  next
    case False
    then have "ended s a = Returned v" using that by (simp add: s'_def)
    then show ?thesis
      using good_returned [OF g] mono by blast
  qed
  ultimately show ?thesis
    unfolding good_def using echoes readies by (intro conjI allI impI) blast+
qed

lemma good_step:
  assumes "wf_cfg c" and "good s" and "net_step c h s s'"
  shows "good s'"
  using assms(3)
proof cases
  case (deliver p q m l' outs k)
  then show ?thesis
    using good_deliver [OF assms(1,2)] by blast
next
  case (forge q p m)
  have "q < cN c" using forge assms(1) by (auto simp: wf_cfg_def)
  with assms(2) forge show ?thesis
    by (simp add: good_def supported_def)
qed

lemma good_reaches: "reaches c h s0 s \<Longrightarrow> wf_cfg c \<Longrightarrow> good s0 \<Longrightarrow> good s"
  by (induction rule: reaches.induct) (blast intro: good_step)+

text \<open>Two values that correct nodes return belong to one root.\<close>

lemma returned_same_root:
  assumes "wf_cfg c" and "\<forall>(q, p, m) \<in> ms. q < cN c \<and> is_echo m = None \<and> is_ready m = None"
    and "reaches c h (start_sys (\<lambda>_. ini) ms) s"
    and "ended s p = Returned v" and "ended s p' = Returned v'"
  shows "\<exists>r. for_root v r \<and> for_root v' r"
proof -
  have g: "good s"
    by (rule good_reaches [OF assms(3,1) good_start [OF assms(2)]])
  from good_returned [OF g assms(4)] obtain r where r: "for_root v r" "supported s r"
    by blast
  from good_returned [OF g assms(5)] obtain r' where r': "for_root v' r'" "supported s r'"
    by blast
  have "r = r'"
    by (rule supported_unique [OF assms(1) r(2) r'(2)])
  with r r' show ?thesis by blast
qed

text \<open>Confirmations of correct nodes are for one root, and returned values belong to it.\<close>

lemma readies_agree:
  assumes "wf_cfg c" and "\<forall>(q, p, m) \<in> ms. q < cN c \<and> is_echo m = None \<and> is_ready m = None"
    and "reaches c h (start_sys (\<lambda>_. ini) ms) s"
    and "(q, p, m) \<in> net s" and "q \<notin> cbyz c" and "is_ready m = Some r"
    and "(q', p', m') \<in> net s" and "q' \<notin> cbyz c" and "is_ready m' = Some r'"
  shows "r = r'"
proof -
  have g: "good s"
    by (rule good_reaches [OF assms(3,1) good_start [OF assms(2)]])
  show ?thesis
    by (rule supported_unique [OF assms(1) goodD(4) [OF g assms(4-6)] goodD(4) [OF g assms(7-9)]])
qed

lemma returned_ready_root:
  assumes "wf_cfg c" and "\<forall>(q, p, m) \<in> ms. q < cN c \<and> is_echo m = None \<and> is_ready m = None"
    and "reaches c h (start_sys (\<lambda>_. ini) ms) s"
    and "(q, p, m) \<in> net s" and "q \<notin> cbyz c" and "is_ready m = Some r" and "ended s p' = Returned v"
  shows "for_root v r"
proof -
  have g: "good s"
    by (rule good_reaches [OF assms(3,1) good_start [OF assms(2)]])
  from good_returned [OF g assms(7)] obtain r' where r': "for_root v r'" "supported s r'" by blast
  have "r' = r"
    by (rule supported_unique [OF assms(1) r'(2) goodD(4) [OF g assms(4-6)]])
  with r' show ?thesis by simp
qed

end

text \<open>
  The leader's part: a node echoes only what the leader's first message gave it, and handlers never
  send such a message themselves.
\<close>

locale echo_ready_leader = echo_ready h inv c ini echoed echo_from ready_from is_echo is_ready for_root
  for h :: "nat \<Rightarrow> 's \<Rightarrow> nat \<times> 'm \<Rightarrow> ('s, 'm, 'r) reply" and inv :: "'s \<Rightarrow> bool" and c :: cfg
    and ini :: "'s" and echoed :: "'s \<Rightarrow> 'h option" and echo_from :: "'s \<Rightarrow> 'h \<Rightarrow> nat set"
    and ready_from :: "'s \<Rightarrow> 'h \<Rightarrow> nat set" and is_echo :: "'m \<Rightarrow> 'h option"
    and is_ready :: "'m \<Rightarrow> 'h option" and for_root :: "'r \<Rightarrow> 'h \<Rightarrow> bool" +
  fixes leader :: nat
    and is_val :: "'m \<Rightarrow> 'h option"
  assumes ini_quiet: "echoed ini = None"
    and echoed_source: "inv s \<Longrightarrow> h p s (q, m) = (s', outs, k) \<Longrightarrow> echoed s' = Some r \<Longrightarrow>
          echoed s = Some r \<or> q = leader \<and> is_val m = Some r"
    and no_val: "inv s \<Longrightarrow> h p s (q, m) = (s', outs, k) \<Longrightarrow> m' \<in> out_msg ` set outs \<Longrightarrow>
          is_val m' = None"
begin

definition from_leader :: "'h \<Rightarrow> ('s, 'm, 'r) sys \<Rightarrow> bool" where
  "from_leader r0 s \<longleftrightarrow>
     (\<forall>p r. echoed (loc s p) = Some r \<longrightarrow> r = r0) \<and>
     (\<forall>p m r. (leader, p, m) \<in> net s \<longrightarrow> is_val m = Some r \<longrightarrow> r = r0)"

lemma from_leader_step:
  assumes "leader \<notin> cbyz c" and "good s" and "from_leader r0 s" and "net_step c h s s'"
  shows "from_leader r0 s'"
  using assms(4)
proof cases
  case (deliver p q m l' outs k)
  note inv = goodD(1) [OF assms(2), of p]
  have "r = r0" if "echoed (loc s' x) = Some r" for x r
  proof (cases "x = p")
    case True
    then have "echoed l' = Some r" using that deliver by simp
    then have "echoed (loc s p) = Some r \<or> q = leader \<and> is_val m = Some r"
      by (rule echoed_source [OF inv deliver(6)])
    then show ?thesis
      using assms(3) deliver(4) unfolding from_leader_def by blast
  next
    case False
    then have "echoed (loc s x) = Some r" using that deliver by simp
    then show ?thesis
      using assms(3) unfolding from_leader_def by blast
  qed
  moreover have "r = r0" if "(leader, x, m') \<in> net s'" "is_val m' = Some r" for x m' r
  proof -
    have "(leader, x, m') \<in> net s \<or> m' \<in> out_msg ` set outs"
      using that(1) deliver by (auto dest: routed_msg)
    then show ?thesis
      using assms(3) no_val [OF inv deliver(6), of m'] that(2) unfolding from_leader_def by auto
  qed
  ultimately show ?thesis
    unfolding from_leader_def by blast
next
  case (forge q p m)
  with assms(1,3) show ?thesis
    by (auto simp: from_leader_def)
qed

lemma from_leader_reaches:
  assumes "wf_cfg c" and "leader \<notin> cbyz c" and "good s0" and "from_leader r0 s0" and "reaches c h s0 s"
  shows "from_leader r0 s"
  using assms(5)
proof (induction rule: reaches.induct)
  case start
  show ?case by (rule assms(4))
next
  case (step s s')
  then show ?case
    using from_leader_step [OF assms(2) good_reaches [OF step.hyps(1) assms(1,3)]] by blast
qed

text \<open>With a correct leader, a returned value belongs to the leader's root.\<close>

lemma returned_leader_root:
  assumes "wf_cfg c" and "leader \<notin> cbyz c"
    and "\<forall>(q, p, m) \<in> ms. q < cN c \<and> is_echo m = None \<and> is_ready m = None"
    and "\<forall>(q, p, m) \<in> ms. q = leader \<longrightarrow> is_val m \<in> {None, Some r0}"
    and "reaches c h (start_sys (\<lambda>_. ini) ms) s" and "ended s p = Returned v"
  shows "for_root v r0"
proof -
  have g0: "good (start_sys (\<lambda>_. ini) ms)"
    by (rule good_start [OF assms(3)])
  from good_returned [OF good_reaches [OF assms(5,1) g0] assms(6)] obtain r where
    r: "for_root v r" "supported s r"
    by blast
  have "from_leader r0 (start_sys (\<lambda>_. ini) ms)"
    using assms(4) ini_quiet unfolding from_leader_def start_sys_def by auto
  then have fl: "from_leader r0 s"
    by (rule from_leader_reaches [OF assms(1,2) g0 _ assms(5)])
  from r(2) obtain Q where Q: "nf_quorum c Q" "\<forall>x \<in> Q - cbyz c. echoed (loc s x) = Some r"
    unfolding supported_def by blast
  from nf.quorum_correct [OF assms(1) Q(1)] obtain x where "x \<in> Q" "x \<notin> cbyz c"
    by blast
  with Q(2) have "echoed (loc s x) = Some r" by blast
  with fl have "r = r0"
    unfolding from_leader_def by blast
  with r(1) show ?thesis by simp
qed

end

section \<open>Properties of single calls, lifted to runs\<close>

text \<open>What holds of every value a handler returns holds of every value a node has returned.\<close>

lemma reaches_returned:
  assumes "reaches c h (start_sys ini ms) s" and "ended s p = Returned v"
    and "\<And>p l e l' outs v. h p l e = (l', outs, Returned v) \<Longrightarrow> P v"
  shows "P v"
  using assms(1,2)
proof (induction arbitrary: p v rule: reaches.induct)
  case start
  then show ?case by (simp add: start_sys_def)
next
  case (step s s')
  from step.hyps(2) show ?case
  proof cases
    case (deliver a q m l' outs k)
    then show ?thesis
      using step.IH step.prems assms(3) [of a "loc s a" "(q, m)" l' outs] by (auto split: if_splits)
  next
    case (forge q a m)
    then show ?thesis using step.IH step.prems by simp
  qed
qed

lemma ini_ended: "ended (start_sys ini ms) p = Running"
  by (simp add: start_sys_def)

text \<open>
  A property of a node and the messages it has sent that every call of the handler keeps, when the
  messages of correct nodes satisfy \<open>plain_ok\<close>, holds of all correct nodes in every run.
\<close>

locale sender_invariant =
  fixes c :: cfg
    and h :: "nat \<Rightarrow> 's \<Rightarrow> nat \<times> 'm \<Rightarrow> ('s, 'm, 'r) reply"
    and node_ok :: "nat \<Rightarrow> 's \<Rightarrow> bool"
    and plain_ok :: "nat \<Rightarrow> 'm \<Rightarrow> bool"
    and msg_ok :: "nat \<Rightarrow> 's \<Rightarrow> 'm \<Rightarrow> bool"
  assumes node_step: "node_ok p s \<Longrightarrow> (q \<notin> cbyz c \<longrightarrow> plain_ok q m) \<Longrightarrow> h p s (q, m) = (s', outs, k) \<Longrightarrow>
          node_ok p s'"
    and plain_new: "node_ok p s \<Longrightarrow> (q \<notin> cbyz c \<longrightarrow> plain_ok q m) \<Longrightarrow> h p s (q, m) = (s', outs, k) \<Longrightarrow>
          m' \<in> out_msg ` set outs \<Longrightarrow> plain_ok p m'"
    and msg_stable: "node_ok p s \<Longrightarrow> (q \<notin> cbyz c \<longrightarrow> plain_ok q m) \<Longrightarrow> h p s (q, m) = (s', outs, k) \<Longrightarrow>
          msg_ok p s m' \<Longrightarrow> msg_ok p s' m'"
    and msg_new: "node_ok p s \<Longrightarrow> (q \<notin> cbyz c \<longrightarrow> plain_ok q m) \<Longrightarrow> h p s (q, m) = (s', outs, k) \<Longrightarrow>
          m' \<in> out_msg ` set outs \<Longrightarrow> msg_ok p s' m'"
begin

definition senders_ok :: "('s, 'm, 'r) sys \<Rightarrow> bool" where
  "senders_ok s \<longleftrightarrow> (\<forall>p. node_ok p (loc s p)) \<and>
     (\<forall>(q, p, m) \<in> net s. q \<notin> cbyz c \<longrightarrow> plain_ok q m \<and> msg_ok q (loc s q) m)"

lemma senders_okD:
  assumes "senders_ok s"
  shows "node_ok p (loc s p)"
    and "(q, p', m) \<in> net s \<Longrightarrow> q \<notin> cbyz c \<Longrightarrow> plain_ok q m"
    and "(q, p', m) \<in> net s \<Longrightarrow> q \<notin> cbyz c \<Longrightarrow> msg_ok q (loc s q) m"
  using assms unfolding senders_ok_def by fast+

lemma senders_ok_step:
  assumes "senders_ok s" and "net_step c h s s'"
  shows "senders_ok s'"
  using assms(2)
proof cases
  case (deliver p q m l' outs k)
  note ok = senders_okD [OF assms(1)]
  have plain: "q \<notin> cbyz c \<longrightarrow> plain_ok q m" using ok(2) deliver(4) by blast
  note laws = node_step [OF ok(1) plain deliver(6)] plain_new [OF ok(1) plain deliver(6)]
    msg_stable [OF ok(1) plain deliver(6)] msg_new [OF ok(1) plain deliver(6)]
  have "node_ok a (loc s' a)" for a
    using ok(1) laws(1) deliver(1) by simp
  moreover have "plain_ok a m' \<and> msg_ok a (loc s' a) m'" if "(a, b, m') \<in> net s'" "a \<notin> cbyz c" for a b m'
  proof (cases "(a, b, m') \<in> net s")
    case True
    then show ?thesis
      using ok(2,3) [OF True] that(2) laws(3) deliver(1) by auto
  next
    case False
    then have "a = p \<and> m' \<in> out_msg ` set outs"
      using that(1) deliver(1) by (auto dest: routed_msg)
    then show ?thesis using laws(2,4) deliver(1) by simp
  qed
  ultimately show ?thesis unfolding senders_ok_def by blast
next
  case (forge q p m)
  then show ?thesis using assms(1) by (auto simp: senders_ok_def)
qed

lemma senders_ok_reaches: "reaches c h s0 s \<Longrightarrow> senders_ok s0 \<Longrightarrow> senders_ok s"
  by (induction rule: reaches.induct) (blast intro: senders_ok_step)+

lemma reach_node:
  assumes "reaches c h s0 s" and "\<forall>p. node_ok p (loc s0 p)"
    and "\<forall>(q, p, m) \<in> net s0. q \<notin> cbyz c \<longrightarrow> plain_ok q m \<and> msg_ok q (loc s0 q) m"
  shows "node_ok p (loc s p)"
proof (rule senders_okD(1) [OF senders_ok_reaches [OF assms(1)]])
  show "senders_ok s0" unfolding senders_ok_def using assms(2,3) by blast
qed

lemma reach_msg:
  assumes "reaches c h s0 s" and "\<forall>p. node_ok p (loc s0 p)"
    and "\<forall>(q, p, m) \<in> net s0. q \<notin> cbyz c \<longrightarrow> plain_ok q m \<and> msg_ok q (loc s0 q) m"
    and "(q, p, m) \<in> net s" and "q \<notin> cbyz c"
  shows "plain_ok q m" and "msg_ok q (loc s q) m"
proof -
  have "senders_ok s0" unfolding senders_ok_def using assms(2,3) by blast
  from senders_ok_reaches [OF assms(1) this] have ok: "senders_ok s" .
  show "plain_ok q m" "msg_ok q (loc s q) m"
    using senders_okD(2,3) [OF ok assms(4,5)] by simp_all
qed

lemma reach_returned:
  assumes "reaches c h s0 s" and "\<forall>p. node_ok p (loc s0 p)"
    and "\<forall>(q, p, m) \<in> net s0. q \<notin> cbyz c \<longrightarrow> plain_ok q m \<and> msg_ok q (loc s0 q) m"
    and "\<forall>p. ended s0 p = Running"
    and P: "\<And>p l q m l' outs v. p \<notin> cbyz c \<Longrightarrow> node_ok p l \<Longrightarrow> (q \<notin> cbyz c \<longrightarrow> plain_ok q m) \<Longrightarrow>
      h p l (q, m) = (l', outs, Returned v) \<Longrightarrow> P p v"
    and "ended s p = Returned v"
  shows "P p v"
  using assms(1,6)
proof (induction arbitrary: p v rule: reaches.induct)
  case start
  then show ?case using assms(4) by simp
next
  case (step s s')
  from step.hyps(2) show ?case
  proof cases
    case (deliver a q m l' outs k)
    have "q \<notin> cbyz c \<longrightarrow> plain_ok q m"
      using reach_msg(1) [OF step.hyps(1) assms(2,3) deliver(4)] by blast
    note P = P [OF deliver(3) reach_node [OF step.hyps(1) assms(2,3)] this, of l' outs]
    show ?thesis
      using P deliver(1,6) step.IH step.prems by (cases "p = a") auto
  next
    case (forge q a m)
    then show ?thesis using step.IH step.prems by simp
  qed
qed

end

end
