(* ===== verification/Coin.thy ===== *)
theory Coin
  imports ThreshSig AsyncNet
begin

text \<open>
  The common coin, \<open>shared_coin\<close> of \<open>src/honeybadgerbft/core/commoncoin.py\<close>. The state holds the
  table \<open>received\<close> and the one-place queues \<open>outputQueue\<close>. Two pseudo-messages of a node to itself
  stand for its callers: \<open>GETCOIN r\<close> is the first half of \<open>getCoin(r)\<close>, up to the blocking \<open>get\<close>,
  and \<open>TAKE r\<close> the moment \<open>get\<close> returns. Hash functions and the serialisation of group elements are
  parameters.
\<close>

section \<open>Model\<close>

record ('z, 'g, 'h, 't, 'r) coin_env =
  oN :: nat
  oF :: nat
  oP :: "('z, 'g, 'h, 't) pairing"
  oPK :: "'h tbls_key"
  oSK :: "'z list"
  oHash :: "'r \<Rightarrow> 'g"
  oSer :: "'g \<Rightarrow> bytes"
  oDeser :: "bytes \<Rightarrow> py_error + 'g"
  oSha :: "bytes \<Rightarrow> bytes"
  oBit :: bool

datatype 'r coin_msg = COIN 'r bytes | GETCOIN 'r | TAKE 'r

record ('g, 'r) coin_state =
  o_received :: "'r \<Rightarrow> (nat, 'g) odict"
  o_queue :: "'r \<Rightarrow> nat list"
  o_coins :: "('r \<times> nat) list"

text \<open>\<open>shared_coin\<close>: its two asserts, and the empty tables.\<close>

definition coin_init :: "('g, 'r) coin_state" where
  "coin_init = \<lparr>o_received = (\<lambda>_. []), o_queue = (\<lambda>_. []), o_coins = []\<rparr>"

definition shared_coin :: "('z, 'g, 'h, 't, 'r) coin_env \<Rightarrow> py_error + ('g, 'r) coin_state" where
  "shared_coin E =
     (if tk (oPK E) = oF E + 1 \<and> tl (oPK E) = oN E then Inr coin_init else Inl AssertionError)"

definition coin_of :: "('z, 'g, 'h, 't, 'r) coin_env \<Rightarrow> 'g \<Rightarrow> py_error + nat" where
  "coin_of E sig =
     res_bind (py_index (oSha E (oSer E sig)) 0) (\<lambda>b. Inr (if oBit E then unat b mod 2 else unat b))"

definition put_nowait :: "'v list \<Rightarrow> 'v \<Rightarrow> py_error + 'v list" where
  "put_nowait q v = (if q = [] then Inr [v] else Inl QueueFull)"

text \<open>When the threshold is reached: combine, verify, hash, and hand the coin over.\<close>

definition coin_combine ::
    "('z::field, 'g, 'h, 't, 'r) coin_env \<Rightarrow> ('g, 'r) coin_state \<Rightarrow> 'r \<Rightarrow> 'g \<Rightarrow> py_error + ('g, 'r) coin_state" where
  "coin_combine E s r h =
     res_bind (combine_shares (oP E) (oPK E) (take (oF E + 1) (o_received s r))) (\<lambda>sig.
     res_bind (verify_signature (oP E) (oPK E) sig h) (\<lambda>_.
     res_bind (coin_of E sig) (\<lambda>c.
     res_bind (put_nowait (o_queue s r) c) (\<lambda>q.
       Inr (s\<lparr>o_queue := (o_queue s)(r := q)\<rparr>)))))"

definition coin_recv ::
    "('z::field, 'g, 'h, 't, 'r) coin_env \<Rightarrow> nat \<Rightarrow> ('g, 'r) coin_state \<Rightarrow> nat \<Rightarrow> 'r \<Rightarrow> bytes \<Rightarrow>
       (('g, 'r) coin_state, 'r coin_msg, unit) reply" where
  "coin_recv E pid s i r raw =
     (case oDeser E raw of
        Inl e \<Rightarrow> (s, [], Raised e)
      | Inr sig \<Rightarrow>
          if \<not> i < oN E then (s, [], Raised AssertionError)
          else if i \<in> fst ` set (o_received s r) then stay s
          else let h = oHash E r in
            (case (if i \<noteq> pid then verify_share (oP E) (oPK E) sig i h else Inr True) of
               Inl e \<Rightarrow> if e = AssertionError then stay s else (s, [], Raised e)
             | Inr _ \<Rightarrow>
                 let s1 = s\<lparr>o_received := (o_received s)(r := od_set i sig (o_received s r))\<rparr> in
                 if length (o_received s1 r) = oF E + 1
                 then (case coin_combine E s1 r h of Inl e \<Rightarrow> (s1, [], Raised e) | Inr s2 \<Rightarrow> stay s2)
                 else stay s1))"

definition getCoin ::
    "('z, 'g, 'h, 't, 'r) coin_env \<Rightarrow> nat \<Rightarrow> ('g, 'r) coin_state \<Rightarrow> 'r \<Rightarrow>
       (('g, 'r) coin_state, 'r coin_msg, unit) reply" where
  "getCoin E pid s r =
     (let h = oHash E r; sig = tsign (oP E) (oSK E ! pid) h in
      (s, to_all (oN E) (COIN r (oSer E sig)),
       (case verify_share (oP E) (oPK E) sig pid h of Inl e \<Rightarrow> Raised e | Inr _ \<Rightarrow> Running)))"

definition take_coin :: "('g, 'r) coin_state \<Rightarrow> 'r \<Rightarrow> (('g, 'r) coin_state, 'r coin_msg, unit) reply" where
  "take_coin s r =
     (case o_queue s r of
        [] \<Rightarrow> stay s
      | c # q \<Rightarrow> stay (s\<lparr>o_queue := (o_queue s)(r := q), o_coins := o_coins s @ [(r, c)]\<rparr>))"

definition coin_step ::
    "('z::field, 'g, 'h, 't, 'r) coin_env \<Rightarrow> nat \<Rightarrow> ('g, 'r) coin_state \<Rightarrow> nat \<times> 'r coin_msg \<Rightarrow>
       (('g, 'r) coin_state, 'r coin_msg, unit) reply" where
  "coin_step E pid s e =
     (case e of (i, m) \<Rightarrow>
       (case m of
          COIN r raw \<Rightarrow> coin_recv E pid s i r raw
        | GETCOIN r \<Rightarrow> if i = pid then getCoin E pid s r else stay s
        | TAKE r \<Rightarrow> if i = pid then take_coin s r else stay s))"

section \<open>What is assumed of the keys and encodings\<close>

text \<open>
  The keys are those of a dealer with polynomial \<open>a\<close>, group elements survive serialisation, and a
  digest is not empty.
\<close>

definition coin_setup :: "('z::field, 'g, 'h, 't, 'r) coin_env \<Rightarrow> 'z list \<Rightarrow> bool" where
  "coin_setup E a \<longleftrightarrow>
     pairing_ok (oP E) \<and> inj_on (point :: nat \<Rightarrow> 'z) {..<oN E} \<and>
     dealer (oP E) (oN E) (oF E + 1) a = Inr (oPK E, oSK E) \<and>
     (\<forall>g. oDeser E (oSer E g) = Inr g) \<and> (\<forall>b. oSha E b \<noteq> [])"

definition coin_value :: "('z::field, 'g, 'h, 't, 'r) coin_env \<Rightarrow> 'z list \<Rightarrow> 'r \<Rightarrow> nat" where
  "coin_value E a r =
     (let b = hd (oSha E (oSer E (tsign (oP E) (polynom_eval 0 a) (oHash E r))))
      in if oBit E then unat b mod 2 else unat b)"

lemma coin_setupD:
  fixes E :: "('z::field, 'g, 'h, 't, 'r) coin_env"
  assumes "coin_setup E a"
  shows "pairing_ok (oP E)" and "inj_on (point :: nat \<Rightarrow> 'z) {..<oN E}"
    and "dealer (oP E) (oN E) (oF E + 1) a = Inr (oPK E, oSK E)"
    and "oDeser E (oSer E g) = Inr g" and "oSha E b \<noteq> []"
    and "oPK E = fst (key_of (oP E) (oN E) (oF E + 1) a)"
    and "oSK E = snd (key_of (oP E) (oN E) (oF E + 1) a)"
    and "tl (oPK E) = oN E" and "tk (oPK E) = oF E + 1"
proof -
  show d: "pairing_ok (oP E)" "inj_on (point :: nat \<Rightarrow> 'z) {..<oN E}"
    "dealer (oP E) (oN E) (oF E + 1) a = Inr (oPK E, oSK E)"
    "oDeser E (oSer E g) = Inr g" "oSha E b \<noteq> []"
    using assms unfolding coin_setup_def by auto
  from dealer_key_of [OF d(3)]
  show k: "oPK E = fst (key_of (oP E) (oN E) (oF E + 1) a)" "oSK E = snd (key_of (oP E) (oN E) (oF E + 1) a)"
    by (simp_all add: prod_eq_iff)
  show "tl (oPK E) = oN E" "tk (oPK E) = oF E + 1"
    unfolding k by (simp_all add: key_of_def)
qed

lemma coin_of_value:
  assumes "coin_setup E a"
  shows "coin_of E (tsign (oP E) (polynom_eval 0 a) (oHash E r)) = Inr (coin_value E a r)"
  using coin_setupD(5) [OF assms]
  by (auto simp: coin_of_def coin_value_def Let_def py_index_def hd_conv_nth)

section \<open>The invariant of a node\<close>

definition coin_inv ::
    "('z::field, 'g, 'h, 't, 'r) coin_env \<Rightarrow> 'z list \<Rightarrow> nat \<Rightarrow> ('g, 'r) coin_state \<Rightarrow> bool" where
  "coin_inv E a pid s \<longleftrightarrow>
     (\<forall>r. distinct (map fst (o_received s r)) \<and>
        (\<forall>(i, sig) \<in> set (o_received s r). verify_share (oP E) (oPK E) sig i (oHash E r) = Inr True) \<and>
        set (o_queue s r) \<subseteq> {coin_value E a r} \<and>
        (length (o_received s r) < oF E + 1 \<longrightarrow> o_queue s r = [])) \<and>
     (\<forall>(r, c) \<in> set (o_coins s). c = coin_value E a r)"

lemma coin_invD:
  assumes "coin_inv E a pid s"
  shows "distinct (map fst (o_received s r))"
    and "\<forall>(i, sig) \<in> set (o_received s r). verify_share (oP E) (oPK E) sig i (oHash E r) = Inr True"
    and "set (o_queue s r) \<subseteq> {coin_value E a r}"
    and "length (o_received s r) < oF E + 1 \<Longrightarrow> o_queue s r = []"
    and "(r, c) \<in> set (o_coins s) \<Longrightarrow> c = coin_value E a r"
  using assms unfolding coin_inv_def by blast+

lemma coin_init_inv: "coin_inv E a pid coin_init"
  by (simp add: coin_inv_def coin_init_def)

lemma coin_combine_ok:
  assumes su: "coin_setup E a" and i: "coin_inv E a pid s" and len: "length (o_received s r) = oF E + 1"
    and q: "o_queue s r = []"
  shows "coin_combine E s r (oHash E r) = Inr (s\<lparr>o_queue := (o_queue s)(r := [coin_value E a r])\<rparr>)"
proof -
  have "combine_shares (oP E) (oPK E) (o_received s r) = Inr (tsign (oP E) (polynom_eval 0 a) (oHash E r)) \<and>
      verify_signature (oP E) (oPK E) (tsign (oP E) (polynom_eval 0 a) (oHash E r)) (oHash E r) = Inr True"
    by (rule threshold_signature_aux [OF coin_setupD(1-3) [OF su] coin_invD(1) [OF i] len coin_invD(2) [OF i]])
  then show ?thesis
    using len q by (simp add: coin_combine_def coin_of_value [OF su] put_nowait_def)
qed

text \<open>The outcomes of one \<open>COIN\<close> message, when a node's own share is genuine.\<close>

lemma coin_recv_cases:
  assumes su: "coin_setup E a" and inv: "coin_inv E a pid s"
    and own: "i = pid \<Longrightarrow> oDeser E raw = Inr sig \<Longrightarrow> verify_share (oP E) (oPK E) sig i (oHash E r) = Inr True"
    and d: "oDeser E raw = Inr sig" and i: "i < oN E"
  shows "\<exists>s'. coin_recv E pid s i r raw = stay s' \<and> coin_inv E a pid s' \<and>
    (i \<in> fst ` set (o_received s r) \<or> verify_share (oP E) (oPK E) sig i (oHash E r) \<noteq> Inr True \<longrightarrow> s' = s) \<and>
    (i \<notin> fst ` set (o_received s r) \<and> verify_share (oP E) (oPK E) sig i (oHash E r) = Inr True \<longrightarrow>
      o_received s' = (o_received s)(r := od_set i sig (o_received s r)) \<and>
      o_queue s' = (if length (o_received s' r) = oF E + 1
                    then (o_queue s)(r := [coin_value E a r]) else o_queue s))"
proof -
  have vs: "verify_share (oP E) (oPK E) sig i (oHash E r) \<in> {Inr True, Inl AssertionError}"
    using i coin_setupD(8) [OF su]
    by (auto simp: verify_share_def coin_setupD(6) [OF su] key_of_def)
  consider (dup) "i \<in> fst ` set (o_received s r)"
    | (bad) "i \<notin> fst ` set (o_received s r)" "verify_share (oP E) (oPK E) sig i (oHash E r) = Inl AssertionError"
    | (ok) "i \<notin> fst ` set (o_received s r)" "verify_share (oP E) (oPK E) sig i (oHash E r) = Inr True"
    using vs by blast
  then show ?thesis
  proof cases
    case dup
    then have "coin_recv E pid s i r raw = stay s" using d i by (simp add: coin_recv_def)
    then show ?thesis using inv dup by blast
  next
    case bad
    then have "i \<noteq> pid" using own [OF _ d] by auto
    then have "coin_recv E pid s i r raw = stay s" using d i bad by (simp add: coin_recv_def Let_def)
    then show ?thesis using inv bad by auto
  next
    case ok
    define s1 where "s1 = s\<lparr>o_received := (o_received s)(r := od_set i sig (o_received s r))\<rparr>"
    have len: "length (o_received s1 r) = Suc (length (o_received s r))"
      using ok(1) by (simp add: s1_def od_set_length)
    have inv1: "distinct (map fst (o_received s1 r'))"
      "\<forall>(i, sig) \<in> set (o_received s1 r'). verify_share (oP E) (oPK E) sig i (oHash E r') = Inr True" for r'
    proof -
      show "distinct (map fst (o_received s1 r'))"
        using coin_invD(1) [OF inv] by (simp add: s1_def od_set_distinct)
      show "\<forall>(i, sig) \<in> set (o_received s1 r'). verify_share (oP E) (oPK E) sig i (oHash E r') = Inr True"
        using coin_invD(2) [OF inv, of r'] ok(2)
        by (auto simp: s1_def od_set_mem [OF coin_invD(1) [OF inv]])
    qed
    have "length (o_received s1 r') < oF E + 1 \<Longrightarrow> o_queue s1 r' = []" for r'
      using coin_invD(4) [OF inv, of r'] len by (cases "r' = r") (auto simp: s1_def)
    then have i1: "coin_inv E a pid s1"
      using inv1 coin_invD(3,5) [OF inv] unfolding coin_inv_def by (fastforce simp: s1_def)
    have step: "coin_recv E pid s i r raw = (if length (o_received s1 r) = oF E + 1
        then (case coin_combine E s1 r (oHash E r) of Inl e \<Rightarrow> (s1, [], Raised e) | Inr s2 \<Rightarrow> stay s2)
        else stay s1)"
      using d i ok unfolding coin_recv_def Let_def s1_def by (auto split: sum.splits)
    show ?thesis
    proof (cases "length (o_received s1 r) = oF E + 1")
      case True
      then have "o_queue s1 r = []"
        using coin_invD(4) [OF inv, of r] len by (simp add: s1_def)
      from coin_combine_ok [OF su i1 True this] step True
      have "coin_recv E pid s i r raw = stay (s1\<lparr>o_queue := (o_queue s1)(r := [coin_value E a r])\<rparr>)" by simp
      moreover have "coin_inv E a pid (s1\<lparr>o_queue := (o_queue s1)(r := [coin_value E a r])\<rparr>)"
        using i1 True unfolding coin_inv_def by simp
      ultimately show ?thesis using ok True by (simp add: s1_def)
    next
      case False
      then have "coin_recv E pid s i r raw = stay s1" using step by simp
      then show ?thesis using i1 ok False by (simp add: s1_def)
    qed
  qed
qed

section \<open>The coin on the network\<close>

definition coin_cfg :: "('z, 'g, 'h, 't, 'r) coin_env \<Rightarrow> nat set \<Rightarrow> cfg" where
  "coin_cfg E B = \<lparr>cN = oN E, cf = oF E, cbyz = B\<rparr>"

text \<open>Any correct node may ask for the coin of any round, and take it, at any time.\<close>

definition coin_initial :: "('z, 'g, 'h, 't, 'r) coin_env \<Rightarrow> (nat \<times> nat \<times> 'r coin_msg) set \<Rightarrow>
    (('g, 'r) coin_state, 'r coin_msg, unit) sys" where
  "coin_initial E calls = start_sys (\<lambda>_. coin_init) calls"

definition coin_calls :: "(nat \<times> nat \<times> 'r coin_msg) set \<Rightarrow> bool" where
  "coin_calls calls \<longleftrightarrow> (\<forall>(q, p, m) \<in> calls. q = p \<and> (case m of COIN r raw \<Rightarrow> False | _ \<Rightarrow> True))"

definition coin_plain :: "('z::field, 'g, 'h, 't, 'r) coin_env \<Rightarrow> nat \<Rightarrow> 'r coin_msg \<Rightarrow> bool" where
  "coin_plain E q m \<longleftrightarrow>
     (case m of COIN r raw \<Rightarrow> raw = oSer E (tsign (oP E) (oSK E ! q) (oHash E r)) | _ \<Rightarrow> True)"

lemma own_share_genuine:
  assumes "coin_setup E a" and "coin_plain E q (COIN r raw)" and "oDeser E raw = Inr sig" and "q < oN E"
  shows "verify_share (oP E) (oPK E) sig q (oHash E r) = Inr True"
proof -
  have "sig = tsign (oP E) (oSK E ! q) (oHash E r)"
    using assms(2,3) coin_setupD(4) [OF assms(1)] by (simp add: coin_plain_def)
  then show ?thesis
    using verify_share_genuine [OF coin_setupD(1) [OF assms(1)] assms(4)] coin_setupD(6,7) [OF assms(1)] by metis
qed

lemma coin_step_inv:
  assumes su: "coin_setup E a" and inv: "coin_inv E a p s" and own: "q = p \<Longrightarrow> coin_plain E q m"
    and h: "coin_step E p s (q, m) = (s', outs, k)"
  shows "coin_inv E a p s'"
proof (cases m)
  case (COIN r raw)
  then have c: "coin_recv E p s q r raw = (s', outs, k)" using h by (simp add: coin_step_def)
  show ?thesis
  proof (cases "oDeser E raw")
    case (Inl e)
    then show ?thesis using c inv by (simp add: coin_recv_def)
  next
    case (Inr sig)
    show ?thesis
    proof (cases "q < oN E")
      case True
      have "q = p \<Longrightarrow> verify_share (oP E) (oPK E) sig q (oHash E r) = Inr True"
        using own_share_genuine [OF su _ Inr True] own COIN by simp
      from coin_recv_cases [OF su inv this Inr True] c show ?thesis by auto
    next
      case False
      then show ?thesis using c inv Inr by (simp add: coin_recv_def)
    qed
  qed
next
  case (GETCOIN r)
  then show ?thesis using h inv by (auto simp: coin_step_def getCoin_def Let_def split: if_splits)
next
  case (TAKE r)
  show ?thesis
  proof (cases "q = p \<and> o_queue s r \<noteq> []")
    case True
    then obtain c qs where cq: "o_queue s r = c # qs" by (cases "o_queue s r") auto
    then have "c = coin_value E a r" "set qs \<subseteq> {coin_value E a r}"
      using coin_invD(3) [OF inv, of r] by auto
    moreover have "\<not> length (o_received s r) < oF E + 1" using coin_invD(4) [OF inv, of r] cq by auto
    moreover have "s' = s\<lparr>o_queue := (o_queue s)(r := qs), o_coins := o_coins s @ [(r, c)]\<rparr>"
      using h TAKE True cq by (simp add: coin_step_def take_coin_def)
    ultimately show ?thesis using inv unfolding coin_inv_def by auto
  next
    case False
    then have "s' = s" using h TAKE by (auto simp: coin_step_def take_coin_def split: if_splits list.splits)
    then show ?thesis using inv by simp
  qed
qed

lemma coin_step_sends:
  assumes "coin_step E p s (q, m) = (s', outs, k)" and "m' \<in> out_msg ` set outs"
  shows "coin_plain E p m'"
proof (cases m)
  case (COIN r raw)
  have "out_of (coin_recv E p s q r raw) = []"
    by (auto simp: coin_recv_def Let_def split: sum.splits)
  then show ?thesis using assms COIN by (auto simp: coin_step_def)
next
  case (GETCOIN r)
  then show ?thesis using assms
    by (auto simp: coin_step_def getCoin_def Let_def to_all_def coin_plain_def split: if_splits)
next
  case (TAKE r)
  then show ?thesis using assms
    by (auto simp: coin_step_def take_coin_def split: if_splits list.splits)
qed

interpretation coin: sender_invariant "coin_cfg E B" "coin_step E"
    "\<lambda>p s. p \<notin> B \<longrightarrow> (\<forall>a. coin_setup E a \<longrightarrow> coin_inv E a p s)" "coin_plain E" "\<lambda>_ _ _. True"
  for E :: "('z::field, 'g, 'h, 't, 'r) coin_env" and B
proof (unfold_locales, goal_cases)
  case (1 p s q m s' outs k)
  then show ?case using coin_step_inv [of E _ p s q m s' outs k] by (auto simp: coin_cfg_def)
next
  case (2 p s q m s' outs k m')
  then show ?case using coin_step_sends by blast
qed auto

lemma coin_common_aux:
  assumes su: "coin_setup E a" and calls: "coin_calls calls"
    and r: "reaches (coin_cfg E B) (coin_step E) (coin_initial E calls) s"
    and p: "p \<notin> B" and c: "(rd, c) \<in> set (o_coins (loc s p))"
  shows "c = coin_value E a rd"
proof -
  have "p \<notin> B \<longrightarrow> (\<forall>a. coin_setup E a \<longrightarrow> coin_inv E a p (loc s p))"
  proof (rule coin.reach_node [OF r])
    show "\<forall>p. p \<notin> B \<longrightarrow> (\<forall>a. coin_setup E a \<longrightarrow> coin_inv E a p (loc (coin_initial E calls) p))"
      by (simp add: coin_initial_def start_sys_def coin_init_inv)
    show "\<forall>(q, p, m) \<in> net (coin_initial E calls). q \<notin> cbyz (coin_cfg E B) \<longrightarrow> coin_plain E q m \<and> True"
      using calls by (fastforce simp: coin_initial_def start_sys_def coin_calls_def coin_plain_def
          split: coin_msg.splits)
  qed
  with su p have "coin_inv E a p (loc s p)" by blast
  from coin_invD(5) [OF this c] show ?thesis .
qed

section \<open>Enough shares give the coin\<close>

text \<open>Events after which the receive loop goes on, and which do not take the coin of round \<open>rd\<close>.\<close>

definition fair_event :: "('z::field, 'g, 'h, 't, 'r) coin_env \<Rightarrow> nat \<Rightarrow> 'r \<Rightarrow> nat \<times> 'r coin_msg \<Rightarrow> bool" where
  "fair_event E p rd e \<longleftrightarrow>
     fst e < oN E \<and> (fst e = p \<longrightarrow> coin_plain E p (snd e)) \<and>
     (case snd e of COIN r raw \<Rightarrow> (case oDeser E raw of Inr sig \<Rightarrow> True | Inl _ \<Rightarrow> False)
      | GETCOIN r \<Rightarrow> True | TAKE r \<Rightarrow> r \<noteq> rd)"

definition coin_full :: "('z::field, 'g, 'h, 't, 'r) coin_env \<Rightarrow> 'z list \<Rightarrow> 'r \<Rightarrow> ('g, 'r) coin_state \<Rightarrow> bool" where
  "coin_full E a rd s \<longleftrightarrow> (oF E + 1 \<le> length (o_received s rd) \<longrightarrow> o_queue s rd = [coin_value E a rd])"

lemma own_verified:
  assumes "coin_setup E a" and "p < oN E"
  shows "verify_share (oP E) (oPK E) (tsign (oP E) (oSK E ! p) h) p h = Inr True"
  using verify_share_genuine [OF coin_setupD(1) [OF assms(1)] assms(2)] coin_setupD(6,7) [OF assms(1)] by metis

lemma fair_step:
  assumes su: "coin_setup E a" and p: "p < oN E" and inv: "coin_inv E a p s" and full: "coin_full E a rd s"
    and fe: "fair_event E p rd e"
  shows "\<exists>s' outs. coin_step E p s e = (s', outs, Running) \<and> coin_inv E a p s' \<and> coin_full E a rd s' \<and>
    fst ` set (o_received s rd) \<subseteq> fst ` set (o_received s' rd) \<and>
    (\<forall>q. e = (q, COIN rd (oSer E (tsign (oP E) (oSK E ! q) (oHash E rd)))) \<longrightarrow> q \<in> fst ` set (o_received s' rd))"
proof -
  obtain q m where e: "e = (q, m)" by (cases e)
  have q: "q < oN E" and own: "q = p \<Longrightarrow> coin_plain E q m" using fe e by (auto simp: fair_event_def)
  show ?thesis
  proof (cases m)
    case (COIN r raw)
    then obtain sig where d: "oDeser E raw = Inr sig"
      using fe e by (auto simp: fair_event_def split: sum.splits)
    have o: "q = p \<Longrightarrow> verify_share (oP E) (oPK E) sig q (oHash E r) = Inr True"
      using own_share_genuine [OF su _ d q] own COIN by simp
    from coin_recv_cases [OF su inv o d q] obtain s' where s': "coin_recv E p s q r raw = stay s'"
      "coin_inv E a p s'"
      and old: "q \<in> fst ` set (o_received s r) \<or> verify_share (oP E) (oPK E) sig q (oHash E r) \<noteq> Inr True \<Longrightarrow> s' = s"
      and new: "q \<notin> fst ` set (o_received s r) \<Longrightarrow> verify_share (oP E) (oPK E) sig q (oHash E r) = Inr True \<Longrightarrow>
        o_received s' = (o_received s)(r := od_set q sig (o_received s r)) \<and>
        o_queue s' = (if length (o_received s' r) = oF E + 1
                    then (o_queue s)(r := [coin_value E a r]) else o_queue s)"
      by blast
    have "coin_full E a rd s' \<and> fst ` set (o_received s rd) \<subseteq> fst ` set (o_received s' rd)"
    proof (cases "q \<notin> fst ` set (o_received s r) \<and> verify_share (oP E) (oPK E) sig q (oHash E r) = Inr True")
      case True
      with new have n: "o_received s' = (o_received s)(r := od_set q sig (o_received s r))"
        "o_queue s' = (if length (o_received s' r) = oF E + 1
                    then (o_queue s)(r := [coin_value E a r]) else o_queue s)" by blast+
      have "length (o_received s' r) = Suc (length (o_received s r))"
        using True n(1) by (simp add: od_set_length)
      then show ?thesis
        using full n unfolding coin_full_def by (auto simp: od_set_keys)
    next
      case False
      then show ?thesis using old full by blast
    qed
    moreover have "x \<in> fst ` set (o_received s' rd)"
      if "e = (x, COIN rd (oSer E (tsign (oP E) (oSK E ! x) (oHash E rd))))" for x
    proof -
      have x: "x = q" "r = rd" "raw = oSer E (tsign (oP E) (oSK E ! q) (oHash E r))"
        using that e COIN by auto
      then have "sig = tsign (oP E) (oSK E ! q) (oHash E r)"
        using d coin_setupD(4) [OF su] by simp
      then have "verify_share (oP E) (oPK E) sig q (oHash E r) = Inr True"
        using own_verified [OF su q] by simp
      then show ?thesis
        using old new x by (cases "q \<in> fst ` set (o_received s r)") (auto simp: od_set_keys)
    qed
    ultimately show ?thesis using s' e COIN by (auto simp: coin_step_def)
  next
    case (GETCOIN r)
    then have "coin_step E p s e = stay s \<or> coin_step E p s e = getCoin E p s r"
      by (simp add: e coin_step_def)
    moreover have "getCoin E p s r = (s, out_of (getCoin E p s r), Running)"
      using own_verified [OF su p] by (simp add: getCoin_def Let_def)
    ultimately show ?thesis using inv full e GETCOIN by (metis (no_types, lifting) coin_msg.distinct(1) prod.inject subset_refl)
  next
    case (TAKE r)
    then have r: "r \<noteq> rd" using fe e by (simp add: fair_event_def)
    obtain s' where s': "coin_step E p s e = stay s'" "o_received s' = o_received s" "o_queue s' rd = o_queue s rd"
    proof (cases "q = p \<and> o_queue s r \<noteq> []")
      case True
      then obtain c qs where "o_queue s r = c # qs" by (cases "o_queue s r") auto
      with True r TAKE e that show ?thesis by (simp add: coin_step_def take_coin_def)
    next
      case False
      then have "coin_step E p s e = stay s" using TAKE e by (auto simp: coin_step_def take_coin_def)
      with that show ?thesis by blast
    qed
    moreover have "coin_inv E a p s'"
      using coin_step_inv [OF su inv own] s'(1) e by blast
    ultimately show ?thesis using full e TAKE by (auto simp: coin_full_def)
  qed
qed

lemma fair_run:
  assumes su: "coin_setup E a" and p: "p < oN E"
  shows "coin_inv E a p s \<Longrightarrow> coin_full E a rd s \<Longrightarrow> \<forall>e \<in> set es. fair_event E p rd e \<Longrightarrow>
    \<exists>s' outs. run_loop (coin_step E p) s es = (s', outs, Running) \<and> coin_inv E a p s' \<and> coin_full E a rd s' \<and>
      fst ` set (o_received s rd) \<subseteq> fst ` set (o_received s' rd) \<and>
      (\<forall>q. (q, COIN rd (oSer E (tsign (oP E) (oSK E ! q) (oHash E rd)))) \<in> set es \<longrightarrow>
        q \<in> fst ` set (o_received s' rd))"
proof (induction es arbitrary: s)
  case Nil
  then show ?case by simp
next
  case (Cons e es)
  have fe: "fair_event E p rd e" using Cons.prems(3) by simp
  from fair_step [OF su p Cons.prems(1,2) fe] obtain s1 o1 where
    s1: "coin_step E p s e = (s1, o1, Running)" "coin_inv E a p s1" "coin_full E a rd s1"
    "fst ` set (o_received s rd) \<subseteq> fst ` set (o_received s1 rd)"
    "\<forall>q. e = (q, COIN rd (oSer E (tsign (oP E) (oSK E ! q) (oHash E rd)))) \<longrightarrow> q \<in> fst ` set (o_received s1 rd)"
    by blast
  from Cons.IH [OF s1(2,3)] Cons.prems(3) obtain s2 o2 where
    s2: "run_loop (coin_step E p) s1 es = (s2, o2, Running)" "coin_inv E a p s2" "coin_full E a rd s2"
    "fst ` set (o_received s1 rd) \<subseteq> fst ` set (o_received s2 rd)"
    "\<forall>q. (q, COIN rd (oSer E (tsign (oP E) (oSK E ! q) (oHash E rd)))) \<in> set es \<longrightarrow>
      q \<in> fst ` set (o_received s2 rd)"
    by auto
  then have "run_loop (coin_step E p) s (e # es) = (s2, o1 @ o2, Running)" using s1(1) by simp
  moreover have "q \<in> fst ` set (o_received s2 rd)"
    if "(q, COIN rd (oSer E (tsign (oP E) (oSK E ! q) (oHash E rd)))) \<in> set (e # es)" for q
    using that s1(5) s2(4,5) by auto
  ultimately show ?case using s1(4) s2(2-4) by blast
qed

lemma coin_delivers_aux:
  assumes su: "coin_setup E a" and p: "p < oN E" and fair: "\<forall>e \<in> set es. fair_event E p rd e"
    and Q: "oF E + 1 \<le> card Q"
    and sh: "\<forall>q \<in> Q. (q, COIN rd (oSer E (tsign (oP E) (oSK E ! q) (oHash E rd)))) \<in> set es"
  shows "\<exists>s outs. run_loop (coin_step E p) coin_init es = (s, outs, Running) \<and>
    o_queue s rd = [coin_value E a rd]"
proof -
  have "coin_full E a rd (coin_init :: ('b, 'e) coin_state)" by (simp add: coin_full_def coin_init_def)
  from fair_run [OF su p coin_init_inv this fair] obtain s outs where
    s: "run_loop (coin_step E p) coin_init es = (s, outs, Running)" "coin_inv E a p s" "coin_full E a rd s"
    "\<forall>q. (q, COIN rd (oSer E (tsign (oP E) (oSK E ! q) (oHash E rd)))) \<in> set es \<longrightarrow>
      q \<in> fst ` set (o_received s rd)"
    by blast
  have "Q \<subseteq> fst ` set (o_received s rd)" using sh s(4) by blast
  then have "card Q \<le> card (fst ` set (o_received s rd))" by (intro card_mono) auto
  also have "\<dots> \<le> length (o_received s rd)"
    by (metis card_length length_map list.set_map)
  finally have "o_queue s rd = [coin_value E a rd]" using s(3) Q by (simp add: coin_full_def)
  with s(1) show ?thesis by blast
qed

section \<open>Properties\<close>

text \<open>
  The coin is common. In any run with Byzantine nodes \<open>B\<close>, every coin a correct node takes for a
  round is the one value that the dealer's secret determines for that round, so that any two correct
  nodes get the same coin, whichever shares they combined.
\<close>

theorem coin_common:
  assumes "coin_setup E a" and "coin_calls calls"
    and "reaches (coin_cfg E B) (coin_step E) (coin_initial E calls) s"
    and "p \<notin> B" and "(rd, c) \<in> set (o_coins (loc s p))"
  shows "c = coin_value E a rd"
  using assms by (rule coin_common_aux)

text \<open>
  C13: The coin is delivered. Once a node has got the genuine shares of \<open>f+1\<close> members for a round, its
  coin of that round is in the queue, whatever decodable messages came before, between or after them
  (invalid shares included), and no exception has ended the loop.
\<close>

theorem coin_delivers:
  assumes "coin_setup E a" and "p < oN E" and "\<forall>e \<in> set es. fair_event E p rd e"
    and "oF E + 1 \<le> card Q"
    and "\<forall>q \<in> Q. (q, COIN rd (oSer E (tsign (oP E) (oSK E ! q) (oHash E rd)))) \<in> set es"
  shows "\<exists>s outs. run_loop (coin_step E p) coin_init es = (s, outs, Running) \<and>
    o_queue s rd = [coin_value E a rd]"
  using assms by (rule coin_delivers_aux)

section \<open>Witnesses\<close>

text \<open>Rationals written as sign, numerator and denominator in unary.\<close>

definition rat_ser :: "rat \<Rightarrow> bytes" where
  "rat_ser g = (case quotient_of g of (n, d) \<Rightarrow>
     (if n < 0 then 1 else 0) # replicate (nat \<bar>n\<bar>) 1 @ 0 # replicate (nat d) 1)"

definition rat_deser :: "bytes \<Rightarrow> py_error + rat" where
  "rat_deser b =
     (case b of
        [] \<Rightarrow> Inl ValueError
      | s # xs \<Rightarrow>
          let n = length (takeWhile (\<lambda>x. x = 1) xs); d = length xs - n - 1
          in Inr ((if s = 1 then - of_nat n else of_nat n) / of_nat d))"

lemma rat_round_trip: "rat_deser (rat_ser g) = Inr g"
proof -
  obtain n d where q: "quotient_of g = (n, d)" by (cases "quotient_of g")
  have "takeWhile (\<lambda>x. x = 1) (replicate k (1 :: 8 word) @ 0 # ys) = replicate k 1" for k ys
    by (induction k) simp_all
  then have "rat_deser (rat_ser g) = Inr (of_int n / of_int d)"
    using quotient_of_denom_pos [OF q] by (simp add: rat_ser_def rat_deser_def q Let_def)
  then show ?thesis using quotient_of_div [OF q] by simp
qed

definition ex_coin :: "(rat, rat, rat, rat, nat) coin_env" where
  "ex_coin = \<lparr>oN = 4, oF = 1, oP = ex_pairing, oPK = fst (key_of ex_pairing 4 2 [5, 2]),
     oSK = snd (key_of ex_pairing 4 2 [5, 2]), oHash = (\<lambda>r. of_nat (r + 3)), oSer = rat_ser, oDeser = rat_deser,
     oSha = (\<lambda>b. [of_nat (length b)]), oBit = True\<rparr>"

lemma ex_coin_setup: "coin_setup ex_coin [5, 2]"
  using dealer_total [of "[5, 2]" 2 4 ex_pairing, OF _ _ _ point_rat_inj]
  by (simp add: coin_setup_def ex_coin_def ex_pairing_ok point_rat_inj rat_round_trip numeral_2_eq_2)

lemma ex_coin_value: "coin_value ex_coin [5, 2] 0 = 0"
  by code_simp

definition ex_share :: "nat \<Rightarrow> nat \<times> nat coin_msg" where
  "ex_share q = (q, COIN 0 (oSer ex_coin (tsign (oP ex_coin) (oSK ex_coin ! q) (oHash ex_coin 0))))"

lemma ex_fair:
  "\<forall>e \<in> set [ex_share 2, (3, COIN 0 [0, 1, 0, 1]), (0, GETCOIN 0), ex_share 0]. fair_event ex_coin 0 0 e"
  by code_simp

theorem coin_delivers_witness:
  "\<exists>s outs. run_loop (coin_step ex_coin 0) coin_init
      [ex_share 2, (3, COIN 0 [0, 1, 0, 1]), (0, GETCOIN 0), ex_share 0] = (s, outs, Running) \<and>
    o_queue s 0 = [0]"
  using coin_delivers [OF ex_coin_setup _ ex_fair, of "{0, 2}"]
  by (simp add: ex_share_def ex_coin_value) (simp add: ex_coin_def)

definition ex_coin_calls :: "(nat \<times> nat \<times> nat coin_msg) list" where
  "ex_coin_calls = [(0, 0, GETCOIN 0), (1, 1, GETCOIN 0), (1, 1, TAKE 0)]"

definition ex_coin_final :: "((rat, nat) coin_state, nat coin_msg, unit) sys" where
  "ex_coin_final = deliver_all (coin_cfg ex_coin {3}) (coin_step ex_coin)
     (coin_initial ex_coin (set ex_coin_calls))
     [(0, 0, GETCOIN 0), (1, 1, GETCOIN 0), (0, 1, snd (ex_share 0)), (1, 1, snd (ex_share 1)), (1, 1, TAKE 0)]"

lemma ex_coin_taken: "(0, 0) \<in> set (o_coins (loc ex_coin_final 1))"
  by code_simp

theorem coin_common_witness: "(0::nat) = coin_value ex_coin [5, 2] 0"
proof (rule coin_common [OF ex_coin_setup _ _ _ ex_coin_taken])
  show "coin_calls (set ex_coin_calls)" by code_simp
  show "reaches (coin_cfg ex_coin {3}) (coin_step ex_coin) (coin_initial ex_coin (set ex_coin_calls)) ex_coin_final"
    unfolding ex_coin_final_def by (rule deliver_all_reaches [OF reaches.start])
  show "(1::nat) \<notin> {3}" by simp
qed

end
