(* ===== verification/BA.thy ===== *)
theory BA
  imports AsyncNet
begin

text \<open>
  Binary agreement: \<open>binaryagreement\<close> of \<open>src/honeybadgerbft/core/binaryagreement.py\<close> and its
  variant \<open>baisedbinaryagreement\<close> of \<open>src/dumbobft/core/baisedbinaryagreement.py\<close>, which tolerates
  repeated messages and fixes the first coin. The state holds the message tables the receive greenlet
  fills and the local variables of the main loop; \<open>ba_phase\<close> says at which wait the main loop stands.
  The pseudo-message \<open>RUN\<close> of a node to itself resumes its main loop, which then advances to the next
  wait if its condition holds: any interleaving of the two greenlets is a delivery order. Python
  iterates a set of the bits 0 and 1 in increasing order, which \<open>bit_tuple\<close> writes out.
\<close>

section \<open>Model\<close>

text \<open>\<open>astrict\<close>: redundant messages are skipped or raise, as in \<open>binaryagreement\<close>.\<close>

record ba_env =
  aN :: nat
  af :: nat
  astrict :: bool
  acoin :: "nat \<Rightarrow> nat"

datatype ba_msg = EST nat nat | AUX nat nat | CONF nat "nat list" | RUN

datatype ba_phase = Entering | WaitBin | WaitAux | WaitConf | WaitCoin "nat list"

record ba_state =
  a_est :: "nat \<Rightarrow> nat \<Rightarrow> nat set"
  a_aux :: "nat \<Rightarrow> nat \<Rightarrow> nat set"
  a_conf :: "nat \<Rightarrow> nat list \<Rightarrow> nat set"
  a_est_sent :: "nat \<Rightarrow> nat \<Rightarrow> bool"
  a_conf_sent :: "nat \<Rightarrow> nat list \<Rightarrow> bool"
  a_bin :: "nat \<Rightarrow> nat set"
  a_receiving :: bool
  a_phase :: ba_phase
  a_round :: nat
  a_cur :: nat
  a_decided :: "nat option"
  a_decides :: "nat list"

definition ba_init :: "nat \<Rightarrow> ba_state" where
  "ba_init vi = \<lparr>a_est = (\<lambda>_ _. {}), a_aux = (\<lambda>_ _. {}), a_conf = (\<lambda>_ _. {}),
     a_est_sent = (\<lambda>_ _. False), a_conf_sent = (\<lambda>_ _. False), a_bin = (\<lambda>_. {}), a_receiving = True,
     a_phase = Entering, a_round = 0, a_cur = vi, a_decided = None, a_decides = []\<rparr>"

text \<open>The start of the main loop, after \<open>vi = input()\<close>.\<close>

definition ba_start :: "nat \<Rightarrow> py_error + ba_state" where
  "ba_start vi = (if vi \<in> {0, 1} then Inr (ba_init vi) else Inl AssertionError)"

definition set2 :: "(nat \<Rightarrow> 'k \<Rightarrow> 'v) \<Rightarrow> nat \<Rightarrow> 'k \<Rightarrow> 'v \<Rightarrow> nat \<Rightarrow> 'k \<Rightarrow> 'v" where
  "set2 t r k v = t(r := (t r)(k := v))"

definition bit_tuple :: "nat set \<Rightarrow> nat list" where
  "bit_tuple S = filter (\<lambda>v. v \<in> S) [0, 1]"

text \<open>An exception ends the receive greenlet; the main loop goes on without it.\<close>

abbreviation recv_fails :: "ba_state \<Rightarrow> (ba_state, ba_msg, unit) reply" where
  "recv_fails s \<equiv> stay (s\<lparr>a_receiving := False\<rparr>)"

definition ba_est :: "ba_env \<Rightarrow> ba_state \<Rightarrow> nat \<Rightarrow> nat \<Rightarrow> nat \<Rightarrow> (ba_state, ba_msg, unit) reply" where
  "ba_est E s sender r v =
     (if v \<notin> {0, 1} then recv_fails s
      else if astrict E \<and> sender \<in> a_est s r v then stay s
      else let s1 = s\<lparr>a_est := set2 (a_est s) r v (insert sender (a_est s r v))\<rparr>;
               relay = (af E + 1 \<le> card (a_est s1 r v) \<and> \<not> a_est_sent s1 r v);
               s2 = (if relay then s1\<lparr>a_est_sent := set2 (a_est_sent s1) r v True\<rparr> else s1);
               s3 = (if 2 * af E + 1 \<le> card (a_est s2 r v)
                     then s2\<lparr>a_bin := (a_bin s2)(r := insert v (a_bin s2 r))\<rparr> else s2)
           in (s3, if relay then to_all (aN E) (EST r v) else [], Running))"

definition ba_aux :: "ba_env \<Rightarrow> ba_state \<Rightarrow> nat \<Rightarrow> nat \<Rightarrow> nat \<Rightarrow> (ba_state, ba_msg, unit) reply" where
  "ba_aux E s sender r v =
     (if v \<notin> {0, 1} then recv_fails s
      else if astrict E \<and> sender \<in> a_aux s r v then recv_fails s
      else stay (s\<lparr>a_aux := set2 (a_aux s) r v (insert sender (a_aux s r v))\<rparr>))"

definition handle_conf_messages ::
    "ba_env \<Rightarrow> ba_state \<Rightarrow> nat \<Rightarrow> nat \<Rightarrow> nat list \<Rightarrow> (ba_state, ba_msg, unit) reply" where
  "handle_conf_messages E s sender r v =
     (if v \<notin> {[0], [1], [0, 1]} then recv_fails s
      else if sender \<in> a_conf s r v then recv_fails s
      else stay (s\<lparr>a_conf := set2 (a_conf s) r v (insert sender (a_conf s r v))\<rparr>))"

text \<open>The main loop, one definition per stretch between two waits.\<close>

definition ba_enter :: "ba_env \<Rightarrow> ba_state \<Rightarrow> (ba_state, ba_msg, unit) reply" where
  "ba_enter E s =
     (let r = a_round s; v = a_cur s; s1 = s\<lparr>a_phase := WaitBin\<rparr> in
      if a_est_sent s r v then stay s1
      else (s1\<lparr>a_est_sent := set2 (a_est_sent s) r v True\<rparr>, to_all (aN E) (EST r v), Running))"

definition ba_bin :: "ba_env \<Rightarrow> ba_state \<Rightarrow> (ba_state, ba_msg, unit) reply" where
  "ba_bin E s =
     (let r = a_round s in
      case bit_tuple (a_bin s r) of
        [] \<Rightarrow> stay s
      | w # _ \<Rightarrow> (s\<lparr>a_phase := WaitAux\<rparr>, to_all (aN E) (AUX r w), Running))"

definition aux_values :: "ba_env \<Rightarrow> ba_state \<Rightarrow> nat list option" where
  "aux_values E s =
     (let r = a_round s; B = a_bin s r in
      if 1 \<in> B \<and> aN E - af E \<le> card (a_aux s r 1) then Some [1]
      else if 0 \<in> B \<and> aN E - af E \<le> card (a_aux s r 0) then Some [0]
      else if aN E - af E \<le> sum_list (map (\<lambda>v. card (a_aux s r v)) (bit_tuple B)) then Some [0, 1]
      else None)"

definition conf_values :: "ba_env \<Rightarrow> ba_state \<Rightarrow> nat list option" where
  "conf_values E s =
     (let r = a_round s; B = a_bin s r in
      if 1 \<in> B \<and> aN E - af E \<le> card (a_conf s r [1]) then Some [1]
      else if 0 \<in> B \<and> aN E - af E \<le> card (a_conf s r [0]) then Some [0]
      else if aN E - af E \<le> sum_list (map (\<lambda>c. card (a_conf s r c))
             (filter (\<lambda>c. a_conf s r c \<noteq> {} \<and> set c \<subseteq> B) [[0], [1], [0, 1]])) then Some [0, 1]
      else None)"

definition ba_aux_wait :: "ba_env \<Rightarrow> ba_state \<Rightarrow> (ba_state, ba_msg, unit) reply" where
  "ba_aux_wait E s =
     (case aux_values E s of
        None \<Rightarrow> stay s
      | Some vals \<Rightarrow>
          let r = a_round s in
          if \<not> a_conf_sent s r vals
          then (s\<lparr>a_conf_sent := set2 (a_conf_sent s) r vals True, a_phase := WaitConf\<rparr>,
                to_all (aN E) (CONF r (bit_tuple (a_bin s r))), Running)
          else stay (s\<lparr>a_phase := WaitCoin vals\<rparr>))"

definition wait_for_conf_values :: "ba_env \<Rightarrow> ba_state \<Rightarrow> (ba_state, ba_msg, unit) reply" where
  "wait_for_conf_values E s =
     (case conf_values E s of None \<Rightarrow> stay s | Some vals \<Rightarrow> stay (s\<lparr>a_phase := WaitCoin vals\<rparr>))"

text \<open>
  \<open>set_new_estimate\<close>: the new estimate, the value decided so far, and the argument of \<open>decide\<close>
  when it is called; \<open>AbandonedNodeError\<close> ends the main loop.
\<close>

definition set_new_estimate ::
    "nat list \<Rightarrow> nat \<Rightarrow> nat option \<Rightarrow> py_error + nat \<times> nat option \<times> nat option" where
  "set_new_estimate vals s already =
     (case vals of
        [v] \<Rightarrow>
          if v = s then
            (case already of
               None \<Rightarrow> Inr (v, Some v, Some v)
             | Some d \<Rightarrow> if d = v then Inl AbandonedNodeError else Inr (v, already, None))
          else Inr (v, already, None)
      | _ \<Rightarrow> Inr (s, already, None))"

definition ba_coin :: "ba_env \<Rightarrow> ba_state \<Rightarrow> nat list \<Rightarrow> (ba_state, ba_msg, unit) reply" where
  "ba_coin E s vals =
     (case set_new_estimate vals (acoin E (a_round s)) (a_decided s) of
        Inl e \<Rightarrow> (s\<lparr>a_receiving := False\<rparr>, [], Returned ())
      | Inr (e, d, call) \<Rightarrow>
          stay (s\<lparr>a_cur := e, a_decided := d,
                  a_decides := a_decides s @ (case call of None \<Rightarrow> [] | Some v \<Rightarrow> [v]),
                  a_round := a_round s + 1, a_phase := Entering\<rparr>))"

definition ba_main :: "ba_env \<Rightarrow> ba_state \<Rightarrow> (ba_state, ba_msg, unit) reply" where
  "ba_main E s =
     (case a_phase s of
        Entering \<Rightarrow> ba_enter E s
      | WaitBin \<Rightarrow> ba_bin E s
      | WaitAux \<Rightarrow> ba_aux_wait E s
      | WaitConf \<Rightarrow> wait_for_conf_values E s
      | WaitCoin vals \<Rightarrow> ba_coin E s vals)"

fun ba_recv :: "ba_env \<Rightarrow> ba_state \<Rightarrow> nat \<Rightarrow> ba_msg \<Rightarrow> (ba_state, ba_msg, unit) reply" where
  "ba_recv E s sender (EST r v) = ba_est E s sender r v"
| "ba_recv E s sender (AUX r v) = ba_aux E s sender r v"
| "ba_recv E s sender (CONF r v) = handle_conf_messages E s sender r v"
| "ba_recv E s sender RUN = stay s"

definition ba_step :: "ba_env \<Rightarrow> nat \<Rightarrow> ba_state \<Rightarrow> nat \<times> ba_msg \<Rightarrow> (ba_state, ba_msg, unit) reply" where
  "ba_step E pid s e =
     (case e of (sender, m) \<Rightarrow>
        if m = RUN then (if sender = pid then ba_main E s else stay s)
        else if \<not> a_receiving s then stay s
        else if \<not> sender < aN E then recv_fails s
        else ba_recv E s sender m)"

text \<open>The two protocols. The biased one takes 1 as its first coin and reduces other coins to a bit.\<close>

definition binaryagreement :: "nat \<Rightarrow> nat \<Rightarrow> (nat \<Rightarrow> nat) \<Rightarrow> ba_env" where
  "binaryagreement N f coin = \<lparr>aN = N, af = f, astrict = True, acoin = coin\<rparr>"

definition biased_coin :: "(nat \<Rightarrow> nat) \<Rightarrow> nat \<Rightarrow> nat" where
  "biased_coin coin r =
     (let s = (if r = 0 then 1 else coin r) in if s \<in> {0, 1} then s else s mod 2)"

definition baisedbinaryagreement :: "nat \<Rightarrow> nat \<Rightarrow> (nat \<Rightarrow> nat) \<Rightarrow> ba_env" where
  "baisedbinaryagreement N f coin = \<lparr>aN = N, af = f, astrict = False, acoin = biased_coin coin\<rparr>"

lemmas ba_defs = ba_est_def ba_aux_def handle_conf_messages_def ba_enter_def ba_bin_def
  ba_aux_wait_def wait_for_conf_values_def ba_coin_def ba_main_def ba_step_def Let_def

lemma set2_apply [simp]: "set2 t r k v r' k' = (if r' = r \<and> k' = k then v else t r' k')"
  by (simp add: set2_def)

section \<open>What a call can do\<close>

text \<open>The part of the state the safety argument is about.\<close>

definition core :: "ba_state \<Rightarrow> (nat \<Rightarrow> nat \<Rightarrow> nat set) \<times> (nat \<Rightarrow> nat list \<Rightarrow> nat set) \<times> (nat \<Rightarrow> nat set) \<times>
    (nat \<Rightarrow> nat list \<Rightarrow> bool) \<times> ba_phase \<times> nat \<times> nat \<times> nat option" where
  "core s = (a_est s, a_conf s, a_bin s, a_conf_sent s, a_phase s, a_round s, a_cur s, a_decided s)"

lemma ba_est_cases:
  assumes "ba_est E s q r v = (s', outs, k)"
  shows "core s' = core s \<and> outs = [] \<or>
    (v \<in> {0, 1} \<and> a_est s' = set2 (a_est s) r v (insert q (a_est s r v)) \<and>
     (a_bin s' = a_bin s \<or> a_bin s' = (a_bin s)(r := insert v (a_bin s r)) \<and> 2 * af E + 1 \<le> card (a_est s' r v)) \<and>
     a_conf s' = a_conf s \<and> a_conf_sent s' = a_conf_sent s \<and> a_phase s' = a_phase s \<and>
     a_round s' = a_round s \<and> a_cur s' = a_cur s \<and> a_decided s' = a_decided s \<and>
     (outs = [] \<or> outs = to_all (aN E) (EST r v) \<and> af E + 1 \<le> card (a_est s' r v)))"
proof -
  consider (bad) "v \<notin> {0, 1}" | (red) "v \<in> {0, 1}" "astrict E \<and> q \<in> a_est s r v"
    | (new) "v \<in> {0, 1}" "\<not> (astrict E \<and> q \<in> a_est s r v)" by blast
  then show ?thesis
  proof cases
    case bad
    then have "ba_est E s q r v = recv_fails s" by (simp add: ba_est_def)
    then show ?thesis using assms by (auto simp: core_def)
  next
    case red
    then have "ba_est E s q r v = stay s" by (simp add: ba_est_def)
    then show ?thesis using assms by auto
  next
    case new
    define s1 where "s1 = s\<lparr>a_est := set2 (a_est s) r v (insert q (a_est s r v))\<rparr>"
    define relay where "relay \<longleftrightarrow> af E + 1 \<le> card (a_est s1 r v) \<and> \<not> a_est_sent s1 r v"
    define s2 where "s2 = (if relay then s1\<lparr>a_est_sent := set2 (a_est_sent s1) r v True\<rparr> else s1)"
    have "ba_est E s q r v = ((if 2 * af E + 1 \<le> card (a_est s2 r v)
        then s2\<lparr>a_bin := (a_bin s2)(r := insert v (a_bin s2 r))\<rparr> else s2),
        if relay then to_all (aN E) (EST r v) else [], Running)"
      using new unfolding ba_est_def Let_def s2_def relay_def s1_def by (simp only: if_False if_True) simp
    then have s': "s' = (if 2 * af E + 1 \<le> card (a_est s2 r v)
        then s2\<lparr>a_bin := (a_bin s2)(r := insert v (a_bin s2 r))\<rparr> else s2)"
      "outs = (if relay then to_all (aN E) (EST r v) else [])"
      using assms by simp_all
    have s2: "a_est s2 = set2 (a_est s) r v (insert q (a_est s r v))" "a_bin s2 = a_bin s"
      "a_conf s2 = a_conf s" "a_conf_sent s2 = a_conf_sent s" "a_phase s2 = a_phase s"
      "a_round s2 = a_round s" "a_cur s2 = a_cur s" "a_decided s2 = a_decided s" "a_est s1 = a_est s2"
      by (simp_all add: s2_def s1_def)
    show ?thesis
      using new(1) unfolding s' by (intro disjI2) (simp add: s2 relay_def)
  qed
qed

lemma bit_tuple_set: "set (bit_tuple S) = S \<inter> {0, 1}"
  by (auto simp: bit_tuple_def)

lemma aux_values_bin:
  assumes "aux_values E s = Some vals" and "af E < aN E"
  shows "bit_tuple (a_bin s (a_round s)) \<noteq> []"
  using assms by (auto simp: aux_values_def Let_def bit_tuple_def split: if_splits)

lemma conf_values_cases:
  assumes "conf_values E s = Some vals" and "af E < aN E" and "a_bin s (a_round s) \<subseteq> {0, 1}"
  shows "(\<exists>v. vals = [v] \<and> v \<in> {0, 1} \<and> aN E - af E \<le> card (a_conf s (a_round s) [v])) \<or>
    vals = [0, 1] \<and> {0, 1} \<subseteq> a_bin s (a_round s)"
proof -
  let ?B = "a_bin s (a_round s)"
  have "?B = {} \<or> ?B = {0} \<or> ?B = {1} \<or> ?B = {0, 1}" using assms(3) by auto
  then show ?thesis
    using assms(1,2) by (elim disjE) (auto simp: conf_values_def Let_def split: if_splits)
qed

lemma ba_step_cases:
  assumes "ba_step E p s (q, m) = (s', outs, k)" and "af E < aN E"
  obtains (idle) "core s' = core s" "outs = []"
  | (est) r v where "m = EST r v" "q < aN E" "v \<in> {0, 1}"
      "a_est s' = set2 (a_est s) r v (insert q (a_est s r v))"
      "a_bin s' = a_bin s \<or> a_bin s' = (a_bin s)(r := insert v (a_bin s r)) \<and> 2 * af E + 1 \<le> card (a_est s' r v)"
      "a_conf s' = a_conf s" "a_conf_sent s' = a_conf_sent s" "a_phase s' = a_phase s"
      "a_round s' = a_round s" "a_cur s' = a_cur s" "a_decided s' = a_decided s"
      "outs = [] \<or> outs = to_all (aN E) (EST r v) \<and> af E + 1 \<le> card (a_est s' r v)"
  | (conf) r c where "m = CONF r c" "q < aN E" "s' = s\<lparr>a_conf := set2 (a_conf s) r c (insert q (a_conf s r c))\<rparr>"
      "outs = []"
  | (enter) b where "a_phase s = Entering" "s' = s\<lparr>a_phase := WaitBin, a_est_sent := b\<rparr>"
      "outs = [] \<or> outs = to_all (aN E) (EST (a_round s) (a_cur s))"
  | (bin) w where "a_phase s = WaitBin" "s' = s\<lparr>a_phase := WaitAux\<rparr>" "outs = to_all (aN E) (AUX (a_round s) w)"
  | (confirm) vals where "a_phase s = WaitAux" "bit_tuple (a_bin s (a_round s)) \<noteq> []"
      "s' = s\<lparr>a_conf_sent := set2 (a_conf_sent s) (a_round s) vals True, a_phase := WaitConf\<rparr>"
      "outs = to_all (aN E) (CONF (a_round s) (bit_tuple (a_bin s (a_round s))))"
  | (skip) vals where "a_phase s = WaitAux" "a_conf_sent s (a_round s) vals"
      "s' = s\<lparr>a_phase := WaitCoin vals\<rparr>" "outs = []"
  | (settle) vals where "a_phase s = WaitConf" "conf_values E s = Some vals" "s' = s\<lparr>a_phase := WaitCoin vals\<rparr>" "outs = []"
  | (advance) vals e d call where "a_phase s = WaitCoin vals"
      "set_new_estimate vals (acoin E (a_round s)) (a_decided s) = Inr (e, d, call)"
      "core s' = (a_est s, a_conf s, a_bin s, a_conf_sent s, Entering, a_round s + 1, e, d)"
      "outs = []"
proof (cases "m = RUN")
  case True
  show ?thesis
  proof (cases "q = p")
    case False
    show ?thesis by (rule that(1)) (use assms(1) True False in \<open>auto simp: ba_step_def core_def\<close>)
  next
    case qp: True
    then have main: "ba_main E s = (s', outs, k)" using assms(1) True by (simp add: ba_step_def)
    show ?thesis
    proof (cases "a_phase s")
      case Entering
      show ?thesis
      proof (cases "a_est_sent s (a_round s) (a_cur s)")
        case True
        show ?thesis
          by (rule that(4) [OF Entering, of "a_est_sent s"])
            (use main Entering True in \<open>auto simp: ba_main_def ba_enter_def Let_def\<close>)
      next
        case False
        show ?thesis
          by (rule that(4) [OF Entering]) (use main Entering False in \<open>auto simp: ba_main_def ba_enter_def Let_def\<close>)
      qed
    next
      case WaitBin
      show ?thesis
      proof (cases "bit_tuple (a_bin s (a_round s))")
        case Nil
        show ?thesis
          by (rule that(1)) (use main WaitBin Nil in \<open>auto simp: ba_main_def ba_bin_def Let_def core_def\<close>)
      next
        case (Cons w ws)
        show ?thesis
          by (rule that(5) [OF WaitBin]) (use main WaitBin Cons in \<open>auto simp: ba_main_def ba_bin_def Let_def\<close>)
      qed
    next
      case WaitAux
      show ?thesis
      proof (cases "aux_values E s")
        case None
        show ?thesis
          by (rule that(1)) (use main WaitAux None in \<open>auto simp: ba_main_def ba_aux_wait_def core_def\<close>)
      next
        case (Some vals)
        show ?thesis
        proof (cases "a_conf_sent s (a_round s) vals")
          case True
          show ?thesis
            by (rule that(7) [OF WaitAux True])
              (use main WaitAux Some True in \<open>auto simp: ba_main_def ba_aux_wait_def Let_def\<close>)
        next
          case False
          show ?thesis
            by (rule that(6) [OF WaitAux aux_values_bin [OF Some assms(2)]])
              (use main WaitAux Some False in \<open>auto simp: ba_main_def ba_aux_wait_def Let_def\<close>)
        qed
      qed
    next
      case WaitConf
      show ?thesis
      proof (cases "conf_values E s")
        case None
        show ?thesis
          by (rule that(1)) (use main WaitConf None in \<open>auto simp: ba_main_def wait_for_conf_values_def core_def\<close>)
      next
        case (Some vals)
        show ?thesis
          by (rule that(8) [OF WaitConf Some])
            (use main WaitConf Some in \<open>auto simp: ba_main_def wait_for_conf_values_def\<close>)
      qed
    next
      case (WaitCoin vals)
      show ?thesis
      proof (cases "set_new_estimate vals (acoin E (a_round s)) (a_decided s)")
        case (Inl e)
        show ?thesis
          by (rule that(1)) (use main WaitCoin Inl in \<open>auto simp: ba_main_def ba_coin_def core_def\<close>)
      next
        case (Inr x)
        obtain e d call where x: "x = (e, d, call)" by (cases x)
        show ?thesis
          by (rule that(9) [OF WaitCoin Inr [unfolded x]])
            (use main WaitCoin Inr x in \<open>auto simp: ba_main_def ba_coin_def core_def\<close>)
      qed
    qed
  qed
next
  case False
  show ?thesis
  proof (cases "a_receiving s \<and> q < aN E")
    case F: False
    show ?thesis by (rule that(1)) (use assms(1) False F in \<open>auto simp: ba_step_def core_def split: if_splits\<close>)
  next
    case T: True
    then have recv: "ba_recv E s q m = (s', outs, k)" using assms(1) False by (simp add: ba_step_def)
    show ?thesis
    proof (cases m)
      case (EST r v)
      then have "ba_est E s q r v = (s', outs, k)" using recv by simp
      from ba_est_cases [OF this] show ?thesis
        using that(1) that(2) [OF EST] T by blast
    next
      case (AUX r v)
      show ?thesis by (rule that(1)) (use recv AUX in \<open>auto simp: ba_aux_def core_def split: if_splits\<close>)
    next
      case (CONF r c)
      show ?thesis
      proof (cases "c \<notin> {[0], [1], [0, 1]} \<or> q \<in> a_conf s r c")
        case True
        show ?thesis
          by (rule that(1)) (use recv CONF True in \<open>auto simp: handle_conf_messages_def core_def split: if_splits\<close>)
      next
        case False
        show ?thesis
          by (rule that(3) [OF CONF])
            (use recv CONF False T in \<open>auto simp: handle_conf_messages_def split: if_splits\<close>)
      qed
    next
      case RUN
      then show ?thesis using False by simp
    qed
  qed
qed

section \<open>Effects of a call\<close>

definition past_conf :: "ba_phase \<Rightarrow> bool" where
  "past_conf ph = (case ph of WaitConf \<Rightarrow> True | WaitCoin _ \<Rightarrow> True | _ \<Rightarrow> False)"

lemma sent_to_all [simp]: "out_msg ` set (to_all n o1) = (if n = 0 then {} else {o1})"
  by (auto simp: to_all_def image_iff intro: exI [of _ 0])

lemma ba_effects:
  assumes step: "ba_step E p s (q, m) = (s', outs, k)" and f: "af E < aN E"
  shows "x \<in> a_est s' r v \<Longrightarrow> x \<in> a_est s r v \<or> x = q \<and> m = EST r v \<and> q < aN E"
    and "x \<in> a_conf s' r c \<Longrightarrow> x \<in> a_conf s r c \<or> x = q \<and> m = CONF r c \<and> q < aN E"
    and "a_bin s r \<subseteq> a_bin s' r"
    and "w \<in> a_bin s' r \<Longrightarrow> w \<in> a_bin s r \<or> w \<in> {0, 1} \<and> 2 * af E + 1 \<le> card (a_est s' r w)"
    and "EST r w \<in> out_msg ` set outs \<Longrightarrow>
      af E + 1 \<le> card (a_est s' r w) \<or> r = a_round s \<and> w = a_cur s"
    and "CONF r c \<in> out_msg ` set outs \<Longrightarrow> c \<noteq> [] \<and> c = bit_tuple (a_bin s r) \<and> r = a_round s \<and>
      a_phase s = WaitAux \<and> a_phase s' = WaitConf \<and> a_round s' = a_round s"
    and "a_round s' = a_round s \<and> a_cur s' = a_cur s \<and> a_decided s' = a_decided s \<and>
        (past_conf (a_phase s) \<longrightarrow> past_conf (a_phase s')) \<or>
      (\<exists>vals e d call. a_phase s = WaitCoin vals \<and>
        set_new_estimate vals (acoin E (a_round s)) (a_decided s) = Inr (e, d, call) \<and>
        a_round s' = a_round s + 1 \<and> a_cur s' = e \<and> a_decided s' = d \<and> a_phase s' = Entering)"
    and "a_phase s' = WaitCoin vals \<Longrightarrow> a_round s' = a_round s \<and>
      (a_phase s = WaitCoin vals \<or> a_phase s = WaitAux \<and> a_conf_sent s (a_round s) vals \<or>
       a_phase s = WaitConf \<and> conf_values E s = Some vals)"
    and "a_conf_sent s' r c \<Longrightarrow> a_conf_sent s r c \<or> r = a_round s \<and> past_conf (a_phase s') \<and> a_round s' = a_round s"
proof -
  show "x \<in> a_est s' r v \<Longrightarrow> x \<in> a_est s r v \<or> x = q \<and> m = EST r v \<and> q < aN E"
    using step f by (cases rule: ba_step_cases) (auto simp: core_def split: if_splits)
  show "x \<in> a_conf s' r c \<Longrightarrow> x \<in> a_conf s r c \<or> x = q \<and> m = CONF r c \<and> q < aN E"
    using step f by (cases rule: ba_step_cases) (auto simp: core_def split: if_splits)
  show "a_bin s r \<subseteq> a_bin s' r"
    using step f by (cases rule: ba_step_cases) (auto simp: core_def)
  show "w \<in> a_bin s' r \<Longrightarrow> w \<in> a_bin s r \<or> w \<in> {0, 1} \<and> 2 * af E + 1 \<le> card (a_est s' r w)"
    using step f by (cases rule: ba_step_cases) (auto simp: core_def split: if_splits)
  show "EST r w \<in> out_msg ` set outs \<Longrightarrow>
      af E + 1 \<le> card (a_est s' r w) \<or> r = a_round s \<and> w = a_cur s"
    using step f by (cases rule: ba_step_cases) (auto split: if_splits del: imageE)
  show "CONF r c \<in> out_msg ` set outs \<Longrightarrow> c \<noteq> [] \<and> c = bit_tuple (a_bin s r) \<and> r = a_round s \<and>
      a_phase s = WaitAux \<and> a_phase s' = WaitConf \<and> a_round s' = a_round s"
    using step f by (cases rule: ba_step_cases) (auto split: if_splits del: imageE)
  show "a_round s' = a_round s \<and> a_cur s' = a_cur s \<and> a_decided s' = a_decided s \<and>
        (past_conf (a_phase s) \<longrightarrow> past_conf (a_phase s')) \<or>
      (\<exists>vals e d call. a_phase s = WaitCoin vals \<and>
        set_new_estimate vals (acoin E (a_round s)) (a_decided s) = Inr (e, d, call) \<and>
        a_round s' = a_round s + 1 \<and> a_cur s' = e \<and> a_decided s' = d \<and> a_phase s' = Entering)"
    using step f by (cases rule: ba_step_cases) (auto simp: core_def past_conf_def)
  show "a_phase s' = WaitCoin vals \<Longrightarrow> a_round s' = a_round s \<and>
      (a_phase s = WaitCoin vals \<or> a_phase s = WaitAux \<and> a_conf_sent s (a_round s) vals \<or>
       a_phase s = WaitConf \<and> conf_values E s = Some vals)"
    using step f by (cases rule: ba_step_cases) (auto simp: core_def)
  show "a_conf_sent s' r c \<Longrightarrow> a_conf_sent s r c \<or> r = a_round s \<and> past_conf (a_phase s') \<and> a_round s' = a_round s"
    using step f by (cases rule: ba_step_cases) (auto simp: core_def past_conf_def split: if_splits)
qed

section \<open>The invariant of a run\<close>

type_synonym ba_sys = "(ba_state, ba_msg, unit) sys"

definition ba_cfg :: "ba_env \<Rightarrow> nat set \<Rightarrow> cfg" where
  "ba_cfg E B = \<lparr>cN = aN E, cf = af E, cbyz = B\<rparr>"

text \<open>
  \<open>confirmed r v\<close>: the correct members of a quorum have sent \<open>CONF r [v]\<close>. \<open>in_bin r w\<close>: a correct
  node has \<open>w\<close> in \<open>bin_values[r]\<close>. \<open>est_ok r w\<close>: \<open>w\<close> may leave round \<open>r\<close> as an estimate. \<open>origin r w\<close>:
  \<open>w\<close> may enter round \<open>r\<close>.
\<close>

definition confirmed :: "ba_env \<Rightarrow> nat set \<Rightarrow> ba_sys \<Rightarrow> nat \<Rightarrow> nat \<Rightarrow> bool" where
  "confirmed E B s r v \<longleftrightarrow>
     (\<exists>Q. nf_quorum (ba_cfg E B) Q \<and> (\<forall>x \<in> Q - B. \<exists>p. (x, p, CONF r [v]) \<in> net s))"

definition in_bin :: "nat set \<Rightarrow> ba_sys \<Rightarrow> nat \<Rightarrow> nat \<Rightarrow> bool" where
  "in_bin B s r w \<longleftrightarrow> (\<exists>p. p \<notin> B \<and> w \<in> a_bin (loc s p) r)"

definition est_ok :: "ba_env \<Rightarrow> nat set \<Rightarrow> ba_sys \<Rightarrow> nat \<Rightarrow> nat \<Rightarrow> bool" where
  "est_ok E B s r w \<longleftrightarrow> confirmed E B s r w \<or> w = acoin E r \<and> in_bin B s r 0 \<and> in_bin B s r 1"

definition origin :: "ba_env \<Rightarrow> nat set \<Rightarrow> (nat \<Rightarrow> nat) \<Rightarrow> ba_sys \<Rightarrow> nat \<Rightarrow> nat \<Rightarrow> bool" where
  "origin E B inp s r w =
     (case r of 0 \<Rightarrow> \<exists>p. p < aN E \<and> p \<notin> B \<and> inp p = w | Suc r' \<Rightarrow> est_ok E B s r' w)"

definition settled :: "ba_env \<Rightarrow> nat set \<Rightarrow> ba_sys \<Rightarrow> nat \<Rightarrow> nat list \<Rightarrow> bool" where
  "settled E B s r vals \<longleftrightarrow>
     (\<exists>v. vals = [v] \<and> confirmed E B s r v) \<or> vals = [0, 1] \<and> in_bin B s r 0 \<and> in_bin B s r 1"

definition ba_good :: "ba_env \<Rightarrow> nat set \<Rightarrow> (nat \<Rightarrow> nat) \<Rightarrow> ba_sys \<Rightarrow> bool" where
  "ba_good E B inp s \<longleftrightarrow>
     (\<forall>p r v x. x \<in> a_est (loc s p) r v \<longrightarrow> x < aN E \<and> (x, p, EST r v) \<in> net s) \<and>
     (\<forall>p r c x. x \<in> a_conf (loc s p) r c \<longrightarrow> x < aN E \<and> (x, p, CONF r c) \<in> net s) \<and>
     (\<forall>q p r w. (q, p, EST r w) \<in> net s \<longrightarrow> q \<notin> B \<longrightarrow> origin E B inp s r w) \<and>
     (\<forall>q p r c. (q, p, CONF r c) \<in> net s \<longrightarrow> q \<notin> B \<longrightarrow> c \<noteq> [] \<and> set c \<subseteq> a_bin (loc s q) r \<and>
        (r < a_round (loc s q) \<or> r = a_round (loc s q) \<and> past_conf (a_phase (loc s q)))) \<and>
     (\<forall>q p p' r c c'. (q, p, CONF r c) \<in> net s \<longrightarrow> (q, p', CONF r c') \<in> net s \<longrightarrow> q \<notin> B \<longrightarrow> c = c') \<and>
     (\<forall>p r w. w \<in> a_bin (loc s p) r \<longrightarrow> p \<notin> B \<longrightarrow> w \<in> {0, 1} \<and> origin E B inp s r w) \<and>
     (\<forall>p. p < aN E \<longrightarrow> p \<notin> B \<longrightarrow> origin E B inp s (a_round (loc s p)) (a_cur (loc s p))) \<and>
     (\<forall>p vals. a_phase (loc s p) = WaitCoin vals \<longrightarrow> p \<notin> B \<longrightarrow> settled E B s (a_round (loc s p)) vals) \<and>
     (\<forall>p r c. a_conf_sent (loc s p) r c \<longrightarrow> p \<notin> B \<longrightarrow>
        r < a_round (loc s p) \<or> r = a_round (loc s p) \<and> past_conf (a_phase (loc s p))) \<and>
     (\<forall>p v. a_decided (loc s p) = Some v \<longrightarrow> p \<notin> B \<longrightarrow> (\<exists>r. confirmed E B s r v \<and> acoin E r = v))"

lemma ba_goodD:
  assumes "ba_good E B inp s"
  shows "x \<in> a_est (loc s p) r v \<Longrightarrow> x < aN E \<and> (x, p, EST r v) \<in> net s"
    and "x \<in> a_conf (loc s p) r c \<Longrightarrow> x < aN E \<and> (x, p, CONF r c) \<in> net s"
    and "(q, p, EST r w) \<in> net s \<Longrightarrow> q \<notin> B \<Longrightarrow> origin E B inp s r w"
    and "(q, p, CONF r c) \<in> net s \<Longrightarrow> q \<notin> B \<Longrightarrow> c \<noteq> [] \<and> set c \<subseteq> a_bin (loc s q) r \<and>
        (r < a_round (loc s q) \<or> r = a_round (loc s q) \<and> past_conf (a_phase (loc s q)))"
    and "(q, p, CONF r c) \<in> net s \<Longrightarrow> (q, p', CONF r c') \<in> net s \<Longrightarrow> q \<notin> B \<Longrightarrow> c = c'"
    and "w \<in> a_bin (loc s p) r \<Longrightarrow> p \<notin> B \<Longrightarrow> w \<in> {0, 1} \<and> origin E B inp s r w"
    and "p < aN E \<Longrightarrow> p \<notin> B \<Longrightarrow> origin E B inp s (a_round (loc s p)) (a_cur (loc s p))"
    and "a_phase (loc s p) = WaitCoin vals \<Longrightarrow> p \<notin> B \<Longrightarrow> settled E B s (a_round (loc s p)) vals"
    and "a_conf_sent (loc s p) r c \<Longrightarrow> p \<notin> B \<Longrightarrow>
        r < a_round (loc s p) \<or> r = a_round (loc s p) \<and> past_conf (a_phase (loc s p))"
    and "a_decided (loc s p) = Some v \<Longrightarrow> p \<notin> B \<Longrightarrow> \<exists>r. confirmed E B s r v \<and> acoin E r = v"
  using assms unfolding ba_good_def by (elim conjE, meson)+

text \<open>The predicates only grow along a run.\<close>

definition grows :: "ba_sys \<Rightarrow> ba_sys \<Rightarrow> bool" where
  "grows s s' \<longleftrightarrow> net s \<subseteq> net s' \<and> (\<forall>p r. a_bin (loc s p) r \<subseteq> a_bin (loc s' p) r)"

lemma grows_mono:
  assumes "grows s s'"
  shows "confirmed E B s r v \<Longrightarrow> confirmed E B s' r v" and "in_bin B s r w \<Longrightarrow> in_bin B s' r w"
    and "est_ok E B s r w \<Longrightarrow> est_ok E B s' r w" and "origin E B inp s r w \<Longrightarrow> origin E B inp s' r w"
    and "settled E B s r vals \<Longrightarrow> settled E B s' r vals"
proof -
  show c: "confirmed E B s r v \<Longrightarrow> confirmed E B s' r v" for r v
    using assms unfolding confirmed_def grows_def by blast
  show b: "in_bin B s r w \<Longrightarrow> in_bin B s' r w" for r w
    using assms unfolding in_bin_def grows_def by blast
  show e: "est_ok E B s r w \<Longrightarrow> est_ok E B s' r w" for r w
    using c b unfolding est_ok_def by blast
  show "origin E B inp s r w \<Longrightarrow> origin E B inp s' r w"
    using e by (auto simp: origin_def split: nat.splits)
  show "settled E B s r vals \<Longrightarrow> settled E B s' r vals"
    using c b unfolding settled_def by blast
qed

lemma correct_in:
  assumes "wf_cfg (ba_cfg E B)" and "af E + 1 \<le> card A" and "\<forall>x \<in> A. x < aN E"
  shows "\<exists>x \<in> A. x \<notin> B"
proof -
  have "f1_set (ba_cfg E B) A" using assms(2,3) by (auto simp: f1_set_def ba_cfg_def)
  from nf.weak_correct [OF assms(1) this] show ?thesis by (simp add: ba_cfg_def)
qed

lemma new_estimate:
  assumes "set_new_estimate vals c already = Inr (e, d, call)"
  shows "(\<exists>v. vals = [v] \<and> e = v \<and> (d = already \<or> v = c \<and> d = Some v)) \<or>
    (\<nexists>v. vals = [v]) \<and> e = c \<and> d = already"
  using assms by (auto simp: set_new_estimate_def split: list.splits if_splits option.splits)

lemma ba_good_deliver:
  assumes wf: "wf_cfg (ba_cfg E B)" and g: "ba_good E B inp s"
    and p: "p < aN E" "p \<notin> B" and m: "(q, p, m) \<in> net s" and qN: "q < aN E"
    and h: "ba_step E p (loc s p) (q, m) = (l', outs, k)"
  defines "s' \<equiv> s\<lparr>loc := (loc s)(p := l'), ended := (ended s)(p := k),
                   net := net s \<union> routed (aN E) p outs\<rparr>"
  shows "ba_good E B inp s'"
proof -
  let ?l = "loc s p"
  have f: "af E < aN E" using wf by (simp add: wf_cfg_def ba_cfg_def)
  note eff = ba_effects [OF h f]
  have loc': "loc s' x = (if x = p then l' else loc s x)" for x by (simp add: s'_def)
  have net': "(a, b, m') \<in> net s' \<Longrightarrow> (a, b, m') \<in> net s \<or> a = p \<and> m' \<in> out_msg ` set outs" for a b m'
    by (auto simp: s'_def dest: routed_msg)
  have sub: "net s \<subseteq> net s'" by (auto simp: s'_def)
  have grow: "grows s s'"
    using sub eff(3) by (simp add: grows_def loc')
  note mono = grows_mono [OF grow]
  have est: "x < aN E \<and> (x, a, EST r v) \<in> net s'" if "x \<in> a_est (loc s' a) r v" for a r v x
    using that eff(1) [of x r v] ba_goodD(1) [OF g, of x a r v] m sub by (auto simp: loc' split: if_splits)
  have conf: "x < aN E \<and> (x, a, CONF r c) \<in> net s'" if "x \<in> a_conf (loc s' a) r c" for a r c x
    using that eff(2) [of x r c] ba_goodD(2) [OF g, of x a r c] m sub by (auto simp: loc' split: if_splits)
  have org: "origin E B inp s' r w" if "x \<in> a_est l' r w" "x \<notin> B" for x r w
    using eff(1) [OF that(1)] ba_goodD(1) [OF g, of x p r w] ba_goodD(3) [OF g, of x p r w] m that(2) mono(4)
    by blast
  have backed: "origin E B inp s' r w" if "af E + 1 \<le> card (a_est l' r w)" for r w
  proof -
    have "\<forall>x \<in> a_est l' r w. x < aN E" using est [of _ p r w] by (simp add: loc')
    from correct_in [OF wf that this] show ?thesis using org by blast
  qed
  have cur: "origin E B inp s' (a_round ?l) (a_cur ?l)"
    by (rule mono(4) [OF ba_goodD(7) [OF g p]])
  have msgs: "origin E B inp s' r w" if "(a, b, EST r w) \<in> net s'" "a \<notin> B" for a b r w
    using net' [OF that(1)] ba_goodD(3) [OF g _ that(2), of b r w] mono(4) eff(5) [of r w] backed cur
    by blast
  have rounds: "a_round ?l < a_round l' \<or> a_round l' = a_round ?l \<and> (past_conf (a_phase ?l) \<longrightarrow> past_conf (a_phase l'))"
    using eff(7) by auto
  have newc: "c \<noteq> [] \<and> set c \<subseteq> a_bin l' r \<and> r = a_round l' \<and> past_conf (a_phase l') \<and>
      r = a_round ?l \<and> \<not> past_conf (a_phase ?l)" if "CONF r c \<in> out_msg ` set outs" for r c
    using eff(6) [OF that] eff(3) [of r] by (auto simp: bit_tuple_set past_conf_def)
  have conf_msgs: "c \<noteq> [] \<and> set c \<subseteq> a_bin (loc s' a) r \<and>
      (r < a_round (loc s' a) \<or> r = a_round (loc s' a) \<and> past_conf (a_phase (loc s' a)))"
    if "(a, b, CONF r c) \<in> net s'" "a \<notin> B" for a b r c
    using net' [OF that(1)]
  proof
    assume "(a, b, CONF r c) \<in> net s"
    from ba_goodD(4) [OF g this that(2)] show ?thesis
      using eff(3) [of r] rounds by (cases "a = p") (auto simp: loc')
  next
    assume "a = p \<and> CONF r c \<in> out_msg ` set outs"
    then show ?thesis using newc [of r c] by (auto simp: loc')
  qed
  have unique: "c = c'" if "(a, b, CONF r c) \<in> net s'" "(a, b', CONF r c') \<in> net s'" "a \<notin> B" for a b b' r c c'
  proof -
    have old_not_new: False if "(a, b, CONF r c) \<in> net s" "a = p" "CONF r c' \<in> out_msg ` set outs" for b c c'
      using ba_goodD(4) [OF g that(1)] newc [OF that(3)] \<open>a \<notin> B\<close> that(2) by auto
    have new_same: "c = c'" if "CONF r c \<in> out_msg ` set outs" "CONF r c' \<in> out_msg ` set outs" for c c'
      using eff(6) [OF that(1)] eff(6) [OF that(2)] by simp
    show ?thesis
      using net' [OF that(1)] net' [OF that(2)] ba_goodD(5) [OF g _ _ that(3), of b r c b' c']
        old_not_new [of b c c'] old_not_new [of b' c' c] new_same [of c c'] by blast
  qed
  have bins: "w \<in> {0, 1} \<and> origin E B inp s' r w" if "w \<in> a_bin (loc s' a) r" "a \<notin> B" for a r w
  proof (cases "a = p")
    case True
    then have "w \<in> a_bin ?l r \<or> w \<in> {0, 1} \<and> 2 * af E + 1 \<le> card (a_est l' r w)"
      using that eff(4) by (simp add: loc')
    then show ?thesis
      using ba_goodD(6) [OF g _ p(2), of w r] mono(4) backed [of r w] by auto
  next
    case False
    then show ?thesis using ba_goodD(6) [OF g _ that(2), of w r] that(1) mono(4) by (simp add: loc')
  qed
  have settledp: "settled E B s' (a_round ?l) vals" if "a_phase ?l = WaitCoin vals" for vals
    using mono(5) [OF ba_goodD(8) [OF g that p(2)]] .
  have phases: "settled E B s' (a_round (loc s' a)) vals" if "a_phase (loc s' a) = WaitCoin vals" "a \<notin> B" for a vals
  proof (cases "a = p")
    case False
    then show ?thesis using mono(5) [OF ba_goodD(8) [OF g _ that(2)]] that(1) by (simp add: loc')
  next
    case True
    with that(1) have ph: "a_phase l' = WaitCoin vals" by (simp add: loc')
    note e8 = eff(8) [OF ph]
    from e8 consider "a_phase ?l = WaitCoin vals" | "a_phase ?l = WaitAux" "a_conf_sent ?l (a_round ?l) vals"
      | "a_phase ?l = WaitConf" "conf_values E ?l = Some vals" by blast
    then show ?thesis
    proof cases
      case 1
      then show ?thesis using settledp e8 True by (simp add: loc')
    next
      case 2
      then show ?thesis using ba_goodD(9) [OF g 2(2) p(2)] by (simp add: past_conf_def)
    next
      case 3
      let ?r = "a_round ?l"
      have bin: "a_bin ?l ?r \<subseteq> {0, 1}" using ba_goodD(6) [OF g _ p(2)] by blast
      from conf_values_cases [OF 3(2) f bin] have "settled E B s ?r vals"
      proof (elim disjE exE conjE)
        fix v assume v: "vals = [v]" "aN E - af E \<le> card (a_conf ?l ?r [v])"
        have "confirmed E B s ?r v"
          unfolding confirmed_def using v(2) ba_goodD(2) [OF g, of _ p ?r "[v]"]
          by (intro exI [of _ "a_conf ?l ?r [v]"]) (auto simp: nf_quorum_def ba_cfg_def)
        with v(1) show ?thesis by (simp add: settled_def)
      next
        assume "vals = [0, 1]" "{0, 1} \<subseteq> a_bin ?l ?r"
        then show ?thesis using p(2) by (auto simp: settled_def in_bin_def)
      qed
      then show ?thesis using mono(5) e8 True by (simp add: loc')
    qed
  qed
  have sent: "r < a_round (loc s' a) \<or> r = a_round (loc s' a) \<and> past_conf (a_phase (loc s' a))"
    if "a_conf_sent (loc s' a) r c" "a \<notin> B" for a r c
  proof (cases "a = p")
    case True
    then show ?thesis
      using that eff(9) [of r c] ba_goodD(9) [OF g _ p(2), of r c] rounds by (auto simp: loc')
  next
    case False
    then show ?thesis using that ba_goodD(9) [OF g _ that(2), of r c] by (simp add: loc')
  qed
  have curs: "origin E B inp s' (a_round (loc s' a)) (a_cur (loc s' a))" if "a < aN E" "a \<notin> B" for a
  proof (cases "a = p")
    case False
    then show ?thesis using mono(4) [OF ba_goodD(7) [OF g that]] by (simp add: loc')
  next
    case True
    from eff(7) show ?thesis
    proof (elim disjE exE conjE)
      fix vals e d call
      assume n: "a_phase ?l = WaitCoin vals"
        "set_new_estimate vals (acoin E (a_round ?l)) (a_decided ?l) = Inr (e, d, call)"
        "a_round l' = a_round ?l + 1" "a_cur l' = e"
      have "est_ok E B s' (a_round ?l) e"
        using new_estimate [OF n(2)] settledp [OF n(1)] by (auto simp: est_ok_def settled_def)
      then show ?thesis using n True by (simp add: loc' origin_def)
    qed (use cur True in \<open>simp add: loc'\<close>)
  qed
  have decided: "\<exists>r. confirmed E B s' r v \<and> acoin E r = v" if "a_decided (loc s' a) = Some v" "a \<notin> B" for a v
  proof (cases "a = p")
    case False
    then have "a_decided (loc s a) = Some v" using that(1) by (simp add: loc')
    then show ?thesis using ba_goodD(10) [OF g _ that(2)] mono(1) by blast
  next
    case True
    have old: "\<exists>r. confirmed E B s' r v \<and> acoin E r = v" if "a_decided ?l = Some v"
      using ba_goodD(10) [OF g that p(2)] mono(1) by blast
    from eff(7) show ?thesis
    proof (elim disjE exE conjE)
      fix vals e d call
      assume n: "a_phase ?l = WaitCoin vals"
        "set_new_estimate vals (acoin E (a_round ?l)) (a_decided ?l) = Inr (e, d, call)" "a_decided l' = d"
      then have "d = Some v" using that True by (simp add: loc')
      with new_estimate [OF n(2)] settledp [OF n(1)] old show ?thesis
        by (auto simp: settled_def)
    qed (use old that True in \<open>simp add: loc'\<close>)
  qed
  show ?thesis
    unfolding ba_good_def
  proof (intro conjI, goal_cases)
    case 1 show ?case using est by blast
  next
    case 2 show ?case using conf by blast
  next
    case 3 show ?case using msgs by blast
  next
    case 4 show ?case using conf_msgs by blast
  next
    case 5 show ?case using unique by blast
  next
    case 6 show ?case using bins by blast
  next
    case 7 show ?case using curs by blast
  next
    case 8 show ?case using phases by blast
  next
    case 9 show ?case using sent by blast
  next
    case 10 show ?case using decided by blast
  qed
qed

section \<open>Agreement and validity\<close>

text \<open>The start: every node has its input, and can resume its own main loop at any time.\<close>

definition ba_initial :: "ba_env \<Rightarrow> (nat \<Rightarrow> nat) \<Rightarrow> ba_sys" where
  "ba_initial E inp = start_sys (\<lambda>p. ba_init (inp p)) ((\<lambda>p. (p, p, RUN)) ` set [0..<aN E])"

definition ba_reachable :: "ba_env \<Rightarrow> nat set \<Rightarrow> (nat \<Rightarrow> nat) \<Rightarrow> ba_sys \<Rightarrow> bool" where
  "ba_reachable E B inp s = reaches (ba_cfg E B) (ba_step E) (ba_initial E inp) s"

lemma ba_good_initial: "ba_good E B inp (ba_initial E inp)"
  by (auto simp: ba_good_def ba_initial_def start_sys_def ba_init_def origin_def)

lemma ba_good_reaches:
  assumes "wf_cfg (ba_cfg E B)" and "ba_reachable E B inp s"
  shows "ba_good E B inp s"
proof -
  have "reaches (ba_cfg E B) (ba_step E) (ba_initial E inp) s \<Longrightarrow>
      ba_good E B inp s \<and> (\<forall>q p m. (q, p, m) \<in> net s \<longrightarrow> q < aN E)" for s
  proof (induction rule: reaches.induct)
    case start
    show ?case using ba_good_initial by (auto simp: ba_initial_def start_sys_def)
  next
    case (step s s')
    then have g: "ba_good E B inp s" and n: "\<And>q p m. (q, p, m) \<in> net s \<Longrightarrow> q < aN E" by blast+
    from step.hyps(2) show ?case
    proof cases
      case (deliver p q m l' outs k)
      have "ba_good E B inp s'"
        using ba_good_deliver [OF assms(1) g _ _ deliver(4) n [OF deliver(4)] deliver(6)] deliver(1-3)
        by (simp add: ba_cfg_def)
      moreover have "a < aN E" if "(a, b, m') \<in> net s'" for a b m'
        using that n [of a b m'] deliver(1,2) by (auto simp: ba_cfg_def dest: routed_msg)
      ultimately show ?thesis by blast
    next
      case (forge q p m)
      have q: "q \<in> B" "q < aN E" using forge(2) assms(1) by (auto simp: ba_cfg_def wf_cfg_def)
      have grow: "grows s s'" by (auto simp: grows_def forge(1))
      note mono = grows_mono [OF grow] and D = ba_goodD [OF g]
      have loc': "loc s' = loc s" and net': "net s' = insert (q, p, m) (net s)"
        by (simp_all add: forge(1))
      have "ba_good E B inp s'"
        unfolding ba_good_def loc' net'
      proof (intro conjI, goal_cases)
        case 1 show ?case using D(1) by blast
      next
        case 2 show ?case using D(2) by blast
      next
        case 3 show ?case using D(3) mono(4) q(1) by blast
      next
        case 4 show ?case using D(4) q(1) by blast
      next
        case 5 show ?case using D(5) q(1) by blast
      next
        case 6 show ?case using D(6) mono(4) by blast
      next
        case 7 show ?case using D(7) mono(4) by blast
      next
        case 8 show ?case using D(8) mono(5) by blast
      next
        case 9 show ?case using D(9) by blast
      next
        case 10 show ?case using D(10) mono(1) by blast
      qed
      then show ?thesis using n q(2) by (auto simp: net')
    qed
  qed
  then show ?thesis using assms(2) by (simp add: ba_reachable_def)
qed

lemma confirmed_unique:
  assumes "wf_cfg (ba_cfg E B)" and "ba_good E B inp s" and "confirmed E B s r v" and "confirmed E B s r v'"
  shows "v = v'"
proof -
  from assms(3) obtain Q where Q: "nf_quorum (ba_cfg E B) Q" "\<forall>x \<in> Q - B. \<exists>p. (x, p, CONF r [v]) \<in> net s"
    unfolding confirmed_def by blast
  from assms(4) obtain Q' where Q': "nf_quorum (ba_cfg E B) Q'" "\<forall>x \<in> Q' - B. \<exists>p. (x, p, CONF r [v']) \<in> net s"
    unfolding confirmed_def by blast
  from nf.quorums_meet [OF assms(1) Q(1) Q'(1)] obtain x where x: "x \<in> Q" "x \<in> Q'" "x \<notin> B"
    by (auto simp: ba_cfg_def)
  then obtain p p' where "(x, p, CONF r [v]) \<in> net s" "(x, p', CONF r [v']) \<in> net s"
    using Q(2) Q'(2) by blast
  from ba_goodD(5) [OF assms(2) this x(3)] show ?thesis by simp
qed

lemma confirmed_bin:
  assumes "wf_cfg (ba_cfg E B)" and "ba_good E B inp s" and "confirmed E B s r v"
  shows "in_bin B s r v"
proof -
  from assms(3) obtain Q where Q: "nf_quorum (ba_cfg E B) Q" "\<forall>x \<in> Q - B. \<exists>p. (x, p, CONF r [v]) \<in> net s"
    unfolding confirmed_def by blast
  from nf.quorum_correct [OF assms(1) Q(1)] obtain x where x: "x \<in> Q" "x \<notin> B"
    by (auto simp: ba_cfg_def)
  then obtain p where "(x, p, CONF r [v]) \<in> net s" using Q(2) by blast
  from ba_goodD(4) [OF assms(2) this x(2)] x(2) show ?thesis by (auto simp: in_bin_def)
qed

text \<open>After a round that confirmed its coin, later rounds see this value only.\<close>

lemma locked:
  assumes "wf_cfg (ba_cfg E B)" and "ba_good E B inp s" and "confirmed E B s r v" and "acoin E r = v"
  shows "in_bin B s (r + Suc d) w \<Longrightarrow> w = v"
proof (induction d arbitrary: w)
  case 0
  then obtain p where "p \<notin> B" "w \<in> a_bin (loc s p) (Suc r)" by (auto simp: in_bin_def)
  with ba_goodD(6) [OF assms(2)] have "est_ok E B s r w" by (fastforce simp: origin_def)
  then show ?case
    using confirmed_unique [OF assms(1,2,3)] assms(4) by (auto simp: est_ok_def)
next
  case (Suc d)
  then obtain p where "p \<notin> B" "w \<in> a_bin (loc s p) (Suc (r + Suc d))" by (auto simp: in_bin_def)
  with ba_goodD(6) [OF assms(2)] have "est_ok E B s (r + Suc d) w" by (fastforce simp: origin_def)
  then show ?case
    unfolding est_ok_def
  proof (elim disjE conjE)
    assume "confirmed E B s (r + Suc d) w"
    then show ?thesis using Suc.IH confirmed_bin [OF assms(1,2)] by blast
  next
    assume "in_bin B s (r + Suc d) 0" "in_bin B s (r + Suc d) 1"
    then have "(0::nat) = v" "(1::nat) = v" using Suc.IH by blast+
    then show ?thesis by simp
  qed
qed

lemma ba_agreement_aux:
  assumes wf: "wf_cfg (ba_cfg E B)" and r: "ba_reachable E B inp s" and p: "p \<notin> B" "p' \<notin> B"
    and d: "a_decided (loc s p) = Some v" "a_decided (loc s p') = Some v'"
  shows "v = v'"
proof -
  note g = ba_good_reaches [OF wf r]
  from ba_goodD(10) [OF g d(1) p(1)] obtain i where i: "confirmed E B s i v" "acoin E i = v" by blast
  from ba_goodD(10) [OF g d(2) p(2)] obtain j where j: "confirmed E B s j v'" "acoin E j = v'" by blast
  consider "i = j" | d where "j = i + Suc d" | d where "i = j + Suc d"
    by (metis add_Suc_right less_iff_Suc_add not_less_iff_gr_or_eq)
  then show ?thesis
  proof cases
    case 1
    then show ?thesis using confirmed_unique [OF wf g i(1)] j(1) by simp
  next
    case (2 d)
    then show ?thesis using locked [OF wf g i] confirmed_bin [OF wf g j(1)] by blast
  next
    case (3 d)
    then show ?thesis using locked [OF wf g j] confirmed_bin [OF wf g i(1)] by blast
  qed
qed

lemma bin_from_input:
  assumes wf: "wf_cfg (ba_cfg E B)" and g: "ba_good E B inp s" and coin: "\<forall>r. acoin E r \<in> {0, 1}"
  shows "in_bin B s r w \<Longrightarrow> \<exists>p. p < aN E \<and> p \<notin> B \<and> inp p = w"
proof (induction r arbitrary: w)
  case 0
  then obtain p where "p \<notin> B" "w \<in> a_bin (loc s p) 0" by (auto simp: in_bin_def)
  with ba_goodD(6) [OF g] have "origin E B inp s 0 w" by blast
  then show ?case by (simp add: origin_def)
next
  case (Suc r)
  then obtain p where "p \<notin> B" "w \<in> a_bin (loc s p) (Suc r)" by (auto simp: in_bin_def)
  with ba_goodD(6) [OF g] have "est_ok E B s r w" by (fastforce simp: origin_def)
  then have "in_bin B s r w"
    unfolding est_ok_def
  proof (elim disjE conjE)
    assume "confirmed E B s r w"
    then show ?thesis by (rule confirmed_bin [OF wf g])
  next
    assume w: "w = acoin E r" "in_bin B s r 0" "in_bin B s r 1"
    have "acoin E r \<in> {0, 1}" using coin by blast
    then show ?thesis using w by auto
  qed
  then show ?case by (rule Suc.IH)
qed

lemma ba_validity_aux:
  assumes wf: "wf_cfg (ba_cfg E B)" and coin: "\<forall>r. acoin E r \<in> {0, 1}" and r: "ba_reachable E B inp s"
    and p: "p \<notin> B" and d: "a_decided (loc s p) = Some v"
  shows "\<exists>q. q < aN E \<and> q \<notin> B \<and> inp q = v"
proof -
  note g = ba_good_reaches [OF wf r]
  from ba_goodD(10) [OF g d p] obtain i where "confirmed E B s i v" by blast
  from bin_from_input [OF wf g coin confirmed_bin [OF wf g this]] show ?thesis .
qed

section \<open>Properties\<close>

text \<open>
  C10: Agreement of binary agreement. In any run with at most \<open>f\<close> Byzantine nodes and any inputs,
  two correct nodes that decide in \<open>binaryagreement\<close> (or its biased variant) decide the same value,
  whatever the rounds of their decisions. The coin is common: each round has one value.
\<close>

theorem ba_agreement:
  assumes "wf_cfg (ba_cfg E B)" and "ba_reachable E B inp s" and "p \<notin> B" and "p' \<notin> B"
    and "a_decided (loc s p) = Some v" and "a_decided (loc s p') = Some v'"
  shows "v = v'"
  using assms by (rule ba_agreement_aux)

text \<open>
  C11: Validity of binary agreement. A decided value is the input of a correct node, when the coin
  gives bits; the biased coin always does.
\<close>

theorem ba_validity:
  assumes "wf_cfg (ba_cfg E B)" and "\<forall>r. acoin E r \<in> {0, 1}" and "ba_reachable E B inp s"
    and "p \<notin> B" and "a_decided (loc s p) = Some v"
  shows "\<exists>q. q < aN E \<and> q \<notin> B \<and> inp q = v"
  using assms by (rule ba_validity_aux)

lemma biased_coin_bit: "biased_coin coin r \<in> {0, 1}"
  by (auto simp: biased_coin_def Let_def)

section \<open>Witnesses\<close>

definition ex_ba :: ba_env where
  "ex_ba = baisedbinaryagreement 4 1 (\<lambda>r. 7)"

definition runs :: "nat list \<Rightarrow> (nat \<times> nat \<times> ba_msg) list" where
  "runs ps = map (\<lambda>p. (p, p, RUN)) ps"

definition spread :: "ba_msg \<Rightarrow> nat list \<Rightarrow> (nat \<times> nat \<times> ba_msg) list" where
  "spread m ps = concat (map (\<lambda>p. map (\<lambda>q. (q, p, m)) [0, 1, 2]) ps)"

definition ex_ba_final :: ba_sys where
  "ex_ba_final = deliver_all (ba_cfg ex_ba {3}) (ba_step ex_ba) (ba_initial ex_ba (\<lambda>_. 1))
     (runs [0, 1, 2] @ spread (EST 0 1) [0, 1, 2] @ runs [0, 1, 2] @ spread (AUX 0 1) [0, 1, 2] @
      runs [0, 1, 2] @ spread (CONF 0 [1]) [0, 1] @ runs [0, 1] @ runs [0, 1])"

lemma ex_ba_wf: "wf_cfg (ba_cfg ex_ba {3})"
  by (simp add: wf_cfg_def ba_cfg_def ex_ba_def baisedbinaryagreement_def)

lemma ex_ba_reachable: "ba_reachable ex_ba {3} (\<lambda>_. 1) ex_ba_final"
  unfolding ba_reachable_def ex_ba_final_def by (rule deliver_all_reaches [OF reaches.start])

lemma ex_ba_decided: "a_decided (loc ex_ba_final 0) = Some 1 \<and> a_decided (loc ex_ba_final 1) = Some 1"
  by code_simp

theorem ba_agreement_witness: "a_decided (loc ex_ba_final 0) = Some 1 \<and> (1::nat) = 1"
  using ba_agreement [OF ex_ba_wf ex_ba_reachable, of 0 1 1 1] ex_ba_decided by simp

theorem ba_validity_witness: "\<exists>q. q < aN ex_ba \<and> q \<notin> {3} \<and> (1::nat) = 1"
proof -
  have "\<forall>r. acoin ex_ba r \<in> {0, 1}"
    using biased_coin_bit unfolding ex_ba_def baisedbinaryagreement_def by simp
  from ba_validity [OF ex_ba_wf this ex_ba_reachable, of 0 1] ex_ba_decided show ?thesis by simp
qed

end
