(* ===== verification/Merkle.thy ===== *)
theory Merkle
  imports Prelude
begin

text \<open>
  The Merkle tree of \<open>src/honeybadgerbft/core/reliablebroadcast.py\<close>: \<open>merkleTree\<close>,
  \<open>getMerkleBranch\<close> and \<open>merkleVerify\<close>, over an arbitrary hash function \<open>H\<close> (the code
  uses SHA-256). Lemmas: genuine branches verify; a branch that verifies against a genuine root
  proves the genuine leaf; equal roots have equal leaves. Collision freedom is only asked of the
  strings the computation hashes.
\<close>

section \<open>Model\<close>

text \<open>\<open>ceil(math.log(N, 2))\<close>: the least \<open>e\<close> with \<open>N \<le> 2 ^ e\<close>.\<close>

fun ceil_log2 :: "nat \<Rightarrow> nat" where
  "ceil_log2 n = (if n \<le> 1 then 0 else Suc (ceil_log2 ((n + 1) div 2)))"

declare ceil_log2.simps [simp del]

definition bottomrow :: "nat \<Rightarrow> nat" where
  "bottomrow N = 2 ^ ceil_log2 N"

text \<open>The two loops of \<open>merkleTree\<close>, each writing one entry of the array per round.\<close>

definition merkle_bottom :: "(bytes \<Rightarrow> bytes) \<Rightarrow> bytes list \<Rightarrow> bytes list \<Rightarrow> bytes list" where
  "merkle_bottom H xs mt =
     foldl (\<lambda>mt i. mt[bottomrow (length xs) + i := H (xs ! i)]) mt [0..<length xs]"

definition merkle_inner :: "(bytes \<Rightarrow> bytes) \<Rightarrow> nat \<Rightarrow> bytes list \<Rightarrow> bytes list" where
  "merkle_inner H b mt =
     foldl (\<lambda>mt i. mt[i := H (mt ! (i * 2) @ mt ! (i * 2 + 1))]) mt (rev [1..<b])"

definition merkleTree :: "(bytes \<Rightarrow> bytes) \<Rightarrow> bytes list \<Rightarrow> py_error + bytes list" where
  "merkleTree H xs =
     (if length xs \<ge> 1
      then Inr (merkle_inner H (bottomrow (length xs))
                 (merkle_bottom H xs (replicate (2 * bottomrow (length xs)) [])))
      else Inl AssertionError)"

text \<open>The loop of \<open>getMerkleBranch\<close>, from tree position \<open>t\<close> up to the root.\<close>

fun branch_up :: "bytes list \<Rightarrow> nat \<Rightarrow> py_error + bytes list" where
  "branch_up mt t =
     (if t > 1 then
        (case py_index mt (int (xor t 1)) of
           Inl e \<Rightarrow> Inl e
         | Inr sib \<Rightarrow> map_sum id ((#) sib) (branch_up mt (t div 2)))
      else Inr [])"

declare branch_up.simps [simp del]

definition getMerkleBranch :: "nat \<Rightarrow> bytes list \<Rightarrow> py_error + bytes list" where
  "getMerkleBranch index mt = branch_up mt (index + length mt div 2)"

text \<open>
  The loop of \<open>merkleVerify\<close>. The source writes the conditional as
  \<open>(tindex & 1) and br + tmp or tmp + br\<close>, which falls back to \<open>tmp + br\<close> on empty bytes.
\<close>

fun merkle_climb :: "(bytes \<Rightarrow> bytes) \<Rightarrow> nat \<Rightarrow> bytes \<Rightarrow> bytes list \<Rightarrow> bytes" where
  "merkle_climb H tindex tmp [] = tmp"
| "merkle_climb H tindex tmp (br # brs) =
     merkle_climb H (tindex div 2)
       (H (if odd tindex \<and> br @ tmp \<noteq> [] then br @ tmp else tmp @ br)) brs"

definition merkleVerify ::
    "(bytes \<Rightarrow> bytes) \<Rightarrow> nat \<Rightarrow> bytes \<Rightarrow> bytes \<Rightarrow> bytes list \<Rightarrow> nat \<Rightarrow> py_error + bool" where
  "merkleVerify H N val roothash branch index =
     (if \<not> index < N then Inl AssertionError
      else if length branch \<noteq> ceil_log2 N then Inl AssertionError
      else Inr (merkle_climb H index (H val) branch = roothash))"

text \<open>The test \<open>assert merkleVerify(...)\<close> inside a \<open>try\<close>: an exception counts as failure.\<close>

definition merkle_ok ::
    "(bytes \<Rightarrow> bytes) \<Rightarrow> nat \<Rightarrow> bytes \<Rightarrow> bytes \<Rightarrow> bytes list \<Rightarrow> nat \<Rightarrow> bool" where
  "merkle_ok H N val roothash branch index \<longleftrightarrow>
     merkleVerify H N val roothash branch index = Inr True"

text \<open>The strings that the two computations hash.\<close>

definition merkle_inputs :: "(bytes \<Rightarrow> bytes) \<Rightarrow> bytes list \<Rightarrow> bytes set" where
  "merkle_inputs H xs =
     (case merkleTree H xs of
        Inl e \<Rightarrow> {}
      | Inr mt \<Rightarrow> set xs \<union> set (map (\<lambda>i. mt ! (i * 2) @ mt ! (i * 2 + 1)) [1..<length mt div 2]))"

fun climb_inputs :: "(bytes \<Rightarrow> bytes) \<Rightarrow> nat \<Rightarrow> bytes \<Rightarrow> bytes list \<Rightarrow> bytes set" where
  "climb_inputs H tindex tmp [] = {}"
| "climb_inputs H tindex tmp (br # brs) =
     (let s = (if odd tindex \<and> br @ tmp \<noteq> [] then br @ tmp else tmp @ br)
      in insert s (climb_inputs H (tindex div 2) (H s) brs))"

definition verify_inputs :: "(bytes \<Rightarrow> bytes) \<Rightarrow> bytes \<Rightarrow> bytes list \<Rightarrow> nat \<Rightarrow> bytes set" where
  "verify_inputs H val branch index = insert val (climb_inputs H index (H val) branch)"

section \<open>Shape of the tree\<close>

lemma ceil_log2_le: "n \<le> 2 ^ ceil_log2 n"
proof (induction n rule: ceil_log2.induct)
  case (1 n)
  show ?case
  proof (cases "n \<le> 1")
    case True
    then show ?thesis by (simp add: ceil_log2.simps [of n])
  next
    case False
    with "1.IH" have "(n + 1) div 2 \<le> 2 ^ ceil_log2 ((n + 1) div 2)" by simp
    then have "n \<le> 2 * 2 ^ ceil_log2 ((n + 1) div 2)" by linarith
    with False show ?thesis by (simp add: ceil_log2.simps [of n])
  qed
qed

lemma ceil_log2_least: "n \<le> 2 ^ e \<Longrightarrow> ceil_log2 n \<le> e"
proof (induction e arbitrary: n)
  case 0
  then show ?case by (simp add: ceil_log2.simps [of n])
next
  case (Suc e)
  then have "(n + 1) div 2 \<le> 2 ^ e" by simp
  then have "ceil_log2 ((n + 1) div 2) \<le> e" by (rule Suc.IH)
  then show ?case by (simp add: ceil_log2.simps [of n])
qed

lemma bottomrow_ge: "n \<le> bottomrow n"
  by (simp add: bottomrow_def ceil_log2_le)

lemma bottomrow_pos [simp]: "0 < bottomrow n"
  by (simp add: bottomrow_def)

lemma foldl_update_offset:
  "length mt = k + n \<Longrightarrow>
   foldl (\<lambda>mt i. mt[k + i := f i]) mt [0..<m] = take k mt @ map f [0..<m] @ drop (k + m) mt"
  if "m \<le> n" for m
  using that
proof (induction m)
  case 0
  then show ?case by simp
next
  case (Suc m)
  then have "foldl (\<lambda>mt i. mt[k + i := f i]) mt [0..<Suc m] =
      (take k mt @ map f [0..<m] @ drop (k + m) mt)[k + m := f m]"
    by simp
  also have "\<dots> = take k mt @ map f [0..<m] @ (drop (k + m) mt)[0 := f m]"
    using Suc.prems by (simp add: list_update_append min_def)
  also have "(drop (k + m) mt)[0 := f m] = f m # drop (k + Suc m) mt"
    using Suc.prems by (simp add: Cons_nth_drop_Suc [of "k + m" mt, symmetric])
  finally show ?case by simp
qed

text \<open>After the second loop every inner node is the hash of its two children.\<close>

lemma merkle_inner_length [simp]: "length (merkle_inner H b mt) = length mt"
  unfolding merkle_inner_def by (rule foldl_length) simp

lemma inner_loop:
  "length mt = 2 * b \<Longrightarrow> a \<le> b \<Longrightarrow> 1 \<le> a \<Longrightarrow>
   (let r = foldl (\<lambda>mt i. mt[i := H (mt ! (i * 2) @ mt ! (i * 2 + 1))]) mt (rev [a..<b])
    in (\<forall>i. a \<le> i \<and> i < b \<longrightarrow> r ! i = H (r ! (i * 2) @ r ! (i * 2 + 1))) \<and>
       (\<forall>i \<ge> b. r ! i = mt ! i) \<and> (\<forall>i < a. r ! i = mt ! i) \<and> length r = 2 * b)"
proof (induction "b - a" arbitrary: a)
  case 0
  then show ?case by auto
next
  case (Suc d)
  then have ab: "a < b" and d: "d = b - Suc a" by auto
  let ?g = "\<lambda>mt i. mt[i := H (mt ! (i * 2) @ mt ! (i * 2 + 1))]"
  define r where "r = foldl ?g mt (rev [Suc a..<b])"
  from Suc.hyps(1) [OF d] Suc.prems ab
  have r: "(\<forall>i. Suc a \<le> i \<and> i < b \<longrightarrow> r ! i = H (r ! (i * 2) @ r ! (i * 2 + 1)))"
    "\<forall>i \<ge> b. r ! i = mt ! i" "\<forall>i < Suc a. r ! i = mt ! i" "length r = 2 * b"
    unfolding r_def Let_def by auto
  have step: "foldl ?g mt (rev [a..<b]) = r[a := H (r ! (a * 2) @ r ! (a * 2 + 1))]"
    using ab by (simp add: upt_conv_Cons r_def)
  show ?case
    unfolding step Let_def using r ab Suc.prems(3)
    by (auto simp: nth_list_update)
qed

lemma merkleTree_Inr:
  assumes "merkleTree H xs = Inr mt"
  shows "1 \<le> length xs"
    and "mt = merkle_inner H (bottomrow (length xs))
                (merkle_bottom H xs (replicate (2 * bottomrow (length xs)) []))"
    and "length mt = 2 * bottomrow (length xs)"
  using assms
  by (auto simp: merkleTree_def merkle_bottom_def foldl_length split: if_splits)

lemma merkle_loops:
  assumes "merkleTree H xs = Inr mt"
  shows "1 \<le> i \<Longrightarrow> i < bottomrow (length xs) \<Longrightarrow> mt ! i = H (mt ! (i * 2) @ mt ! (i * 2 + 1))"
    and "bottomrow (length xs) \<le> i \<Longrightarrow>
      mt ! i = merkle_bottom H xs (replicate (2 * bottomrow (length xs)) []) ! i"
proof -
  let ?b = "bottomrow (length xs)"
  let ?m = "merkle_bottom H xs (replicate (2 * ?b) [])"
  have "length ?m = 2 * ?b"
    by (simp add: merkle_bottom_def foldl_length)
  from inner_loop [OF this, of 1 H]
  have *: "\<forall>i. 1 \<le> i \<and> i < ?b \<longrightarrow> mt ! i = H (mt ! (i * 2) @ mt ! (i * 2 + 1))"
    "\<forall>i \<ge> ?b. mt ! i = ?m ! i"
    unfolding merkleTree_Inr(2) [OF assms] merkle_inner_def Let_def
    using bottomrow_pos [of "length xs"] by (auto simp: Suc_le_eq)
  show "1 \<le> i \<Longrightarrow> i < ?b \<Longrightarrow> mt ! i = H (mt ! (i * 2) @ mt ! (i * 2 + 1))"
    using *(1) by blast
  show "?b \<le> i \<Longrightarrow> mt ! i = ?m ! i"
    using *(2) by blast
qed

lemma bottom_node:
  assumes "merkleTree H xs = Inr mt" and "i < bottomrow (length xs)"
  shows "mt ! (bottomrow (length xs) + i) = (if i < length xs then H (xs ! i) else [])"
proof -
  let ?b = "bottomrow (length xs)"
  have m: "merkle_bottom H xs (replicate (2 * ?b) []) =
      take ?b (replicate (2 * ?b) []) @ map (\<lambda>i. H (xs ! i)) [0..<length xs] @
      drop (?b + length xs) (replicate (2 * ?b) [])"
    unfolding merkle_bottom_def
    by (rule foldl_update_offset [where n = ?b]) (use bottomrow_ge in auto)
  have "mt ! (?b + i) = merkle_bottom H xs (replicate (2 * ?b) []) ! (?b + i)"
    by (rule merkle_loops(2) [OF assms(1)]) simp
  also have "\<dots> = (if i < length xs then H (xs ! i) else [])"
    unfolding m using assms(2) by (simp add: nth_append)
  finally show ?thesis .
qed

lemma leaf_node:
  "merkleTree H xs = Inr mt \<Longrightarrow> i < length xs \<Longrightarrow> mt ! (bottomrow (length xs) + i) = H (xs ! i)"
  using bottom_node [of H xs mt i] bottomrow_ge [of "length xs"] by simp

section \<open>Genuine branches verify\<close>

lemma nat_xor_one: "xor (t::nat) (Suc 0) = (if even t then t + 1 else t - 1)"
  by (auto simp: xor_Suc_0_eq)

lemma sibling_concat:
  "(if odd (t::nat) then [mt ! (xor t 1), mt ! t] else [mt ! t, mt ! (xor t 1)]) =
   [mt ! (t div 2 * 2), mt ! (t div 2 * 2 + 1)]"
proof (cases "odd t")
  case True
  then obtain k where "t = 2 * k + 1" by (rule oddE)
  then show ?thesis by (simp add: nat_xor_one mult.commute)
next
  case False
  then obtain k where "t = 2 * k" by (auto elim: evenE)
  then show ?thesis by (simp add: nat_xor_one mult.commute)
qed

text \<open>The string hashed on the way from node \<open>t\<close> to its parent is the one of the tree.\<close>

lemma climb_string:
  fixes mt :: "bytes list"
  assumes "odd tindex = odd (t::nat)"
  shows "(if odd tindex \<and> mt ! (xor t 1) @ mt ! t \<noteq> [] then mt ! (xor t 1) @ mt ! t
          else mt ! t @ mt ! (xor t 1)) = mt ! (t div 2 * 2) @ mt ! (t div 2 * 2 + 1)"
  using sibling_concat [of t mt] assms by (auto split: if_splits)

lemma level_parent:
  fixes idx :: nat
  assumes "idx < 2 ^ Suc e"
  shows "(2 ^ Suc e + idx) div 2 = 2 ^ e + idx div 2" and "odd (2 ^ Suc e + idx) = odd idx"
    and "idx div 2 < 2 ^ e" and "xor (2 ^ Suc e + idx) 1 < 2 * 2 ^ Suc e"
proof -
  show "(2 ^ Suc e + idx) div 2 = 2 ^ e + idx div 2" by simp
  show "odd (2 ^ Suc e + idx) = odd idx" by simp
  show "idx div 2 < 2 ^ e" using assms by simp
  have "even ((2::nat) * 2 ^ Suc e)" by simp
  then show "xor (2 ^ Suc e + idx) 1 < 2 * 2 ^ Suc e"
    using assms by (auto simp: nat_xor_one elim!: evenE)
qed

lemma climb_genuine:
  assumes "merkleTree H xs = Inr mt"
  shows "2 ^ e \<le> bottomrow (length xs) \<Longrightarrow> idx < 2 ^ e \<Longrightarrow>
    \<exists>br. branch_up mt (2 ^ e + idx) = Inr br \<and> length br = e \<and>
      merkle_climb H idx (mt ! (2 ^ e + idx)) br = mt ! 1"
proof (induction e arbitrary: idx)
  case 0
  then show ?case by (simp add: branch_up.simps [of mt "Suc 0"])
next
  case (Suc e)
  let ?t = "2 ^ Suc e + idx"
  note par = level_parent [OF Suc.prems(2)]
  from Suc.prems(1) have e: "2 ^ e \<le> bottomrow (length xs)" by simp
  from Suc.IH [OF this par(3)] obtain br where
    br: "branch_up mt (2 ^ e + idx div 2) = Inr br" "length br = e"
      "merkle_climb H (idx div 2) (mt ! (2 ^ e + idx div 2)) br = mt ! 1"
    by blast
  have sib: "xor ?t 1 < length mt"
    using par(4) Suc.prems(1) merkleTree_Inr(3) [OF assms] by simp
  have "1 < ?t"
    using one_less_power [of "2::nat" "Suc e"] by simp
  then have up: "branch_up mt ?t = Inr (mt ! (xor ?t 1) # br)"
    using sib br(1) by (simp add: branch_up.simps [of mt ?t] par(1) del: power_Suc)
  have parent: "1 \<le> ?t div 2" "?t div 2 < bottomrow (length xs)"
    using par(1,3) Suc.prems(1) by simp_all
  have "merkle_climb H idx (mt ! ?t) (mt ! (xor ?t 1) # br) =
      merkle_climb H (idx div 2) (H (mt ! (?t div 2 * 2) @ mt ! (?t div 2 * 2 + 1))) br"
    unfolding merkle_climb.simps climb_string [OF par(2) [symmetric]] ..
  also have "H (mt ! (?t div 2 * 2) @ mt ! (?t div 2 * 2 + 1)) = mt ! (2 ^ e + idx div 2)"
    using merkle_loops(1) [OF assms parent] par(1) by simp
  finally show ?case
    using up br by auto
qed

lemma merkle_complete_ex:
  assumes "merkleTree H xs = Inr mt" and "i < length xs"
  shows "\<exists>br. getMerkleBranch i mt = Inr br \<and> length br = ceil_log2 (length xs) \<and>
    merkle_ok H (length xs) (xs ! i) (mt ! 1) br i"
proof -
  let ?e = "ceil_log2 (length xs)"
  have i: "i < 2 ^ ?e"
    using assms(2) ceil_log2_le [of "length xs"] by linarith
  from climb_genuine [OF assms(1) _ this] obtain br where
    br: "branch_up mt (2 ^ ?e + i) = Inr br" "length br = ?e"
      "merkle_climb H i (mt ! (2 ^ ?e + i)) br = mt ! 1"
    by (auto simp: bottomrow_def)
  moreover have "mt ! (2 ^ ?e + i) = H (xs ! i)"
    using leaf_node [OF assms] by (simp add: bottomrow_def)
  moreover have "length mt div 2 = 2 ^ ?e"
    using merkleTree_Inr(3) [OF assms(1)] by (simp add: bottomrow_def)
  ultimately show ?thesis
    using assms(2) by (auto simp: getMerkleBranch_def merkle_ok_def merkleVerify_def add.commute)
qed

section \<open>A verifying branch proves the genuine leaf\<close>

text \<open>Each node above a genuine leaf is a hash value, so its length is the hash length.\<close>

definition uniform_hash :: "(bytes \<Rightarrow> bytes) \<Rightarrow> bool" where
  "uniform_hash H \<longleftrightarrow> (\<forall>x y. length (H x) = length (H y))"

lemma uniform_hashD: "uniform_hash H \<Longrightarrow> length (H x) = length (H y)"
  by (simp add: uniform_hash_def)

definition hashed_node :: "(bytes \<Rightarrow> bytes) \<Rightarrow> bytes list \<Rightarrow> nat \<Rightarrow> bool" where
  "hashed_node H mt t \<longleftrightarrow> (\<exists>s. mt ! t = H s)"

lemma inner_hashed:
  "merkleTree H xs = Inr mt \<Longrightarrow> 1 \<le> t \<Longrightarrow> t < bottomrow (length xs) \<Longrightarrow> hashed_node H mt t"
  by (auto simp: hashed_node_def merkle_loops(1))

lemma merkle_inputs_inner:
  assumes "merkleTree H xs = Inr mt" and "1 \<le> t" and "t < bottomrow (length xs)"
  shows "mt ! (t * 2) @ mt ! (t * 2 + 1) \<in> merkle_inputs H xs"
  using assms merkleTree_Inr(3) [OF assms(1)] by (auto simp: merkle_inputs_def)

lemma merkle_inputs_leaf: "merkleTree H xs = Inr mt \<Longrightarrow> set xs \<subseteq> merkle_inputs H xs"
  by (auto simp: merkle_inputs_def)

lemma climb_binding:
  assumes tree: "merkleTree H xs = Inr mt" and uni: "uniform_hash H"
  shows "2 ^ e \<le> bottomrow (length xs) \<Longrightarrow> idx < 2 ^ e \<Longrightarrow> length brs = e \<Longrightarrow>
    hashed_node H mt (2 ^ e + idx) \<Longrightarrow>
    inj_on H (merkle_inputs H xs \<union> climb_inputs H idx (H v) brs) \<Longrightarrow>
    merkle_climb H idx (H v) brs = mt ! 1 \<Longrightarrow> mt ! (2 ^ e + idx) = H v"
proof (induction e arbitrary: idx v brs)
  case 0
  then show ?case by simp
next
  case (Suc e)
  let ?t = "2 ^ Suc e + idx"
  note par = level_parent [OF Suc.prems(2)]
  from Suc.prems(3) obtain br brs' where brs: "brs = br # brs'" "length brs' = e"
    by (cases brs) auto
  define s where "s = (if odd idx \<and> br @ H v \<noteq> [] then br @ H v else H v @ br)"
  have parent: "1 \<le> ?t div 2" "?t div 2 < bottomrow (length xs)"
    using par(1,3) Suc.prems(1) by simp_all
  have inj: "inj_on H (merkle_inputs H xs \<union> insert s (climb_inputs H (idx div 2) (H s) brs'))"
    using Suc.prems(5) by (simp add: brs s_def Let_def)
  have "mt ! (2 ^ e + idx div 2) = H s"
  proof (rule Suc.IH [OF _ par(3) brs(2)])
    show "2 ^ e \<le> bottomrow (length xs)" using Suc.prems(1) by simp
    show "hashed_node H mt (2 ^ e + idx div 2)"
      using inner_hashed [OF tree parent] par(1) by simp
    show "inj_on H (merkle_inputs H xs \<union> climb_inputs H (idx div 2) (H s) brs')"
      by (rule inj_on_subset [OF inj]) auto
    show "merkle_climb H (idx div 2) (H s) brs' = mt ! 1"
      using Suc.prems(6) by (simp add: brs s_def)
  qed
  then have "H (mt ! (?t div 2 * 2) @ mt ! (?t div 2 * 2 + 1)) = H s"
    using merkle_loops(1) [OF tree parent] par(1) by simp
  then have cat: "mt ! (?t div 2 * 2) @ mt ! (?t div 2 * 2 + 1) = s"
    by (rule inj_onD [OF inj]) (use merkle_inputs_inner [OF tree parent] in auto)
  obtain w where w: "mt ! ?t = H w"
    using Suc.prems(4) by (auto simp: hashed_node_def)
  have len: "length (H v) = length (mt ! ?t)"
    unfolding w by (rule uniform_hashD [OF uni])
  show ?case
  proof (cases "odd idx")
    case True
    with par(2) obtain k where k: "?t = 2 * k + 1" by (metis oddE)
    have dk: "?t div 2 = k" unfolding k by simp
    have "mt ! (k * 2) @ mt ! ?t = br @ H v"
      using cat True k unfolding dk by (auto simp: s_def mult.commute split: if_splits)
    with len show ?thesis by simp
  next
    case False
    with par(2) obtain k where k: "?t = 2 * k" by (metis evenE)
    have dk: "?t div 2 = k" unfolding k by simp
    have "mt ! ?t @ mt ! (?t + 1) = H v @ br"
      using cat False k unfolding dk by (auto simp: s_def mult.commute)
    with len show ?thesis by simp
  qed
qed

lemma merkle_binding_aux:
  assumes tree: "merkleTree H xs = Inr mt" and uni: "uniform_hash H"
    and ok: "merkle_ok H (length xs) v (mt ! 1) br i"
    and inj: "inj_on H (merkle_inputs H xs \<union> verify_inputs H v br i)"
  shows "v = xs ! i"
proof -
  let ?e = "ceil_log2 (length xs)"
  from ok have i: "i < length xs" and len: "length br = ?e"
    and climb: "merkle_climb H i (H v) br = mt ! 1"
    by (auto simp: merkle_ok_def merkleVerify_def split: if_splits)
  have lt: "i < 2 ^ ?e"
    using i ceil_log2_le [of "length xs"] by linarith
  have leaf: "mt ! (2 ^ ?e + i) = H (xs ! i)"
    using leaf_node [OF tree i] by (simp add: bottomrow_def)
  have "mt ! (2 ^ ?e + i) = H v"
  proof (rule climb_binding [OF tree uni _ lt len _ _ climb])
    show "2 ^ ?e \<le> bottomrow (length xs)" by (simp add: bottomrow_def)
    show "hashed_node H mt (2 ^ ?e + i)" using leaf by (auto simp: hashed_node_def)
    show "inj_on H (merkle_inputs H xs \<union> climb_inputs H i (H v) br)"
      by (rule inj_on_subset [OF inj]) (auto simp: verify_inputs_def)
  qed
  with leaf have "H (xs ! i) = H v" by simp
  moreover have "xs ! i \<in> merkle_inputs H xs"
    using merkle_inputs_leaf [OF tree] i by auto
  ultimately show ?thesis
    using inj_onD [OF inj, of "xs ! i" v] by (simp add: verify_inputs_def)
qed

section \<open>Equal roots have equal leaves\<close>

lemma node_hashed_iff:
  assumes "merkleTree H xs = Inr mt" and "1 \<le> t" and "t < 2 * bottomrow (length xs)"
  shows "hashed_node H mt t \<or> mt ! t = []" and
    "t < bottomrow (length xs) + length xs \<Longrightarrow> hashed_node H mt t" and
    "bottomrow (length xs) + length xs \<le> t \<Longrightarrow> mt ! t = []"
proof -
  let ?b = "bottomrow (length xs)"
  have bot: "mt ! t = (if t - ?b < length xs then H (xs ! (t - ?b)) else [])" if "?b \<le> t"
    using bottom_node [OF assms(1), of "t - ?b"] assms(3) that by simp
  have top: "hashed_node H mt t" if "t < ?b"
    using inner_hashed [OF assms(1,2) that] .
  show "hashed_node H mt t \<or> mt ! t = []"
  proof (cases "t < ?b")
    case False
    with bot show ?thesis by (auto simp: hashed_node_def)
  qed (simp add: top)
  show "t < ?b + length xs \<Longrightarrow> hashed_node H mt t"
    using bot top by (cases "t < ?b") (auto simp: hashed_node_def)
  show "?b + length xs \<le> t \<Longrightarrow> mt ! t = []"
    using bot by auto
qed

lemma same_length_nodes:
  assumes "merkleTree H xs = Inr mt" and "merkleTree H ys = Inr mu" and "length xs = length ys"
    and "uniform_hash H" and "1 \<le> t" and "t < 2 * bottomrow (length xs)"
  shows "length (mt ! t) = length (mu ! t)"
  using node_hashed_iff [OF assms(1,5,6)] node_hashed_iff [OF assms(2,5)] assms(3,6)
    uniform_hashD [OF assms(4)]
  by (cases "t < bottomrow (length xs) + length xs") (auto simp: hashed_node_def)

lemma merkle_roots_nodes:
  assumes tx: "merkleTree H xs = Inr mt" and ty: "merkleTree H ys = Inr mu"
    and len: "length xs = length ys" and uni: "uniform_hash H" and root: "mt ! 1 = mu ! 1"
    and inj: "inj_on H (merkle_inputs H xs \<union> merkle_inputs H ys)"
  shows "1 \<le> t \<Longrightarrow> t < 2 * bottomrow (length xs) \<Longrightarrow> mt ! t = mu ! t"
proof (induction t rule: less_induct)
  case (less t)
  show ?case
  proof (cases "t = 1")
    case True
    with root show ?thesis by simp
  next
    case False
    let ?p = "t div 2"
    have p: "1 \<le> ?p" "?p < bottomrow (length xs)" "?p < t"
      using False less.prems by auto
    have "mt ! ?p = mu ! ?p"
      using less.IH [OF p(3)] p by simp
    then have "H (mt ! (?p * 2) @ mt ! (?p * 2 + 1)) = H (mu ! (?p * 2) @ mu ! (?p * 2 + 1))"
      using merkle_loops(1) [OF tx p(1,2)] merkle_loops(1) [OF ty p(1)] p(2) len by simp
    then have cat: "mt ! (?p * 2) @ mt ! (?p * 2 + 1) = mu ! (?p * 2) @ mu ! (?p * 2 + 1)"
      using inj_onD [OF inj] merkle_inputs_inner [OF tx p(1,2)]
        merkle_inputs_inner [OF ty p(1)] p(2) len
      by auto
    have "length (mt ! (?p * 2)) = length (mu ! (?p * 2))"
      by (rule same_length_nodes [OF tx ty len uni]) (use p in auto)
    with cat have "mt ! (?p * 2) = mu ! (?p * 2)" "mt ! (?p * 2 + 1) = mu ! (?p * 2 + 1)"
      by auto
    moreover have "t = ?p * 2 \<or> t = ?p * 2 + 1" by presburger
    ultimately show ?thesis by metis
  qed
qed

lemma merkle_root_inj:
  assumes tx: "merkleTree H xs = Inr mt" and ty: "merkleTree H ys = Inr mu"
    and len: "length xs = length ys" and uni: "uniform_hash H" and root: "mt ! 1 = mu ! 1"
    and inj: "inj_on H (merkle_inputs H xs \<union> merkle_inputs H ys)"
  shows "xs = ys"
proof (rule nth_equalityI [OF len])
  fix i assume i: "i < length xs"
  let ?t = "bottomrow (length xs) + i"
  have "?t < 2 * bottomrow (length xs)"
    using i bottomrow_ge [of "length xs"] by simp
  then have "mt ! ?t = mu ! ?t"
    using merkle_roots_nodes [OF tx ty len uni root inj, of ?t] bottomrow_pos [of "length xs"]
    by (simp add: Suc_le_eq)
  then have "H (xs ! i) = H (ys ! i)"
    using leaf_node [OF tx i] leaf_node [OF ty, of i] i len by simp
  then show "xs ! i = ys ! i"
  proof (rule inj_onD [OF inj])
    show "xs ! i \<in> merkle_inputs H xs \<union> merkle_inputs H ys"
      using merkle_inputs_leaf [OF tx] nth_mem [OF i] by auto
    show "ys ! i \<in> merkle_inputs H xs \<union> merkle_inputs H ys"
    proof -
      have "ys ! i \<in> set ys" using i len by simp
      then show ?thesis using merkle_inputs_leaf [OF ty] by blast
    qed
  qed
qed

section \<open>The tree as a vector commitment\<close>

text \<open>
  What a broadcast relies on: a root binds the whole vector, genuine proofs verify, and a proof that
  verifies against a genuine root shows the genuine entry. \<open>apart\<close> and \<open>bound\<close> are the
  collision-freedom conditions on the strings hashed.
\<close>

locale vector_commitment =
  fixes root :: "'h \<Rightarrow> bytes list \<Rightarrow> py_error + bytes"
    and prove :: "'h \<Rightarrow> bytes list \<Rightarrow> nat \<Rightarrow> py_error + bytes list"
    and verify :: "'h \<Rightarrow> nat \<Rightarrow> bytes \<Rightarrow> bytes \<Rightarrow> bytes list \<Rightarrow> nat \<Rightarrow> bool"
    and apart :: "'h \<Rightarrow> bytes list \<Rightarrow> bytes list \<Rightarrow> bool"
    and bound :: "'h \<Rightarrow> bytes list \<Rightarrow> bytes \<Rightarrow> bytes list \<Rightarrow> nat \<Rightarrow> bool"
  assumes root_binds: "apart h xs ys \<Longrightarrow> length xs = length ys \<Longrightarrow> root h xs = Inr r \<Longrightarrow>
          root h ys = Inr r \<Longrightarrow> xs = ys"
    and complete: "root h xs = Inr r \<Longrightarrow> i < length xs \<Longrightarrow>
          \<exists>br. prove h xs i = Inr br \<and> verify h (length xs) (xs ! i) r br i"
    and binding: "bound h xs v br i \<Longrightarrow> root h xs = Inr r \<Longrightarrow> verify h (length xs) v r br i \<Longrightarrow>
          i < length xs \<and> v = xs ! i"
begin

text \<open>A partial vector whose entries were all proved against a genuine root is genuine.\<close>

lemma proved_entries:
  assumes "root h xs = Inr r" and "length ss = length xs"
    and "\<forall>i v. i < length ss \<longrightarrow> ss ! i = Some v \<longrightarrow>
           (\<exists>br. verify h (length xs) v r br i \<and> bound h xs v br i)"
  shows "\<forall>i < length ss. ss ! i \<in> {None, Some (xs ! i)}"
proof (intro allI impI)
  fix i assume i: "i < length ss"
  show "ss ! i \<in> {None, Some (xs ! i)}"
  proof (cases "ss ! i")
    case (Some v)
    with assms(3) i obtain br where "verify h (length xs) v r br i" "bound h xs v br i"
      by blast
    then have "v = xs ! i"
      using binding [OF _ assms(1)] by blast
    with Some show ?thesis by simp
  qed simp
qed

end

definition tree_root :: "(bytes \<Rightarrow> bytes) \<Rightarrow> bytes list \<Rightarrow> py_error + bytes" where
  "tree_root H ss = res_bind (merkleTree H ss) (\<lambda>mt. py_index mt 1)"

definition tree_branch :: "(bytes \<Rightarrow> bytes) \<Rightarrow> bytes list \<Rightarrow> nat \<Rightarrow> py_error + bytes list" where
  "tree_branch H ss i = res_bind (merkleTree H ss) (getMerkleBranch i)"

definition trees_apart :: "(bytes \<Rightarrow> bytes) \<Rightarrow> bytes list \<Rightarrow> bytes list \<Rightarrow> bool" where
  "trees_apart H xs ys \<longleftrightarrow> uniform_hash H \<and> inj_on H (merkle_inputs H xs \<union> merkle_inputs H ys)"

definition branch_bound :: "(bytes \<Rightarrow> bytes) \<Rightarrow> bytes list \<Rightarrow> bytes \<Rightarrow> bytes list \<Rightarrow> nat \<Rightarrow> bool" where
  "branch_bound H xs v br i \<longleftrightarrow>
     uniform_hash H \<and> inj_on H (merkle_inputs H xs \<union> verify_inputs H v br i)"

lemma tree_root_Inr:
  "tree_root H ss = Inr r \<longleftrightarrow> (\<exists>mt. merkleTree H ss = Inr mt \<and> r = mt ! 1)"
proof -
  have "py_index mt 1 = Inr (mt ! 1)" if "merkleTree H ss = Inr mt" for mt
  proof -
    have "1 < length mt"
      using merkleTree_Inr(3) [OF that] bottomrow_pos [of "length ss"] by linarith
    then show ?thesis
      using py_index_nonneg [of 1 mt] by simp
  qed
  then show ?thesis
    by (auto simp: tree_root_def res_bind_Inr)
qed

interpretation mk: vector_commitment tree_root tree_branch merkle_ok trees_apart branch_bound
proof (unfold_locales, goal_cases)
  case (1 h xs ys r)
  then show ?case
    unfolding tree_root_Inr trees_apart_def
    using merkle_root_inj [of h xs _ ys] by blast
next
  case (2 h xs r i)
  then obtain mt where mt: "merkleTree h xs = Inr mt" "r = mt ! 1"
    by (auto simp: tree_root_Inr)
  from merkle_complete_ex [OF mt(1) 2(2)] show ?case
    by (auto simp: tree_branch_def mt)
next
  case (3 h xs v br i r)
  then obtain mt where mt: "merkleTree h xs = Inr mt" "r = mt ! 1"
    by (auto simp: tree_root_Inr)
  have "i < length xs"
    using 3(3) by (auto simp: merkle_ok_def merkleVerify_def split: if_splits)
  moreover have "v = xs ! i"
    using merkle_binding_aux [OF mt(1)] 3 mt(2) by (simp add: branch_bound_def)
  ultimately show ?case by simp
qed

text \<open>A small hash with outputs of one length, for concrete instances.\<close>

definition toy_hash :: "bytes \<Rightarrow> bytes" where
  "toy_hash x = [foldl (\<lambda>h b. h * 31 + b + 1) 7 x, foldl (\<lambda>h b. h * 57 + b + 3) 11 x]"

lemma toy_uniform: "uniform_hash toy_hash"
  by (simp add: uniform_hash_def toy_hash_def)

end
