(* ===== verification/Erasure.thy ===== *)
theory Erasure
  imports Prelude
begin

text \<open>
  The erasure-coding layer of \<open>src/honeybadgerbft/core/reliablebroadcast.py\<close> (\<open>encode\<close>,
  \<open>decode\<close>): padding, block splitting and reassembly around the third-party \<open>zfec\<close> coder. The
  coder is a parameter: \<open>fe K N\<close> stands for \<open>zfec.Encoder(K, N).encode\<close> and \<open>fd K N\<close> for
  \<open>zfec.Decoder(K, N).decode\<close>; \<open>zfec_ok\<close> is its documented contract (any \<open>K\<close> of the \<open>N\<close>
  blocks give the data back).
\<close>

section \<open>Model\<close>

type_synonym fec_encoder = "nat \<Rightarrow> nat \<Rightarrow> bytes list \<Rightarrow> bytes list"
type_synonym fec_decoder = "nat \<Rightarrow> nat \<Rightarrow> bytes list \<Rightarrow> nat list \<Rightarrow> bytes list"

text \<open>\<open>chr(c).encode()\<close>, UTF-8, for the code points below \<open>0x800\<close> (here \<open>c < K \<le> 256\<close>).\<close>

definition chr_encode :: "nat \<Rightarrow> bytes" where
  "chr_encode c =
     (if c < 128 then [of_nat c] else [of_nat (192 + c div 64), of_nat (128 + c mod 64)])"

definition pad_to :: "nat \<Rightarrow> bytes \<Rightarrow> bytes" where
  "pad_to K m =
     (let padlen = K - length m mod K
      in m @ concat (replicate padlen (chr_encode (K - padlen))))"

definition split_blocks :: "nat \<Rightarrow> bytes \<Rightarrow> bytes list" where
  "split_blocks K m =
     (let step = length m div K in map (\<lambda>i. take step (drop (i * step) m)) [0..<K])"

definition encode :: "fec_encoder \<Rightarrow> nat \<Rightarrow> nat \<Rightarrow> bytes \<Rightarrow> py_error + bytes list" where
  "encode fe K N m =
     (if K > 256 then Inl AssertionError
      else if K = 0 then Inl ZeroDivisionError
      else Inr (fe K N (split_blocks K (pad_to K m))))"

text \<open>
  The loop of \<open>decode\<close> over \<open>enumerate(stripes)\<close>: it collects the present blocks with their
  numbers and stops at the \<open>K\<close>-th; falling off the end is the \<open>else\<close> branch.
\<close>

fun gather :: "nat \<Rightarrow> nat \<Rightarrow> bytes list \<Rightarrow> nat list \<Rightarrow> bytes option list \<Rightarrow>
    (bytes list \<times> nat list) option" where
  "gather K i blocks nums [] = None"
| "gather K i blocks nums (None # ss) = gather K (Suc i) blocks nums ss"
| "gather K i blocks nums (Some b # ss) =
     (if length (blocks @ [b]) = K then Some (blocks @ [b], nums @ [i])
      else gather K (Suc i) (blocks @ [b]) (nums @ [i]) ss)"

definition unpad :: "nat \<Rightarrow> bytes \<Rightarrow> py_error + bytes" where
  "unpad K m =
     (case py_index m (-1) of
        Inl e \<Rightarrow> Inl e
      | Inr b \<Rightarrow> (let padlen = int K - int (unat b) in Inr (py_take m (- padlen))))"

definition decode :: "fec_decoder \<Rightarrow> nat \<Rightarrow> nat \<Rightarrow> bytes option list \<Rightarrow> py_error + bytes" where
  "decode fd K N stripes =
     (if length stripes \<noteq> N then Inl AssertionError
      else (case gather K 0 [] [] stripes of
              None \<Rightarrow> Inl ValueError
            | Some (blocks, nums) \<Rightarrow> unpad K (concat (fd K N blocks nums))))"

text \<open>The coder's contract.\<close>

definition zfec_ok :: "fec_encoder \<Rightarrow> fec_decoder \<Rightarrow> nat \<Rightarrow> nat \<Rightarrow> bool" where
  "zfec_ok fe fd K N \<longleftrightarrow>
     (\<forall>blocks. length blocks = K \<and> (\<exists>s. \<forall>b \<in> set blocks. length b = s) \<longrightarrow>
        length (fe K N blocks) = N \<and>
        (\<forall>nums. length nums = K \<and> distinct nums \<and> set nums \<subseteq> {..<N} \<longrightarrow>
           fd K N (map (\<lambda>i. fe K N blocks ! i) nums) nums = blocks))"

section \<open>Padding and splitting\<close>

lemma concat_replicate_single: "concat (replicate n [x]) = replicate n x"
  by (induction n) auto

lemma pad_small:
  assumes "0 < K" and "K \<le> 128"
  shows "pad_to K m = m @ replicate (K - length m mod K) (of_nat (length m mod K))"
proof -
  have "length m mod K < K" using assms(1) by simp
  then show ?thesis
    using assms by (simp add: pad_to_def Let_def chr_encode_def concat_replicate_single)
qed

lemma pad_length:
  assumes "0 < K" and "K \<le> 128"
  shows "length (pad_to K m) = (length m div K + 1) * K"
proof -
  have "length m mod K < K" using assms(1) by simp
  moreover have "length m = length m div K * K + length m mod K" by simp
  ultimately have "length m + (K - length m mod K) = length m div K * K + K" by linarith
  then show ?thesis
    using assms by (simp add: pad_small)
qed

lemma pad_bounds:
  assumes "0 < K" and "K \<le> 128"
  shows "K dvd length (pad_to K m)" and "length m < length (pad_to K m)"
    and "length (pad_to K m) \<le> length m + K"
proof -
  have lt: "length m mod K < K" using assms(1) by simp
  show "K dvd length (pad_to K m)" by (simp only: pad_length [OF assms] dvd_triv_right)
  show "length m < length (pad_to K m)" "length (pad_to K m) \<le> length m + K"
    using lt by (simp_all add: pad_small [OF assms])
qed

lemma take_drop_blocks:
  "length m = n * s \<Longrightarrow> concat (map (\<lambda>i. take s (drop (i * s) m)) [0..<n]) = m"
proof (induction n arbitrary: m)
  case 0
  then show ?case by simp
next
  case (Suc n)
  have "concat (map (\<lambda>i. take s (drop (i * s) m)) [0..<Suc n]) =
      take s m @ concat (map (\<lambda>i. take s (drop (i * s) (drop s m))) [0..<n])"
    by (simp add: upt_conv_Cons map_Suc_upt [symmetric] comp_def add.commute del: upt_Suc)
  also have "concat (map (\<lambda>i. take s (drop (i * s) (drop s m))) [0..<n]) = drop s m"
    by (rule Suc.IH) (use Suc.prems in simp)
  finally show ?case by simp
qed

lemma split_concat:
  assumes "0 < K" and "K dvd length m"
  shows "concat (split_blocks K m) = m"
proof -
  from assms obtain s where s: "length m = K * s" by (elim dvdE)
  then show ?thesis
    using assms(1) take_drop_blocks [of m K s] by (simp add: split_blocks_def Let_def)
qed

lemma split_length [simp]: "length (split_blocks K m) = K"
  by (simp add: split_blocks_def Let_def)

lemma split_uniform: "\<exists>s. \<forall>b \<in> set (split_blocks K m). length b = s"
proof (intro exI ballI)
  fix b assume "b \<in> set (split_blocks K m)"
  then obtain i where i: "i < K" "b = take (length m div K) (drop (i * (length m div K)) m)"
    by (auto simp: split_blocks_def Let_def)
  then have "Suc i * (length m div K) \<le> K * (length m div K)"
    by (intro mult_right_mono) auto
  also have "\<dots> \<le> length m" by simp
  finally have "i * (length m div K) + length m div K \<le> length m"
    by simp
  then show "length b = length m div K"
    using i(2) by simp
qed

lemma unpad_pad:
  assumes "0 < K" and "K \<le> 128"
  shows "unpad K (pad_to K m) = Inr m"
proof -
  let ?r = "length m mod K"
  have r: "?r < K" using assms(1) by simp
  define p where "p = K - ?r"
  have p: "0 < p" "p \<le> length (pad_to K m)" "pad_to K m \<noteq> []"
    using r by (simp_all add: p_def pad_small [OF assms])
  have "last (pad_to K m) = of_nat ?r"
    using r by (simp add: pad_small [OF assms])
  then have "py_index (pad_to K m) (-1) = Inr (of_nat ?r)"
    using py_index_negative [of 1 "pad_to K m"] p last_conv_nth [OF p(3)] by simp
  moreover have "int K - int (unat (of_nat ?r :: 8 word)) = int p"
    using r assms(2) by (simp add: unat_byte p_def)
  ultimately have "unpad K (pad_to K m) = Inr (take (length (pad_to K m) - p) (pad_to K m))"
    using py_take_minus [OF p(2,1)] by (simp add: unpad_def Let_def)
  then show ?thesis
    by (simp add: p_def pad_small [OF assms])
qed

section \<open>Gathering blocks\<close>

definition present :: "bytes option list \<Rightarrow> nat" where
  "present ss = length (filter (\<lambda>x. x \<noteq> None) ss)"

lemma present_simps [simp]:
  "present [] = 0" "present (None # ss) = present ss" "present (Some b # ss) = Suc (present ss)"
  by (simp_all add: present_def)

text \<open>\<open>consistent\<close>: every present block is the genuine one of its position.\<close>

definition consistent :: "bytes list \<Rightarrow> bytes option list \<Rightarrow> bool" where
  "consistent code ss \<longleftrightarrow> length ss = length code \<and> (\<forall>i < length ss. ss ! i \<in> {None, Some (code ! i)})"

lemma gather_spec:
  assumes "consistent code (done @ ss)" and "i = length done" and "length nums < K"
    and "K \<le> length nums + present ss" and "distinct nums" and "set nums \<subseteq> {..<i}"
    and "blocks = map ((!) code) nums"
  shows "\<exists>nums'. gather K i blocks nums ss = Some (map ((!) code) nums', nums') \<and>
    length nums' = K \<and> distinct nums' \<and> set nums' \<subseteq> {..<length code}"
  using assms
proof (induction ss arbitrary: "done" i nums blocks)
  case Nil
  then show ?case by simp
next
  case (Cons x ss)
  have len: "Suc i \<le> length code"
    using Cons.prems(1,2) by (simp add: consistent_def)
  have sub: "set nums \<subseteq> {..<Suc i}"
    using Cons.prems(6) by auto
  show ?case
  proof (cases x)
    case None
    then show ?thesis
      using Cons.IH [of "done @ [x]" "Suc i" nums blocks] Cons.prems sub by simp
  next
    case (Some b)
    have "(done @ x # ss) ! i = x"
      using Cons.prems(2) by simp
    then have b: "b = code ! i"
      using Cons.prems(1,2) Some unfolding consistent_def by (metis Cons.prems(2) insert_iff
          length_append length_Cons less_add_Suc1 option.distinct(1) option.inject singletonD
          add_Suc_right)
    have d: "distinct (nums @ [i])"
      using Cons.prems(5,6) by auto
    show ?thesis
    proof (cases "Suc (length nums) = K")
      case True
      then show ?thesis
        using Some b d len sub Cons.prems(7)
        by (intro exI [of _ "nums @ [i]"]) auto
    next
      case False
      then show ?thesis
        using Cons.IH [of "done @ [x]" "Suc i" "nums @ [i]" "blocks @ [b]"] Cons.prems Some b d sub
        by simp
    qed
  qed
qed

lemma gather_too_few: "length blocks + present ss < K \<Longrightarrow> gather K i blocks nums ss = None"
  by (induction K i blocks nums ss rule: gather.induct) auto

lemma decode_code:
  assumes "zfec_ok fe fd K N" and "0 < K" and "K \<le> 128"
    and "encode fe K N m = Inr code" and "consistent code ss" and "K \<le> present ss"
  shows "decode fd K N ss = Inr m"
proof -
  let ?bl = "split_blocks K (pad_to K m)"
  have code: "code = fe K N ?bl"
    using assms(2,3,4) by (simp add: encode_def)
  have z: "length code = N"
    "\<And>nums. length nums = K \<Longrightarrow> distinct nums \<Longrightarrow> set nums \<subseteq> {..<N} \<Longrightarrow>
       fd K N (map ((!) code) nums) nums = ?bl"
    using assms(1) split_uniform [of K "pad_to K m"] unfolding zfec_ok_def code by auto
  from gather_spec [of code "[]" ss 0 "[]" K "[]"] assms(2,5,6) obtain nums where
    g: "gather K 0 [] [] ss = Some (map ((!) code) nums, nums)"
      "length nums = K" "distinct nums" "set nums \<subseteq> {..<length code}"
    by auto
  have "concat (fd K N (map ((!) code) nums) nums) = pad_to K m"
    using z(2) [OF g(2,3)] g(4) z(1) split_concat [OF assms(2) pad_bounds(1) [OF assms(2,3)]]
    by simp
  then show ?thesis
    using g(1) assms(5) z(1) unpad_pad [OF assms(2,3)]
    by (simp add: decode_def consistent_def)
qed

section \<open>The erasure code as an interface\<close>

text \<open>
  What a broadcast relies on: enough genuine fragments give the message back. Encoding is then
  injective.
\<close>

locale erasure_code =
  fixes enc :: "'p \<Rightarrow> bytes \<Rightarrow> py_error + bytes list"
    and dec :: "'p \<Rightarrow> bytes option list \<Rightarrow> py_error + bytes"
    and sound :: "'p \<Rightarrow> bool"
    and need :: "'p \<Rightarrow> nat"
    and total :: "'p \<Rightarrow> nat"
  assumes enc_length: "sound p \<Longrightarrow> enc p m = Inr code \<Longrightarrow> length code = total p"
    and enough: "sound p \<Longrightarrow> need p \<le> total p"
    and dec_enc: "sound p \<Longrightarrow> enc p m = Inr code \<Longrightarrow> consistent code ss \<Longrightarrow> need p \<le> present ss \<Longrightarrow>
          dec p ss = Inr m"
begin

lemma enc_inj:
  assumes "sound p" and "enc p m = Inr code" and "enc p m' = Inr code"
  shows "m = m'"
proof -
  let ?ss = "map Some code"
  have "consistent code ?ss" by (simp add: consistent_def)
  moreover have "need p \<le> present ?ss"
    using enc_length [OF assms(1,2)] enough [OF assms(1)] by (simp add: present_def filter_True)
  ultimately have "dec p ?ss = Inr m" "dec p ?ss = Inr m'"
    using dec_enc assms by blast+
  then show ?thesis by simp
qed

end

fun coder_ok :: "fec_encoder \<times> fec_decoder \<times> nat \<times> nat \<Rightarrow> bool" where
  "coder_ok (fe, fd, K, N) \<longleftrightarrow> zfec_ok fe fd K N \<and> 0 < K \<and> K \<le> 128 \<and> K \<le> N"

lemma encode_length: "zfec_ok fe fd K N \<Longrightarrow> encode fe K N m = Inr code \<Longrightarrow> length code = N"
  using split_uniform [of K "pad_to K m"]
  by (auto simp: zfec_ok_def encode_def split: if_splits)

interpretation coder: erasure_code
  "\<lambda>(fe, fd, K, N) m. encode fe K N m" "\<lambda>(fe, fd, K, N) ss. decode fd K N ss" coder_ok
  "\<lambda>(fe, fd, K, N). K" "\<lambda>(fe, fd, K, N). N"
proof (unfold_locales, goal_cases)
  case (1 p m code)
  then show ?case by (cases p) (auto intro: encode_length)
next
  case (2 p)
  then show ?case by (cases p) auto
next
  case (3 p m code ss)
  then show ?case by (cases p) (auto intro: decode_code)
qed

text \<open>A coder that meets the contract: every stripe carries the whole data.\<close>

definition rep_enc :: fec_encoder where
  "rep_enc K N blocks = replicate N (concat blocks)"

definition rep_dec :: fec_decoder where
  "rep_dec K N blocks nums = (case blocks of [] \<Rightarrow> [] | b # _ \<Rightarrow> split_blocks K b)"

lemma split_concat_uniform:
  assumes "length blocks = K" and "\<forall>b \<in> set blocks. length b = s"
  shows "split_blocks K (concat blocks) = blocks"
  using assms
proof (induction blocks arbitrary: K)
  case Nil
  then show ?case by (simp add: split_blocks_def)
next
  case (Cons b bs)
  have len: "length (concat bs) = length bs * s"
    using Cons.prems(2) by (induction bs) auto
  have "split_blocks (length bs) (concat bs) = bs"
    using Cons.IH Cons.prems(2) by simp
  then have ih: "map (\<lambda>i. take s (drop (i * s) (concat bs))) [0..<length bs] = bs"
    using len by (cases "length bs = 0") (auto simp: split_blocks_def)
  have b: "length b = s" and K: "K = Suc (length bs)"
    using Cons.prems by auto
  have "(s + length bs * s) div Suc (length bs) = s"
    by (metis mult_Suc nonzero_mult_div_cancel_left nat.simps(3))
  then have "split_blocks K (concat (b # bs)) =
      map (\<lambda>i. take s (drop (i * s) (b @ concat bs))) [0..<Suc (length bs)]"
    using len b by (simp add: split_blocks_def K del: upt_Suc)
  also have "\<dots> = b # map (\<lambda>i. take s (drop (i * s) (concat bs))) [0..<length bs]"
    using b by (simp add: upt_conv_Cons map_Suc_upt [symmetric] comp_def del: upt_Suc)
  finally show ?case using ih by simp
qed

lemma rep_zfec_ok: "0 < K \<Longrightarrow> zfec_ok rep_enc rep_dec K N"
  unfolding zfec_ok_def
proof (intro allI impI conjI, goal_cases)
  case (1 blocks)
  then show ?case by (simp add: rep_enc_def)
next
  case (2 blocks nums)
  then obtain n ns where "nums = n # ns" "n < N" by (cases nums) auto
  with 2 show ?case
    using split_concat_uniform by (auto simp: rep_dec_def rep_enc_def)
qed

end
