(* ===== verification/RBC.thy ===== *)
theory RBC
  imports AsyncNet Merkle Erasure
begin

text \<open>
  \<open>reliablebroadcast\<close> of \<open>src/honeybadgerbft/core/reliablebroadcast.py\<close>: the leader's
  dispersal of its input and the main receive loop, one definition per message tag. The record
  \<open>rbc_state\<close> has the loop's local variables under their own names. Message payloads are typed
  (root hash, branch, stripe); a message of another shape is not modelled.
\<close>

section \<open>Parameters, messages and state\<close>

record rbc_env =
  eN :: nat
  ef :: nat
  eleader :: nat
  eH :: "bytes \<Rightarrow> bytes"
  efe :: fec_encoder
  efd :: fec_decoder

definition eK :: "rbc_env \<Rightarrow> nat" where
  "eK E = eN E - 2 * ef E"

datatype rbc_msg =
    VAL bytes "bytes list" bytes
  | ECHO bytes "bytes list" bytes
  | READY bytes

record rbc_state =
  fromLeader :: "bytes option"
  stripes :: "bytes \<Rightarrow> bytes option list option"
  echoCounter :: "bytes \<Rightarrow> nat"
  echoSenders :: "nat set"
  ready :: "bytes \<Rightarrow> nat set"
  readySent :: bool
  readySenders :: "nat set"

definition rbc_init :: rbc_state where
  "rbc_init = \<lparr>fromLeader = None, stripes = (\<lambda>_. None), echoCounter = (\<lambda>_. 0), echoSenders = {},
               ready = (\<lambda>_. {}), readySent = False, readySenders = {}\<rparr>"

section \<open>The leader's dispersal\<close>

definition val_messages :: "rbc_env \<Rightarrow> bytes list \<Rightarrow> bytes list \<Rightarrow> py_error + rbc_msg out list" where
  "val_messages E ss mt =
     res_bind (py_index mt 1) (\<lambda>root.
       res_map (\<lambda>i. res_bind (getMerkleBranch i mt) (\<lambda>br.
         res_bind (py_index ss (int i)) (\<lambda>st. Inr (Send (int i) (VAL root br st))))) [0..<eN E])"

definition rbc_start :: "rbc_env \<Rightarrow> nat \<Rightarrow> bytes \<Rightarrow> py_error + rbc_msg out list" where
  "rbc_start E pid m =
     (if \<not> (3 * ef E + 1 \<le> eN E \<and> eleader E < eN E \<and> pid < eN E) then Inl AssertionError
      else if pid = eleader E then
        res_bind (encode (efe E) (eK E) (eN E) m) (\<lambda>ss.
          res_bind (merkleTree (eH E) ss) (\<lambda>mt. val_messages E ss mt))
      else Inr [])"

section \<open>The receive loop\<close>

text \<open>\<open>decode_output\<close>: decode, encode again, and compare the root.\<close>

definition stripes_of :: "nat \<Rightarrow> 'x rbc_state_scheme \<Rightarrow> bytes \<Rightarrow> bytes option list" where
  "stripes_of N s root = (case stripes s root of Some l \<Rightarrow> l | None \<Rightarrow> replicate N None)"

definition decode_output :: "rbc_env \<Rightarrow> 'x rbc_state_scheme \<Rightarrow> bytes \<Rightarrow> py_error + bytes" where
  "decode_output E s root =
     res_bind (decode (efd E) (eK E) (eN E) (stripes_of (eN E) s root)) (\<lambda>m.
       res_bind (encode (efe E) (eK E) (eN E) m) (\<lambda>ss.
         res_bind (tree_root (eH E) ss) (\<lambda>r.
           if r = root then Inr m else Inl AssertionError)))"

definition rbc_val :: "rbc_env \<Rightarrow> nat \<Rightarrow> rbc_state \<Rightarrow> nat \<Rightarrow> bytes \<Rightarrow> bytes list \<Rightarrow> bytes \<Rightarrow>
    (rbc_state, rbc_msg, bytes) reply" where
  "rbc_val E pid s sender root branch stripe =
     (if sender \<noteq> eleader E then stay s
      else if \<not> merkle_ok (eH E) (eN E) stripe root branch pid then stay s
      else (s\<lparr>fromLeader := Some root\<rparr>, to_all (eN E) (ECHO root branch stripe), Running))"

text \<open>
  \<open>roothash in stripes and stripes[roothash][sender] is not None or sender in echoSenders\<close>; the
  index is evaluated only for a root that already has an entry.
\<close>

definition echo_redundant :: "'x rbc_state_scheme \<Rightarrow> bytes \<Rightarrow> nat \<Rightarrow> py_error + bool" where
  "echo_redundant s root sender =
     (case stripes s root of
        None \<Rightarrow> Inr (sender \<in> echoSenders s)
      | Some l \<Rightarrow> res_bind (py_index l (int sender)) (\<lambda>x. Inr (x \<noteq> None \<or> sender \<in> echoSenders s)))"

definition add_echo :: "nat \<Rightarrow> 'x rbc_state_scheme \<Rightarrow> bytes \<Rightarrow> nat \<Rightarrow> bytes \<Rightarrow> 'x rbc_state_scheme" where
  "add_echo N s root sender stripe =
     s\<lparr>stripes := (stripes s)(root \<mapsto> (stripes_of N s root)[sender := Some stripe]),
       echoSenders := insert sender (echoSenders s),
       echoCounter := (echoCounter s)(root := echoCounter s root + 1)\<rparr>"

text \<open>The last test of both branches: enough \<open>READY\<close>s and enough stripes to decode.\<close>

definition rbc_output :: "rbc_env \<Rightarrow> rbc_state \<Rightarrow> bytes \<Rightarrow> bytes ctl" where
  "rbc_output E s root =
     (if 2 * ef E + 1 \<le> card (ready s root) \<and> eK E \<le> echoCounter s root
      then raise_or (decode_output E s root) else Running)"

definition rbc_echo :: "rbc_env \<Rightarrow> rbc_state \<Rightarrow> nat \<Rightarrow> bytes \<Rightarrow> bytes list \<Rightarrow> bytes \<Rightarrow>
    (rbc_state, rbc_msg, bytes) reply" where
  "rbc_echo E s sender root branch stripe =
     (case echo_redundant s root sender of
        Inl e \<Rightarrow> (s, [], Raised e)
      | Inr True \<Rightarrow> stay s
      | Inr False \<Rightarrow>
          if \<not> merkle_ok (eH E) (eN E) stripe root branch sender then stay s
          else let s1 = add_echo (eN E) s root sender stripe in
            if eN E - ef E \<le> echoCounter s1 root \<and> \<not> readySent s1
            then let s2 = s1\<lparr>readySent := True\<rparr>
                 in (s2, to_all (eN E) (READY root), rbc_output E s2 root)
            else (s1, [], rbc_output E s1 root))"

definition add_ready :: "'x rbc_state_scheme \<Rightarrow> bytes \<Rightarrow> nat \<Rightarrow> 'x rbc_state_scheme" where
  "add_ready s root sender =
     s\<lparr>ready := (ready s)(root := insert sender (ready s root)),
       readySenders := insert sender (readySenders s)\<rparr>"

definition rbc_ready :: "rbc_env \<Rightarrow> rbc_state \<Rightarrow> nat \<Rightarrow> bytes \<Rightarrow> (rbc_state, rbc_msg, bytes) reply" where
  "rbc_ready E s sender root =
     (if sender \<in> ready s root \<or> sender \<in> readySenders s then stay s
      else let s1 = add_ready s root sender in
        if ef E + 1 \<le> card (ready s1 root) \<and> \<not> readySent s1
        then let s2 = s1\<lparr>readySent := True\<rparr>
             in (s2, to_all (eN E) (READY root), rbc_output E s2 root)
        else (s1, [], rbc_output E s1 root))"

fun rbc_step :: "rbc_env \<Rightarrow> nat \<Rightarrow> rbc_state \<Rightarrow> nat \<times> rbc_msg \<Rightarrow> (rbc_state, rbc_msg, bytes) reply" where
  "rbc_step E pid s (sender, VAL root branch stripe) =
     (if fromLeader s = None then rbc_val E pid s sender root branch stripe else stay s)"
| "rbc_step E pid s (sender, ECHO root branch stripe) = rbc_echo E s sender root branch stripe"
| "rbc_step E pid s (sender, READY root) = rbc_ready E s sender root"

lemmas rbc_defs = rbc_val_def rbc_echo_def rbc_ready_def add_echo_def add_ready_def Let_def

section \<open>Local invariant\<close>

text \<open>The senders a node has counted an \<open>ECHO\<close> for.\<close>

definition echo_set :: "'x rbc_state_scheme \<Rightarrow> bytes \<Rightarrow> nat set" where
  "echo_set s root =
     (case stripes s root of None \<Rightarrow> {} | Some l \<Rightarrow> {i. i < length l \<and> l ! i \<noteq> None})"

definition rbc_inv :: "nat \<Rightarrow> 'x rbc_state_scheme \<Rightarrow> bool" where
  "rbc_inv N s \<longleftrightarrow>
     (\<forall>root l. stripes s root = Some l \<longrightarrow> length l = N) \<and>
     (\<forall>root. echoCounter s root = card (echo_set s root)) \<and>
     (\<forall>root. echo_set s root \<subseteq> echoSenders s) \<and>
     (\<forall>root root'. root \<noteq> root' \<longrightarrow> echo_set s root \<inter> echo_set s root' = {}) \<and>
     (\<forall>root. ready s root \<subseteq> readySenders s) \<and> finite (readySenders s) \<and>
     (\<forall>root root'. root \<noteq> root' \<longrightarrow> ready s root \<inter> ready s root' = {})"

lemma echo_set_finite [simp]: "finite (echo_set s root)"
  by (auto simp: echo_set_def split: option.splits)

lemma rbc_inv_init: "rbc_inv N rbc_init"
  by (auto simp: rbc_inv_def rbc_init_def echo_set_def)

lemma merkle_ok_index: "merkle_ok H N v root br i \<Longrightarrow> i < N"
  by (auto simp: merkle_ok_def merkleVerify_def split: if_splits)

text \<open>Counting one more echo adds exactly its sender, once.\<close>

lemma add_echo_set:
  assumes "rbc_inv N s" and "sender < N"
  shows "echo_set (add_echo N s root sender stripe) r =
    (if r = root then insert sender (echo_set s root) else echo_set s r)"
proof -
  have len: "length (stripes_of N s root) = N"
    using assms(1) by (auto simp: rbc_inv_def stripes_of_def split: option.splits)
  have "echo_set s root = {i. i < N \<and> stripes_of N s root ! i \<noteq> None}"
    using assms(1) by (auto simp: echo_set_def stripes_of_def rbc_inv_def split: option.splits)
  then show ?thesis
    using assms(2) len by (auto simp: echo_set_def add_echo_def nth_list_update)
qed

lemma echo_fresh:
  assumes "rbc_inv N s" and "echo_redundant s root sender = Inr False"
  shows "sender \<notin> echoSenders s" and "sender \<notin> echo_set s r"
proof -
  show *: "sender \<notin> echoSenders s"
    using assms(2) by (auto simp: echo_redundant_def res_bind_def split: option.splits sum.splits)
  show "sender \<notin> echo_set s r"
    using assms(1) * by (auto simp: rbc_inv_def)
qed

lemma add_echo_inv:
  assumes inv: "rbc_inv N s" and new: "echo_redundant s root sender = Inr False" and "sender < N"
  shows "rbc_inv N (add_echo N s root sender stripe)"
proof -
  let ?s = "add_echo N s root sender stripe"
  note set = add_echo_set [OF inv assms(3), of root stripe]
  note fresh = echo_fresh [OF inv new]
  have senders: "echoSenders ?s = insert sender (echoSenders s)"
    by (simp add: add_echo_def)
  have "length l = N" if "stripes ?s r = Some l" for r l
    using that inv
    by (auto simp: add_echo_def rbc_inv_def stripes_of_def split: if_splits option.splits)
  moreover have "echoCounter ?s r = card (echo_set ?s r)" for r
    using inv fresh(2) [of root] by (simp add: set rbc_inv_def) (simp add: add_echo_def)
  moreover have "echo_set ?s r \<subseteq> echoSenders ?s" for r
    using inv by (auto simp: set rbc_inv_def senders)
  moreover have "echo_set ?s r \<inter> echo_set ?s r' = {}" if "r \<noteq> r'" for r r'
    using inv fresh(2) that by (auto simp: set rbc_inv_def)
  ultimately show ?thesis
    using inv unfolding rbc_inv_def by (auto simp: add_echo_def)
qed

lemma add_ready_inv:
  "rbc_inv N s \<Longrightarrow> sender \<notin> readySenders s \<Longrightarrow> rbc_inv N (add_ready s root sender)"
  by (auto simp: rbc_inv_def add_ready_def echo_set_def)

lemma rbc_inv_flags [simp]:
  "rbc_inv N (s\<lparr>readySent := b\<rparr>) = rbc_inv N s" "rbc_inv N (s\<lparr>fromLeader := r\<rparr>) = rbc_inv N s"
  by (simp_all add: rbc_inv_def echo_set_def)

lemma rbc_step_inv:
  assumes "rbc_inv (eN E) s" and "rbc_step E pid s (sender, m) = (s', outs, k)"
  shows "rbc_inv (eN E) s'"
proof (cases m)
  case (VAL root branch stripe)
  then show ?thesis
    using assms by (auto simp: rbc_val_def split: if_splits)
next
  case (ECHO root branch stripe)
  show ?thesis
  proof (cases "echo_redundant s root sender = Inr False \<and>
      merkle_ok (eH E) (eN E) stripe root branch sender")
    case True
    then have "rbc_inv (eN E) (add_echo (eN E) s root sender stripe)"
      using add_echo_inv [OF assms(1)] merkle_ok_index by blast
    then show ?thesis
      using assms(2) True ECHO by (auto simp: rbc_echo_def Let_def split: if_splits)
  next
    case False
    then show ?thesis
      using assms ECHO by (auto simp: rbc_echo_def split: sum.splits bool.splits if_splits)
  qed
next
  case (READY root)
  show ?thesis
  proof (cases "sender \<in> ready s root \<or> sender \<in> readySenders s")
    case True
    then show ?thesis
      using assms READY by (auto simp: rbc_ready_def)
  next
    case False
    then have "rbc_inv (eN E) (add_ready s root sender)"
      using add_ready_inv [OF assms(1)] by blast
    then show ?thesis
      using assms(2) False READY by (auto simp: rbc_ready_def Let_def split: if_splits)
  qed
qed

section \<open>The handler follows the echo/ready pattern\<close>

fun echo_root :: "rbc_msg \<Rightarrow> bytes option" where
  "echo_root (ECHO root _ _) = Some root"
| "echo_root _ = None"

fun ready_root :: "rbc_msg \<Rightarrow> bytes option" where
  "ready_root (READY root) = Some root"
| "ready_root _ = None"

fun val_root :: "rbc_msg \<Rightarrow> bytes option" where
  "val_root (VAL root _ _) = Some root"
| "val_root _ = None"

text \<open>\<open>m\<close> is the value of \<open>root\<close>: its encoding has that Merkle root.\<close>

definition value_of :: "rbc_env \<Rightarrow> bytes \<Rightarrow> bytes \<Rightarrow> bool" where
  "value_of E m root \<longleftrightarrow>
     res_bind (encode (efe E) (eK E) (eN E) m) (tree_root (eH E)) = Inr root"

lemma decode_output_value: "decode_output E s root = Inr m \<Longrightarrow> value_of E m root"
  by (auto simp: decode_output_def value_of_def res_bind_Inr split: if_splits)

lemma to_all_msgs: "m \<in> out_msg ` set (to_all N o1) \<Longrightarrow> m = o1"
  by (auto simp: to_all_def)

lemma rbc_output_Returned:
  "rbc_output E s root = Returned v \<Longrightarrow>
     value_of E v root \<and> 2 * ef E + 1 \<le> card (ready s root)"
  by (auto simp: rbc_output_def raise_or_def decode_output_value split: if_splits sum.splits)

lemma echo_set_flags [simp]:
  "echo_set (s\<lparr>readySent := b\<rparr>) r = echo_set s r" "echo_set (s\<lparr>fromLeader := x\<rparr>) r = echo_set s r"
  "echo_set (add_ready s root q) r = echo_set s r"
  by (simp_all add: echo_set_def add_ready_def)

lemma rbc_frames [simp]:
  "fromLeader (add_echo N s root q st) = fromLeader s"
  "fromLeader (add_ready s root q) = fromLeader s"
  "ready (add_echo N s root q st) = ready s"
  "ready (add_ready s root q) r = (if r = root then insert q (ready s root) else ready s r)"
  "readySent (add_echo N s root q st) = readySent s"
  "readySent (add_ready s root q) = readySent s"
  by (simp_all add: add_echo_def add_ready_def)

text \<open>
  What one handler call can do: nothing, echo the leader's root, count an \<open>ECHO\<close>, or count a
  \<open>READY\<close>. \<open>amplified\<close> relates the sent messages to the flag \<open>readySent\<close>.
\<close>

definition amplified :: "rbc_env \<Rightarrow> bool \<Rightarrow> bool \<Rightarrow> bytes \<Rightarrow> rbc_msg out list \<Rightarrow> bool \<Rightarrow> bool" where
  "amplified E old guard root outs new \<longleftrightarrow>
     (if guard \<and> \<not> old then outs = to_all (eN E) (READY root) \<and> new else outs = [] \<and> new = old)"

lemma amplified_msgs:
  "amplified E old guard root outs new \<Longrightarrow> m \<in> out_msg ` set outs \<Longrightarrow> m = READY root \<and> guard \<and> \<not> old"
  by (auto simp: amplified_def to_all_def split: if_splits)

lemma rbc_echo_cases:
  assumes "rbc_echo E s q root br st = (s', outs, k)"
  shows "s' = s \<and> outs = [] \<and> (\<forall>v. k \<noteq> Returned v) \<and>
      (k = Running \<or> (\<exists>e. echo_redundant s root q = Inl e)) \<or>
    (\<exists>b. echo_redundant s root q = Inr False \<and> merkle_ok (eH E) (eN E) st root br q \<and>
       s' = (add_echo (eN E) s root q st)\<lparr>readySent := b\<rparr> \<and> k = rbc_output E s' root \<and>
       amplified E (readySent s) (eN E - ef E \<le> echoCounter s' root) root outs b)"
proof (cases "echo_redundant s root q = Inr False \<and> merkle_ok (eH E) (eN E) st root br q")
  case False
  then show ?thesis
    using assms by (auto simp: rbc_echo_def split: sum.splits bool.splits if_splits)
next
  case True
  let ?s1 = "add_echo (eN E) s root q st"
  show ?thesis
  proof (cases "eN E - ef E \<le> echoCounter ?s1 root \<and> \<not> readySent ?s1")
    case amp: True
    have "(s', outs, k) = (?s1\<lparr>readySent := True\<rparr>, to_all (eN E) (READY root),
        rbc_output E (?s1\<lparr>readySent := True\<rparr>) root)"
      unfolding assms [symmetric] using True amp by (simp add: rbc_echo_def Let_def)
    then have *: "s' = ?s1\<lparr>readySent := True\<rparr> \<and> outs = to_all (eN E) (READY root) \<and>
        k = rbc_output E (?s1\<lparr>readySent := True\<rparr>) root"
      by (simp only: prod.inject)
    show ?thesis
      by (intro disjI2 exI [of _ True]) (use * True amp in \<open>simp add: amplified_def\<close>)
  next
    case noamp: False
    have same: "?s1\<lparr>readySent := readySent s\<rparr> = ?s1" by simp
    have "(s', outs, k) = (?s1, [], rbc_output E ?s1 root)"
      unfolding assms [symmetric] using True noamp by (auto simp: rbc_echo_def Let_def)
    then have *: "s' = ?s1 \<and> outs = [] \<and> k = rbc_output E ?s1 root"
      by (simp only: prod.inject)
    show ?thesis
      by (intro disjI2 exI [of _ "readySent s"])
        (use * True noamp in \<open>simp add: same amplified_def\<close>)
  qed
qed

lemma rbc_ready_cases:
  assumes "rbc_ready E s q root = (s', outs, k)"
  shows "s' = s \<and> outs = [] \<and> k = Running \<or>
    (\<exists>b. q \<notin> readySenders s \<and> s' = (add_ready s root q)\<lparr>readySent := b\<rparr> \<and>
       k = rbc_output E s' root \<and>
       amplified E (readySent s) (ef E + 1 \<le> card (ready s' root)) root outs b)"
proof (cases "q \<in> ready s root \<or> q \<in> readySenders s")
  case True
  then show ?thesis
    using assms by (auto simp: rbc_ready_def)
next
  case False
  let ?s1 = "add_ready s root q"
  show ?thesis
  proof (cases "ef E + 1 \<le> card (ready ?s1 root) \<and> \<not> readySent ?s1")
    case amp: True
    have "(s', outs, k) = (?s1\<lparr>readySent := True\<rparr>, to_all (eN E) (READY root),
        rbc_output E (?s1\<lparr>readySent := True\<rparr>) root)"
      unfolding assms [symmetric] using False amp by (simp add: rbc_ready_def Let_def)
    then have *: "s' = ?s1\<lparr>readySent := True\<rparr> \<and> outs = to_all (eN E) (READY root) \<and>
        k = rbc_output E (?s1\<lparr>readySent := True\<rparr>) root"
      by (simp only: prod.inject)
    show ?thesis
      by (intro disjI2 exI [of _ True]) (use * False amp in \<open>simp add: amplified_def\<close>)
  next
    case noamp: False
    have same: "?s1\<lparr>readySent := readySent s\<rparr> = ?s1" by simp
    have "(s', outs, k) = (?s1, [], rbc_output E ?s1 root)"
      unfolding assms [symmetric] using False noamp by (auto simp: rbc_ready_def Let_def)
    then have *: "s' = ?s1 \<and> outs = [] \<and> k = rbc_output E ?s1 root"
      by (simp only: prod.inject)
    show ?thesis
      by (intro disjI2 exI [of _ "readySent s"])
        (use * False noamp in \<open>simp add: same amplified_def\<close>)
  qed
qed

lemma rbc_step_cases:
  assumes "rbc_step E pid s (q, m) = (s', outs, k)"
  obtains (idle) "s' = s" "outs = []" "\<And>v. k \<noteq> Returned v"
      "k = Running \<or> (\<exists>root br st e. m = ECHO root br st \<and> echo_redundant s root q = Inl e)"
  | (val) root br st where "m = VAL root br st" "fromLeader s = None" "q = eleader E"
      "merkle_ok (eH E) (eN E) st root br pid" "s' = s\<lparr>fromLeader := Some root\<rparr>"
      "outs = to_all (eN E) (ECHO root br st)" "k = Running"
  | (echo) root br st b where "m = ECHO root br st" "echo_redundant s root q = Inr False"
      "merkle_ok (eH E) (eN E) st root br q"
      "s' = (add_echo (eN E) s root q st)\<lparr>readySent := b\<rparr>" "k = rbc_output E s' root"
      "amplified E (readySent s) (eN E - ef E \<le> echoCounter s' root) root outs b"
  | (ready) root b where "m = READY root" "q \<notin> readySenders s"
      "s' = (add_ready s root q)\<lparr>readySent := b\<rparr>" "k = rbc_output E s' root"
      "amplified E (readySent s) (ef E + 1 \<le> card (ready s' root)) root outs b"
proof (cases m)
  case (VAL root br st)
  show ?thesis
  proof (cases "fromLeader s = None \<and> q = eleader E \<and> merkle_ok (eH E) (eN E) st root br pid")
    case True
    show ?thesis
      by (rule that(2) [OF VAL]) (use assms VAL True in \<open>auto simp: rbc_val_def\<close>)
  next
    case False
    show ?thesis
      by (rule that(1)) (use assms VAL False in \<open>auto simp: rbc_val_def split: if_splits\<close>)
  qed
next
  case (ECHO root br st)
  with assms have "rbc_echo E s q root br st = (s', outs, k)" by simp
  from rbc_echo_cases [OF this] show ?thesis
    using that(1,3) ECHO by blast
next
  case (READY root)
  with assms have "rbc_ready E s q root = (s', outs, k)" by simp
  from rbc_ready_cases [OF this] show ?thesis
    using that(1,4) READY by (metis ctl.distinct(1))
qed

abbreviation env_cfg :: "rbc_env \<Rightarrow> nat set \<Rightarrow> cfg" where
  "env_cfg E B \<equiv> \<lparr>cN = eN E, cf = ef E, cbyz = B\<rparr>"

interpretation rbc: echo_ready_leader "rbc_step E" "rbc_inv (eN E)" "env_cfg E B" rbc_init
  fromLeader echo_set ready echo_root ready_root "value_of E" "eleader E" val_root
proof (unfold_locales, goal_cases)
  case (1 s p e s' outs k)
  then show ?case
    using rbc_step_inv by (cases e) blast
next
  case 2
  show ?case by (rule rbc_inv_init)
next
  case (3 r)
  show ?case by (simp add: echo_set_def rbc_init_def)
next
  case (4 r)
  show ?case by (simp add: rbc_init_def)
next
  case (5 s p q m s' outs k r)
  from 5(2) show ?case
    by (cases rule: rbc_step_cases) (use 5(3) in auto)
next
  case (6 s p q m s' outs k m' r)
  from 6(2) show ?case
  proof (cases rule: rbc_step_cases)
    case (val root br st)
    have "m' = ECHO root br st"
      by (rule to_all_msgs) (use 6(3) val(6) in simp)
    then show ?thesis using 6(4) val(5) by simp
  next
    case (echo root br st b)
    then show ?thesis using amplified_msgs [OF echo(6) 6(3)] 6(4) by simp
  next
    case (ready root b)
    then show ?thesis using amplified_msgs [OF ready(5) 6(3)] 6(4) by simp
  qed (use 6(3) in simp)
next
  case (7 s p q m s' outs k x r)
  from 7(2) show ?case
    by (cases rule: rbc_step_cases)
      (use 7(1,3) in \<open>auto simp: add_echo_set merkle_ok_index split: if_splits\<close>)
next
  case (8 s p q m s' outs k x r)
  from 8(2) show ?case
    by (cases rule: rbc_step_cases) (use 8(3) in \<open>auto split: if_splits\<close>)
next
  case (9 s p q m s' outs k m' r)
  have "rbc_inv (eN E) s'"
    using 9(1,2) by (rule rbc_step_inv)
  then have *: "echoCounter s' r = card (echo_set s' r)"
    by (simp add: rbc_inv_def)
  from 9(2) show ?case
  proof (cases rule: rbc_step_cases)
    case idle
    then show ?thesis using 9(3) by simp
  next
    case (val root br st)
    have "m' = ECHO root br st"
      by (rule to_all_msgs) (use 9(3) val(6) in simp)
    then show ?thesis using 9(4) by simp
  next
    case (echo root br st b)
    then show ?thesis using amplified_msgs [OF echo(6) 9(3)] 9(4) * by simp
  next
    case (ready root b)
    then show ?thesis using amplified_msgs [OF ready(5) 9(3)] 9(4) by simp
  qed
next
  case (10 s p q m s' outs v)
  from 10(3) show ?case
  proof (cases rule: rbc_step_cases)
    case (echo root br st b)
    from rbc_output_Returned [OF echo(5) [symmetric]] show ?thesis by auto
  next
    case (ready root b)
    from rbc_output_Returned [OF ready(4) [symmetric]] show ?thesis by auto
  qed auto
next
  case 11
  show ?case by (simp add: rbc_init_def)
next
  case (12 s p q m s' outs k r)
  from 12(2) show ?case
    by (cases rule: rbc_step_cases) (use 12(3) in auto)
next
  case (13 s p q m s' outs k m')
  from 13(2) show ?case
  proof (cases rule: rbc_step_cases)
    case (val root br st)
    have "m' = ECHO root br st"
      by (rule to_all_msgs) (use 13(3) val(6) in simp)
    then show ?thesis by simp
  next
    case (echo root br st b)
    then show ?thesis using amplified_msgs [OF echo(6) 13(3)] by simp
  next
    case (ready root b)
    then show ?thesis using amplified_msgs [OF ready(5) 13(3)] by simp
  qed (use 13(3) in simp)
qed

section \<open>Runs of one node\<close>

text \<open>What a node has counted was sent to it, and every counted sender is counted for some root.\<close>

definition rbc_src :: "rbc_env \<Rightarrow> (nat \<times> rbc_msg) set \<Rightarrow> rbc_state \<Rightarrow> bool" where
  "rbc_src E M s \<longleftrightarrow>
     rbc_inv (eN E) s \<and>
     (\<forall>root l i st. stripes s root = Some l \<longrightarrow> i < length l \<longrightarrow> l ! i = Some st \<longrightarrow>
        (\<exists>br. (i, ECHO root br st) \<in> M \<and> merkle_ok (eH E) (eN E) st root br i)) \<and>
     (\<forall>root q. q \<in> ready s root \<longrightarrow> (q, READY root) \<in> M) \<and>
     (\<forall>q \<in> echoSenders s. \<exists>r. q \<in> echo_set s r) \<and>
     (\<forall>q \<in> readySenders s. \<exists>r. q \<in> ready s r)"

lemma rbc_srcD:
  assumes "rbc_src E M s"
  shows "rbc_inv (eN E) s"
    and "stripes s root = Some l \<Longrightarrow> i < length l \<Longrightarrow> l ! i = Some st \<Longrightarrow>
           \<exists>br. (i, ECHO root br st) \<in> M \<and> merkle_ok (eH E) (eN E) st root br i"
    and "q \<in> ready s root \<Longrightarrow> (q, READY root) \<in> M"
    and "q \<in> echoSenders s \<Longrightarrow> \<exists>r. q \<in> echo_set s r"
    and "q \<in> readySenders s \<Longrightarrow> \<exists>r. q \<in> ready s r"
  using assms unfolding rbc_src_def by (elim conjE; blast)+

lemma rbc_src_init: "rbc_src E {} rbc_init"
  by (simp add: rbc_src_def rbc_inv_init) (simp add: rbc_init_def)

lemma rbc_src_mono: "rbc_src E M s \<Longrightarrow> M \<subseteq> M' \<Longrightarrow> rbc_src E M' s"
  unfolding rbc_src_def by (elim conjE, intro conjI) (blast | meson subsetD)+

lemma rbc_src_flags [simp]:
  "rbc_src E M (s\<lparr>readySent := b\<rparr>) = rbc_src E M s" "rbc_src E M (s\<lparr>fromLeader := r\<rparr>) = rbc_src E M s"
  by (simp_all add: rbc_src_def)

lemma add_echo_stripes:
  assumes "rbc_inv N s" and "q < N" and "stripes (add_echo N s root q st) r = Some l" and "i < length l"
    and "l ! i = Some x"
  shows "r = root \<and> i = q \<and> x = st \<or> (\<exists>l'. stripes s r = Some l' \<and> i < length l' \<and> l' ! i = Some x)"
proof -
  have len: "length (stripes_of N s root) = N"
    using assms(1) by (auto simp: rbc_inv_def stripes_of_def split: option.splits)
  show ?thesis
  proof (cases "r = root")
    case True
    then have l: "l = (stripes_of N s root)[q := Some st]"
      using assms(3) by (simp add: add_echo_def)
    show ?thesis
    proof (cases "i = q")
      case True
      then show ?thesis using \<open>r = root\<close> l assms(2,5) len by simp
    next
      case False
      then have "stripes_of N s root ! i = Some x" "i < length (stripes_of N s root)"
        using l assms(4,5) by simp_all
      then show ?thesis
        using True by (auto simp: stripes_of_def split: option.splits)
    qed
  next
    case False
    then show ?thesis using assms(3-5) by (simp add: add_echo_def)
  qed
qed

lemma add_echo_src:
  assumes src: "rbc_src E M s" and ok: "merkle_ok (eH E) (eN E) st root br q"
    and new: "echo_redundant s root q = Inr False"
  shows "rbc_src E (insert (q, ECHO root br st) M) (add_echo (eN E) s root q st)"
proof -
  note inv = rbc_srcD(1) [OF src] and q = merkle_ok_index [OF ok]
  note set = add_echo_set [OF inv q]
  show ?thesis
    unfolding rbc_src_def
  proof (intro conjI allI impI ballI, goal_cases)
    case 1
    show ?case by (rule add_echo_inv [OF inv new q])
  next
    case (2 r l i x)
    from add_echo_stripes [OF inv q 2] show ?case
      using rbc_srcD(2) [OF src] ok by blast
  next
    case (3 r x)
    then show ?case using rbc_srcD(3) [OF src] by simp
  next
    case (4 x)
    then have "x = q \<or> x \<in> echoSenders s" by (simp add: add_echo_def)
    then show ?case
    proof
      assume "x = q"
      then show ?thesis by (auto simp: set)
    next
      assume "x \<in> echoSenders s"
      then obtain r where "x \<in> echo_set s r"
        using rbc_srcD(4) [OF src] by blast
      then show ?thesis
        by (intro exI [of _ r]) (auto simp: set)
    qed
  next
    case (5 x)
    then show ?case using rbc_srcD(5) [OF src] by (simp add: add_echo_def)
  qed
qed

lemma add_ready_src:
  assumes src: "rbc_src E M s" and new: "q \<notin> readySenders s"
  shows "rbc_src E (insert (q, READY root) M) (add_ready s root q)"
proof -
  note inv = rbc_srcD(1) [OF src]
  have same: "stripes (add_ready s root q) = stripes s" "echoSenders (add_ready s root q) = echoSenders s"
    by (simp_all add: add_ready_def)
  show ?thesis
    unfolding rbc_src_def
  proof (intro conjI allI impI ballI, goal_cases)
    case 1
    show ?case by (rule add_ready_inv [OF inv new])
  next
    case (2 r l i x)
    then show ?case using rbc_srcD(2) [OF src] by (auto simp: same)
  next
    case (3 r x)
    then show ?case using rbc_srcD(3) [OF src] by (auto split: if_splits)
  next
    case (4 x)
    then show ?case using rbc_srcD(4) [OF src] by (simp add: same)
  next
    case (5 x)
    then have "x = q \<or> x \<in> readySenders s" by (simp add: add_ready_def)
    then show ?case
      using rbc_srcD(5) [OF src, of x] by fastforce
  qed
qed

lemma rbc_step_src:
  assumes "rbc_src E M s" and "rbc_step E pid s (q, m) = (s', outs, k)"
  shows "rbc_src E (insert (q, m) M) s'"
  using assms(2)
proof (cases rule: rbc_step_cases)
  case idle
  then show ?thesis using assms(1) rbc_src_mono by blast
next
  case (val root br st)
  then have "rbc_src E M s'" using assms(1) by simp
  then show ?thesis using rbc_src_mono by blast
next
  case (echo root br st b)
  then show ?thesis using add_echo_src [OF assms(1) echo(3,2)] by simp
next
  case (ready root b)
  then show ?thesis using add_ready_src [OF assms(1) ready(2)] by simp
qed

definition rbc_run :: "rbc_env \<Rightarrow> nat \<Rightarrow> (nat \<times> rbc_msg) list \<Rightarrow> (rbc_state, rbc_msg, bytes) reply" where
  "rbc_run E pid es = run_loop (rbc_step E pid) rbc_init es"

lemma rbc_run_src:
  "rbc_src E M s \<Longrightarrow> run_loop (rbc_step E pid) s es = (s', outs, k) \<Longrightarrow> rbc_src E (M \<union> set es) s'"
proof (induction es arbitrary: M s outs)
  case Nil
  then show ?case by simp
next
  case (Cons e es)
  obtain q m where e: "e = (q, m)" by (cases e)
  obtain s1 o1 k1 where h: "rbc_step E pid s (q, m) = (s1, o1, k1)"
    by (cases "rbc_step E pid s (q, m)")
  have s1: "rbc_src E (insert (q, m) M) s1"
    by (rule rbc_step_src [OF Cons.prems(1) h])
  show ?case
  proof (cases k1)
    case Running
    then obtain outs' where "run_loop (rbc_step E pid) s1 es = (s', outs', k)"
      using Cons.prems(2) h e by (auto split: prod.splits)
    from Cons.IH [OF s1 this] show ?thesis by (simp add: e)
  next
    case (Returned v)
    then have "s1 = s'" using Cons.prems(2) h e by simp
    then show ?thesis using rbc_src_mono [OF s1, of "M \<union> set (e # es)"] e by auto
  next
    case (Raised x)
    then have "s1 = s'" using Cons.prems(2) h e by simp
    then show ?thesis using rbc_src_mono [OF s1, of "M \<union> set (e # es)"] e by auto
  qed
qed

section \<open>Decoding\<close>

text \<open>The branches received for \<open>root\<close> do not collide with the tree over \<open>code\<close>.\<close>

definition echoes_bound :: "rbc_env \<Rightarrow> bytes list \<Rightarrow> bytes \<Rightarrow> (nat \<times> rbc_msg) set \<Rightarrow> bool" where
  "echoes_bound E code root M \<longleftrightarrow>
     (\<forall>(q, m) \<in> M. case m of ECHO r br st \<Rightarrow> r = root \<longrightarrow> branch_bound (eH E) code st br q | _ \<Rightarrow> True)"

definition env_coder :: "rbc_env \<Rightarrow> fec_encoder \<times> fec_decoder \<times> nat \<times> nat" where
  "env_coder E = (efe E, efd E, eK E, eN E)"

lemma decode_output_genuine:
  assumes "rbc_src E M s" and "coder_ok (env_coder E)"
    and "encode (efe E) (eK E) (eN E) m = Inr code" and "tree_root (eH E) code = Inr root"
    and "echoes_bound E code root M" and "eK E \<le> echoCounter s root"
  shows "decode_output E s root = Inr m"
proof -
  let ?ss = "stripes_of (eN E) s root"
  have inv: "rbc_inv (eN E) s" by (rule rbc_srcD(1) [OF assms(1)])
  have len: "length ?ss = eN E"
    using inv by (auto simp: rbc_inv_def stripes_of_def split: option.splits)
  have code: "length code = eN E"
    using coder.enc_length [of "env_coder E" m code] assms(2,3) by (simp add: env_coder_def)
  have "\<exists>br. merkle_ok (eH E) (length code) v root br i \<and> branch_bound (eH E) code v br i"
    if iv: "i < length ?ss" "?ss ! i = Some v" for i v
  proof -
    obtain l where "stripes s root = Some l" "i < length l" "l ! i = Some v"
      using iv by (auto simp: stripes_of_def split: option.splits)
    from rbc_srcD(2) [OF assms(1) this] obtain br where
      br: "(i, ECHO root br v) \<in> M" "merkle_ok (eH E) (eN E) v root br i"
      by blast
    then show ?thesis
      using assms(5) code by (force simp: echoes_bound_def)
  qed
  then have "\<forall>i < length ?ss. ?ss ! i \<in> {None, Some (code ! i)}"
    by (intro mk.proved_entries [OF assms(4)]) (simp_all add: len code)
  then have cons: "consistent code ?ss"
    by (simp add: consistent_def len code)
  have "present ?ss = card (echo_set s root)"
  proof (cases "stripes s root")
    case None
    then show ?thesis by (simp add: stripes_of_def echo_set_def present_def)
  next
    case (Some l)
    then show ?thesis
      by (simp add: stripes_of_def echo_set_def present_def length_filter_conv_card)
  qed
  then have "eK E \<le> present ?ss"
    using inv assms(6) by (simp add: rbc_inv_def)
  then have "decode (efd E) (eK E) (eN E) ?ss = Inr m"
    using coder.dec_enc [of "env_coder E" m code ?ss] assms(2,3) cons by (simp add: env_coder_def)
  then show ?thesis
    using assms(3,4) by (simp add: decode_output_def)
qed

section \<open>Delivery at one node\<close>

text \<open>
  The nodes outside \<open>B\<close> send \<open>ECHO\<close> and \<open>READY\<close> for \<open>root\<close> only; the others send anything.
\<close>

definition honest_for :: "nat set \<Rightarrow> bytes \<Rightarrow> (nat \<times> rbc_msg) set \<Rightarrow> bool" where
  "honest_for B root M \<longleftrightarrow>
     (\<forall>(q, m) \<in> M. q \<notin> B \<longrightarrow> echo_root m \<in> {None, Some root} \<and> ready_root m \<in> {None, Some root})"

definition echo_senders :: "rbc_env \<Rightarrow> bytes \<Rightarrow> (nat \<times> rbc_msg) set \<Rightarrow> nat set" where
  "echo_senders E root M =
     fst ` Set.filter (\<lambda>(q, m). case m of
       ECHO r br st \<Rightarrow> r = root \<and> merkle_ok (eH E) (eN E) st root br q | _ \<Rightarrow> False) M"

definition ready_senders :: "bytes \<Rightarrow> (nat \<times> rbc_msg) set \<Rightarrow> nat set" where
  "ready_senders root M = fst ` Set.filter (\<lambda>(q, m). ready_root m = Some root) M"

lemma echo_senders_iff: "q \<in> echo_senders E root M \<longleftrightarrow>
    (\<exists>br st. (q, ECHO root br st) \<in> M \<and> merkle_ok (eH E) (eN E) st root br q)"
proof
  assume "q \<in> echo_senders E root M"
  then obtain x m where e: "(x, m) \<in> M" "q = x"
    "case m of ECHO r br st \<Rightarrow> r = root \<and> merkle_ok (eH E) (eN E) st root br x | _ \<Rightarrow> False"
    unfolding echo_senders_def by (elim imageE) (simp add: case_prod_unfold, metis prod.collapse)
  show "\<exists>br st. (q, ECHO root br st) \<in> M \<and> merkle_ok (eH E) (eN E) st root br q"
    using e by (cases m) auto
next
  assume "\<exists>br st. (q, ECHO root br st) \<in> M \<and> merkle_ok (eH E) (eN E) st root br q"
  then obtain br st where m: "(q, ECHO root br st) \<in> M" "merkle_ok (eH E) (eN E) st root br q"
    by blast
  show "q \<in> echo_senders E root M"
    unfolding echo_senders_def by (rule image_eqI [of _ _ "(q, ECHO root br st)"]) (use m in simp_all)
qed

lemma ready_root_iff: "ready_root m = Some r \<longleftrightarrow> m = READY r"
  by (cases m) auto

lemma ready_senders_iff: "q \<in> ready_senders root M \<longleftrightarrow> (q, READY root) \<in> M"
  by (force simp: ready_senders_def ready_root_iff image_iff)

lemma echo_senders_insert: "x \<in> echo_senders E root (insert (q, m) M) \<Longrightarrow>
    x \<in> echo_senders E root M \<or>
    x = q \<and> (\<exists>br st. m = ECHO root br st \<and> merkle_ok (eH E) (eN E) st root br q)"
  unfolding echo_senders_iff by blast

lemma ready_senders_insert: "x \<in> ready_senders root (insert (q, m) M) \<Longrightarrow>
    x \<in> ready_senders root M \<or> x = q \<and> m = READY root"
  unfolding ready_senders_iff by blast

text \<open>A running node has counted every correct sender, and is short of a threshold.\<close>

definition rbc_waiting :: "rbc_env \<Rightarrow> nat set \<Rightarrow> bytes \<Rightarrow> (nat \<times> rbc_msg) set \<Rightarrow> rbc_state \<Rightarrow> bool" where
  "rbc_waiting E B root M s \<longleftrightarrow>
     rbc_src E M s \<and> echo_senders E root M - B \<subseteq> echo_set s root \<and>
     ready_senders root M - B \<subseteq> ready s root \<and>
     \<not> (2 * ef E + 1 \<le> card (ready s root) \<and> eK E \<le> echoCounter s root)"

lemma echo_new_or_old:
  assumes src: "rbc_src E M s" and hon: "honest_for B root M" and q: "q \<notin> B" "q < eN E"
    and red: "echo_redundant s root q \<noteq> Inr False"
  shows "q \<in> echo_set s root"
proof (rule ccontr)
  assume no: "q \<notin> echo_set s root"
  note inv = rbc_srcD(1) [OF src]
  have "q \<in> echoSenders s"
  proof (cases "stripes s root")
    case None
    then show ?thesis using red by (simp add: echo_redundant_def)
  next
    case (Some l)
    then have "length l = eN E" using inv by (auto simp: rbc_inv_def)
    then have "l ! q = None" and i: "py_index l (int q) = Inr (l ! q)"
      using no q Some by (simp_all add: echo_set_def)
    then show ?thesis using red Some by (simp add: echo_redundant_def)
  qed
  then obtain r where r: "q \<in> echo_set s r"
    using rbc_srcD(4) [OF src] by blast
  then obtain l st where "stripes s r = Some l" "q < length l" "l ! q = Some st"
    by (auto simp: echo_set_def split: option.splits)
  from rbc_srcD(2) [OF src this] obtain br where "(q, ECHO r br st) \<in> M" by blast
  then have "r = root" using hon q by (auto simp: honest_for_def)
  then show False using r no by simp
qed

lemma ready_new_or_old:
  assumes src: "rbc_src E M s" and hon: "honest_for B root M" and q: "q \<notin> B" "q \<in> readySenders s"
  shows "q \<in> ready s root"
proof -
  from rbc_srcD(5) [OF src q(2)] obtain r where r: "q \<in> ready s r" by blast
  then have "(q, READY r) \<in> M" by (rule rbc_srcD(3) [OF src])
  then have "r = root" using hon q by (auto simp: honest_for_def)
  then show ?thesis using r by simp
qed

lemma other_roots_weak:
  assumes "rbc_src E M s" and "honest_for B root M" and "finite B" and "card B \<le> ef E" and "r \<noteq> root"
  shows "card (ready s r) \<le> ef E"
proof -
  have "q \<in> B" if "q \<in> ready s r" for q
  proof -
    have "(q, READY r) \<in> M" by (rule rbc_srcD(3) [OF assms(1) that])
    then show ?thesis using assms(2,5) unfolding honest_for_def by auto
  qed
  then have "ready s r \<subseteq> B" by blast
  then have "card (ready s r) \<le> card B" by (rule card_mono [OF assms(3)])
  with assms(4) show ?thesis by simp
qed

lemma echo_redundant_total:
  assumes "rbc_inv N s" and "q < N"
  shows "\<exists>b. echo_redundant s root q = Inr b"
proof (cases "stripes s root")
  case (Some l)
  then have "length l = N" using assms(1) by (auto simp: rbc_inv_def)
  then show ?thesis using Some assms(2) by (simp add: echo_redundant_def)
qed (simp add: echo_redundant_def)

text \<open>A call touches one root at most, and ends only through \<open>decode_output\<close> of that root.\<close>

lemma rbc_step_ctl:
  assumes inv: "rbc_inv (eN E) s" and q: "q < eN E" and h: "rbc_step E pid s (q, m) = (s', outs, k)"
  shows "k = Running \<and> ready s' = ready s \<and> echoCounter s' = echoCounter s \<or>
    (\<exists>r. k = rbc_output E s' r \<and>
       (\<forall>r'. r' \<noteq> r \<longrightarrow> ready s' r' = ready s r' \<and> echoCounter s' r' = echoCounter s r'))"
  using h
proof (cases rule: rbc_step_cases)
  case idle
  then have "k = Running"
    using echo_redundant_total [OF inv q] by (metis Inl_Inr_False)
  with idle show ?thesis by simp
next
  case (echo root br st b)
  then show ?thesis by (intro disjI2 exI [of _ root]) (simp add: add_echo_def)
next
  case (ready root b)
  then show ?thesis by (intro disjI2 exI [of _ root]) (simp add: add_ready_def)
qed auto

lemma rbc_step_grows:
  assumes "rbc_inv (eN E) s" and "rbc_step E pid s (q, m) = (s', outs, k)"
  shows "echo_set s r \<subseteq> echo_set s' r" and "ready s r \<subseteq> ready s' r"
proof -
  have "echo_set s r \<subseteq> echo_set s' r \<and> ready s r \<subseteq> ready s' r"
    using assms(2)
    by (cases rule: rbc_step_cases) (auto simp: add_echo_set [OF assms(1) merkle_ok_index])
  then show "echo_set s r \<subseteq> echo_set s' r" and "ready s r \<subseteq> ready s' r" by simp_all
qed

lemma echo_counted:
  assumes src: "rbc_src E M s" and hon: "honest_for B root M" and q: "q \<notin> B"
    and ok: "merkle_ok (eH E) (eN E) st root br q"
    and h: "rbc_step E pid s (q, ECHO root br st) = (s', outs, k)"
  shows "q \<in> echo_set s' root"
proof (cases "echo_redundant s root q = Inr False")
  case True
  then have "echo_set s' root = echo_set (add_echo (eN E) s root q st) root"
    using h ok by (auto simp: rbc_echo_def Let_def split: if_splits)
  then show ?thesis
    using add_echo_set [OF rbc_srcD(1) [OF src] merkle_ok_index [OF ok]] by simp
next
  case False
  from echo_new_or_old [OF src hon q merkle_ok_index [OF ok] False]
  show ?thesis using rbc_step_grows(1) [OF rbc_srcD(1) [OF src] h] by blast
qed

lemma ready_counted:
  assumes src: "rbc_src E M s" and hon: "honest_for B root M" and q: "q \<notin> B"
    and h: "rbc_step E pid s (q, READY root) = (s', outs, k)"
  shows "q \<in> ready s' root"
proof (cases "q \<in> readySenders s")
  case True
  from ready_new_or_old [OF src hon q True]
  show ?thesis using rbc_step_grows(2) [OF rbc_srcD(1) [OF src] h] by blast
next
  case False
  then have "q \<notin> ready s root"
    using rbc_srcD(1) [OF src] by (auto simp: rbc_inv_def)
  with False show ?thesis
    using h by (auto simp: rbc_ready_def Let_def split: if_splits)
qed

lemma echo_fresh_counted:
  assumes "x \<in> echo_senders E root (insert (q, m) M)" and "x \<notin> B"
    and "rbc_src E M s" and "honest_for B root M" and "rbc_step E pid s (q, m) = (s', outs, k)"
    and "echo_senders E root M - B \<subseteq> echo_set s root"
  shows "x \<in> echo_set s' root"
  using echo_senders_insert [OF assms(1)]
proof (elim disjE conjE exE)
  assume "x \<in> echo_senders E root M"
  then show ?thesis
    using assms(2,6) rbc_step_grows(1) [OF rbc_srcD(1) [OF assms(3)] assms(5), of root] by blast
next
  fix br st assume "x = q" "m = ECHO root br st" "merkle_ok (eH E) (eN E) st root br q"
  then show ?thesis
    using echo_counted [OF assms(3,4)] assms(2,5) by metis
qed

lemma ready_fresh_counted:
  assumes "x \<in> ready_senders root (insert (q, m) M)" and "x \<notin> B"
    and "rbc_src E M s" and "honest_for B root M" and "rbc_step E pid s (q, m) = (s', outs, k)"
    and "ready_senders root M - B \<subseteq> ready s root"
  shows "x \<in> ready s' root"
  using ready_senders_insert [OF assms(1)]
proof (elim disjE conjE)
  assume "x \<in> ready_senders root M"
  then show ?thesis
    using assms(2,6) rbc_step_grows(2) [OF rbc_srcD(1) [OF assms(3)] assms(5), of root] by blast
next
  assume "x = q" "m = READY root"
  then show ?thesis
    using ready_counted [OF assms(3,4)] assms(2,5) by metis
qed

lemma rbc_waiting_step:
  assumes w: "rbc_waiting E B root M s" and h: "rbc_step E pid s (q, m) = (s', outs, k)"
    and q: "q < eN E" and hon: "honest_for B root (insert (q, m) M)"
    and B: "finite B" "card B \<le> ef E"
    and coder: "coder_ok (env_coder E)"
    and code: "encode (efe E) (eK E) (eN E) v = Inr code" "tree_root (eH E) code = Inr root"
    and bound: "echoes_bound E code root (insert (q, m) M)"
  shows "k = Returned v \<or> k = Running \<and> rbc_waiting E B root (insert (q, m) M) s'"
proof -
  let ?M = "insert (q, m) M"
  have src: "rbc_src E M s" using w by (simp add: rbc_waiting_def)
  note inv = rbc_srcD(1) [OF src]
  note src' = rbc_step_src [OF src h]
  have honM: "honest_for B root M" using hon by (auto simp: honest_for_def)
  have other: "rbc_output E s' r = Running" if "r \<noteq> root" for r
    using other_roots_weak [OF src' hon B that] by (simp add: rbc_output_def)
  have this_root: "rbc_output E s' root = (if 2 * ef E + 1 \<le> card (ready s' root) \<and>
      eK E \<le> echoCounter s' root then Returned v else Running)"
    using decode_output_genuine [OF src' coder code bound]
    by (auto simp: rbc_output_def raise_or_def)
  from rbc_step_ctl [OF inv q h] have ctl: "k = Returned v \<or> k = Running \<and>
      \<not> (2 * ef E + 1 \<le> card (ready s' root) \<and> eK E \<le> echoCounter s' root)"
  proof (elim disjE exE conjE)
    assume "k = Running" "ready s' = ready s" "echoCounter s' = echoCounter s"
    then show ?thesis using w by (simp add: rbc_waiting_def)
  next
    fix r
    assume r: "k = rbc_output E s' r"
      "\<forall>r'. r' \<noteq> r \<longrightarrow> ready s' r' = ready s r' \<and> echoCounter s' r' = echoCounter s r'"
    show ?thesis
    proof (cases "r = root")
      case True
      then show ?thesis using r(1) this_root by auto
    next
      case False
      then show ?thesis using r other [OF False] w by (simp add: rbc_waiting_def)
    qed
  qed
  have "echo_senders E root ?M - B \<subseteq> echo_set s' root"
    using echo_fresh_counted [OF _ _ src honM h] w
    unfolding rbc_waiting_def by (intro subsetI) simp
  moreover have "ready_senders root ?M - B \<subseteq> ready s' root"
    using ready_fresh_counted [OF _ _ src honM h] w
    unfolding rbc_waiting_def by (intro subsetI) simp
  ultimately show ?thesis
    using ctl src' unfolding rbc_waiting_def by blast
qed

lemma rbc_waiting_run:
  assumes "rbc_waiting E B root M s" and "\<forall>(q, m) \<in> set es. q < eN E"
    and "honest_for B root (M \<union> set es)" and "finite B" and "card B \<le> ef E"
    and "coder_ok (env_coder E)"
    and "encode (efe E) (eK E) (eN E) v = Inr code" and "tree_root (eH E) code = Inr root"
    and "echoes_bound E code root (M \<union> set es)"
    and "run_loop (rbc_step E pid) s es = (s', outs, k)"
  shows "k = Returned v \<or> k = Running \<and> rbc_waiting E B root (M \<union> set es) s'"
  using assms(1,2,3,9,10)
proof (induction es arbitrary: M s outs)
  case Nil
  then show ?case by simp
next
  case (Cons e es)
  obtain q m where e: "e = (q, m)" by (cases e)
  obtain s1 o1 k1 where h: "rbc_step E pid s (q, m) = (s1, o1, k1)"
    by (cases "rbc_step E pid s (q, m)")
  have q: "q < eN E" using Cons.prems(2) e by simp
  have hon: "honest_for B root (insert (q, m) M)"
    using Cons.prems(3) e unfolding honest_for_def by auto
  have bound: "echoes_bound E code root (insert (q, m) M)"
    using Cons.prems(4) e unfolding echoes_bound_def by auto
  from rbc_waiting_step [OF Cons.prems(1) h q hon assms(4-8) bound]
  show ?case
  proof (elim disjE conjE)
    assume "k1 = Returned v"
    then show ?thesis using Cons.prems(5) h e by simp
  next
    assume k1: "k1 = Running" and w: "rbc_waiting E B root (insert (q, m) M) s1"
    then obtain outs' where run: "run_loop (rbc_step E pid) s1 es = (s', outs', k)"
      using Cons.prems(5) h e by (auto split: prod.splits)
    have "insert (q, m) M \<union> set es = M \<union> set (e # es)" by (auto simp: e)
    then show ?thesis
      using Cons.IH [OF w _ _ _ run] Cons.prems(2-4) by simp
  qed
qed

lemma rbc_delivery_aux:
  assumes "\<forall>(q, m) \<in> set es. q < eN E" and "honest_for B root (set es)"
    and "finite B" and "card B \<le> ef E" and "coder_ok (env_coder E)"
    and "encode (efe E) (eK E) (eN E) v = Inr code" and "tree_root (eH E) code = Inr root"
    and "echoes_bound E code root (set es)"
    and "eK E \<le> card (echo_senders E root (set es) - B)"
    and "2 * ef E + 1 \<le> card (ready_senders root (set es) - B)"
  shows "ctl_of (rbc_run E pid es) = Returned v"
proof -
  obtain s outs k where run: "run_loop (rbc_step E pid) rbc_init es = (s, outs, k)"
    by (cases "run_loop (rbc_step E pid) rbc_init es")
  have "rbc_waiting E B root {} rbc_init"
    by (simp add: rbc_waiting_def rbc_src_init echo_senders_def ready_senders_def)
      (simp add: rbc_init_def)
  from rbc_waiting_run [OF this assms(1) _ assms(3-7) _ run] assms(2,8)
  have "k = Returned v \<or> k = Running \<and> rbc_waiting E B root (set es) s" by simp
  moreover have "\<not> rbc_waiting E B root (set es) s"
  proof
    assume w: "rbc_waiting E B root (set es) s"
    then have inv: "rbc_inv (eN E) s" using rbc_srcD(1) by (auto simp: rbc_waiting_def)
    have "finite (ready s root)"
      using inv unfolding rbc_inv_def by (metis finite_subset)
    then have "2 * ef E + 1 \<le> card (ready s root)"
      using w assms(10) card_mono [of "ready s root" "ready_senders root (set es) - B"]
      unfolding rbc_waiting_def by linarith
    moreover have "eK E \<le> card (echo_set s root)"
      using w assms(9) card_mono [of "echo_set s root" "echo_senders E root (set es) - B"]
      unfolding rbc_waiting_def by simp
    ultimately show False
      using w inv by (simp add: rbc_waiting_def rbc_inv_def)
  qed
  ultimately show ?thesis
    by (auto simp: rbc_run_def run)
qed

section \<open>Dispersal and the start of a run\<close>

text \<open>The messages for a genuine tree: node \<open>i\<close> gets its stripe and a branch that verifies.\<close>

lemma val_messages_genuine:
  assumes "merkleTree (eH E) code = Inr mt" and "length code = eN E"
  shows "\<exists>brs. val_messages E code mt =
      Inr (map (\<lambda>i. Send (int i) (VAL (mt ! 1) (brs i) (code ! i))) [0..<eN E]) \<and>
    (\<forall>i < eN E. merkle_ok (eH E) (eN E) (code ! i) (mt ! 1) (brs i) i)"
proof -
  have root: "tree_root (eH E) code = Inr (mt ! 1)"
    using assms(1) tree_root_Inr by blast
  then have idx: "py_index mt 1 = Inr (mt ! 1)"
    using assms(1) by (simp add: tree_root_def)
  define brs where "brs i = (case getMerkleBranch i mt of Inr br \<Rightarrow> br | _ \<Rightarrow> [])" for i
  have br: "getMerkleBranch i mt = Inr (brs i) \<and> merkle_ok (eH E) (eN E) (code ! i) (mt ! 1) (brs i) i"
    if "i < eN E" for i
  proof -
    from mk.complete [OF root, of i] that assms(2) obtain br where
      "tree_branch (eH E) code i = Inr br" "merkle_ok (eH E) (eN E) (code ! i) (mt ! 1) br i"
      by auto
    then show ?thesis using assms(1) by (simp add: tree_branch_def brs_def)
  qed
  have "res_map (\<lambda>i. res_bind (getMerkleBranch i mt) (\<lambda>br.
         res_bind (py_index code (int i)) (\<lambda>st. Inr (Send (int i) (VAL (mt ! 1) br st))))) [0..<eN E] =
      Inr (map (\<lambda>i. Send (int i) (VAL (mt ! 1) (brs i) (code ! i))) [0..<eN E])"
    by (rule res_map_all) (use br assms(2) in simp)
  then show ?thesis
    using idx br by (intro exI [of _ brs]) (simp add: val_messages_def)
qed

lemma rbc_start_messages:
  assumes "rbc_start E pid m = Inr outs" and "pid = eleader E" and "coder_ok (env_coder E)"
  obtains code root brs where "encode (efe E) (eK E) (eN E) m = Inr code"
    "tree_root (eH E) code = Inr root"
    "outs = map (\<lambda>i. Send (int i) (VAL root (brs i) (code ! i))) [0..<eN E]"
    "\<forall>i < eN E. merkle_ok (eH E) (eN E) (code ! i) root (brs i) i"
proof -
  from assms(1,2) obtain code mt where c: "encode (efe E) (eK E) (eN E) m = Inr code"
    "merkleTree (eH E) code = Inr mt" "val_messages E code mt = Inr outs"
    by (auto simp: rbc_start_def res_bind_Inr split: if_splits)
  have "length code = eN E"
    using coder.enc_length [of "env_coder E" m code] assms(3) c(1) by (simp add: env_coder_def)
  from val_messages_genuine [of E code mt, OF c(2) this] obtain brs where
    "outs = map (\<lambda>i. Send (int i) (VAL (mt ! 1) (brs i) (code ! i))) [0..<eN E]"
    "\<forall>i < eN E. merkle_ok (eH E) (eN E) (code ! i) (mt ! 1) (brs i) i"
    using c(3) by auto
  then show thesis
    using that [OF c(1)] tree_root_Inr c(2) by blast
qed

lemma env_encode:
  assumes "coder_ok (env_coder E)"
  shows "\<exists>code mt. encode (efe E) (eK E) (eN E) m = Inr code \<and> merkleTree (eH E) code = Inr mt \<and>
    length code = eN E"
proof -
  have K: "0 < eK E \<and> eK E \<le> 128 \<and> eK E \<le> eN E" using assms by (simp add: env_coder_def)
  then obtain code where code: "encode (efe E) (eK E) (eN E) m = Inr code"
    by (auto simp: encode_def)
  then have len: "length code = eN E"
    using coder.enc_length [of "env_coder E" m code] assms by (simp add: env_coder_def)
  then have "\<exists>mt. merkleTree (eH E) code = Inr mt" using K by (simp add: merkleTree_def)
  then show ?thesis using code len by blast
qed

lemma rbc_start_total:
  assumes "3 * ef E + 1 \<le> eN E" and "eleader E < eN E" and "coder_ok (env_coder E)"
  shows "\<exists>outs. rbc_start E (eleader E) m = Inr outs"
proof -
  from env_encode [OF assms(3)] obtain code mt where
    "encode (efe E) (eK E) (eN E) m = Inr code" "merkleTree (eH E) code = Inr mt" "length code = eN E"
    by blast
  then show ?thesis
    using val_messages_genuine [of E code mt] assms(1,2) by (auto simp: rbc_start_def)
qed

lemma rbc_val_first:
  assumes "merkle_ok (eH E) (eN E) st root br i"
  shows "rbc_step E i rbc_init (eleader E, VAL root br st) =
    (rbc_init\<lparr>fromLeader := Some root\<rparr>, to_all (eN E) (ECHO root br st), Running)"
  using assms by (simp add: rbc_val_def) (simp add: rbc_init_def)

text \<open>The state in which every correct node has started, with the leader's messages on the way.\<close>

definition rbc_initial :: "rbc_env \<Rightarrow> nat set \<Rightarrow> bytes \<Rightarrow> (rbc_state, rbc_msg, bytes) sys" where
  "rbc_initial E B m =
     start_sys (\<lambda>_. rbc_init)
       (if eleader E \<in> B then {}
        else case rbc_start E (eleader E) m of Inl e \<Rightarrow> {} | Inr outs \<Rightarrow> routed (eN E) (eleader E) outs)"

text \<open>No two of the strings hashed for the two encodings collide.\<close>

definition codes_apart :: "rbc_env \<Rightarrow> bytes \<Rightarrow> bytes \<Rightarrow> bool" where
  "codes_apart E m m' =
     (case (encode (efe E) (eK E) (eN E) m, encode (efe E) (eK E) (eN E) m') of
        (Inr ss, Inr ss') \<Rightarrow> trees_apart (eH E) ss ss'
      | _ \<Rightarrow> True)"

lemma value_of_unique:
  assumes "coder_ok (env_coder E)" and "codes_apart E m m'" and "value_of E m r" and "value_of E m' r"
  shows "m = m'"
proof -
  from assms(3,4) obtain ss ss' where
    ss: "encode (efe E) (eK E) (eN E) m = Inr ss" "tree_root (eH E) ss = Inr r" and
    ss': "encode (efe E) (eK E) (eN E) m' = Inr ss'" "tree_root (eH E) ss' = Inr r"
    by (auto simp: value_of_def res_bind_Inr)
  have len: "length ss = length ss'"
    using coder.enc_length [of "env_coder E" m ss] coder.enc_length [of "env_coder E" m' ss']
      assms(1) ss(1) ss'(1) by (simp add: env_coder_def)
  have "ss = ss'"
    by (rule mk.root_binds [OF _ len ss(2) ss'(2)]) (use assms(2) ss(1) ss'(1) in \<open>simp add: codes_apart_def\<close>)
  then show ?thesis
    using coder.enc_inj [of "env_coder E" m ss m'] assms(1) ss(1) ss'(1) by (simp add: env_coder_def)
qed

lemma rbc_initial_messages:
  fixes E B m
  assumes "coder_ok (env_coder E)"
  defines "ms \<equiv> net (rbc_initial E B m)"
  shows "rbc_initial E B m = start_sys (\<lambda>_. rbc_init) ms"
    and "\<forall>(q, p, x) \<in> ms. q = eleader E \<and> eleader E \<notin> B \<and>
           (\<exists>root br st. x = VAL root br st \<and> value_of E m root)"
proof -
  show "rbc_initial E B m = start_sys (\<lambda>_. rbc_init) ms"
    by (simp add: ms_def rbc_initial_def start_sys_def)
  show "\<forall>(q, p, x) \<in> ms. q = eleader E \<and> eleader E \<notin> B \<and>
           (\<exists>root br st. x = VAL root br st \<and> value_of E m root)"
  proof (clarify, intro conjI)
    fix q p x assume "(q, p, x) \<in> ms"
    then obtain outs where outs: "eleader E \<notin> B" "rbc_start E (eleader E) m = Inr outs"
      "(q, p, x) \<in> routed (eN E) (eleader E) outs"
      by (auto simp: ms_def rbc_initial_def start_sys_def split: if_splits sum.splits)
    show "q = eleader E" "eleader E \<notin> B" using outs(1,3) by (simp_all add: routed_iff)
    from rbc_start_messages [OF outs(2) refl assms(1)] obtain code root brs where
      c: "encode (efe E) (eK E) (eN E) m = Inr code" "tree_root (eH E) code = Inr root"
        "outs = map (\<lambda>i. Send (int i) (VAL root (brs i) (code ! i))) [0..<eN E]"
      by metis
    from outs(3) obtain k where "Send k x \<in> set outs" by (auto simp: routed_iff)
    then have "\<exists>br st. x = VAL root br st" using c(3) by auto
    then show "\<exists>root br st. x = VAL root br st \<and> value_of E m root"
      using c(1,2) by (auto simp: value_of_def)
  qed
qed

lemma env_start:
  assumes "coder_ok (env_coder E)"
  shows "\<forall>(q, p, x) \<in> net (rbc_initial E B m).
    q < cN (env_cfg E B) \<and> echo_root x = None \<and> ready_root x = None"
proof -
  have "q < eN E \<and> echo_root x = None \<and> ready_root x = None"
    if e: "(q, p, x) \<in> net (rbc_initial E B m)" for q p x
  proof -
    from rbc_initial_messages(2) [OF assms, of B m] e
    have l: "q = eleader E" "\<exists>root br st. x = VAL root br st" by blast+
    have "eleader E < eN E"
      using e by (auto simp: rbc_initial_def start_sys_def rbc_start_def split: if_splits sum.splits)
    then show ?thesis using l by auto
  qed
  then show ?thesis by auto
qed

section \<open>Agreement, validity and delivery\<close>

definition rbc_reachable :: "rbc_env \<Rightarrow> nat set \<Rightarrow> bytes \<Rightarrow> (rbc_state, rbc_msg, bytes) sys \<Rightarrow> bool" where
  "rbc_reachable E B m s = reaches (env_cfg E B) (rbc_step E) (rbc_initial E B m) s"

lemma rbc_agreement_aux:
  assumes "wf_cfg (env_cfg E B)" and "coder_ok (env_coder E)" and "rbc_reachable E B m0 s"
    and "ended s p = Returned m" and "ended s p' = Returned m'" and "codes_apart E m m'"
  shows "m = m'"
proof -
  have "\<exists>r. value_of E m r \<and> value_of E m' r"
    using rbc.returned_same_root [OF assms(1) env_start [OF assms(2), of B m0] _ assms(4,5)]
      assms(3) rbc_initial_messages(1) [OF assms(2), of B m0] by (simp add: rbc_reachable_def)
  then show ?thesis using value_of_unique [OF assms(2,6)] by blast
qed

lemma rbc_validity_aux:
  assumes "wf_cfg (env_cfg E B)" and "coder_ok (env_coder E)" and "eleader E \<notin> B"
    and "rbc_reachable E B m0 s" and "ended s p = Returned m" and "codes_apart E m m0"
  shows "m = m0"
proof -
  let ?ms = "net (rbc_initial E B m0)"
  have init: "rbc_initial E B m0 = start_sys (\<lambda>_. rbc_init) ?ms"
    by (rule rbc_initial_messages(1) [OF assms(2)])
  from env_encode [OF assms(2), of m0] tree_root_Inr
  obtain r0 where r0: "value_of E m0 r0" by (fastforce simp: value_of_def)
  have uniq: "r = r0" if "value_of E m0 r" for r
    using that r0 by (simp add: value_of_def)
  have "val_root x = Some r0" if "(q, p, x) \<in> ?ms" for q p x
  proof -
    from rbc_initial_messages(2) [OF assms(2), of B m0] that
    obtain root br st where "x = VAL root br st" "value_of E m0 root" by blast
    then show ?thesis using uniq by simp
  qed
  then have "\<forall>(q, p, x) \<in> ?ms. q = eleader E \<longrightarrow> val_root x \<in> {None, Some r0}"
    by auto
  then have "value_of E m r0"
    using rbc.returned_leader_root [OF assms(1) _ env_start [OF assms(2), of B m0] _ _ assms(5), of r0]
      assms(3,4) init by (simp add: rbc_reachable_def)
  then show ?thesis using value_of_unique [OF assms(2,6)] r0 by blast
qed

text \<open>Collision freedom of concrete encodings, in a form that evaluates.\<close>

lemma codes_apartI:
  assumes "uniform_hash (eH E)"
    and "case (encode (efe E) (eK E) (eN E) m, encode (efe E) (eK E) (eN E) m') of
      (Inr ss, Inr ss') \<Rightarrow> inj_on (eH E) (merkle_inputs (eH E) ss \<union> merkle_inputs (eH E) ss') | _ \<Rightarrow> True"
  shows "codes_apart E m m'"
  using assms by (auto simp: codes_apart_def trees_apart_def split: sum.splits)

lemma echoes_boundI:
  assumes "uniform_hash (eH E)"
    and "\<forall>(q, m) \<in> M. case m of ECHO r br st \<Rightarrow> r = root \<longrightarrow>
      inj_on (eH E) (merkle_inputs (eH E) code \<union> verify_inputs (eH E) st br q) | _ \<Rightarrow> True"
  shows "echoes_bound E code root M"
  using assms by (auto simp: echoes_bound_def branch_bound_def split: rbc_msg.splits)

end
