(* ===== verification/RBC_Theorems.thy ===== *)
theory RBC_Theorems
  imports RBC
begin

text \<open>
  The properties of \<open>reliablebroadcast\<close> and a concrete run of four nodes, one of them Byzantine.
\<close>

section \<open>Properties\<close>

text \<open>
  C3: Agreement of reliable broadcast. In any run of the asynchronous network with at most \<open>f\<close>
  Byzantine nodes (the leader may be one of them), two correct nodes that return from
  \<open>reliablebroadcast\<close> return the same message, provided the hash has no collision on the strings the
  two Merkle trees hash.
\<close>

theorem rbc_agreement:
  assumes "wf_cfg (env_cfg E B)" and "coder_ok (env_coder E)" and "rbc_reachable E B m0 s"
    and "ended s p = Returned m" and "ended s p' = Returned m'" and "codes_apart E m m'"
  shows "m = m'"
  using assms by (rule rbc_agreement_aux)

text \<open>
  C4: Validity of reliable broadcast. When the leader is correct, a correct node returns only the
  leader's input.
\<close>

theorem rbc_validity:
  assumes "wf_cfg (env_cfg E B)" and "coder_ok (env_coder E)" and "eleader E \<notin> B"
    and "rbc_reachable E B m0 s" and "ended s p = Returned m" and "codes_apart E m m0"
  shows "m = m0"
  using assms by (rule rbc_validity_aux)

text \<open>
  C5: Delivery. Let the nodes outside a set of at most \<open>f\<close> nodes echo and confirm only the root of
  \<open>v\<close>'s encoding, the others send anything, in any order. Once a node has received \<open>N - 2f\<close> valid
  \<open>ECHO\<close>s and \<open>2f + 1\<close> \<open>READY\<close>s for that root from the former, its loop has returned \<open>v\<close>: it never
  raises, decodes another value or waits on.
\<close>

theorem rbc_delivery:
  assumes "\<forall>(q, m) \<in> set es. q < eN E" and "honest_for B root (set es)"
    and "finite B" and "card B \<le> ef E" and "coder_ok (env_coder E)"
    and "encode (efe E) (eK E) (eN E) v = Inr code" and "tree_root (eH E) code = Inr root"
    and "echoes_bound E code root (set es)"
    and "eK E \<le> card (echo_senders E root (set es) - B)"
    and "2 * ef E + 1 \<le> card (ready_senders root (set es) - B)"
  shows "ctl_of (rbc_run E pid es) = Returned v"
  using assms by (rule rbc_delivery_aux)

text \<open>
  Dispersal. For any input a correct leader sends every node \<open>i\<close> exactly one \<open>VAL\<close>, all with
  the Merkle root of the input's encoding, and each one makes a fresh node \<open>i\<close> broadcast its \<open>ECHO\<close>.
\<close>

theorem rbc_dispersal:
  assumes "3 * ef E + 1 \<le> eN E" and "eleader E < eN E" and "coder_ok (env_coder E)"
  shows "\<exists>code root outs. encode (efe E) (eK E) (eN E) m = Inr code \<and> tree_root (eH E) code = Inr root \<and>
    rbc_start E (eleader E) m = Inr outs \<and> length outs = eN E \<and>
    (\<forall>i < eN E. \<exists>br. outs ! i = Send (int i) (VAL root br (code ! i)) \<and>
       rbc_step E i rbc_init (eleader E, VAL root br (code ! i)) =
         (rbc_init\<lparr>fromLeader := Some root\<rparr>, to_all (eN E) (ECHO root br (code ! i)), Running))"
proof -
  from rbc_start_total [OF assms] obtain outs where outs: "rbc_start E (eleader E) m = Inr outs" by blast
  obtain code root brs where
    c: "encode (efe E) (eK E) (eN E) m = Inr code" "tree_root (eH E) code = Inr root"
      "outs = map (\<lambda>i. Send (int i) (VAL root (brs i) (code ! i))) [0..<eN E]"
      "\<forall>i < eN E. merkle_ok (eH E) (eN E) (code ! i) root (brs i) i"
    by (rule rbc_start_messages [OF outs refl assms(3)])
  have "\<exists>br. outs ! i = Send (int i) (VAL root br (code ! i)) \<and>
       rbc_step E i rbc_init (eleader E, VAL root br (code ! i)) =
         (rbc_init\<lparr>fromLeader := Some root\<rparr>, to_all (eN E) (ECHO root br (code ! i)), Running)"
    if "i < eN E" for i
    using rbc_val_first [OF c(4) [rule_format, OF that]] that by (intro exI [of _ "brs i"] conjI) (simp_all add: c(3))
  then show ?thesis
    using c(1,2) outs by (intro exI [of _ code] exI [of _ root] exI [of _ outs]) (simp add: c(3))
qed

section \<open>Witnesses\<close>

definition ex_env :: rbc_env where
  "ex_env = \<lparr>eN = 4, ef = 1, eleader = 0, eH = toy_hash, efe = rep_enc, efd = rep_dec\<rparr>"

lemma ex_env_ok: "wf_cfg (env_cfg ex_env {3})" "coder_ok (env_coder ex_env)"
  by (simp_all add: wf_cfg_def ex_env_def env_coder_def eK_def rep_zfec_ok)

text \<open>The leader's messages to three correct nodes, their \<open>ECHO\<close>s, and \<open>READY\<close>s to two of them.\<close>

definition ex_root :: bytes where
  "ex_root = [63, 11]"

definition ex_branch :: "bytes list" where
  "ex_branch = [[3, 103], [79, 171]]"

definition ex_sched :: "(nat \<times> nat \<times> rbc_msg) list" where
  "ex_sched =
     map (\<lambda>i. (0, i, VAL ex_root ex_branch [5, 1])) [0, 1, 2] @
     concat (map (\<lambda>p. map (\<lambda>i. (i, p, ECHO ex_root ex_branch [5, 1])) [0, 1, 2]) [0, 1, 2]) @
     concat (map (\<lambda>p. map (\<lambda>i. (i, p, READY ex_root)) [0, 1, 2]) [0, 1])"

definition ex_final :: "(rbc_state, rbc_msg, bytes) sys" where
  "ex_final = deliver_all (env_cfg ex_env {3}) (rbc_step ex_env) (rbc_initial ex_env {3} [5]) ex_sched"

lemma ex_final_reachable: "rbc_reachable ex_env {3} [5] ex_final"
  unfolding rbc_reachable_def ex_final_def by (rule deliver_all_reaches [OF reaches.start])

lemma ex_final_ended: "ended ex_final 0 = Returned [5] \<and> ended ex_final 1 = Returned [5]"
  by code_simp

lemma ex_apart: "codes_apart ex_env [5] [5]"
proof (rule codes_apartI)
  show "uniform_hash (eH ex_env)" by (simp add: ex_env_def toy_uniform)
qed code_simp

text \<open>What node 1 receives; the faulty node 3 confirms another root and echoes garbage.\<close>

definition ex_received :: "(nat \<times> rbc_msg) list" where
  "ex_received = [(3, READY [9]), (0, READY ex_root), (3, ECHO [9] [] [7]), (2, READY ex_root),
     (0, ECHO ex_root ex_branch [5, 1]), (1, READY ex_root), (2, ECHO ex_root ex_branch [5, 1])]"

theorem rbc_agreement_witness: "ended ex_final 0 = Returned [5] \<and> [5] = ([5] :: bytes)"
  using rbc_agreement [OF ex_env_ok ex_final_reachable, of 0 "[5]" 1 "[5]"] ex_final_ended ex_apart
  by simp

theorem rbc_validity_witness: "ended ex_final 1 = Returned [5] \<and> [5] = ([5] :: bytes)"
proof -
  have "eleader ex_env \<notin> {3}" by (simp add: ex_env_def)
  from rbc_validity [OF ex_env_ok this ex_final_reachable, of 1 "[5]"] ex_final_ended ex_apart
  show ?thesis by simp
qed

theorem rbc_delivery_witness: "ctl_of (rbc_run ex_env 1 ex_received) = Returned [5]"
proof (rule rbc_delivery [where B = "{3}" and root = ex_root and code = "replicate 4 [5, 1]"])
  show "echoes_bound ex_env (replicate 4 [5, 1]) ex_root (set ex_received)"
  proof (rule echoes_boundI)
    show "uniform_hash (eH ex_env)" by (simp add: ex_env_def toy_uniform)
  qed code_simp
qed (rule ex_env_ok | simp add: ex_env_def | code_simp)+

theorem rbc_dispersal_witness: "length (case rbc_start ex_env 0 [5] of Inr outs \<Rightarrow> outs | _ \<Rightarrow> []) = 4"
  using rbc_dispersal [of ex_env "[5]"] ex_env_ok by (auto simp: ex_env_def)

end
