(* ===== verification/ACS.thy ===== *)
theory ACS
  imports BA RBC_Theorems
begin

text \<open>
  The common subset protocols: \<open>commonsubset\<close> of \<open>src/honeybadgerbft/core/commonsubset.py\<close>, which runs
  on \<open>N\<close> reliable broadcasts and \<open>N\<close> binary agreements, and its variants \<open>dumbocommonsubset\<close>
  (\<open>src/dumbobft/core\<close>) and \<open>speedydumbocommonsubset\<close> (\<open>src/speedydumbobft/core\<close>), which run on one
  vector agreement. The blocking output functions of the sub-protocols are events; a call \<open>aba_in[k](b)\<close>
  is an outgoing message \<open>b\<close> to \<open>k\<close>.
\<close>

section \<open>The common subset of HoneyBadger\<close>

record acs_env =
  sN :: nat
  sf :: nat

datatype 'v acs_event = RBC_OUT nat 'v | RBC_ERR nat | ABA_OUT nat nat

text \<open>
  \<open>s_rbc_done\<close> and \<open>s_aba_done\<close> say which greenlets have ended (or were killed), \<open>s_cur\<close> is the index
  of the final loop once all agreements have ended (\<open>s_joining\<close>).
\<close>

record 'v acs_state =
  s_inputted :: "bool list"
  s_aba :: "nat list"
  s_rbc :: "'v option list"
  s_rbc_done :: "bool list"
  s_aba_done :: "bool list"
  s_joining :: bool
  s_cur :: nat

definition acs_init :: "acs_env \<Rightarrow> 'v acs_state" where
  "acs_init E = \<lparr>s_inputted = replicate (sN E) False, s_aba = replicate (sN E) 0,
     s_rbc = replicate (sN E) None, s_rbc_done = replicate (sN E) False,
     s_aba_done = replicate (sN E) False, s_joining = False, s_cur = 0\<rparr>"

definition aba_input :: "nat \<Rightarrow> nat \<Rightarrow> 'v acs_state \<Rightarrow> 'v acs_state \<times> nat out list" where
  "aba_input b k s =
     (if s_inputted s ! k then (s, [])
      else (s\<lparr>s_inputted := (s_inputted s)[k := True]\<rparr>, [Send (int k) b]))"

fun aba_input_zeros :: "nat list \<Rightarrow> 'v acs_state \<Rightarrow> 'v acs_state \<times> nat out list" where
  "aba_input_zeros [] s = (s, [])"
| "aba_input_zeros (k # ks) s =
     (case aba_input 0 k s of (s1, o1) \<Rightarrow> case aba_input_zeros ks s1 of (s2, o2) \<Rightarrow> (s2, o1 @ o2))"

text \<open>The final loop, from its current index on.\<close>

fun acs_join :: "nat list \<Rightarrow> 'v acs_state \<Rightarrow> ('v acs_state, nat, 'v option list) reply" where
  "acs_join [] s = (s, [], Returned (s_rbc s))"
| "acs_join (j # js) s =
     (if s_aba s ! j \<noteq> 0 then
        (if \<not> s_rbc_done s ! j then stay (s\<lparr>s_cur := j\<rparr>)
         else if s_rbc s ! j = None then (s\<lparr>s_cur := j\<rparr>, [], Raised AssertionError)
         else acs_join js s)
      else acs_join js (s\<lparr>s_rbc := (s_rbc s)[j := None], s_rbc_done := (s_rbc_done s)[j := True]\<rparr>))"

definition acs_continue ::
    "acs_env \<Rightarrow> 'v acs_state \<times> nat out list \<Rightarrow> ('v acs_state, nat, 'v option list) reply" where
  "acs_continue E x =
     (case x of (s, outs) \<Rightarrow>
        if s_joining s
        then (case acs_join [s_cur s..<sN E] s of (s', outs', c) \<Rightarrow> (s', outs @ outs', c))
        else (s, outs, Running))"

definition recv_rbc :: "acs_env \<Rightarrow> 'v acs_state \<Rightarrow> nat \<Rightarrow> 'v \<Rightarrow> ('v acs_state, nat, 'v option list) reply" where
  "recv_rbc E s j v =
     acs_continue E (aba_input 1 j (s\<lparr>s_rbc := (s_rbc s)[j := Some v], s_rbc_done := (s_rbc_done s)[j := True]\<rparr>))"

definition recv_aba :: "acs_env \<Rightarrow> 'v acs_state \<Rightarrow> nat \<Rightarrow> nat \<Rightarrow> ('v acs_state, nat, 'v option list) reply" where
  "recv_aba E s j b =
     (let s1 = s\<lparr>s_aba := (s_aba s)[j := b], s_aba_done := (s_aba_done s)[j := True]\<rparr>;
          (s2, outs) = (if sN E - sf E \<le> sum_list (s_aba s1) then aba_input_zeros [0..<sN E] s1 else (s1, []))
      in if list_all id (s_aba_done s2)
         then (if sN E - sf E \<le> sum_list (s_aba s2) then acs_continue E (s2\<lparr>s_joining := True\<rparr>, outs)
               else (s2, outs, Raised AssertionError))
         else (s2, outs, Running))"

fun acs_step :: "acs_env \<Rightarrow> 'v acs_state \<Rightarrow> 'v acs_event \<Rightarrow> ('v acs_state, nat, 'v option list) reply" where
  "acs_step E s (RBC_OUT j v) =
     (if j < sN E \<and> \<not> s_rbc_done s ! j then recv_rbc E s j v else stay s)"
| "acs_step E s (RBC_ERR j) =
     (if j < sN E \<and> \<not> s_rbc_done s ! j
      then acs_continue E (s\<lparr>s_rbc_done := (s_rbc_done s)[j := True]\<rparr>, []) else stay s)"
| "acs_step E s (ABA_OUT j b) =
     (if j < sN E \<and> \<not> s_aba_done s ! j then recv_aba E s j b else stay s)"

section \<open>What the subset contains\<close>

lemma list_update_True: "xs ! k \<Longrightarrow> k < length xs \<Longrightarrow> xs[j := True] ! k"
  by (cases "j = k") simp_all

definition acs_inv :: "acs_env \<Rightarrow> 'v acs_event set \<Rightarrow> 'v acs_state \<Rightarrow> bool" where
  "acs_inv E X s \<longleftrightarrow>
     length (s_inputted s) = sN E \<and> length (s_aba s) = sN E \<and> length (s_rbc s) = sN E \<and>
     length (s_rbc_done s) = sN E \<and> length (s_aba_done s) = sN E \<and> s_cur s \<le> sN E \<and>
     (\<forall>j < sN E. \<forall>v. s_rbc s ! j = Some v \<longrightarrow> RBC_OUT j v \<in> X \<and> s_rbc_done s ! j) \<and>
     (\<forall>j < sN E. if s_aba_done s ! j then ABA_OUT j (s_aba s ! j) \<in> X else s_aba s ! j = 0) \<and>
     (s_joining s \<longrightarrow> list_all id (s_aba_done s) \<and> sN E - sf E \<le> sum_list (s_aba s)) \<and>
     (s_joining s \<longrightarrow> (\<forall>j < s_cur s. (s_rbc s ! j = None) = (s_aba s ! j = 0) \<and> s_rbc_done s ! j)) \<and>
     (\<not> s_joining s \<longrightarrow> s_cur s = 0)"

lemma upd_nth: "xs[i := v] ! j = (if j = i \<and> i < length xs then v else xs ! j)"
  by (cases "i < length xs") (simp_all add: nth_list_update list_update_beyond)

lemma acs_init_inv: "acs_inv E X (acs_init E)"
  by (simp add: acs_inv_def acs_init_def)

lemma aba_input_frame:
  assumes "aba_input b k s = (s', outs)"
  shows "\<exists>xs. s' = s\<lparr>s_inputted := xs\<rparr> \<and> length xs = length (s_inputted s)"
  using assms unfolding aba_input_def
  by (cases "s_inputted s ! k") (auto intro: exI [of _ "s_inputted s"] exI [of _ "(s_inputted s)[k := True]"])

lemma aba_input_zeros_frame:
  "aba_input_zeros ks s = (s', outs) \<Longrightarrow> \<exists>xs. s' = s\<lparr>s_inputted := xs\<rparr> \<and> length xs = length (s_inputted s)"
proof (induction ks arbitrary: s s' outs)
  case Nil
  then show ?case by (auto intro: exI [of _ "s_inputted s"])
next
  case (Cons k ks)
  obtain s1 o1 where 1: "aba_input 0 k s = (s1, o1)" by (cases "aba_input 0 k s")
  obtain s2 o2 where 2: "aba_input_zeros ks s1 = (s2, o2)" by (cases "aba_input_zeros ks s1")
  from Cons.IH [OF 2] aba_input_frame [OF 1] Cons.prems 1 2 show ?case by auto
qed

lemma acs_inv_inputted: "acs_inv E X s \<Longrightarrow> length xs = length (s_inputted s) \<Longrightarrow> acs_inv E X (s\<lparr>s_inputted := xs\<rparr>)"
  by (simp add: acs_inv_def)

lemma acs_inv_more: "acs_inv E X s \<Longrightarrow> X \<subseteq> Y \<Longrightarrow> acs_inv E Y s"
  unfolding acs_inv_def by (fastforce split: if_splits)

lemma acs_join_inv:
  assumes "acs_inv E X s" and "s_joining s" and "js = [i..<sN E]" and "i \<le> sN E"
    and "\<forall>j < i. (s_rbc s ! j = None) = (s_aba s ! j = 0) \<and> s_rbc_done s ! j"
    and "acs_join js s = (s', outs, c)"
  shows "acs_inv E X s' \<and> outs = [] \<and> (\<forall>vs. c = Returned vs \<longrightarrow>
    length vs = sN E \<and> sN E - sf E \<le> sum_list (s_aba s') \<and>
    (\<forall>j < sN E. ABA_OUT j (s_aba s' ! j) \<in> X \<and> (vs ! j = None) = (s_aba s' ! j = 0) \<and>
       (\<forall>v. vs ! j = Some v \<longrightarrow> RBC_OUT j v \<in> X)))"
  using assms
proof (induction js arbitrary: i s)
  case Nil
  then have i: "i = sN E" using upt_eq_Nil_conv [of i "sN E"] by auto
  have "s' = s" "outs = []" "c = Returned (s_rbc s)" using Nil.prems(6) by auto
  with Nil.prems i show ?case unfolding acs_inv_def by (auto simp: list_all_length)
next
  case (Cons j js)
  have j: "j = i" "i < sN E" "js = [Suc i..<sN E]"
    using Cons.prems(3) [symmetric] by (auto simp: upt_eq_Cons_conv)
  show ?case
  proof (cases "s_aba s ! i \<noteq> 0")
    case True
    show ?thesis
    proof (cases "s_rbc_done s ! i \<and> s_rbc s ! i \<noteq> None")
      case True
      then have "acs_join js s = (s', outs, c)" using Cons.prems(6) j \<open>s_aba s ! i \<noteq> 0\<close> by auto
      moreover have "\<forall>j < Suc i. (s_rbc s ! j = None) = (s_aba s ! j = 0) \<and> s_rbc_done s ! j"
        using Cons.prems(5) True \<open>s_aba s ! i \<noteq> 0\<close> by (auto simp: less_Suc_eq)
      ultimately show ?thesis using Cons.IH [OF Cons.prems(1,2) j(3)] j(2) by simp
    next
      case False
      then have "s' = s\<lparr>s_cur := i\<rparr>" "outs = []" "\<forall>vs. c \<noteq> Returned vs"
        using Cons.prems(6) j True by (auto split: if_splits)
      then show ?thesis using Cons.prems(1,2,4,5) unfolding acs_inv_def by simp
    qed
  next
    case False
    define s1 where "s1 = s\<lparr>s_rbc := (s_rbc s)[i := None], s_rbc_done := (s_rbc_done s)[i := True]\<rparr>"
    have "acs_join js s1 = (s', outs, c)" using Cons.prems(6) j False by (simp add: s1_def)
    moreover have "acs_inv E X s1"
      using Cons.prems(1) False j(2) unfolding acs_inv_def s1_def by (simp add: upd_nth)
    moreover have "\<forall>j < Suc i. (s_rbc s1 ! j = None) = (s_aba s1 ! j = 0) \<and> s_rbc_done s1 ! j"
    proof (intro allI impI)
      fix k assume k: "k < Suc i"
      have "length (s_rbc s) = sN E" "length (s_rbc_done s) = sN E" using Cons.prems(1) by (simp_all add: acs_inv_def)
      then show "(s_rbc s1 ! k = None) = (s_aba s1 ! k = 0) \<and> s_rbc_done s1 ! k"
        using Cons.prems(5) False j(2) k by (cases "k = i") (simp_all add: s1_def)
    qed
    ultimately show ?thesis using Cons.IH [of s1 "Suc i"] Cons.prems(2) j by (simp add: s1_def)
  qed
qed

text \<open>The conclusion the lemmas on one step share.\<close>

definition acs_result :: "acs_env \<Rightarrow> 'v acs_event set \<Rightarrow> 'v option list \<Rightarrow> bool" where
  "acs_result E X vs \<longleftrightarrow> length vs = sN E \<and>
     (\<exists>bs. length bs = sN E \<and> sN E - sf E \<le> sum_list bs \<and>
       (\<forall>j < sN E. ABA_OUT j (bs ! j) \<in> X \<and> (vs ! j = None) = (bs ! j = 0) \<and>
         (\<forall>v. vs ! j = Some v \<longrightarrow> RBC_OUT j v \<in> X)))"

lemma acs_continue_inv:
  assumes i: "acs_inv E X s" and c: "acs_continue E (s, o1) = (s', outs, c)"
  shows "acs_inv E X s' \<and> outs = o1 \<and> (\<forall>vs. c = Returned vs \<longrightarrow> acs_result E X vs)"
proof (cases "s_joining s")
  case True
  obtain s2 o2 c2 where 2: "acs_join [s_cur s..<sN E] s = (s2, o2, c2)" by (cases "acs_join [s_cur s..<sN E] s")
  have "s_cur s \<le> sN E" "\<forall>j < s_cur s. (s_rbc s ! j = None) = (s_aba s ! j = 0) \<and> s_rbc_done s ! j"
    using i True unfolding acs_inv_def by blast+
  note acs_join_inv [OF i True refl this 2]
  moreover have "s' = s2" "outs = o1 @ o2" "c = c2" using c True 2 by (simp_all add: acs_continue_def)
  moreover have "acs_inv E X s2 \<Longrightarrow> length (s_aba s2) = sN E" by (simp add: acs_inv_def)
  ultimately show ?thesis unfolding acs_result_def by auto
next
  case False
  then show ?thesis using i c by (auto simp: acs_continue_def)
qed

lemma acs_step_inv:
  assumes i: "acs_inv E X s" and e: "e \<in> X" and h: "acs_step E s e = (s', outs, c)"
  shows "acs_inv E X s' \<and> (\<forall>vs. c = Returned vs \<longrightarrow> acs_result E X vs)"
proof (cases e)
  case (RBC_OUT j v)
  show ?thesis
  proof (cases "j < sN E \<and> \<not> s_rbc_done s ! j")
    case True
    define s1 where "s1 = s\<lparr>s_rbc := (s_rbc s)[j := Some v], s_rbc_done := (s_rbc_done s)[j := True]\<rparr>"
    have "acs_inv E X s1"
      using i e RBC_OUT True unfolding acs_inv_def s1_def by (auto simp: nth_list_update)
    moreover obtain s2 o2 where 2: "aba_input 1 j s1 = (s2, o2)" by (cases "aba_input 1 j s1")
    moreover from aba_input_frame [OF 2] obtain xs where "s2 = s1\<lparr>s_inputted := xs\<rparr>"
      "length xs = length (s_inputted s1)" by blast
    ultimately have "acs_inv E X s2" using acs_inv_inputted by blast
    moreover have "acs_continue E (s2, o2) = (s', outs, c)"
      using h True 2 by (simp add: RBC_OUT recv_rbc_def s1_def)
    ultimately show ?thesis using acs_continue_inv by blast
  next
    case False
    then have "s' = s" "c = Running" using h RBC_OUT by auto
    then show ?thesis using i by simp
  qed
next
  case (RBC_ERR j)
  show ?thesis
  proof (cases "j < sN E \<and> \<not> s_rbc_done s ! j")
    case True
    have "acs_inv E X (s\<lparr>s_rbc_done := (s_rbc_done s)[j := True]\<rparr>)"
      using i unfolding acs_inv_def by (auto simp: list_update_True)
    then show ?thesis using h RBC_ERR True acs_continue_inv by fastforce
  next
    case False
    then have "s' = s" "c = Running" using h RBC_ERR by auto
    then show ?thesis using i by simp
  qed
next
  case (ABA_OUT j b)
  show ?thesis
  proof (cases "j < sN E \<and> \<not> s_aba_done s ! j")
    case True
    define s1 where "s1 = s\<lparr>s_aba := (s_aba s)[j := b], s_aba_done := (s_aba_done s)[j := True]\<rparr>"
    have nj: "\<not> s_joining s" using i True unfolding acs_inv_def by (auto simp: list_all_length)
    then have i1: "acs_inv E X s1"
      using i e ABA_OUT True unfolding acs_inv_def s1_def by (auto simp: nth_list_update)
    define x where "x = (if sN E - sf E \<le> sum_list (s_aba s1) then aba_input_zeros [0..<sN E] s1 else (s1, []))"
    obtain s2 o2 where x: "x = (s2, o2)" by (cases x)
    have "\<exists>xs. s2 = s1\<lparr>s_inputted := xs\<rparr> \<and> length xs = length (s_inputted s1)"
    proof (cases "sN E - sf E \<le> sum_list (s_aba s1)")
      case True
      then show ?thesis using x aba_input_zeros_frame unfolding x_def by simp
    next
      case False
      then have "s2 = s1" using x unfolding x_def by simp
      then show ?thesis by (intro exI [of _ "s_inputted s1"]) simp
    qed
    then obtain xs where xs: "s2 = s1\<lparr>s_inputted := xs\<rparr>" "length xs = length (s_inputted s1)" by blast
    have i2: "acs_inv E X s2" unfolding xs(1) by (rule acs_inv_inputted [OF i1 xs(2)])
    have nj2: "\<not> s_joining s2" using nj xs by (simp add: s1_def)
    have h2: "(if list_all id (s_aba_done s2)
         then (if sN E - sf E \<le> sum_list (s_aba s2) then acs_continue E (s2\<lparr>s_joining := True\<rparr>, o2)
               else (s2, o2, Raised AssertionError))
         else (s2, o2, Running)) = (s', outs, c)"
      using h True x unfolding ABA_OUT acs_step.simps recv_aba_def Let_def x_def s1_def by simp
    show ?thesis
    proof (cases "list_all id (s_aba_done s2) \<and> sN E - sf E \<le> sum_list (s_aba s2)")
      case True
      then have "acs_inv E X (s2\<lparr>s_joining := True\<rparr>)" using i2 nj2 unfolding acs_inv_def by simp
      moreover have "acs_continue E (s2\<lparr>s_joining := True\<rparr>, o2) = (s', outs, c)" using h2 True by simp
      ultimately show ?thesis using acs_continue_inv by blast
    next
      case False
      then have "s' = s2" "\<forall>vs. c \<noteq> Returned vs" using h2 by (auto split: if_splits)
      then show ?thesis using i2 by simp
    qed
  next
    case False
    then have "s' = s" "c = Running" using h ABA_OUT by auto
    then show ?thesis using i by simp
  qed
qed

lemma acs_run_result:
  "acs_inv E X s \<Longrightarrow> set es \<subseteq> X \<Longrightarrow> run_loop (acs_step E) s es = (s', outs, Returned vs) \<Longrightarrow> acs_result E X vs"
proof (induction es arbitrary: s outs)
  case Nil
  then show ?case by simp
next
  case (Cons e es)
  obtain s1 o1 c1 where h: "acs_step E s e = (s1, o1, c1)" by (cases "acs_step E s e")
  have "e \<in> X" using Cons.prems(2) by simp
  from acs_step_inv [OF Cons.prems(1) this h] have s1: "acs_inv E X s1" "\<forall>vs. c1 = Returned vs \<longrightarrow> acs_result E X vs"
    by blast+
  show ?case
  proof (cases c1)
    case Running
    then obtain o2 where "run_loop (acs_step E) s1 es = (s', o2, Returned vs)"
      using Cons.prems(3) h by (auto split: prod.splits)
    then show ?thesis using Cons.IH [OF s1(1)] Cons.prems(2) by simp
  next
    case (Returned w)
    then show ?thesis using Cons.prems(3) h s1(2) by simp
  next
    case (Raised x)
    then show ?thesis using Cons.prems(3) h by simp
  qed
qed

section \<open>Agreement through the sub-protocols\<close>

text \<open>What the subset relies on: an instance whose correct nodes output one value.\<close>

locale agreed_outputs =
  fixes ok :: "'c \<Rightarrow> 's \<Rightarrow> bool"
    and faulty :: "'c \<Rightarrow> nat set"
    and outputs :: "'s \<Rightarrow> nat \<Rightarrow> 'v \<Rightarrow> bool"
  assumes agree: "ok c s \<Longrightarrow> p \<notin> faulty c \<Longrightarrow> p' \<notin> faulty c \<Longrightarrow> outputs s p v \<Longrightarrow> outputs s p' v' \<Longrightarrow> v = v'"
begin

lemma family_agrees:
  assumes "\<forall>j < n. ok (c j) (s j) \<and> p \<notin> faulty (c j) \<and> p' \<notin> faulty (c j)"
    and "\<forall>j v. X j v \<longrightarrow> outputs (s j) p v" and "\<forall>j v. X' j v \<longrightarrow> outputs (s j) p' v"
    and "j < n" and "X j v" and "X' j v'"
  shows "v = v'"
  using assms agree by blast

end

definition ba_instance :: "ba_env \<times> nat set \<times> (nat \<Rightarrow> nat) \<Rightarrow> ba_sys \<Rightarrow> bool" where
  "ba_instance c s = (case c of (E, B, inp) \<Rightarrow> wf_cfg (ba_cfg E B) \<and> ba_reachable E B inp s)"

definition ba_outputs :: "ba_sys \<Rightarrow> nat \<Rightarrow> nat \<Rightarrow> bool" where
  "ba_outputs s p v \<longleftrightarrow> a_decided (loc s p) = Some v"

definition rbc_instance :: "rbc_env \<times> nat set \<times> bytes \<Rightarrow> (rbc_state, rbc_msg, bytes) sys \<Rightarrow> bool" where
  "rbc_instance c s = (case c of (E, B, m0) \<Rightarrow>
     wf_cfg (env_cfg E B) \<and> coder_ok (env_coder E) \<and> rbc_reachable E B m0 s \<and>
     (\<forall>p p' m m'. ended s p = Returned m \<longrightarrow> ended s p' = Returned m' \<longrightarrow> codes_apart E m m'))"

definition rbc_outputs :: "(rbc_state, rbc_msg, bytes) sys \<Rightarrow> nat \<Rightarrow> bytes \<Rightarrow> bool" where
  "rbc_outputs s p v \<longleftrightarrow> ended s p = Returned v"

interpretation ba_agreed: agreed_outputs ba_instance "\<lambda>c. fst (snd c)" ba_outputs
proof (unfold_locales, goal_cases)
  case (1 c s p p' v v')
  obtain E B inp where c: "c = (E, B, inp)" by (cases c)
  show ?case
    by (rule ba_agreement_aux [of E B inp s p p']) (use 1 c in \<open>simp_all add: ba_instance_def ba_outputs_def\<close>)
qed

interpretation rbc_agreed: agreed_outputs rbc_instance "\<lambda>c. fst (snd c)" rbc_outputs
proof (unfold_locales, goal_cases)
  case (1 c s p p' v v')
  obtain E B m0 where c: "c = (E, B, m0)" by (cases c)
  then have i: "wf_cfg (env_cfg E B)" "coder_ok (env_coder E)" "rbc_reachable E B m0 s"
    "\<forall>p p' m m'. ended s p = Returned m \<longrightarrow> ended s p' = Returned m' \<longrightarrow> codes_apart E m m'"
    using 1(1) by (simp_all add: rbc_instance_def)
  have r: "ended s p = Returned v" "ended s p' = Returned v'" using 1 by (simp_all add: rbc_outputs_def)
  with i(4) have "codes_apart E v v'" by blast
  from rbc_agreement_aux [OF i(1-3) r this] show ?case .
qed

lemma acs_results_equal:
  assumes "acs_result E X vs" and "acs_result E X' vs'"
    and b: "\<And>j b b'. j < sN E \<Longrightarrow> ABA_OUT j b \<in> X \<Longrightarrow> ABA_OUT j b' \<in> X' \<Longrightarrow> b = b'"
    and v: "\<And>j v v'. j < sN E \<Longrightarrow> RBC_OUT j v \<in> X \<Longrightarrow> RBC_OUT j v' \<in> X' \<Longrightarrow> v = v'"
  shows "vs = vs'"
proof (rule nth_equalityI)
  show "length vs = length vs'" using assms(1,2) by (simp add: acs_result_def)
  fix j assume "j < length vs"
  then have j: "j < sN E" using assms(1) by (simp add: acs_result_def)
  from assms(1) j obtain c where c: "ABA_OUT j c \<in> X" "(vs ! j = None) = (c = 0)"
    "\<forall>v. vs ! j = Some v \<longrightarrow> RBC_OUT j v \<in> X" unfolding acs_result_def by blast
  from assms(2) j obtain c' where c': "ABA_OUT j c' \<in> X'" "(vs' ! j = None) = (c' = 0)"
    "\<forall>v. vs' ! j = Some v \<longrightarrow> RBC_OUT j v \<in> X'" unfolding acs_result_def by blast
  have "c = c'" by (rule b [OF j c(1) c'(1)])
  then have n: "(vs ! j = None) = (vs' ! j = None)" using c(2) c'(2) by simp
  show "vs ! j = vs' ! j"
  proof (cases "vs ! j")
    case None
    then show ?thesis using n by simp
  next
    case (Some w)
    then obtain w' where w': "vs' ! j = Some w'" using n by (cases "vs' ! j") auto
    have "w = w'" by (rule v [OF j]) (use c(3) c'(3) Some w' in blast)+
    then show ?thesis using Some w' by simp
  qed
qed

text \<open>The events node \<open>p\<close> sees come from the instances.\<close>

definition from_instances ::
    "(nat \<Rightarrow> ba_sys) \<Rightarrow> (nat \<Rightarrow> (rbc_state, rbc_msg, bytes) sys) \<Rightarrow> nat \<Rightarrow> bytes acs_event list \<Rightarrow> bool" where
  "from_instances bs rs p es \<longleftrightarrow>
     list_all (\<lambda>e. case e of ABA_OUT j b \<Rightarrow> ba_outputs (bs j) p b | RBC_OUT j v \<Rightarrow> rbc_outputs (rs j) p v
       | RBC_ERR j \<Rightarrow> True) es"

lemma from_instancesD:
  assumes "from_instances bs rs p es"
  shows "\<forall>j b. ABA_OUT j b \<in> set es \<longrightarrow> ba_outputs (bs j) p b"
    and "\<forall>j v. RBC_OUT j v \<in> set es \<longrightarrow> rbc_outputs (rs j) p v"
  using assms unfolding from_instances_def list_all_iff by fastforce+

lemma acs_agreement_aux:
  assumes "\<forall>j < sN E. ba_instance (bc j) (bs j) \<and> p \<notin> fst (snd (bc j)) \<and> p' \<notin> fst (snd (bc j))"
    and "\<forall>j < sN E. rbc_instance (rc j) (rs j) \<and> p \<notin> fst (snd (rc j)) \<and> p' \<notin> fst (snd (rc j))"
    and "from_instances bs rs p es" and "from_instances bs rs p' es'"
    and "ctl_of (run_loop (acs_step E) (acs_init E) es) = Returned vs"
    and "ctl_of (run_loop (acs_step E) (acs_init E) es') = Returned vs'"
  shows "vs = vs'"
proof (rule acs_results_equal)
  show "acs_result E (set es) vs" "acs_result E (set es') vs'"
    using acs_run_result [OF acs_init_inv order_refl] assms(5,6) by (metis prod.collapse)+
  show "b = b'" if "j < sN E" "ABA_OUT j b \<in> set es" "ABA_OUT j b' \<in> set es'" for j b b'
    by (rule ba_agreed.family_agrees [OF assms(1) from_instancesD(1) [OF assms(3)] from_instancesD(1) [OF assms(4)] that])
  show "v = v'" if "j < sN E" "RBC_OUT j v \<in> set es" "RBC_OUT j v' \<in> set es'" for j v v'
    by (rule rbc_agreed.family_agrees [OF assms(2) from_instancesD(2) [OF assms(3)] from_instancesD(2) [OF assms(4)] that])
qed

section \<open>Inputs to the agreements, and completion\<close>

lemma aba_input_sent:
  assumes "aba_input b k s = (s', outs)" and "k < length (s_inputted s)"
  shows "s_inputted s' = (s_inputted s)[k := True] \<and>
    outs = (if s_inputted s ! k then [] else [Send (int k) b])"
proof (cases "s_inputted s ! k")
  case True
  then have "(s_inputted s)[k := True] = s_inputted s" using list_update_id [of "s_inputted s" k] by simp
  then show ?thesis using assms True by (simp add: aba_input_def)
next
  case False
  then show ?thesis using assms by (auto simp: aba_input_def)
qed

lemma zeros_all:
  assumes "aba_input_zeros ks s = (s', outs)" and "\<forall>k \<in> set ks. k < length (s_inputted s)" and "distinct ks"
  shows "outs = map (\<lambda>k. Send (int k) 0) (filter (\<lambda>k. \<not> s_inputted s ! k) ks) \<and>
    (\<forall>k < length (s_inputted s). s_inputted s' ! k = (s_inputted s ! k \<or> k \<in> set ks))"
  using assms
proof (induction ks arbitrary: s s' outs)
  case Nil
  then show ?case by auto
next
  case (Cons k ks)
  obtain s1 o1 where 1: "aba_input 0 k s = (s1, o1)" by (cases "aba_input 0 k s")
  obtain s2 o2 where 2: "aba_input_zeros ks s1 = (s2, o2)" by (cases "aba_input_zeros ks s1")
  have k: "k < length (s_inputted s)" using Cons.prems(2) by simp
  note a = aba_input_sent [OF 1 k]
  from Cons.IH [OF 2] Cons.prems(2,3) a
  have ih: "o2 = map (\<lambda>k. Send (int k) 0) (filter (\<lambda>k. \<not> s_inputted s1 ! k) ks) \<and>
    (\<forall>k < length (s_inputted s1). s_inputted s2 ! k = (s_inputted s1 ! k \<or> k \<in> set ks))" by simp
  have "filter (\<lambda>k. \<not> s_inputted s1 ! k) ks = filter (\<lambda>k. \<not> s_inputted s ! k) ks"
    using Cons.prems(2,3) a by (intro filter_cong) (auto simp: nth_list_update)
  moreover have "s' = s2" "outs = o1 @ o2" using Cons.prems(1) 1 2 by simp_all
  ultimately show ?case using ih a k by (auto simp: nth_list_update)
qed

fun out_to :: "'m out \<Rightarrow> int" where
  "out_to (Send k b) = k"

definition sent_to :: "nat out list \<Rightarrow> int set" where
  "sent_to outs = {k. \<exists>b. Send k b \<in> set outs}"

lemma sent_to_image: "out_to ` set os = sent_to os"
proof (intro equalityI subsetI)
  fix x assume "x \<in> out_to ` set os"
  then obtain y where y: "y \<in> set os" "x = out_to y" by blast
  obtain k b where "y = Send k b" by (cases y)
  with y show "x \<in> sent_to os" by (auto simp: sent_to_def)
next
  fix x assume "x \<in> sent_to os"
  then obtain b where "Send x b \<in> set os" by (auto simp: sent_to_def)
  then show "x \<in> out_to ` set os" by (intro image_eqI [of _ _ "Send x b"]) simp_all
qed

text \<open>
  What one step may send: each index at most once, never one that has been given an input, a 1 only for
  the broadcast that has just ended, and a 0 only when enough agreements have decided 1.
\<close>

definition input_why :: "acs_env \<Rightarrow> 'v acs_event set \<Rightarrow> nat \<Rightarrow> nat \<Rightarrow> bool" where
  "input_why E X j b \<longleftrightarrow>
     b = 1 \<and> (\<exists>v. RBC_OUT j v \<in> X) \<or>
     b = 0 \<and> (\<exists>bs. length bs = sN E \<and> sN E - sf E \<le> sum_list bs \<and>
       (\<forall>i < sN E. ABA_OUT i (bs ! i) \<in> X \<or> bs ! i = 0))"

definition inputs_ok :: "acs_env \<Rightarrow> 'v acs_event set \<Rightarrow> 'v acs_state \<Rightarrow> nat out list \<Rightarrow> 'v acs_state \<Rightarrow> bool" where
  "inputs_ok E X s outs s' \<longleftrightarrow>
     distinct (map out_to outs) \<and>
     (\<forall>k b. Send k b \<in> set outs \<longrightarrow> (\<exists>j < sN E. k = int j \<and> \<not> s_inputted s ! j \<and> input_why E X j b)) \<and>
     (\<forall>j < sN E. s_inputted s' ! j = (s_inputted s ! j \<or> int j \<in> sent_to outs))"

lemma inputs_none: "s_inputted s' = s_inputted s \<Longrightarrow> inputs_ok E X s [] s'"
  by (simp add: inputs_ok_def sent_to_def)

lemma acs_join_inputted: "acs_join js s = (s', outs, c) \<Longrightarrow> s_inputted s' = s_inputted s \<and> outs = []"
  by (induction js arbitrary: s) (auto split: if_splits)

lemma acs_continue_inputted:
  "acs_continue E (s, o1) = (s', outs, c) \<Longrightarrow> s_inputted s' = s_inputted s \<and> outs = o1"
  by (auto simp: acs_continue_def dest: acs_join_inputted split: if_splits prod.splits)

lemma acs_step_inputs:
  assumes i: "acs_inv E X s" and e: "e \<in> X" and h: "acs_step E s e = (s', outs, c)"
  shows "inputs_ok E X s outs s'"
proof (cases e)
  case (RBC_OUT j v)
  show ?thesis
  proof (cases "j < sN E \<and> \<not> s_rbc_done s ! j")
    case True
    define s1 where "s1 = s\<lparr>s_rbc := (s_rbc s)[j := Some v], s_rbc_done := (s_rbc_done s)[j := True]\<rparr>"
    obtain s2 o2 where 2: "aba_input 1 j s1 = (s2, o2)" by (cases "aba_input 1 j s1")
    have l: "length (s_inputted s1) = sN E" using i by (simp add: acs_inv_def s1_def)
    have s2: "s_inputted s2 = (s_inputted s1)[j := True] \<and> o2 = (if s_inputted s1 ! j then [] else [Send (int j) 1])"
      by (rule aba_input_sent [OF 2]) (use True l in simp)
    have "acs_continue E (s2, o2) = (s', outs, c)" using h True 2 by (simp add: RBC_OUT recv_rbc_def s1_def)
    from acs_continue_inputted [OF this] have c: "s_inputted s' = s_inputted s2" "outs = o2" by simp_all
    have "input_why E X j 1" using e RBC_OUT by (auto simp: input_why_def)
    moreover have "s_inputted s1 = s_inputted s" by (simp add: s1_def)
    ultimately show ?thesis
      using True s2 l unfolding inputs_ok_def c sent_to_def by (auto simp: upd_nth)
  next
    case False
    then show ?thesis using h RBC_OUT by (auto intro: inputs_none)
  qed
next
  case (RBC_ERR j)
  have "s_inputted s' = s_inputted s \<and> outs = []"
  proof (cases "j < sN E \<and> \<not> s_rbc_done s ! j")
    case True
    then have "acs_continue E (s\<lparr>s_rbc_done := (s_rbc_done s)[j := True]\<rparr>, []) = (s', outs, c)"
      using h RBC_ERR by simp
    from acs_continue_inputted [OF this] show ?thesis by simp
  next
    case False
    then show ?thesis using h RBC_ERR by auto
  qed
  then show ?thesis by (auto intro: inputs_none)
next
  case (ABA_OUT j b)
  show ?thesis
  proof (cases "j < sN E \<and> \<not> s_aba_done s ! j")
    case True
    define s1 where "s1 = s\<lparr>s_aba := (s_aba s)[j := b], s_aba_done := (s_aba_done s)[j := True]\<rparr>"
    have l: "length (s_inputted s1) = sN E" "s_inputted s1 = s_inputted s" "length (s_aba s1) = sN E"
      using i by (simp_all add: acs_inv_def s1_def)
    define x where "x = (if sN E - sf E \<le> sum_list (s_aba s1) then aba_input_zeros [0..<sN E] s1 else (s1, []))"
    obtain s2 o2 where x: "x = (s2, o2)" by (cases x)
    have "(if list_all id (s_aba_done s2)
         then (if sN E - sf E \<le> sum_list (s_aba s2) then acs_continue E (s2\<lparr>s_joining := True\<rparr>, o2)
               else (s2, o2, Raised AssertionError))
         else (s2, o2, Running)) = (s', outs, c)"
      using h True x unfolding ABA_OUT acs_step.simps recv_aba_def Let_def x_def s1_def by simp
    then have s': "s_inputted s' = s_inputted s2 \<and> outs = o2"
      using acs_continue_inputted [of E "s2\<lparr>s_joining := True\<rparr>" o2 s' outs c] by (auto split: if_splits)
    show ?thesis
    proof (cases "sN E - sf E \<le> sum_list (s_aba s1)")
      case True
      have z: "o2 = map (\<lambda>k. Send (int k) 0) (filter (\<lambda>k. \<not> s_inputted s1 ! k) [0..<sN E]) \<and>
          (\<forall>k < length (s_inputted s1). s_inputted s2 ! k = (s_inputted s1 ! k \<or> k \<in> set [0..<sN E]))"
        by (rule zeros_all) (use x x_def True l in auto)
      have "\<forall>i < sN E. ABA_OUT i (s_aba s1 ! i) \<in> X \<or> s_aba s1 ! i = 0"
        using i e ABA_OUT unfolding acs_inv_def s1_def by (auto simp: upd_nth split: if_splits)
      then have "input_why E X k 0" for k using True l(3) unfolding input_why_def by blast
      then show ?thesis
        using s' z l unfolding inputs_ok_def sent_to_def by (auto simp: comp_def distinct_map inj_on_def)
    next
      case False
      then show ?thesis using x s' l unfolding x_def by (auto intro: inputs_none)
    qed
  next
    case False
    then show ?thesis using h ABA_OUT by (auto intro: inputs_none)
  qed
qed

lemma acs_run_inputs:
  "acs_inv E X s \<Longrightarrow> set es \<subseteq> X \<Longrightarrow> run_loop (acs_step E) s es = (s', outs, c) \<Longrightarrow> inputs_ok E X s outs s'"
proof (induction es arbitrary: s outs)
  case Nil
  then show ?case by (auto intro: inputs_none)
next
  case (Cons e es)
  obtain s1 o1 c1 where h: "acs_step E s e = (s1, o1, c1)" by (cases "acs_step E s e")
  have e: "e \<in> X" using Cons.prems(2) by simp
  note s1 = acs_step_inv [OF Cons.prems(1) e h] acs_step_inputs [OF Cons.prems(1) e h]
  show ?case
  proof (cases c1)
    case Running
    then obtain o2 where 2: "run_loop (acs_step E) s1 es = (s', o2, c)" "outs = o1 @ o2"
      using Cons.prems(3) h by (auto split: prod.splits)
    have s2: "inputs_ok E X s1 o2 s'" using Cons.IH [OF _ _ 2(1)] s1(1) Cons.prems(2) by simp
    have st: "sent_to (o1 @ o2) = sent_to o1 \<union> sent_to o2"
      by (simp only: sent_to_image [symmetric] set_append image_Un)
    note t = sent_to_image
    note i1 = s1(2) [unfolded inputs_ok_def] and i2 = s2 [unfolded inputs_ok_def]
    have "sent_to o1 \<inter> sent_to o2 = {}"
    proof (rule ccontr)
      assume "sent_to o1 \<inter> sent_to o2 \<noteq> {}"
      then obtain k b where k: "k \<in> sent_to o1" "Send k b \<in> set o2" by (auto simp: sent_to_def)
      from k(2) i2 obtain j where "j < sN E" "k = int j" "\<not> s_inputted s1 ! j" by blast
      with i1 k(1) show False by blast
    qed
    then have "distinct (map out_to outs)"
      using s1(2) s2 t [of o1] t [of o2] unfolding inputs_ok_def 2(2) by simp
    moreover have "\<exists>j < sN E. k = int j \<and> \<not> s_inputted s ! j \<and> input_why E X j b" if "Send k b \<in> set outs" for k b
    proof (cases "Send k b \<in> set o1")
      case True
      then show ?thesis using s1(2) unfolding inputs_ok_def by blast
    next
      case False
      then have "Send k b \<in> set o2" using that 2(2) by simp
      then obtain j where "j < sN E" "k = int j" "\<not> s_inputted s1 ! j" "input_why E X j b"
        using s2 unfolding inputs_ok_def by blast
      then show ?thesis using s1(2) unfolding inputs_ok_def by blast
    qed
    ultimately show ?thesis
      using s1(2) s2 unfolding inputs_ok_def 2(2) st by blast
  next
    case (Returned w)
    then show ?thesis using Cons.prems(3) h s1(2) by simp
  next
    case (Raised x)
    then show ?thesis using Cons.prems(3) h s1(2) by simp
  qed
qed

text \<open>When the loop has not ended, something it waits for has not happened.\<close>

definition acs_waits :: "acs_env \<Rightarrow> 'v acs_state \<Rightarrow> bool" where
  "acs_waits E s \<longleftrightarrow>
     (if s_joining s then \<exists>j < sN E. s_aba s ! j \<noteq> 0 \<and> \<not> s_rbc_done s ! j
      else \<exists>j < sN E. \<not> s_aba_done s ! j)"

text \<open>All events seen so far are recorded, and no broadcast ended with an error.\<close>

definition acs_recorded :: "acs_env \<Rightarrow> 'v acs_event set \<Rightarrow> 'v acs_state \<Rightarrow> bool" where
  "acs_recorded E Y s \<longleftrightarrow>
     (\<forall>j < sN E. \<forall>b. ABA_OUT j b \<in> Y \<longrightarrow> s_aba_done s ! j) \<and>
     (\<forall>j < sN E. \<forall>v. RBC_OUT j v \<in> Y \<longrightarrow> s_rbc_done s ! j) \<and>
     (\<forall>j < sN E. s_rbc_done s ! j \<longrightarrow> s_rbc s ! j \<noteq> None \<or> s_aba_done s ! j \<and> s_aba s ! j = 0)"

lemma acs_join_waits:
  assumes "acs_join js s = (s', outs, c)" and "set js \<subseteq> {..<sN E}" and "acs_recorded E Y s"
    and "\<forall>j < sN E. s_aba_done s ! j"
    and "length (s_rbc_done s) = sN E" and "s_joining s"
  shows "acs_recorded E Y s' \<and> (\<forall>x. c \<noteq> Raised x) \<and> (c = Running \<longrightarrow> acs_waits E s')"
  using assms
proof (induction js arbitrary: s)
  case Nil
  then show ?case by auto
next
  case (Cons j js)
  have j: "j < sN E" using Cons.prems(2) by simp
  show ?case
  proof (cases "s_aba s ! j \<noteq> 0")
    case True
    show ?thesis
    proof (cases "s_rbc_done s ! j")
      case True
      then have "s_rbc s ! j \<noteq> None" using Cons.prems(3) j \<open>s_aba s ! j \<noteq> 0\<close> by (auto simp: acs_recorded_def)
      then have "acs_join js s = (s', outs, c)" using Cons.prems(1) True \<open>s_aba s ! j \<noteq> 0\<close> by auto
      from Cons.IH [OF this _ Cons.prems(3-6)] Cons.prems(2) show ?thesis by simp
    next
      case False
      then have "s' = s\<lparr>s_cur := j\<rparr>" "c = Running" using Cons.prems(1) True by auto
      then show ?thesis using False True j Cons.prems(3,6) by (auto simp: acs_recorded_def acs_waits_def)
    qed
  next
    case False
    define s1 where "s1 = s\<lparr>s_rbc := (s_rbc s)[j := None], s_rbc_done := (s_rbc_done s)[j := True]\<rparr>"
    have "acs_join js s1 = (s', outs, c)" using Cons.prems(1) False by (simp add: s1_def)
    moreover have "acs_recorded E Y s1"
      using Cons.prems(3,4,5) False j unfolding acs_recorded_def s1_def by (simp add: upd_nth)
    ultimately show ?thesis using Cons.IH [of s1] Cons.prems(2,4-6) by (simp add: s1_def)
  qed
qed

lemma acs_continue_waits:
  assumes "acs_continue E (s, o1) = (s', outs, c)" and "acs_recorded E Y s" and "acs_inv E X s"
    and "\<not> s_joining s \<longrightarrow> acs_waits E s"
  shows "acs_recorded E Y s' \<and> (\<forall>x. c \<noteq> Raised x) \<and> (c = Running \<longrightarrow> acs_waits E s')"
proof (cases "s_joining s")
  case True
  obtain s2 o2 c2 where 2: "acs_join [s_cur s..<sN E] s = (s2, o2, c2)" by (cases "acs_join [s_cur s..<sN E] s")
  have "\<forall>j < sN E. s_aba_done s ! j" "length (s_rbc_done s) = sN E"
    using assms(3) True by (simp_all add: acs_inv_def list_all_length)
  moreover have "set [s_cur s..<sN E] \<subseteq> {..<sN E}" by auto
  ultimately have "acs_recorded E Y s2 \<and> (\<forall>x. c2 \<noteq> Raised x) \<and> (c2 = Running \<longrightarrow> acs_waits E s2)"
    using acs_join_waits [OF 2 _ assms(2) _ _ True] by blast
  moreover have "s' = s2" "c = c2" using assms(1) True 2 by (simp_all add: acs_continue_def)
  ultimately show ?thesis by auto
next
  case False
  then show ?thesis using assms by (auto simp: acs_continue_def)
qed

text \<open>\<open>bs\<close> lists the outcomes of the agreements.\<close>

definition complete_events :: "acs_env \<Rightarrow> nat list \<Rightarrow> 'v acs_event set \<Rightarrow> bool" where
  "complete_events E bs X \<longleftrightarrow>
     length bs = sN E \<and> sN E - sf E \<le> sum_list bs \<and>
     (\<forall>j b. ABA_OUT j b \<in> X \<longrightarrow> j < sN E \<and> b = bs ! j) \<and> (\<forall>j. RBC_ERR j \<notin> X)"

lemma acs_step_waits:
  assumes ce: "complete_events E bs X" and i: "acs_inv E X s" and e: "e \<in> X"
    and r: "acs_recorded E Y s" and w: "acs_waits E s" and h: "acs_step E s e = (s', outs, c)"
  shows "acs_recorded E (insert e Y) s' \<and> (\<forall>x. c \<noteq> Raised x) \<and> (c = Running \<longrightarrow> acs_waits E s')"
proof (cases e)
  case (RBC_OUT j v)
  show ?thesis
  proof (cases "j < sN E \<and> \<not> s_rbc_done s ! j")
    case True
    define s1 where "s1 = s\<lparr>s_rbc := (s_rbc s)[j := Some v], s_rbc_done := (s_rbc_done s)[j := True]\<rparr>"
    obtain s2 o2 where 2: "aba_input 1 j s1 = (s2, o2)" by (cases "aba_input 1 j s1")
    from aba_input_frame [OF 2] obtain xs where xs: "s2 = s1\<lparr>s_inputted := xs\<rparr>" "length xs = length (s_inputted s1)"
      by blast
    have len: "length (s_rbc_done s) = sN E" "length (s_rbc s) = sN E" using i by (simp_all add: acs_inv_def)
    have "acs_inv E X s1"
      using i e RBC_OUT True unfolding acs_inv_def s1_def by (auto simp: nth_list_update)
    then have i2: "acs_inv E X s2" unfolding xs(1) by (rule acs_inv_inputted [OF _ xs(2)])
    have r2: "acs_recorded E (insert e Y) s2"
      using r RBC_OUT True len unfolding acs_recorded_def xs(1) s1_def by (auto simp: upd_nth)
    have "acs_waits E s2" if "\<not> s_joining s2"
      using that w by (simp add: acs_waits_def xs(1) s1_def)
    moreover have "acs_continue E (s2, o2) = (s', outs, c)"
      using h True 2 by (simp add: RBC_OUT recv_rbc_def s1_def)
    ultimately show ?thesis using acs_continue_waits [OF _ r2 i2] by blast
  next
    case False
    then have "s' = s" "c = Running" using h RBC_OUT by auto
    then show ?thesis using r w RBC_OUT False e ce by (auto simp: acs_recorded_def complete_events_def)
  qed
next
  case (RBC_ERR j)
  then show ?thesis using ce e by (auto simp: complete_events_def)
next
  case (ABA_OUT j b)
  show ?thesis
  proof (cases "j < sN E \<and> \<not> s_aba_done s ! j")
    case True
    define s1 where "s1 = s\<lparr>s_aba := (s_aba s)[j := b], s_aba_done := (s_aba_done s)[j := True]\<rparr>"
    have nj: "\<not> s_joining s" using i True unfolding acs_inv_def by (auto simp: list_all_length)
    then have i1: "acs_inv E X s1"
      using i e ABA_OUT True unfolding acs_inv_def s1_def by (auto simp: nth_list_update)
    define x where "x = (if sN E - sf E \<le> sum_list (s_aba s1) then aba_input_zeros [0..<sN E] s1 else (s1, []))"
    obtain s2 o2 where x: "x = (s2, o2)" by (cases x)
    have "\<exists>xs. s2 = s1\<lparr>s_inputted := xs\<rparr> \<and> length xs = length (s_inputted s1)"
    proof (cases "sN E - sf E \<le> sum_list (s_aba s1)")
      case True
      then show ?thesis using x aba_input_zeros_frame unfolding x_def by simp
    next
      case False
      then have "s2 = s1" using x unfolding x_def by simp
      then show ?thesis by (intro exI [of _ "s_inputted s1"]) simp
    qed
    then obtain xs where xs: "s2 = s1\<lparr>s_inputted := xs\<rparr>" "length xs = length (s_inputted s1)" by blast
    have i2: "acs_inv E X s2" unfolding xs(1) by (rule acs_inv_inputted [OF i1 xs(2)])
    have h2: "(if list_all id (s_aba_done s2)
         then (if sN E - sf E \<le> sum_list (s_aba s2) then acs_continue E (s2\<lparr>s_joining := True\<rparr>, o2)
               else (s2, o2, Raised AssertionError))
         else (s2, o2, Running)) = (s', outs, c)"
      using h True x unfolding ABA_OUT acs_step.simps recv_aba_def Let_def x_def s1_def by simp
    have nj2: "\<not> s_joining s2" using nj xs by (simp add: s1_def)
    have len: "length (s_aba_done s) = sN E" "length (s_aba s) = sN E" using i by (simp_all add: acs_inv_def)
    have "s_rbc_done s ! k \<longrightarrow> s_rbc s ! k \<noteq> None" if "k = j" for k
      using r True that by (auto simp: acs_recorded_def)
    then have r2: "acs_recorded E (insert e Y) s2"
      using r ABA_OUT True len unfolding acs_recorded_def xs(1) s1_def by (auto simp: upd_nth)
    show ?thesis
    proof (cases "list_all id (s_aba_done s2)")
      case True
      have "s_aba s2 = bs"
      proof (rule nth_equalityI)
        show "length (s_aba s2) = length bs" using i2 ce by (simp add: acs_inv_def complete_events_def)
        fix k assume "k < length (s_aba s2)"
        then have "k < sN E" "s_aba_done s2 ! k" using i2 True by (simp_all add: acs_inv_def list_all_length)
        then have "ABA_OUT k (s_aba s2 ! k) \<in> X" using i2 unfolding acs_inv_def by meson
        then show "s_aba s2 ! k = bs ! k" using ce unfolding complete_events_def by blast
      qed
      then have "sN E - sf E \<le> sum_list (s_aba s2)" using ce by (simp add: complete_events_def)
      then have "acs_continue E (s2\<lparr>s_joining := True\<rparr>, o2) = (s', outs, c)" using h2 True by simp
      moreover have "acs_inv E X (s2\<lparr>s_joining := True\<rparr>)"
        using i2 True \<open>sN E - sf E \<le> sum_list (s_aba s2)\<close> nj2 unfolding acs_inv_def by simp
      moreover have "acs_recorded E (insert e Y) (s2\<lparr>s_joining := True\<rparr>)" using r2 by (simp add: acs_recorded_def)
      ultimately show ?thesis using acs_continue_waits [of E "s2\<lparr>s_joining := True\<rparr>"] by auto
    next
      case False
      then have "s' = s2" "c = Running" using h2 by simp_all
      moreover have "acs_waits E s2"
        using False nj i2 by (auto simp: acs_waits_def list_all_length acs_inv_def xs(1) s1_def)
      ultimately show ?thesis using r2 by simp
    qed
  next
    case False
    then have "s' = s" "c = Running" using h ABA_OUT by auto
    then show ?thesis using r w ABA_OUT False e ce by (auto simp: acs_recorded_def complete_events_def)
  qed
qed

lemma acs_run_waits:
  assumes ce: "complete_events E bs X"
  shows "acs_inv E X s \<Longrightarrow> acs_recorded E Y s \<Longrightarrow> acs_waits E s \<Longrightarrow> set es \<subseteq> X \<Longrightarrow>
    run_loop (acs_step E) s es = (s', outs, c) \<Longrightarrow>
    (\<exists>vs. c = Returned vs) \<or> c = Running \<and> acs_inv E X s' \<and> acs_recorded E (Y \<union> set es) s' \<and> acs_waits E s'"
proof (induction es arbitrary: s Y outs)
  case Nil
  then show ?case by simp
next
  case (Cons e es)
  obtain s1 o1 c1 where h: "acs_step E s e = (s1, o1, c1)" by (cases "acs_step E s e")
  have e: "e \<in> X" using Cons.prems(4) by simp
  note s1 = acs_step_inv [OF Cons.prems(1) e h] acs_step_waits [OF ce Cons.prems(1) e Cons.prems(2,3) h]
  show ?case
  proof (cases c1)
    case Running
    then obtain o2 where 2: "run_loop (acs_step E) s1 es = (s', o2, c)"
      using Cons.prems(5) h by (auto split: prod.splits)
    have i1: "acs_inv E X s1" "acs_recorded E (insert e Y) s1" "acs_waits E s1" "set es \<subseteq> X"
      using s1 Running Cons.prems(4) by auto
    from Cons.IH [OF i1 2] show ?thesis by simp
  next
    case (Returned w)
    then show ?thesis using Cons.prems(5) h by auto
  next
    case (Raised x)
    then show ?thesis using s1(2) by simp
  qed
qed

lemma acs_completes_aux:
  assumes "0 < sN E" and ce: "complete_events E bs (set es)"
    and aba: "\<forall>j < sN E. ABA_OUT j (bs ! j) \<in> set es"
    and rbc: "\<forall>j < sN E. bs ! j \<noteq> 0 \<longrightarrow> (\<exists>v. RBC_OUT j v \<in> set es)"
  shows "\<exists>vs. ctl_of (run_loop (acs_step E) (acs_init E) es) = Returned vs \<and> acs_result E (set es) vs"
proof -
  obtain s outs c where run: "run_loop (acs_step E) (acs_init E) es = (s, outs, c)"
    by (cases "run_loop (acs_step E) (acs_init E) es")
  have "acs_recorded E {} (acs_init E)" "acs_waits E (acs_init E)"
    using assms(1) by (auto simp: acs_recorded_def acs_waits_def acs_init_def)
  from acs_run_waits [OF ce acs_init_inv this order_refl run] show ?thesis
  proof
    assume "\<exists>vs. c = Returned vs"
    then show ?thesis using acs_run_result [OF acs_init_inv order_refl, of E es s outs] run by auto
  next
    assume a: "c = Running \<and> acs_inv E (set es) s \<and> acs_recorded E ({} \<union> set es) s \<and> acs_waits E s"
    then have dn: "\<forall>j < sN E. s_aba_done s ! j" using aba by (auto simp: acs_recorded_def)
    with dn a obtain j where j: "j < sN E" "s_aba s ! j \<noteq> 0" "\<not> s_rbc_done s ! j"
      unfolding acs_waits_def by (auto split: if_splits)
    then have "ABA_OUT j (s_aba s ! j) \<in> set es" using a dn unfolding acs_inv_def by meson
    then have "s_aba s ! j = bs ! j" using ce by (auto simp: complete_events_def)
    then obtain v where "RBC_OUT j v \<in> set es" using rbc j by auto
    then show ?thesis using a j by (auto simp: acs_recorded_def)
  qed
qed

end
