(* ===== verification/ACS_Theorems.thy ===== *)
theory ACS_Theorems
  imports ACS
begin

text \<open>The properties of \<open>commonsubset\<close> over real runs of its sub-protocols, and their witnesses.\<close>

section \<open>Properties\<close>

text \<open>
  C16: Agreement of the common subset. Let every node run \<open>N\<close> reliable broadcasts and \<open>N\<close> binary
  agreements on asynchronous networks with at most \<open>f\<close> Byzantine nodes. When \<open>commonsubset\<close> returns at
  two correct nodes, it returns the same tuple at both, whatever the order of the sub-results.
\<close>

theorem acs_agreement:
  assumes "\<forall>j < sN E. ba_instance (bc j) (bs j) \<and> p \<notin> fst (snd (bc j)) \<and> p' \<notin> fst (snd (bc j))"
    and "\<forall>j < sN E. rbc_instance (rc j) (rs j) \<and> p \<notin> fst (snd (rc j)) \<and> p' \<notin> fst (snd (rc j))"
    and "from_instances bs rs p es" and "from_instances bs rs p' es'"
    and "ctl_of (run_loop (acs_step E) (acs_init E) es) = Returned vs"
    and "ctl_of (run_loop (acs_step E) (acs_init E) es') = Returned vs'"
  shows "vs = vs'"
  using assms by (rule acs_agreement_aux)

text \<open>
  Inputs to the agreements. Over any run \<open>commonsubset\<close> gives each binary agreement at most one
  input; a 1 only to the agreement of a broadcast that has been delivered, a 0 only after agreements
  that sum up to \<open>N - f\<close> have been received.
\<close>

theorem acs_inputs:
  assumes "run_loop (acs_step E) (acs_init E) es = (s, outs, c)"
  shows "distinct (map out_to outs) \<and>
    (\<forall>k b. Send k b \<in> set outs \<longrightarrow> (\<exists>j < sN E. k = int j \<and> input_why E (set es) j b))"
  using acs_run_inputs [OF acs_init_inv order_refl assms] unfolding inputs_ok_def by blast

text \<open>
  The common subset terminates. Once all agreements have ended, with outcomes \<open>bs\<close> that sum up to
  at least \<open>N - f\<close>, and every broadcast whose agreement decided 1 has been delivered, \<open>commonsubset\<close> has
  returned, in whatever order these events came. No assert fails, and what it returns has an entry
  exactly where the outcome is not 0, which is the delivered value.
\<close>

theorem acs_completes:
  assumes "0 < sN E" and "complete_events E bs (set es)"
    and "\<forall>j < sN E. ABA_OUT j (bs ! j) \<in> set es"
    and "\<forall>j < sN E. bs ! j \<noteq> 0 \<longrightarrow> (\<exists>v. RBC_OUT j v \<in> set es)"
  shows "\<exists>vs. ctl_of (run_loop (acs_step E) (acs_init E) es) = Returned vs \<and> acs_result E (set es) vs"
  using assms by (rule acs_completes_aux)

section \<open>Witnesses\<close>

definition ex_acs :: acs_env where
  "ex_acs = \<lparr>sN = 4, sf = 1\<rparr>"

definition ex_acs_events :: "nat list \<Rightarrow> bytes acs_event list" where
  "ex_acs_events js = map (\<lambda>j. RBC_OUT j [5]) js @ map (\<lambda>j. ABA_OUT j 1) [0, 1, 2, 3]"

lemma ex_acs_ba: "ba_instance (ex_ba, {3}, \<lambda>_. 1) ex_ba_final"
  using ex_ba_wf ex_ba_reachable by (simp add: ba_instance_def)

lemma ex_others: "p \<noteq> 0 \<Longrightarrow> p \<noteq> 1 \<Longrightarrow> (case ended ex_final p of Returned m \<Rightarrow> m = [5] | _ \<Rightarrow> True)"
proof -
  assume "p \<noteq> 0" "p \<noteq> 1"
  show ?thesis
  proof (cases "p = 2 \<or> p = 3")
    case True
    have "\<forall>p \<in> {2, 3}. (case ended ex_final p of Returned m \<Rightarrow> m = [5] | _ \<Rightarrow> True)" by code_simp
    with True show ?thesis by blast
  next
    case False
    with \<open>p \<noteq> 0\<close> \<open>p \<noteq> 1\<close> have "4 \<le> p" by auto
    have "\<not> 4 \<le> q" if "(a, q, m) \<in> set ex_sched" for a q m
      using that by (auto simp: ex_sched_def)
    have "ended (deliver_all c h s es) p = ended s p" if "\<forall>(a, q, m) \<in> set es. q \<noteq> p" for c h s
      and es :: "(nat \<times> nat \<times> rbc_msg) list"
      using that
    proof (induction es arbitrary: s)
      case Nil
      then show ?case by (simp add: deliver_all_def)
    next
      case (Cons e es)
      have "ended (deliver_one c h s e) p = ended s p"
        using Cons.prems by (auto simp: deliver_one_def split: prod.splits)
      with Cons show ?case by (simp add: deliver_all_def)
    qed
    moreover have "\<forall>(a, q, m) \<in> set ex_sched. q \<noteq> p"
      using \<open>4 \<le> p\<close> by (auto simp: ex_sched_def)
    ultimately have "ended ex_final p = ended (rbc_initial ex_env {3} [5]) p"
      unfolding ex_final_def by blast
    then show ?thesis by (simp add: rbc_initial_def start_sys_def)
  qed
qed

lemma ex_acs_rbc: "rbc_instance (ex_env, {3}, [5]) ex_final"
proof -
  have "m = [5]" if "ended ex_final p = Returned m" for p m
    using that ex_others [of p] ex_final_ended by (cases "p = 0"; cases "p = 1") auto
  then have "codes_apart ex_env m m'" if "ended ex_final p = Returned m" "ended ex_final p' = Returned m'" for p p' m m'
    using that ex_apart by metis
  then show ?thesis using ex_env_ok ex_final_reachable unfolding rbc_instance_def by auto
qed

lemma ex_acs_from: "p = 0 \<or> p = 1 \<Longrightarrow> from_instances (\<lambda>_. ex_ba_final) (\<lambda>_. ex_final) p (ex_acs_events js)"
  using ex_ba_decided ex_final_ended
  by (auto simp: from_instances_def list_all_iff ex_acs_events_def ba_outputs_def rbc_outputs_def)

lemma ex_acs_returns:
  "ctl_of (run_loop (acs_step ex_acs) (acs_init ex_acs) (ex_acs_events [0, 1, 2, 3])) = Returned (replicate 4 (Some [5])) \<and>
   ctl_of (run_loop (acs_step ex_acs) (acs_init ex_acs) (ex_acs_events [2, 3, 1, 0])) = Returned (replicate 4 (Some [5]))"
  by code_simp

theorem acs_agreement_witness: "replicate 4 (Some [5]) = (replicate 4 (Some [5]) :: bytes option list)"
proof (rule acs_agreement)
  show "\<forall>j < sN ex_acs. ba_instance (ex_ba, {3}, \<lambda>_. 1) ex_ba_final \<and> (0::nat) \<notin> fst (snd (ex_ba, {3}, \<lambda>_::nat. 1::nat)) \<and>
      (1::nat) \<notin> fst (snd (ex_ba, {3}, \<lambda>_::nat. 1::nat))"
    using ex_acs_ba by simp
  show "\<forall>j < sN ex_acs. rbc_instance (ex_env, {3}, [5]) ex_final \<and> (0::nat) \<notin> fst (snd (ex_env, {3}, [5::8 word])) \<and>
      (1::nat) \<notin> fst (snd (ex_env, {3}, [5::8 word]))"
    using ex_acs_rbc by simp
  show "from_instances (\<lambda>_. ex_ba_final) (\<lambda>_. ex_final) 0 (ex_acs_events [0, 1, 2, 3])"
    "from_instances (\<lambda>_. ex_ba_final) (\<lambda>_. ex_final) 1 (ex_acs_events [2, 3, 1, 0])"
    by (simp_all add: ex_acs_from)
qed (use ex_acs_returns in simp_all)

theorem acs_inputs_witness:
  "distinct (map out_to (out_of (run_loop (acs_step ex_acs) (acs_init ex_acs) (ex_acs_events [2, 0])))) \<and>
   length (out_of (run_loop (acs_step ex_acs) (acs_init ex_acs) (ex_acs_events [2, 0]))) = 4"
proof -
  have "length (out_of (run_loop (acs_step ex_acs) (acs_init ex_acs) (ex_acs_events [2, 0]))) = 4" by code_simp
  moreover obtain s outs c where r: "run_loop (acs_step ex_acs) (acs_init ex_acs) (ex_acs_events [2, 0]) = (s, outs, c)"
    by (cases "run_loop (acs_step ex_acs) (acs_init ex_acs) (ex_acs_events [2, 0])")
  ultimately show ?thesis using acs_inputs [OF r] by simp
qed

definition ex_done_events :: "nat acs_event list" where
  "ex_done_events = [ABA_OUT 1 1, RBC_OUT 3 6, ABA_OUT 0 1, ABA_OUT 2 0, RBC_OUT 0 4, ABA_OUT 3 1, RBC_OUT 1 2]"

theorem acs_completes_witness:
  "\<exists>vs. ctl_of (run_loop (acs_step ex_acs) (acs_init ex_acs) ex_done_events) = Returned vs \<and>
    acs_result ex_acs (set ex_done_events) vs"
proof (rule acs_completes)
  show "complete_events ex_acs [1, 1, 0, 1] (set ex_done_events)"
    unfolding complete_events_def ex_acs_def ex_done_events_def by auto
  have "RBC_OUT 0 4 \<in> set ex_done_events" "RBC_OUT 1 2 \<in> set ex_done_events" "RBC_OUT 3 6 \<in> set ex_done_events"
    by (simp_all add: ex_done_events_def)
  then show "\<forall>j < sN ex_acs. [1, 1, 0, 1] ! j \<noteq> (0::nat) \<longrightarrow> (\<exists>v. RBC_OUT j v \<in> set ex_done_events)"
    by (auto simp: ex_acs_def less_Suc_eq numeral_eq_Suc)
  show "\<forall>j < sN ex_acs. ABA_OUT j ([1, 1, 0, 1] ! j) \<in> set ex_done_events" by code_simp
  show "0 < sN ex_acs" by code_simp
qed

end
