(* ===== verification/Certs.thy ===== *)
theory Certs
  imports AsyncNet
begin

text \<open>
  Certificates made of individual ECDSA signatures: the validators \<open>prbc_validate\<close>,
  \<open>cbc_validate\<close> (\<open>src/dumbobft/core/validators.py\<close>) and \<open>pb_validate\<close>
  (\<open>src/speedydumbobft/core/validators.py\<close>). The signature scheme (coincurve) is a parameter.
  Lemmas: what an accepted certificate holds; certificates of distinct signers agree; the
  validators do not ask for distinct signers.

  \<open>ecdsa_vrfy\<close> returns a boolean or raises: coincurve's \<open>verify_signature\<close> raises \<open>ValueError\<close> on
  bytes that are not a signature. The validators catch every exception; the handlers catch
  \<open>AssertionError\<close> only, so there a malformed signature ends the loop.
\<close>

section \<open>Model\<close>

text \<open>
  \<open>kpks\<close> is the list \<open>PK2s\<close>, \<open>kvr\<close> says that \<open>ecdsa_vrfy\<close> returns true, \<open>kmal\<close> that the signature
  cannot be parsed, so that \<open>ecdsa_vrfy\<close> raises; \<open>ksgn i\<close> is \<open>ecdsa_sign\<close> with the secret key of
  node \<open>i\<close>.
\<close>

record ('k, 'd, 'g) pki =
  kN :: nat
  kf :: nat
  kpks :: "'k list"
  kvr :: "'k \<Rightarrow> 'd \<Rightarrow> 'g \<Rightarrow> bool"
  kmal :: "'g \<Rightarrow> bool"
  ksgn :: "nat \<Rightarrow> 'd \<Rightarrow> 'g"

type_synonym 'g sigmas = "(int \<times> 'g) list"

fun sig_loop :: "('k, 'd, 'g, 'x) pki_scheme \<Rightarrow> 'd \<Rightarrow> 'g sigmas \<Rightarrow> py_error + unit" where
  "sig_loop P d [] = Inr ()"
| "sig_loop P d ((i, g) # rest) =
     res_bind (py_index (kpks P) i) (\<lambda>pk.
       if kvr P pk d g then sig_loop P d rest
       else Inl (if kmal P g then ValueError else AssertionError))"

definition check_cert :: "('k, 'd, 'g, 'x) pki_scheme \<Rightarrow> 'd \<Rightarrow> 'g sigmas \<Rightarrow> py_error + unit" where
  "check_cert P d sigmas =
     (if length sigmas = kN P - kf P \<and> card (set sigmas) = kN P - kf P
      then sig_loop P d sigmas else Inl AssertionError)"

text \<open>The validators; \<open>hsh\<close> is \<open>hash\<close> of the pickled pair.\<close>

definition prbc_validate ::
    "('k, 'd, 'g, 'x) pki_scheme \<Rightarrow> ('s \<times> 'h \<Rightarrow> 'd) \<Rightarrow> 's \<Rightarrow> 's \<times> 'h \<times> 'g sigmas \<Rightarrow> bool" where
  "prbc_validate P hsh sid proof =
     (case proof of (sid', roothash, sigmas) \<Rightarrow>
        if sid' = sid then check_cert P (hsh (sid, roothash)) sigmas = Inr () else False)"

definition cbc_validate ::
    "('k, 'd, 'g, 'x) pki_scheme \<Rightarrow> ('s \<times> 'v \<Rightarrow> 'd) \<Rightarrow> 's \<Rightarrow> 'v \<Rightarrow> 'g sigmas \<Rightarrow> bool" where
  "cbc_validate P hsh sid v sigmas \<longleftrightarrow> check_cert P (hsh (sid, v)) sigmas = Inr ()"

definition pb_validate ::
    "('k, 'd, 'g, 'x) pki_scheme \<Rightarrow> ('s \<times> 'h \<Rightarrow> 'd) \<Rightarrow> 's \<Rightarrow> 's \<times> 'h \<times> 'g sigmas \<Rightarrow> bool" where
  "pb_validate P hsh sid proof =
     (case proof of (sid', digest, sigmas) \<Rightarrow>
        if sid' = sid then check_cert P (hsh (sid, digest)) sigmas = Inr () else False)"

text \<open>
  The test of one share in the handlers. \<open>ecdsa_vrfy\<close> of a digest that is still \<open>None\<close> fails an
  assertion, before the signature is looked at, like a bad signature; a malformed one raises.
\<close>

definition share_ok :: "('k, 'd, 'g, 'x) pki_scheme \<Rightarrow> 'd option \<Rightarrow> nat \<Rightarrow> 'g \<Rightarrow> py_error + bool" where
  "share_ok P d j sig =
     res_bind (py_index (kpks P) (int j)) (\<lambda>pk.
       case d of None \<Rightarrow> Inr False
       | Some d \<Rightarrow>
           if kvr P pk d sig then Inr True else if kmal P sig then Inl ValueError else Inr False)"

section \<open>What an accepted certificate holds\<close>

text \<open>The node an index of a certificate stands for, as Python resolves it.\<close>

definition signer_of :: "nat \<Rightarrow> int \<Rightarrow> nat" where
  "signer_of n i = nat (if 0 \<le> i then i else i + int n)"

definition cert_signers :: "nat \<Rightarrow> 'g sigmas \<Rightarrow> nat set" where
  "cert_signers n sigmas = (\<lambda>(i, g). signer_of n i) ` set sigmas"

definition distinct_signers :: "nat \<Rightarrow> 'g sigmas \<Rightarrow> bool" where
  "distinct_signers n sigmas \<longleftrightarrow> distinct (map (\<lambda>(i, g). signer_of n i) sigmas)"

lemma py_index_signer:
  "py_index xs i = Inr x \<longleftrightarrow>
     signer_of (length xs) i < length xs \<and> - int (length xs) \<le> i \<and> x = xs ! signer_of (length xs) i"
  by (auto simp: py_index_def signer_of_def Let_def)

lemma sig_loop_iff:
  "sig_loop P d sigmas = Inr () \<longleftrightarrow>
     (\<forall>(i, g) \<in> set sigmas. \<exists>pk. py_index (kpks P) i = Inr pk \<and> kvr P pk d g)"
  by (induction sigmas) (auto simp: res_bind_Inr split: if_splits)

lemma check_cert_iff:
  "check_cert P d sigmas = Inr () \<longleftrightarrow>
     length sigmas = kN P - kf P \<and> distinct sigmas \<and>
     (\<forall>(i, g) \<in> set sigmas. \<exists>pk. py_index (kpks P) i = Inr pk \<and> kvr P pk d g)"
  by (auto simp: check_cert_def sig_loop_iff distinct_card intro: card_distinct)

lemma check_cert_signer:
  assumes "check_cert P d sigmas = Inr ()" and "length (kpks P) = kN P" and "(i, g) \<in> set sigmas"
  shows "signer_of (kN P) i < kN P" and "kvr P (kpks P ! signer_of (kN P) i) d g"
  using assms by (fastforce simp: check_cert_iff py_index_signer)+

section \<open>Certificates as quorums\<close>

text \<open>
  An accepted certificate stands for a quorum of signers; then two accepted certificates agree when
  correct nodes sign one digest each.
\<close>

locale quorum_certificates =
  fixes conf :: "'e \<Rightarrow> cfg"
    and accept :: "'e \<Rightarrow> 'd \<Rightarrow> 'c \<Rightarrow> bool"
    and signers :: "'e \<Rightarrow> 'c \<Rightarrow> nat set"
  assumes accept_quorum: "wf_cfg (conf e) \<Longrightarrow> accept e d c \<Longrightarrow> nf_quorum (conf e) (signers e c)"
begin

lemma certificates_agree:
  assumes "wf_cfg (conf e)" and "accept e d c" and "accept e d' c'"
    and "\<forall>q \<in> signers e c - cbyz (conf e). sgnd q = Some d"
    and "\<forall>q \<in> signers e c' - cbyz (conf e). sgnd q = Some d'"
  shows "d = d'"
  by (rule nf.quorums_agree [OF assms(1) accept_quorum [OF assms(1,2)] assms(4)
        accept_quorum [OF assms(1,3)] assms(5)])

lemma correct_signer:
  "wf_cfg (conf e) \<Longrightarrow> accept e d c \<Longrightarrow> \<exists>q \<in> signers e c. q \<notin> cbyz (conf e)"
  using nf.quorum_correct accept_quorum by blast

end

definition pki_cfg :: "('k, 'd, 'g, 'x) pki_scheme \<times> nat set \<Rightarrow> cfg" where
  "pki_cfg e = \<lparr>cN = kN (fst e), cf = kf (fst e), cbyz = snd e\<rparr>"

definition accepted_cert :: "('k, 'd, 'g, 'x) pki_scheme \<times> nat set \<Rightarrow> 'd \<Rightarrow> 'g sigmas \<Rightarrow> bool" where
  "accepted_cert e d sigmas \<longleftrightarrow>
     length (kpks (fst e)) = kN (fst e) \<and> check_cert (fst e) d sigmas = Inr () \<and>
     distinct_signers (kN (fst e)) sigmas"

lemma distinct_signers_card: "distinct_signers n sigmas \<Longrightarrow> card (cert_signers n sigmas) = length sigmas"
  using distinct_card [of "map (\<lambda>(i, g). signer_of n i) sigmas"]
  by (simp add: distinct_signers_def cert_signers_def)

interpretation ecdsa: quorum_certificates pki_cfg accepted_cert "\<lambda>e. cert_signers (kN (fst e))"
proof (unfold_locales, goal_cases)
  case (1 e d c)
  note a = 1(2)
  then have "card (cert_signers (kN (fst e)) c) = kN (fst e) - kf (fst e)"
    using distinct_signers_card [of "kN (fst e)" c] by (simp add: accepted_cert_def check_cert_iff)
  moreover have "cert_signers (kN (fst e)) c \<subseteq> {..<kN (fst e)}"
    using a check_cert_signer(1) [of "fst e" d c] by (auto simp: accepted_cert_def cert_signers_def)
  ultimately show ?case
    by (simp add: nf_quorum_def pki_cfg_def)
qed

section \<open>Certificates with one signer\<close>

text \<open>
  The validators compare the \<open>(index, signature)\<close> pairs, not the indices. A key holder that makes
  \<open>N - f\<close> different signatures on one digest holds a whole certificate.
\<close>

lemma single_signer_cert:
  assumes "i < length (kpks P)" and "length gs = kN P - kf P" and "distinct gs"
    and "\<forall>g \<in> set gs. kvr P (kpks P ! i) d g"
  shows "check_cert P d (map (\<lambda>g. (int i, g)) gs) = Inr ()"
  using assms by (auto simp: check_cert_iff distinct_map inj_on_def)

text \<open>
  What a certificate proves. If \<open>cbc_validate\<close> accepts a value and a certificate, then every
  entry of the certificate names a node and carries a signature of that node on the value's digest,
  and there are exactly \<open>N - f\<close> entries, all different.
\<close>

lemma cbc_validate_sound:
  assumes "cbc_validate P hsh sid v sigmas" and "length (kpks P) = kN P" and "(i, g) \<in> set sigmas"
  shows "signer_of (kN P) i < kN P" and "kvr P (kpks P ! signer_of (kN P) i) (hsh (sid, v)) g"
    and "length sigmas = kN P - kf P" and "distinct sigmas"
  using assms check_cert_signer [of P "hsh (sid, v)" sigmas i g]
  by (auto simp: cbc_validate_def check_cert_iff)

text \<open>
  One faulty node suffices. All three validators accept a certificate in which every signature is
  by one and the same node, for any value that node likes: they check that the pairs of index and
  signature differ, not that the signers do.
\<close>

theorem validators_accept_one_signer:
  assumes "i < length (kpks P)" and "length gs = kN P - kf P" and "distinct gs"
    and "\<forall>g \<in> set gs. kvr P (kpks P ! i) (hsh (sid, v)) g"
  defines "sigmas \<equiv> map (\<lambda>g. (int i, g)) gs"
  shows "cbc_validate P hsh sid v sigmas \<and> prbc_validate P hsh sid (sid, v, sigmas) \<and>
    pb_validate P hsh sid (sid, v, sigmas) \<and> cert_signers (kN P) sigmas \<subseteq> {i}"
  using single_signer_cert [OF assms(1-4)]
  by (auto simp: cbc_validate_def prbc_validate_def pb_validate_def sigmas_def cert_signers_def signer_of_def)

section \<open>Witnesses\<close>

text \<open>
  A scheme of four nodes with randomised signatures: \<open>(i, d, r)\<close> is node \<open>i\<close>'s signature on \<open>d\<close>
  with nonce \<open>r\<close>.
\<close>

definition ex_pki :: "(nat, bytes, nat \<times> bytes \<times> nat) pki" where
  "ex_pki = \<lparr>kN = 4, kf = 1, kpks = [0, 1, 2, 3], kvr = (\<lambda>pk d g. fst g = pk \<and> fst (snd g) = d),
             kmal = (\<lambda>g. False), ksgn = (\<lambda>i d. (i, d, 0))\<rparr>"

definition ex_pair_hash :: "nat \<times> bytes \<Rightarrow> bytes" where
  "ex_pair_hash p = of_nat (fst p) # snd p"

theorem validators_accept_one_signer_witness:
  "cbc_validate ex_pki ex_pair_hash 9 [7]
     [(3, (3, [9, 7], 0)), (3, (3, [9, 7], 1)), (3, (3, [9, 7], 2))]"
proof -
  have "\<forall>g \<in> set [(3, [9, 7], 0), (3, [9, 7], 1), (3, [9, 7], 2)].
      kvr ex_pki (kpks ex_pki ! 3) (ex_pair_hash (9, [7])) g"
    by code_simp
  then show ?thesis
    using validators_accept_one_signer [of 3 ex_pki
        "[(3, [9, 7], 0), (3, [9, 7], 1), (3, [9, 7], 2)]" ex_pair_hash 9 "[7]"]
    by (simp add: ex_pki_def)
qed

section \<open>Certificates a collector builds\<close>

lemma share_ok_valid:
  "length (kpks P) = kN P \<Longrightarrow> j < kN P \<Longrightarrow> kvr P (kpks P ! j) d g \<or> \<not> kmal P g \<Longrightarrow>
     share_ok P (Some d) j g = Inr (kvr P (kpks P ! j) d g)"
  by (auto simp: share_ok_def)

text \<open>
  A malformed share in place of a bad one is not an assertion failure: the handlers' \<open>except\<close> does
  not catch it.
\<close>

lemma share_ok_malformed:
  "length (kpks P) = kN P \<Longrightarrow> j < kN P \<Longrightarrow> \<not> kvr P (kpks P ! j) d g \<Longrightarrow> kmal P g \<Longrightarrow>
     share_ok P (Some d) j g = Inl ValueError"
  by (simp add: share_ok_def)

lemma share_ok_True:
  "share_ok P d j g = Inr True \<longleftrightarrow> (\<exists>d'. d = Some d' \<and> j < length (kpks P) \<and> kvr P (kpks P ! j) d' g)"
proof (cases "j < length (kpks P)")
  case True
  then show ?thesis by (auto simp: share_ok_def split: option.splits)
next
  case False
  then have "py_index (kpks P) (int j) = Inl IndexError" by (simp add: py_index_def Let_def)
  with False show ?thesis by (simp add: share_ok_def)
qed

text \<open>The first \<open>N - f\<close> entries of a dictionary of verified shares, keyed by node.\<close>

definition shares_valid :: "('k, 'd, 'g, 'x) pki_scheme \<Rightarrow> 'd \<Rightarrow> (nat, 'g) odict \<Rightarrow> bool" where
  "shares_valid P d shares \<longleftrightarrow>
     distinct (map fst shares) \<and> (\<forall>(j, g) \<in> set shares. j < kN P \<and> kvr P (kpks P ! j) d g)"

lemma shares_valid_set:
  assumes "shares_valid P d shares" and "j < kN P" and "kvr P (kpks P ! j) d g"
  shows "shares_valid P d (od_set j g shares)"
  using assms od_set_distinct [of shares j g] od_set_mem [of shares _ j g]
  by (auto simp: shares_valid_def)

lemma collected_cert:
  assumes "shares_valid P d shares" and "kN P - kf P \<le> length shares" and "length (kpks P) = kN P"
  defines "c \<equiv> map (\<lambda>(i, g). (int i, g)) (take (kN P - kf P) shares)"
  shows "check_cert P d c = Inr ()" and "distinct_signers (kN P) c"
proof -
  let ?t = "take (kN P - kf P) shares"
  have sub: "set ?t \<subseteq> set shares" by (rule set_take_subset)
  have dist: "distinct (map fst ?t)"
    using assms(1) by (simp add: shares_valid_def take_map [symmetric])
  have "distinct c"
    using dist by (auto simp: c_def distinct_map inj_on_def)
  moreover have "\<exists>pk. py_index (kpks P) i = Inr pk \<and> kvr P pk d g" if "(i, g) \<in> set c" for i g
  proof -
    from that obtain j where "i = int j" "(j, g) \<in> set shares"
      using sub by (auto simp: c_def)
    then show ?thesis using assms(1,3) by (force simp: shares_valid_def)
  qed
  ultimately show "check_cert P d c = Inr ()"
    unfolding check_cert_iff using assms(2) by (intro conjI ballI) (simp_all add: c_def case_prod_unfold)
  have "map (\<lambda>(i, g). signer_of (kN P) i) c = map fst ?t"
    by (auto simp: c_def signer_of_def)
  then show "distinct_signers (kN P) c"
    using dist by (simp add: distinct_signers_def)
qed

text \<open>The signature scheme is correct: a node's signature verifies under its key.\<close>

definition pki_correct :: "('k, 'd, 'g, 'x) pki_scheme \<Rightarrow> bool" where
  "pki_correct P \<longleftrightarrow> length (kpks P) = kN P \<and> (\<forall>q < kN P. \<forall>d. kvr P (kpks P ! q) d (ksgn P q d))"

text \<open>
  A signature that a correct node made in the run verifies for the signed digest only: \<open>made q d\<close>
  says that \<open>q\<close> signed the digest \<open>d\<close>, and \<open>D\<close> holds the digests in question.
\<close>

definition signs_bind :: "('k, 'd, 'g, 'x) pki_scheme \<Rightarrow> nat set \<Rightarrow> (nat \<Rightarrow> 'd \<Rightarrow> bool) \<Rightarrow> 'd set \<Rightarrow> bool" where
  "signs_bind P B made D \<longleftrightarrow>
     (\<forall>q < kN P. q \<notin> B \<longrightarrow>
        (\<forall>d \<in> D. \<forall>d'. made q d' \<longrightarrow> kvr P (kpks P ! q) d (ksgn P q d') \<longrightarrow> d' = d))"

text \<open>The entries of a certificate under correct nodes' keys satisfy \<open>made\<close>.\<close>

definition cert_made :: "nat \<Rightarrow> nat set \<Rightarrow> (nat \<Rightarrow> 'g \<Rightarrow> bool) \<Rightarrow> 'g sigmas \<Rightarrow> bool" where
  "cert_made n B made c \<longleftrightarrow>
     (\<forall>(i, g) \<in> set c. signer_of n i \<notin> B \<longrightarrow> made (signer_of n i) g)"

text \<open>If correct nodes sign what they hold, an accepted certificate shows what its signers hold.\<close>

lemma cert_signed:
  assumes "check_cert P d c = Inr ()" and "length (kpks P) = kN P" and "cert_made (kN P) B made c"
    and "signs_bind P B (\<lambda>q d'. held q = Some d') {d}"
    and "\<And>q g. q \<notin> B \<Longrightarrow> made q g \<Longrightarrow> \<exists>d'. held q = Some d' \<and> g = ksgn P q d'"
  shows "\<forall>q \<in> cert_signers (kN P) c - B. held q = Some d"
proof
  fix q assume q: "q \<in> cert_signers (kN P) c - B"
  then obtain i g where ig: "(i, g) \<in> set c" "q = signer_of (kN P) i"
    by (auto simp: cert_signers_def)
  note v = check_cert_signer [OF assms(1,2) ig(1)]
  have "made q g" using assms(3) ig q by (auto simp: cert_made_def)
  then obtain d' where d': "held q = Some d'" "g = ksgn P q d'" using assms(5) q by blast
  then have "d' = d" using v assms(4) ig(2) q unfolding signs_bind_def by blast
  with d' show "held q = Some d" by simp
qed

end
