(* ===== verification/PRBC.thy ===== *)
theory PRBC
  imports RBC Certs
begin

text \<open>
  \<open>provablereliablebroadcast\<close> of \<open>src/dumbobft/core/provablereliablebroadcast.py\<close>: reliable
  broadcast whose \<open>READY\<close>s are signed, so that the output comes with a transferable proof. The state
  extends \<open>rbc_state\<close> by \<open>readySigShares\<close>; the local helpers (\<open>decode_output\<close>, the \<open>ECHO\<close>
  counting) are the ones of reliable broadcast, which the source repeats.
\<close>

section \<open>Model\<close>

text \<open>\<open>qR\<close> holds \<open>N\<close>, \<open>f\<close>, the leader, the hash and the coder; \<open>qP\<close> the keys of the signatures.\<close>

record ('k, 'd, 'g, 's) prbc_env =
  qR :: rbc_env
  qP :: "('k, 'd, 'g) pki"
  qsid :: 's
  qhash :: "'s \<times> bytes \<Rightarrow> 'd"

datatype 'g prbc_msg =
    PVAL bytes "bytes list" bytes
  | PECHO bytes "bytes list" bytes
  | PREADY bytes 'g

record 'g prbc_state = rbc_state +
  readySigShares :: "(nat, 'g) odict"

definition prbc_init :: "'g prbc_state" where
  "prbc_init = rbc_state.extend rbc_init \<lparr>readySigShares = []\<rparr>"

type_synonym ('g, 's) prbc_value = "bytes \<times> 's \<times> bytes \<times> 'g sigmas"

type_synonym ('g, 's) prbc_reply = "('g prbc_state, 'g prbc_msg, ('g, 's) prbc_value) reply"

definition prbc_start :: "('k, 'd, 'g, 's) prbc_env \<Rightarrow> nat \<Rightarrow> bytes \<Rightarrow> py_error + 'g prbc_msg out list" where
  "prbc_start E pid m =
     (let R = qR E in
      if pid = eleader R then
        res_bind (encode (efe R) (eK R) (eN R) m) (\<lambda>ss.
          res_bind (merkleTree (eH R) ss) (\<lambda>mt.
            res_bind (py_index mt 1) (\<lambda>root.
              res_map (\<lambda>i. res_bind (getMerkleBranch i mt) (\<lambda>br.
                res_bind (py_index ss (int i)) (\<lambda>st. Inr (Send (int i) (PVAL root br st))))) [0..<eN R])))
      else Inr [])"

definition prbc_val :: "('k, 'd, 'g, 's) prbc_env \<Rightarrow> nat \<Rightarrow> 'g prbc_state \<Rightarrow> nat \<Rightarrow> bytes \<Rightarrow>
    bytes list \<Rightarrow> bytes \<Rightarrow> ('g, 's) prbc_reply" where
  "prbc_val E pid s sender root branch stripe =
     (if sender \<noteq> eleader (qR E) then stay s
      else if \<not> merkle_ok (eH (qR E)) (eN (qR E)) stripe root branch pid then stay s
      else (s\<lparr>fromLeader := Some root\<rparr>, [Send (-1) (PECHO root branch stripe)], Running))"

text \<open>The signed confirmation of a root.\<close>

definition ready_msg :: "('k, 'd, 'g, 's) prbc_env \<Rightarrow> nat \<Rightarrow> bytes \<Rightarrow> 'g prbc_msg" where
  "ready_msg E pid root = PREADY root (ksgn (qP E) pid (qhash E (qsid E, root)))"

definition prbc_echo :: "('k, 'd, 'g, 's) prbc_env \<Rightarrow> nat \<Rightarrow> 'g prbc_state \<Rightarrow> nat \<Rightarrow> bytes \<Rightarrow>
    bytes list \<Rightarrow> bytes \<Rightarrow> ('g, 's) prbc_reply" where
  "prbc_echo E pid s sender root branch stripe =
     (case echo_redundant s root sender of
        Inl e \<Rightarrow> (s, [], Raised e)
      | Inr True \<Rightarrow> stay s
      | Inr False \<Rightarrow>
          if \<not> merkle_ok (eH (qR E)) (eN (qR E)) stripe root branch sender then stay s
          else let s1 = add_echo (eN (qR E)) s root sender stripe in
            if eN (qR E) - ef (qR E) \<le> echoCounter s1 root \<and> \<not> readySent s1
            then (s1\<lparr>readySent := True\<rparr>, [Send (-1) (ready_msg E pid root)], Running)
            else stay s1)"

text \<open>The output test: the first \<open>N - f\<close> collected shares, in the order the senders appeared.\<close>

definition prbc_output :: "('k, 'd, 'g, 's) prbc_env \<Rightarrow> 'g prbc_state \<Rightarrow> bytes \<Rightarrow>
    ('g, 's) prbc_value ctl" where
  "prbc_output E s root =
     (let R = qR E in
      if eN R - ef R \<le> card (ready s root) \<and> eK R \<le> echoCounter s root
      then raise_or (res_bind (decode_output R s root) (\<lambda>v.
             Inr (v, qsid E, root, map (\<lambda>(i, g). (int i, g)) (take (eN R - ef R) (readySigShares s)))))
      else Running)"

definition prbc_ready :: "('k, 'd, 'g, 's) prbc_env \<Rightarrow> nat \<Rightarrow> 'g prbc_state \<Rightarrow> nat \<Rightarrow> bytes \<Rightarrow> 'g \<Rightarrow>
    ('g, 's) prbc_reply" where
  "prbc_ready E pid s sender root sig =
     (if sender \<in> ready s root \<or> sender \<in> readySenders s then stay s
      else case share_ok (qP E) (Some (qhash E (qsid E, root))) sender sig of
        Inl e \<Rightarrow> (s, [], Raised e)
      | Inr ok \<Rightarrow>
          if \<not> ok then stay s
          else let s1 = (add_ready s root sender)\<lparr>readySigShares := od_set sender sig (readySigShares s)\<rparr> in
            if ef (qR E) + 1 \<le> card (ready s1 root) \<and> \<not> readySent s1
            then let s2 = s1\<lparr>readySent := True\<rparr>
                 in (s2, [Send (-1) (ready_msg E pid root)], prbc_output E s2 root)
            else (s1, [], prbc_output E s1 root))"

fun prbc_step :: "('k, 'd, 'g, 's) prbc_env \<Rightarrow> nat \<Rightarrow> 'g prbc_state \<Rightarrow> nat \<times> 'g prbc_msg \<Rightarrow>
    ('g, 's) prbc_reply" where
  "prbc_step E pid s (sender, PVAL root branch stripe) =
     (if fromLeader s = None then prbc_val E pid s sender root branch stripe else stay s)"
| "prbc_step E pid s (sender, PECHO root branch stripe) = prbc_echo E pid s sender root branch stripe"
| "prbc_step E pid s (sender, PREADY root sig) = prbc_ready E pid s sender root sig"

section \<open>What a call can do\<close>

definition said :: "'m out list \<Rightarrow> bool \<Rightarrow> bool \<Rightarrow> bool \<Rightarrow> 'm \<Rightarrow> bool" where
  "said outs old guard new x \<longleftrightarrow>
     (if guard \<and> \<not> old then outs = [Send (-1) x] \<and> new else outs = [] \<and> new = old)"

lemma said_msgs: "said outs old guard new x \<Longrightarrow> m \<in> out_msg ` set outs \<Longrightarrow> m = x \<and> guard \<and> \<not> old"
  by (auto simp: said_def split: if_splits)

lemma prbc_echo_cases:
  assumes "prbc_echo E p s q root br st = (s', outs, k)"
  shows "s' = s \<and> outs = [] \<and> (\<forall>v. k \<noteq> Returned v) \<or>
    (\<exists>b. echo_redundant s root q = Inr False \<and> merkle_ok (eH (qR E)) (eN (qR E)) st root br q \<and>
       s' = (add_echo (eN (qR E)) s root q st)\<lparr>readySent := b\<rparr> \<and> k = Running \<and>
       said outs (readySent s) (eN (qR E) - ef (qR E) \<le> echoCounter s' root) b (ready_msg E p root))"
proof (cases "echo_redundant s root q = Inr False \<and> merkle_ok (eH (qR E)) (eN (qR E)) st root br q")
  case False
  then show ?thesis
    using assms by (auto simp: prbc_echo_def split: sum.splits bool.splits if_splits)
next
  case True
  let ?s1 = "add_echo (eN (qR E)) s root q st"
  have same: "?s1\<lparr>readySent := readySent s\<rparr> = ?s1" by simp
  show ?thesis
  proof (cases "eN (qR E) - ef (qR E) \<le> echoCounter ?s1 root \<and> \<not> readySent s")
    case amp: True
    have "(s', outs, k) = (?s1\<lparr>readySent := True\<rparr>, [Send (-1) (ready_msg E p root)], Running)"
      unfolding assms [symmetric] using True amp by (simp add: prbc_echo_def Let_def)
    then show ?thesis
      using True amp by (intro disjI2 exI [of _ True]) (simp add: said_def)
  next
    case noamp: False
    have "(s', outs, k) = (?s1, [], Running)"
      unfolding assms [symmetric] using True noamp by (auto simp: prbc_echo_def Let_def)
    then show ?thesis
      using True noamp by (intro disjI2 exI [of _ "readySent s"]) (simp add: said_def same)
  qed
qed

definition add_share :: "'g prbc_state \<Rightarrow> bytes \<Rightarrow> nat \<Rightarrow> 'g \<Rightarrow> bool \<Rightarrow> 'g prbc_state" where
  "add_share s root q sig b =
     (add_ready s root q)\<lparr>readySigShares := od_set q sig (readySigShares s), readySent := b\<rparr>"

lemma prbc_ready_cases:
  assumes "prbc_ready E p s q root sig = (s', outs, k)"
  shows "s' = s \<and> outs = [] \<and> (\<forall>v. k \<noteq> Returned v) \<or>
    (\<exists>b. q \<notin> readySenders s \<and> share_ok (qP E) (Some (qhash E (qsid E, root))) q sig = Inr True \<and>
       s' = add_share s root q sig b \<and> k = prbc_output E s' root \<and>
       said outs (readySent s) (ef (qR E) + 1 \<le> card (ready s' root)) b (ready_msg E p root))"
proof (cases "q \<in> ready s root \<or> q \<in> readySenders s \<or>
    share_ok (qP E) (Some (qhash E (qsid E, root))) q sig \<noteq> Inr True")
  case True
  then show ?thesis
    using assms by (auto simp: prbc_ready_def split: if_splits sum.splits)
next
  case False
  let ?s1 = "(add_ready s root q)\<lparr>readySigShares := od_set q sig (readySigShares s)\<rparr>"
  have s1: "?s1\<lparr>readySent := True\<rparr> = add_share s root q sig True" "?s1 = add_share s root q sig (readySent s)"
    by (simp_all add: add_share_def add_ready_def)
  show ?thesis
  proof (cases "ef (qR E) + 1 \<le> card (ready ?s1 root) \<and> \<not> readySent s")
    case amp: True
    have "(s', outs, k) = (add_share s root q sig True, [Send (-1) (ready_msg E p root)],
        prbc_output E (add_share s root q sig True) root)"
      unfolding assms [symmetric] s1(1) [symmetric] using False amp
      by (simp add: prbc_ready_def Let_def)
    then show ?thesis
      using False amp by (intro disjI2 exI [of _ True]) (simp add: said_def add_share_def)
  next
    case noamp: False
    have "(s', outs, k) = (?s1, [], prbc_output E ?s1 root)"
      unfolding assms [symmetric] using False noamp by (auto simp: prbc_ready_def Let_def)
    then show ?thesis
      unfolding s1(2) using False noamp
      by (intro disjI2 exI [of _ "readySent s"]) (simp add: said_def add_share_def)
  qed
qed

lemma prbc_step_cases:
  assumes "prbc_step E p s (q, m) = (s', outs, k)"
  obtains (idle) "s' = s" "outs = []" "\<And>v. k \<noteq> Returned v"
  | (val) root br st where "m = PVAL root br st" "fromLeader s = None" "q = eleader (qR E)"
      "s' = s\<lparr>fromLeader := Some root\<rparr>" "outs = [Send (-1) (PECHO root br st)]" "k = Running"
  | (echo) root br st b where "m = PECHO root br st" "echo_redundant s root q = Inr False"
      "merkle_ok (eH (qR E)) (eN (qR E)) st root br q"
      "s' = (add_echo (eN (qR E)) s root q st)\<lparr>readySent := b\<rparr>" "k = Running"
      "said outs (readySent s) (eN (qR E) - ef (qR E) \<le> echoCounter s' root) b (ready_msg E p root)"
  | (ready) root sig b where "m = PREADY root sig" "q \<notin> readySenders s"
      "share_ok (qP E) (Some (qhash E (qsid E, root))) q sig = Inr True"
      "s' = add_share s root q sig b" "k = prbc_output E s' root"
      "said outs (readySent s) (ef (qR E) + 1 \<le> card (ready s' root)) b (ready_msg E p root)"
proof (cases m)
  case (PVAL root br st)
  show ?thesis
  proof (cases "fromLeader s = None \<and> q = eleader (qR E) \<and> merkle_ok (eH (qR E)) (eN (qR E)) st root br p")
    case True
    show ?thesis
      by (rule that(2) [OF PVAL]) (use assms PVAL True in \<open>auto simp: prbc_val_def\<close>)
  next
    case False
    show ?thesis
      by (rule that(1)) (use assms PVAL False in \<open>auto simp: prbc_val_def split: if_splits\<close>)
  qed
next
  case (PECHO root br st)
  with assms have "prbc_echo E p s q root br st = (s', outs, k)" by simp
  from prbc_echo_cases [OF this] show ?thesis using that(1,3) PECHO by blast
next
  case (PREADY root sig)
  with assms have "prbc_ready E p s q root sig = (s', outs, k)" by simp
  from prbc_ready_cases [OF this] show ?thesis using that(1,4) PREADY by blast
qed

section \<open>The handler follows the echo/ready pattern\<close>

lemma prbc_frames [simp]:
  "fromLeader (add_share s root q g b) = fromLeader s"
  "echo_set (add_share s root q g b) r = echo_set s r"
  "ready (add_share s root q g b) r = (if r = root then insert q (ready s root) else ready s r)"
  "readySenders (add_share s root q g b) = insert q (readySenders s)"
  "readySigShares (add_share s root q g b) = od_set q g (readySigShares s)"
  by (simp_all add: add_share_def add_ready_def echo_set_def)

lemma rbc_inv_share: "rbc_inv N s \<Longrightarrow> q \<notin> readySenders s \<Longrightarrow> rbc_inv N (add_share s root q g b)"
  by (auto simp: rbc_inv_def add_share_def add_ready_def echo_set_def)

lemma prbc_step_inv:
  assumes "rbc_inv (eN (qR E)) s" and "prbc_step E p s (q, m) = (s', outs, k)"
  shows "rbc_inv (eN (qR E)) s'"
  using assms(2)
proof (cases rule: prbc_step_cases)
  case (echo root br st b)
  then show ?thesis using add_echo_inv [OF assms(1) echo(2) merkle_ok_index [OF echo(3)]] by simp
next
  case (ready root sig b)
  then show ?thesis using rbc_inv_share [OF assms(1)] by blast
qed (use assms(1) in simp_all)

fun pecho_root :: "'g prbc_msg \<Rightarrow> bytes option" where
  "pecho_root (PECHO root _ _) = Some root"
| "pecho_root _ = None"

fun pready_root :: "'g prbc_msg \<Rightarrow> bytes option" where
  "pready_root (PREADY root _) = Some root"
| "pready_root _ = None"

fun pval_root :: "'g prbc_msg \<Rightarrow> bytes option" where
  "pval_root (PVAL root _ _) = Some root"
| "pval_root _ = None"

definition proved_value :: "('k, 'd, 'g, 's) prbc_env \<Rightarrow> ('g, 's) prbc_value \<Rightarrow> bytes \<Rightarrow> bool" where
  "proved_value E x root \<longleftrightarrow> (case x of (v, sid, root', c) \<Rightarrow> root' = root \<and> sid = qsid E \<and> value_of (qR E) v root)"

lemma prbc_output_Returned:
  "prbc_output E s root = Returned x \<Longrightarrow>
     proved_value E x root \<and> eN (qR E) - ef (qR E) \<le> card (ready s root)"
  by (auto simp: prbc_output_def raise_or_def Let_def proved_value_def res_bind_Inr decode_output_value
      split: if_splits sum.splits)

lemma rbc_inv_prbc_init: "rbc_inv N prbc_init"
  by (auto simp: rbc_inv_def prbc_init_def rbc_init_def echo_set_def rbc_state.defs)

interpretation prbc: echo_ready_leader "prbc_step E" "rbc_inv (eN (qR E))" "env_cfg (qR E) B" prbc_init
  fromLeader echo_set ready pecho_root pready_root "proved_value E" "eleader (qR E)" pval_root
  for E :: "('k, 'd, 'g, 's) prbc_env" and B
proof (unfold_locales, goal_cases)
  case (1 s p e s' outs k)
  then show ?case using prbc_step_inv by (cases e) blast
next
  case 2
  show ?case by (rule rbc_inv_prbc_init)
next
  case (3 r)
  show ?case by (simp add: echo_set_def prbc_init_def rbc_init_def rbc_state.defs)
next
  case (4 r)
  show ?case by (simp add: prbc_init_def rbc_init_def rbc_state.defs)
next
  case (5 s p q m s' outs k r)
  from 5(2) show ?case by (cases rule: prbc_step_cases) (use 5(3) in auto)
next
  case (6 s p q m s' outs k m' r)
  from 6(2) show ?case
  proof (cases rule: prbc_step_cases)
    case (echo root br st b)
    then show ?thesis using said_msgs [OF echo(6) 6(3)] 6(4) by (simp add: ready_msg_def)
  next
    case (ready root sig b)
    then show ?thesis using said_msgs [OF ready(6) 6(3)] 6(4) by (simp add: ready_msg_def)
  qed (use 6(3,4) in auto)
next
  case (7 s p q m s' outs k x r)
  from 7(2) show ?case
    by (cases rule: prbc_step_cases)
      (use 7(1,3) in \<open>auto simp: add_echo_set merkle_ok_index split: if_splits\<close>)
next
  case (8 s p q m s' outs k x r)
  from 8(2) show ?case
    by (cases rule: prbc_step_cases) (use 8(3) in \<open>auto split: if_splits\<close>)
next
  case (9 s p q m s' outs k m' r)
  have "rbc_inv (eN (qR E)) s'" using 9(1,2) by (rule prbc_step_inv)
  then have *: "echoCounter s' r = card (echo_set s' r)" by (simp add: rbc_inv_def)
  from 9(2) show ?case
  proof (cases rule: prbc_step_cases)
    case (echo root br st b)
    then show ?thesis using said_msgs [OF echo(6) 9(3)] 9(4) * by (auto simp: ready_msg_def)
  next
    case (ready root sig b)
    then show ?thesis using said_msgs [OF ready(6) 9(3)] 9(4) by (auto simp: ready_msg_def)
  qed (use 9(3,4) in auto)
next
  case (10 s p q m s' outs v)
  from 10(3) show ?case
  proof (cases rule: prbc_step_cases)
    case idle
    then show ?thesis by blast
  next
    case (ready root sig b)
    from prbc_output_Returned [OF ready(5) [symmetric]] 10(1) show ?thesis
      by (intro exI [of _ root]) (auto simp: wf_cfg_def)
  qed simp_all
next
  case 11
  show ?case by (simp add: prbc_init_def rbc_init_def rbc_state.defs)
next
  case (12 s p q m s' outs k r)
  from 12(2) show ?case by (cases rule: prbc_step_cases) (use 12(3) in auto)
next
  case (13 s p q m s' outs k m')
  from 13(2) show ?case
  proof (cases rule: prbc_step_cases)
    case (echo root br st b)
    then show ?thesis using said_msgs [OF echo(6) 13(3)] by (simp add: ready_msg_def)
  next
    case (ready root sig b)
    then show ?thesis using said_msgs [OF ready(6) 13(3)] by (simp add: ready_msg_def)
  qed (use 13(3) in auto)
qed

section \<open>Networks\<close>

definition prbc_initial :: "('k, 'd, 'g, 's) prbc_env \<Rightarrow> nat set \<Rightarrow> bytes \<Rightarrow>
    ('g prbc_state, 'g prbc_msg, ('g, 's) prbc_value) sys" where
  "prbc_initial E B m =
     start_sys (\<lambda>_. prbc_init)
       (if eleader (qR E) \<in> B then {}
        else case prbc_start E (eleader (qR E)) m of Inl e \<Rightarrow> {}
          | Inr outs \<Rightarrow> routed (eN (qR E)) (eleader (qR E)) outs)"

definition prbc_reachable :: "('k, 'd, 'g, 's) prbc_env \<Rightarrow> nat set \<Rightarrow> bytes \<Rightarrow>
    ('g prbc_state, 'g prbc_msg, ('g, 's) prbc_value) sys \<Rightarrow> bool" where
  "prbc_reachable E B m s = reaches (env_cfg (qR E) B) (prbc_step E) (prbc_initial E B m) s"

lemma prbc_start_msgs:
  assumes "eleader (qR E) < eN (qR E)"
  shows "\<forall>(q, p, x) \<in> net (prbc_initial E B m).
    q < cN (env_cfg (qR E) B) \<and> pecho_root x = None \<and> pready_root x = None"
proof -
  have "q < eN (qR E) \<and> pecho_root x = None \<and> pready_root x = None"
    if e: "(q, p, x) \<in> net (prbc_initial E B m)" for q p x
  proof -
    obtain outs where o: "prbc_start E (eleader (qR E)) m = Inr outs"
      "(q, p, x) \<in> routed (eN (qR E)) (eleader (qR E)) outs"
      using e by (auto simp: prbc_initial_def start_sys_def split: if_splits sum.splits)
    then have lt: "q < eN (qR E)" using assms by (simp add: routed_iff)
    from o(2) obtain k where k: "Send k x \<in> set outs" by (auto simp: routed_iff)
    have "\<exists>root br st. x = PVAL root br st"
      using o(1) res_map_Inr_mem [OF _ k]
      by (fastforce simp: prbc_start_def Let_def res_bind_Inr split: if_splits)
    then show ?thesis using lt by auto
  qed
  then show ?thesis by auto
qed

lemma prbc_initial_start: "prbc_initial E B m = start_sys (\<lambda>_. prbc_init) (net (prbc_initial E B m))"
  by (simp add: prbc_initial_def start_sys_def)

text \<open>A correct node's \<open>READY\<close> carries its signature on the root.\<close>

definition ready_signed :: "('k, 'd, 'g, 's) prbc_env \<Rightarrow> nat \<Rightarrow> 'g prbc_msg \<Rightarrow> bool" where
  "ready_signed E p m \<longleftrightarrow>
     (case m of PREADY r g \<Rightarrow> g = ksgn (qP E) p (qhash E (qsid E, r)) | _ \<Rightarrow> True)"

interpretation prbc_sig: sender_invariant "env_cfg (qR E) B" "prbc_step E" "\<lambda>_ _. True" "ready_signed E"
  "\<lambda>_ _ _. True"
  for E :: "('k, 'd, 'g, 's) prbc_env" and B
proof (unfold_locales, goal_cases)
  case (2 p s q m s' outs k m')
  from 2(3) show ?case
  proof (cases rule: prbc_step_cases)
    case (echo root br st b)
    then show ?thesis
      using said_msgs [OF echo(6) 2(4)] by (simp add: ready_signed_def ready_msg_def)
  next
    case (ready root sig b)
    then show ?thesis
      using said_msgs [OF ready(6) 2(4)] by (simp add: ready_signed_def ready_msg_def)
  qed (use 2(4) in \<open>auto simp: ready_signed_def\<close>)
qed simp_all

text \<open>
  The signatures a node has made, the digests it has signed, and an accepted, unforged proof of
  distinct signers.
\<close>

definition prbc_signed :: "('k, 'd, 'g, 's) prbc_env \<Rightarrow>
    ('g prbc_state, 'g prbc_msg, 'r) sys \<Rightarrow> nat \<Rightarrow> 'd \<Rightarrow> bool" where
  "prbc_signed E s q d \<longleftrightarrow> (\<exists>p r g. (q, p, PREADY r g) \<in> net s \<and> d = qhash E (qsid E, r))"

definition prbc_made :: "('g prbc_state, 'g prbc_msg, 'r) sys \<Rightarrow> nat \<Rightarrow> 'g \<Rightarrow> bool" where
  "prbc_made s q g \<longleftrightarrow> (\<exists>(q', p, m) \<in> net s. q' = q \<and> (case m of PREADY r g' \<Rightarrow> g' = g | _ \<Rightarrow> False))"

definition prbc_proved ::"('k, 'd, 'g, 's) prbc_env \<Rightarrow> nat set \<Rightarrow>
    ('g prbc_state, 'g prbc_msg, 'r) sys \<Rightarrow> bytes \<Rightarrow> 'g sigmas \<Rightarrow> bool" where
  "prbc_proved E B s root c \<longleftrightarrow>
     prbc_validate (qP E) (qhash E) (qsid E) (qsid E, root, c) \<and> distinct_signers (kN (qP E)) c \<and>
     cert_made (kN (qP E)) B (prbc_made s) c \<and>
     signs_bind (qP E) B (prbc_signed E s) {qhash E (qsid E, root)}"

text \<open>The two parts of the environment describe the same nodes.\<close>

definition prbc_wf :: "('k, 'd, 'g, 's) prbc_env \<Rightarrow> nat set \<Rightarrow> bool" where
  "prbc_wf E B \<longleftrightarrow> wf_cfg (env_cfg (qR E) B) \<and> eleader (qR E) < eN (qR E) \<and> kN (qP E) = eN (qR E) \<and> kf (qP E) = ef (qR E) \<and>
     length (kpks (qP E)) = eN (qR E)"

text \<open>No root that a correct node has confirmed in the run collides with the given one.\<close>

definition roots_apart :: "('k, 'd, 'g, 's) prbc_env \<Rightarrow> nat set \<Rightarrow>
    ('g prbc_state, 'g prbc_msg, 'r) sys \<Rightarrow> bytes \<Rightarrow> bool" where
  "roots_apart E B s root \<longleftrightarrow>
     (\<forall>q p r g. (q, p, PREADY r g) \<in> net s \<longrightarrow> q \<notin> B \<longrightarrow>
        qhash E (qsid E, r) = qhash E (qsid E, root) \<longrightarrow> r = root)"

text \<open>A proof contains a correct node's confirmation of its root.\<close>

lemma prbc_proved_ready:
  assumes wf: "prbc_wf E B" and r: "prbc_reachable E B m0 s" and pr: "prbc_proved E B s root c"
    and cr: "roots_apart E B s root"
  shows "\<exists>q p g. (q, p, PREADY root g) \<in> net s \<and> q \<notin> B"
proof -
  let ?P = "qP E" and ?d = "qhash E (qsid E, root)"
  have cert: "check_cert ?P ?d c = Inr ()" and len: "length (kpks ?P) = kN ?P"
    using pr wf by (simp_all add: prbc_proved_def prbc_validate_def prbc_wf_def)
  have acc: "accepted_cert (?P, B) ?d c"
    using cert len pr by (simp add: accepted_cert_def prbc_proved_def)
  have "pki_cfg (?P, B) = env_cfg (qR E) B" using wf by (simp add: pki_cfg_def prbc_wf_def)
  then obtain q where q: "q \<in> cert_signers (kN ?P) c" "q \<notin> B"
    using ecdsa.correct_signer [of "(?P, B)" ?d c] acc wf by (auto simp: prbc_wf_def)
  then obtain i g where ig: "(i, g) \<in> set c" "q = signer_of (kN ?P) i"
    by (auto simp: cert_signers_def)
  then have "prbc_made s q g" using pr q by (auto simp: prbc_proved_def cert_made_def)
  then obtain p m where m: "(q, p, m) \<in> net s" "case m of PREADY r g' \<Rightarrow> g' = g | _ \<Rightarrow> False"
    unfolding prbc_made_def by blast
  then obtain r' where net: "(q, p, PREADY r' g) \<in> net s"
    by (cases m) auto
  have "\<forall>(q, p, x) \<in> net (prbc_initial E B m0). q \<notin> cbyz (env_cfg (qR E) B) \<longrightarrow> ready_signed E q x \<and> True"
    using prbc_start_msgs [of E B m0] wf by (auto simp: prbc_wf_def) (auto simp: ready_signed_def split: prbc_msg.splits)
  from prbc_sig.reach_msg(1) [OF r [unfolded prbc_reachable_def] _ this net] q(2)
  have "g = ksgn ?P q (qhash E (qsid E, r'))" by (simp add: ready_signed_def)
  moreover note check_cert_signer [OF cert len ig(1)]
  ultimately have "qhash E (qsid E, r') = ?d"
    using pr q(2) ig(2) net unfolding prbc_proved_def signs_bind_def prbc_signed_def by blast
  then have "r' = root" using cr net q(2) unfolding roots_apart_def by blast
  with net q(2) show ?thesis by blast
qed

lemma prbc_proof_binds_aux:
  assumes wf: "prbc_wf E B" and r: "prbc_reachable E B m0 s" and pr: "prbc_proved E B s root c"
    and cr: "roots_apart E B s root"
    and ret: "ended s p = Returned (v, sid, root', c')"
  shows "root' = root \<and> value_of (qR E) v root"
proof -
  from prbc_proved_ready [OF wf r pr cr] obtain q a g where
    net: "(q, a, PREADY root g) \<in> net s" "q \<notin> B" by blast
  have "proved_value E (v, sid, root', c') root"
    using prbc.returned_ready_root [OF _ prbc_start_msgs [of E B m0] _ net(1) _ _ ret] wf net(2)
      r [unfolded prbc_reachable_def] prbc_initial_start [of E B m0] by (simp add: prbc_wf_def)
  then show ?thesis by (simp add: proved_value_def)
qed

lemma prbc_agreement_aux:
  assumes "prbc_wf E B" and "coder_ok (env_coder (qR E))" and "prbc_reachable E B m0 s"
    and "ended s p = Returned (v, sid, root, c)" and "ended s p' = Returned (v', sid', root', c')"
    and "codes_apart (qR E) v v'"
  shows "v = v' \<and> root = root'"
proof -
  have "\<exists>r. proved_value E (v, sid, root, c) r \<and> proved_value E (v', sid', root', c') r"
    using prbc.returned_same_root [OF _ prbc_start_msgs [of E B m0] _ assms(4,5)] assms(1)
      assms(3) [unfolded prbc_reachable_def] prbc_initial_start [of E B m0] by (simp add: prbc_wf_def)
  then show ?thesis using value_of_unique [OF assms(2,6)] by (auto simp: proved_value_def)
qed

section \<open>When the returned proof is valid\<close>

text \<open>Every collected share is a valid signature on a root its sender is counted for.\<close>

definition shares_ready :: "('k, 'd, 'g, 's) prbc_env \<Rightarrow> 'g prbc_state \<Rightarrow> bool" where
  "shares_ready E s \<longleftrightarrow>
     distinct (map fst (readySigShares s)) \<and> readySenders s = fst ` set (readySigShares s) \<and>
     (\<forall>(j, g) \<in> set (readySigShares s). \<exists>r. j \<in> ready s r \<and>
        share_ok (qP E) (Some (qhash E (qsid E, r))) j g = Inr True)"

lemma shares_ready_init: "shares_ready E prbc_init"
  by (simp add: shares_ready_def prbc_init_def rbc_init_def rbc_state.defs)

lemma shares_ready_step:
  assumes "rbc_inv N s" and "shares_ready E s" and "prbc_step E p s (q, m) = (s', outs, k)"
  shows "shares_ready E s'"
  using assms(3)
proof (cases rule: prbc_step_cases)
  case (echo root br st b)
  have "readySigShares (add_echo N s root q st) = readySigShares s"
    "readySenders (add_echo N s root q st) = readySenders s" for N
    by (simp_all add: add_echo_def)
  then show ?thesis using assms(2) echo by (simp add: shares_ready_def)
next
  case (ready root sig b)
  show ?thesis
    unfolding shares_ready_def ready(4)
  proof (intro conjI)
    show "distinct (map fst (readySigShares (add_share s root q sig b)))"
      using assms(2) by (auto simp: shares_ready_def intro: od_set_distinct)
    show "readySenders (add_share s root q sig b) = fst ` set (readySigShares (add_share s root q sig b))"
      using assms(2) by (simp add: shares_ready_def od_set_keys)
    show "\<forall>(j, g) \<in> set (readySigShares (add_share s root q sig b)). \<exists>r. j \<in> ready (add_share s root q sig b) r \<and>
        share_ok (qP E) (Some (qhash E (qsid E, r))) j g = Inr True"
    proof clarify
      fix j g assume "(j, g) \<in> set (readySigShares (add_share s root q sig b))"
      then have "(j, g) = (q, sig) \<or> (j, g) \<in> set (readySigShares s)"
        using assms(2) od_set_mem [of "readySigShares s" "(j, g)" q sig] by (auto simp: shares_ready_def)
      then show "\<exists>r. j \<in> ready (add_share s root q sig b) r \<and>
          share_ok (qP E) (Some (qhash E (qsid E, r))) j g = Inr True"
      proof
        assume "(j, g) = (q, sig)"
        then show ?thesis using ready(3) by (intro exI [of _ root]) simp
      next
        assume "(j, g) \<in> set (readySigShares s)"
        then obtain r where "j \<in> ready s r" "share_ok (qP E) (Some (qhash E (qsid E, r))) j g = Inr True"
          using assms(2) unfolding shares_ready_def by fast
        then show ?thesis by (intro exI [of _ r]) auto
      qed
    qed
  qed
qed (use assms(2) in \<open>simp_all add: shares_ready_def\<close>)

interpretation prbc_shares: node_invariant "prbc_step E" "\<lambda>s. rbc_inv (eN (qR E)) s \<and> shares_ready E s"
  for E :: "('k, 'd, 'g, 's) prbc_env"
proof (unfold_locales, goal_cases)
  case (1 s p e s' outs k)
  then show ?case
    using prbc_step_inv [of E s p "fst e" "snd e"] shares_ready_step [of "eN (qR E)" s E p "fst e" "snd e"]
    by simp
qed

text \<open>If no other root was confirmed to the node, the shares make a valid proof of distinct signers.\<close>

lemma prbc_output_proof:
  assumes inv: "rbc_inv (eN (qR E)) s" "shares_ready E s" and wf: "prbc_wf E B"
    and out: "prbc_output E s root = Returned (v, sid, root', c)"
    and only: "\<forall>r. r \<noteq> root \<longrightarrow> ready s r = {}"
  shows "prbc_validate (qP E) (qhash E) (qsid E) (sid, root', c) \<and> distinct_signers (kN (qP E)) c"
proof -
  let ?P = "qP E" and ?d = "qhash E (qsid E, root)"
  have keys: "kN ?P = eN (qR E)" "kf ?P = ef (qR E)" "length (kpks ?P) = kN ?P"
    using wf by (simp_all add: prbc_wf_def)
  have c: "sid = qsid E" "root' = root"
    "c = map (\<lambda>(i, g). (int i, g)) (take (kN ?P - kf ?P) (readySigShares s))"
    "kN ?P - kf ?P \<le> card (ready s root)"
    using out keys by (auto simp: prbc_output_def raise_or_def Let_def res_bind_Inr split: if_splits sum.splits)
  have "\<forall>(j, g) \<in> set (readySigShares s). j < kN ?P \<and> kvr ?P (kpks ?P ! j) ?d g"
  proof clarify
    fix j g assume "(j, g) \<in> set (readySigShares s)"
    then obtain r where "j \<in> ready s r" "share_ok ?P (Some (qhash E (qsid E, r))) j g = Inr True"
      using inv(2) unfolding shares_ready_def by fast
    moreover have "r = root" using only calculation(1) by blast
    ultimately show "j < kN ?P \<and> kvr ?P (kpks ?P ! j) ?d g"
      using keys by (simp add: share_ok_True)
  qed
  then have val: "shares_valid ?P ?d (readySigShares s)"
    using inv(2) by (simp add: shares_valid_def shares_ready_def)
  have "ready s root \<subseteq> fst ` set (readySigShares s)"
    using inv by (auto simp: rbc_inv_def shares_ready_def)
  then have "card (ready s root) \<le> card (fst ` set (readySigShares s))"
    by (rule card_mono [rotated]) simp
  also have "\<dots> \<le> length (readySigShares s)"
    by (metis card_length length_map list.set_map)
  finally have "kN ?P - kf ?P \<le> length (readySigShares s)" using c(4) by simp
  from collected_cert [OF val this keys(3)] show ?thesis
    by (simp add: c prbc_validate_def)
qed

lemma prbc_run_ready:
  "run_loop (prbc_step E p) s es = (s', outs, k) \<Longrightarrow> x \<in> ready s' r \<Longrightarrow>
     x \<in> ready s r \<or> (\<exists>g. (x, PREADY r g) \<in> set es)"
proof (induction es arbitrary: s outs)
  case Nil
  then show ?case by simp
next
  case (Cons e es)
  obtain q m where e: "e = (q, m)" by (cases e)
  obtain s1 o1 k1 where h: "prbc_step E p s (q, m) = (s1, o1, k1)"
    by (cases "prbc_step E p s (q, m)")
  have one: "x \<in> ready s r \<or> (\<exists>g. (x, PREADY r g) \<in> set (e # es))" if "x \<in> ready s1 r"
    using h by (cases rule: prbc_step_cases) (use that e in \<open>auto split: if_splits\<close>)
  show ?case
  proof (cases k1)
    case Running
    then obtain outs' where "run_loop (prbc_step E p) s1 es = (s', outs', k)"
      using Cons.prems(1) h e by (auto split: prod.splits)
    from Cons.IH [OF this Cons.prems(2)] one show ?thesis by auto
  qed (use Cons.prems h e one in auto)
qed

lemma prbc_valid_aux:
  assumes "prbc_wf E B"
    and "run_loop (prbc_step E p) prbc_init es = (s, outs, Returned (v, sid, root, c))"
    and "\<forall>(q, m) \<in> set es. case m of PREADY r g \<Rightarrow> r = root | _ \<Rightarrow> True"
  shows "prbc_validate (qP E) (qhash E) (qsid E) (sid, root, c) \<and> distinct_signers (kN (qP E)) c"
proof -
  have "ready s r = {}" if "r \<noteq> root" for r
  proof (rule ccontr)
    assume "ready s r \<noteq> {}"
    then obtain x where "x \<in> ready s r" by blast
    moreover have "x \<notin> ready prbc_init r" by (simp add: prbc_init_def rbc_init_def rbc_state.defs)
    ultimately obtain g where "(x, PREADY r g) \<in> set es"
      using prbc_run_ready [OF assms(2)] by blast
    then show False using assms(3) that by auto
  qed
  then have only: "\<forall>r. r \<noteq> root \<longrightarrow> ready s r = {}" by blast
  let ?inv = "\<lambda>s. rbc_inv (eN (qR E)) s \<and> shares_ready E s"
  have i0: "?inv prbc_init" by (simp add: rbc_inv_prbc_init shares_ready_init)
  have inv: "?inv s" by (rule prbc_shares.run_inv [OF i0 assms(2)])
  from prbc_shares.run_returned [OF i0 assms(2)] obtain l q m o1 where
    step: "prbc_step E p l (q, m) = (s, o1, Returned (v, sid, root, c))" by auto
  from step obtain r where out: "prbc_output E s r = Returned (v, sid, root, c)"
  proof (cases rule: prbc_step_cases)
    case idle
    then show thesis by blast
  qed auto
  then have "r = root" using prbc_output_Returned [OF out] by (simp add: proved_value_def)
  with prbc_output_proof [OF _ _ assms(1) out] inv only show ?thesis by blast
qed

end
