(* ===== verification/PRBC_Theorems.thy ===== *)
theory PRBC_Theorems
  imports PRBC
begin

text \<open>
  The properties of \<open>provablereliablebroadcast\<close>, a run of four nodes, and a run whose returned proof
  does not validate.
\<close>

section \<open>Properties\<close>

text \<open>
  C8: Agreement. In any run with at most \<open>f\<close> Byzantine nodes, correct nodes that return from
  \<open>provablereliablebroadcast\<close> return the same message and the same root.
\<close>

theorem prbc_agreement:
  assumes "prbc_wf E B" and "coder_ok (env_coder (qR E))" and "prbc_reachable E B m0 s"
    and "ended s p = Returned (v, sid, root, c)" and "ended s p' = Returned (v', sid', root', c')"
    and "codes_apart (qR E) v v'"
  shows "v = v' \<and> root = root'"
  using assms by (rule prbc_agreement_aux)

text \<open>
  C9: A proof identifies the message. If a proof for \<open>root\<close> is accepted, its signers are distinct (which
  \<open>prbc_validate\<close> does not check), its signatures under correct nodes' keys were made by those nodes in
  the run, and no root a correct node confirmed in the run collides with \<open>root\<close>, then every message a
  correct node returns encodes to \<open>root\<close>: the proof transfers the outcome.
\<close>

theorem prbc_proof_binds:
  assumes "prbc_wf E B" and "prbc_reachable E B m0 s" and "prbc_proved E B s root c"
    and "roots_apart E B s root"
    and "ended s p = Returned (v, sid, root', c')"
  shows "root' = root \<and> value_of (qR E) v root"
  using assms by (rule prbc_proof_binds_aux)

text \<open>
  When the returned proof is valid. If the node received no \<open>READY\<close> for another root, the proof
  it returns is accepted by \<open>prbc_validate\<close> and has distinct signers.
\<close>

theorem prbc_proof_valid:
  assumes "prbc_wf E B"
    and "run_loop (prbc_step E p) prbc_init es = (s, outs, Returned (v, sid, root, c))"
    and "\<forall>(q, m) \<in> set es. case m of PREADY r g \<Rightarrow> r = root | _ \<Rightarrow> True"
  shows "prbc_validate (qP E) (qhash E) (qsid E) (sid, root, c) \<and> distinct_signers (kN (qP E)) c"
  using assms by (rule prbc_valid_aux)

section \<open>Witnesses\<close>

definition ex_prbc :: "(nat, bytes, nat \<times> bytes \<times> nat, nat) prbc_env" where
  "ex_prbc = \<lparr>qR = \<lparr>eN = 4, ef = 1, eleader = 0, eH = toy_hash, efe = rep_enc, efd = rep_dec\<rparr>,
     qP = ex_pki, qsid = 9, qhash = ex_pair_hash\<rparr>"

definition pr_root :: bytes where
  "pr_root = [63, 11]"

definition pr_branch :: "bytes list" where
  "pr_branch = [[3, 103], [79, 171]]"

definition pr_ready :: "nat \<Rightarrow> (nat \<times> bytes \<times> nat) prbc_msg" where
  "pr_ready i = PREADY pr_root (i, 9 # pr_root, 0)"

definition ex_prbc_final :: "((nat \<times> bytes \<times> nat) prbc_state, (nat \<times> bytes \<times> nat) prbc_msg,
    (nat \<times> bytes \<times> nat, nat) prbc_value) sys" where
  "ex_prbc_final = deliver_all (env_cfg (qR ex_prbc) {3}) (prbc_step ex_prbc) (prbc_initial ex_prbc {3} [5])
     (map (\<lambda>i. (0, i, PVAL pr_root pr_branch [5, 1])) [0, 1, 2] @
      concat (map (\<lambda>p. map (\<lambda>i. (i, p, PECHO pr_root pr_branch [5, 1])) [0, 1, 2]) [0, 1, 2]) @
      concat (map (\<lambda>p. map (\<lambda>i. (i, p, pr_ready i)) [0, 1, 2]) [0, 1]))"

definition ex_prbc_value :: "(nat \<times> bytes \<times> nat, nat) prbc_value" where
  "ex_prbc_value = ([5], 9, pr_root, map (\<lambda>i. (int i, (i, 9 # pr_root, 0))) [0, 1, 2])"

lemma ex_prbc_wf: "prbc_wf ex_prbc {3}" "coder_ok (env_coder (qR ex_prbc))"
  by (simp_all add: prbc_wf_def wf_cfg_def ex_prbc_def ex_pki_def env_coder_def eK_def rep_zfec_ok)

lemma ex_prbc_reachable: "prbc_reachable ex_prbc {3} [5] ex_prbc_final"
  unfolding prbc_reachable_def ex_prbc_final_def by (rule deliver_all_reaches [OF reaches.start])

lemma ex_prbc_ended:
  "ended ex_prbc_final 0 = Returned ex_prbc_value \<and> ended ex_prbc_final 1 = Returned ex_prbc_value"
  by code_simp

lemma ex_prbc_apart: "codes_apart (qR ex_prbc) [5] [5]"
proof (rule codes_apartI)
  show "uniform_hash (eH (qR ex_prbc))" by (simp add: ex_prbc_def toy_uniform)
qed code_simp

lemma ex_prbc_proved:
  "prbc_proved ex_prbc {3} ex_prbc_final pr_root (map (\<lambda>i. (int i, (i, 9 # pr_root, 0))) [0, 1, 2])"
  unfolding prbc_proved_def
proof (intro conjI)
  show "signs_bind (qP ex_prbc) {3} (prbc_signed ex_prbc ex_prbc_final)
      {qhash ex_prbc (qsid ex_prbc, pr_root)}"
    by (auto simp: signs_bind_def ex_prbc_def ex_pki_def)
qed code_simp+

theorem prbc_agreement_witness: "ended ex_prbc_final 1 = Returned ex_prbc_value \<and> [5] = ([5] :: bytes)"
  using prbc_agreement [OF ex_prbc_wf ex_prbc_reachable, of 0 "[5]" 9 pr_root _ 1 "[5]" 9 pr_root]
    ex_prbc_ended ex_prbc_apart by (simp add: ex_prbc_value_def)

theorem prbc_proof_binds_witness: "value_of (qR ex_prbc) [5] pr_root"
proof -
  have "roots_apart ex_prbc {3} ex_prbc_final pr_root"
    by (simp add: roots_apart_def ex_prbc_def ex_pair_hash_def)
  from prbc_proof_binds [OF ex_prbc_wf(1) ex_prbc_reachable ex_prbc_proved this, of 1 "[5]" 9 pr_root]
    ex_prbc_ended show ?thesis by (simp add: ex_prbc_value_def)
qed

text \<open>The messages of the correct nodes 0, 1 and 2, as node 1 receives them.\<close>

definition pr_received :: "(nat \<times> (nat \<times> bytes \<times> nat) prbc_msg) list" where
  "pr_received = [(0, PECHO pr_root pr_branch [5, 1]), (2, PECHO pr_root pr_branch [5, 1]),
     (0, pr_ready 0), (1, pr_ready 1), (2, pr_ready 2)]"

theorem prbc_proof_valid_witness:
  "prbc_validate (qP ex_prbc) (qhash ex_prbc) (qsid ex_prbc)
     (9, pr_root, map (\<lambda>i. (int i, (i, 9 # pr_root, 0))) [0, 1, 2])"
proof -
  obtain s outs k where run: "run_loop (prbc_step ex_prbc 1) prbc_init pr_received = (s, outs, k)"
    by (cases "run_loop (prbc_step ex_prbc 1) prbc_init pr_received")
  have "snd (snd (run_loop (prbc_step ex_prbc 1) prbc_init pr_received)) = Returned ex_prbc_value"
    by code_simp
  then have k: "k = Returned ex_prbc_value" by (simp only: run snd_conv)
  have "\<forall>(q, m) \<in> set pr_received. case m of PREADY r g \<Rightarrow> r = pr_root | _ \<Rightarrow> True"
    by code_simp
  with prbc_proof_valid [OF ex_prbc_wf(1), of 1 pr_received s outs "[5]" 9 pr_root] run k
  show ?thesis by (simp add: ex_prbc_value_def)
qed

text \<open>
  The returned proof can be invalid. With four nodes, one Byzantine, a correct node that first
  gets a well-signed \<open>READY\<close> of the faulty node for another root returns the message with a proof that
  \<open>prbc_validate\<close> rejects: \<open>readySigShares\<close> is keyed by sender only, and its first \<open>N - f\<close> entries
  contain the foreign share.
\<close>

theorem prbc_returns_invalid_proof:
  "case run_loop (prbc_step ex_prbc 1) prbc_init ((3, PREADY [8] (3, [9, 8], 0)) # pr_received) of
     (s, outs, Returned (v, sid, root, c)) \<Rightarrow>
        v = [5] \<and> root = pr_root \<and> \<not> prbc_validate (qP ex_prbc) (qhash ex_prbc) (qsid ex_prbc) (sid, root, c)
   | _ \<Rightarrow> False"
  by code_simp

end
