(* ===== verification/PB.thy ===== *)
theory PB
  imports Certs
begin

text \<open>
  \<open>provablebroadcast\<close> of \<open>src/speedydumbobft/core/provablebroadcast.py\<close>. The fields of
  \<open>pb_state\<close> are \<open>digestFromLeader\<close>, \<open>cbc_echo_sshares\<close> and the leader's \<open>m\<close>;
  \<open>pb_outputs\<close> collects the calls of \<open>value_output\<close>. Only the leader's loop returns.
\<close>

section \<open>Model\<close>

text \<open>\<open>pin v\<close> is the inner \<open>hash(v)\<close>, \<open>phash\<close> the outer hash of the pair with the session.\<close>

record ('k, 'd, 'g, 's, 'v, 'h) pb_env = "('k, 'd, 'g) pki" +
  pleader :: nat
  psid :: 's
  phash :: "'s \<times> 'h \<Rightarrow> 'd"
  pin :: "'v \<Rightarrow> 'h"

datatype ('v, 'g) pb_msg = PB_SEND 'v | PB_ECHO 'g

record ('v, 'd, 'g) pb_state =
  pb_m :: "'v option"
  pb_digest :: "'d option"
  pb_shares :: "(nat, 'g) odict"
  pb_outputs :: "'v list"

definition pb_init :: "('v, 'd, 'g) pb_state" where
  "pb_init = \<lparr>pb_m = None, pb_digest = None, pb_shares = [], pb_outputs = []\<rparr>"

type_synonym ('v, 'd, 'g, 's, 'h) pb_reply =
  "(('v, 'd, 'g) pb_state, ('v, 'g) pb_msg, 's \<times> 'h \<times> 'g sigmas) reply"

definition pb_start :: "('k, 'd, 'g, 's, 'v, 'h) pb_env \<Rightarrow> nat \<Rightarrow> 'v \<Rightarrow>
    ('v, 'd, 'g) pb_state \<times> ('v, 'g) pb_msg out list" where
  "pb_start E pid m =
     (if pid = pleader E then
        let d = phash E (psid E, pin E m) in
          (pb_init\<lparr>pb_m := Some m, pb_digest := Some d, pb_shares := od_set pid (ksgn E pid d) [],
             pb_outputs := [m]\<rparr>,
           [Send (-2) (PB_SEND m)])
      else (pb_init, []))"

definition pb_send :: "('k, 'd, 'g, 's, 'v, 'h) pb_env \<Rightarrow> nat \<Rightarrow> ('v, 'd, 'g) pb_state \<Rightarrow> nat \<Rightarrow> 'v \<Rightarrow>
    ('v, 'd, 'g, 's, 'h) pb_reply" where
  "pb_send E pid s j v =
     (if j \<noteq> pleader E then stay s
      else let d = phash E (psid E, pin E v); s1 = s\<lparr>pb_digest := Some d\<rparr> in
        ((if pid \<noteq> pleader E then s1\<lparr>pb_outputs := pb_outputs s1 @ [v]\<rparr> else s1),
         [Send (int (pleader E)) (PB_ECHO (ksgn E pid d))], Running))"

text \<open>The leader returns as soon as it has \<open>N - f\<close> shares; its \<open>m\<close> is set before the loop.\<close>

definition pb_echo :: "('k, 'd, 'g, 's, 'v, 'h) pb_env \<Rightarrow> nat \<Rightarrow> ('v, 'd, 'g) pb_state \<Rightarrow> nat \<Rightarrow> 'g \<Rightarrow>
    ('v, 'd, 'g, 's, 'h) pb_reply" where
  "pb_echo E pid s j sig =
     (if pid \<noteq> pleader E then stay s
      else case share_ok E (pb_digest s) j sig of
        Inl e \<Rightarrow> (s, [], Raised e)
      | Inr ok \<Rightarrow>
          if \<not> ok then stay s
          else let s1 = s\<lparr>pb_shares := od_set j sig (pb_shares s)\<rparr> in
            if kN E - kf E \<le> length (pb_shares s1)
            then (case pb_m s1 of
                    None \<Rightarrow> stay s1
                  | Some m \<Rightarrow> (s1, [], Returned (psid E, pin E m,
                      map (\<lambda>(i, g). (int i, g)) (take (kN E - kf E) (pb_shares s1)))))
            else stay s1)"

fun pb_step :: "('k, 'd, 'g, 's, 'v, 'h) pb_env \<Rightarrow> nat \<Rightarrow> ('v, 'd, 'g) pb_state \<Rightarrow>
    nat \<times> ('v, 'g) pb_msg \<Rightarrow> ('v, 'd, 'g, 's, 'h) pb_reply" where
  "pb_step E pid s (j, PB_SEND v) = (if pb_digest s = None then pb_send E pid s j v else stay s)"
| "pb_step E pid s (j, PB_ECHO sig) = pb_echo E pid s j sig"

lemmas pb_defs = pb_send_def pb_echo_def Let_def

section \<open>Invariant\<close>

text \<open>
  A node that holds a digest has output a value with that digest; the leader's shares are valid and
  its input is the value of its digest. A signature sent is on the digest held.
\<close>

definition pb_node_ok :: "('k, 'd, 'g, 's, 'v, 'h) pb_env \<Rightarrow> 'v \<Rightarrow> nat \<Rightarrow> ('v, 'd, 'g) pb_state \<Rightarrow> bool" where
  "pb_node_ok E m0 p s \<longleftrightarrow>
     (\<forall>d. pb_digest s = Some d \<longrightarrow> (\<exists>v \<in> set (pb_outputs s). d = phash E (psid E, pin E v))) \<and>
     (p = pleader E \<longrightarrow> pb_m s = Some m0 \<and> pb_digest s = Some (phash E (psid E, pin E m0)) \<and>
        shares_valid E (phash E (psid E, pin E m0)) (pb_shares s))"

definition pb_signed :: "('k, 'd, 'g, 's, 'v, 'h) pb_env \<Rightarrow> nat \<Rightarrow> ('v, 'd, 'g) pb_state \<Rightarrow>
    ('v, 'g) pb_msg \<Rightarrow> bool" where
  "pb_signed E p s m \<longleftrightarrow> (\<forall>g. m = PB_ECHO g \<longrightarrow> (\<exists>d. pb_digest s = Some d \<and> g = ksgn E p d))"

definition pb_cfg :: "('k, 'd, 'g, 's, 'v, 'h) pb_env \<Rightarrow> nat set \<Rightarrow> cfg" where
  "pb_cfg E B = \<lparr>cN = kN E, cf = kf E, cbyz = B\<rparr>"

text \<open>What a call can do: nothing, answer the leader's first message, or count a share.\<close>

lemma pb_step_cases:
  assumes "pb_step E p s (j, m) = (s', outs, k)"
  obtains (idle) "s' = s" "outs = []" "\<And>x. k \<noteq> Returned x"
  | (send) v where "m = PB_SEND v" "pb_digest s = None" "j = pleader E"
      "pb_digest s' = Some (phash E (psid E, pin E v))" "pb_m s' = pb_m s" "pb_shares s' = pb_shares s"
      "pb_outputs s' = (if p \<noteq> pleader E then pb_outputs s @ [v] else pb_outputs s)"
      "outs = [Send (int (pleader E)) (PB_ECHO (ksgn E p (phash E (psid E, pin E v))))]" "k = Running"
  | (share) g where "m = PB_ECHO g" "p = pleader E" "share_ok E (pb_digest s) j g = Inr True"
      "s' = s\<lparr>pb_shares := od_set j g (pb_shares s)\<rparr>" "outs = []"
      "k = (if kN E - kf E \<le> length (pb_shares s') then (case pb_m s of None \<Rightarrow> Running
        | Some m \<Rightarrow> Returned (psid E, pin E m, map (\<lambda>(i, g). (int i, g))
            (take (kN E - kf E) (pb_shares s')))) else Running)"
proof (cases m)
  case (PB_SEND v)
  show ?thesis
  proof (cases "pb_digest s = None \<and> j = pleader E")
    case True
    show ?thesis
      by (rule that(2) [OF PB_SEND]) (use assms PB_SEND True in \<open>auto simp: pb_defs split: if_splits\<close>)
  next
    case False
    show ?thesis
      by (rule that(1)) (use assms PB_SEND False in \<open>auto simp: pb_defs split: if_splits\<close>)
  qed
next
  case (PB_ECHO g)
  show ?thesis
  proof (cases "p = pleader E \<and> share_ok E (pb_digest s) j g = Inr True")
    case True
    show ?thesis
      by (rule that(3) [OF PB_ECHO])
        (use assms PB_ECHO True in \<open>auto simp: pb_defs split: if_splits option.splits\<close>)
  next
    case False
    show ?thesis
      by (rule that(1)) (use assms PB_ECHO False in \<open>auto simp: pb_defs split: if_splits sum.splits\<close>)
  qed
qed

lemma pb_node_step:
  assumes "length (kpks E) = kN E" and "pb_node_ok E m0 p s" and "pb_step E p s (j, m) = (s', outs, k)"
  shows "pb_node_ok E m0 p s'"
  using assms(3)
proof (cases rule: pb_step_cases)
  case idle
  then show ?thesis using assms(2) by simp
next
  case (send v)
  then have "p \<noteq> pleader E" using assms(2) by (auto simp: pb_node_ok_def)
  then show ?thesis using send assms(2) by (auto simp: pb_node_ok_def)
next
  case (share g)
  then show ?thesis
    using assms(1,2) by (auto simp: pb_node_ok_def share_ok_True intro: shares_valid_set)
qed

interpretation pb: sender_invariant "pb_cfg E B" "pb_step E"
  "\<lambda>p s. length (kpks E) = kN E \<longrightarrow> pb_node_ok E inp p s" "\<lambda>_ _. True" "pb_signed E"
  for E :: "('k, 'd, 'g, 's, 'v, 'h) pb_env" and B inp
proof (unfold_locales, goal_cases)
  case (1 p s q m s' outs k)
  then show ?case using pb_node_step [OF _ _ 1(3)] by simp
next
  case (3 p s q m s' outs k m')
  have "pb_digest s' = Some d" if "pb_digest s = Some d" for d
    using 3(3) by (cases rule: pb_step_cases) (use that in auto)
  then show ?case using 3(4) by (auto simp: pb_signed_def)
next
  case (4 p s q m s' outs k m')
  from 4(3) show ?case
    by (cases rule: pb_step_cases) (use 4(4) in \<open>auto simp: pb_signed_def\<close>)
qed simp

section \<open>Networks\<close>

definition pb_initial :: "('k, 'd, 'g, 's, 'v, 'h) pb_env \<Rightarrow> nat set \<Rightarrow> 'v \<Rightarrow>
    (('v, 'd, 'g) pb_state, ('v, 'g) pb_msg, 's \<times> 'h \<times> 'g sigmas) sys" where
  "pb_initial E B m =
     start_sys (\<lambda>p. fst (pb_start E p m))
       (if pleader E \<in> B then {} else routed (kN E) (pleader E) (snd (pb_start E (pleader E) m)))"

definition pb_reachable :: "('k, 'd, 'g, 's, 'v, 'h) pb_env \<Rightarrow> nat set \<Rightarrow> 'v \<Rightarrow>
    (('v, 'd, 'g) pb_state, ('v, 'g) pb_msg, 's \<times> 'h \<times> 'g sigmas) sys \<Rightarrow> bool" where
  "pb_reachable E B m s = reaches (pb_cfg E B) (pb_step E) (pb_initial E B m) s"

text \<open>
  The signatures a node has made: in the \<open>ECHO\<close>s it has sent, and the leader's own share. A proof is
  unforged when its entries under correct nodes' keys are such signatures.
\<close>

definition pb_made :: "('k, 'd, 'g, 's, 'v, 'h) pb_env \<Rightarrow>
    (('v, 'd, 'g) pb_state, ('v, 'g) pb_msg, 'r) sys \<Rightarrow> nat \<Rightarrow> 'g \<Rightarrow> bool" where
  "pb_made E s q g \<longleftrightarrow> (q, pleader E, PB_ECHO g) \<in> net s \<or>
     q = pleader E \<and> (case pb_digest (loc s q) of Some d \<Rightarrow> g = ksgn E q d | None \<Rightarrow> False)"

definition pb_unforged :: "('k, 'd, 'g, 's, 'v, 'h) pb_env \<Rightarrow> nat set \<Rightarrow>
    (('v, 'd, 'g) pb_state, ('v, 'g) pb_msg, 'r) sys \<Rightarrow> 'g sigmas \<Rightarrow> bool" where
  "pb_unforged E B s c \<longleftrightarrow> cert_made (kN E) B (pb_made E s) c"

text \<open>A proof for \<open>h\<close> that a verifier accepts, with distinct signers and unforged.\<close>

definition pb_proved :: "('k, 'd, 'g, 's, 'v, 'h) pb_env \<Rightarrow> nat set \<Rightarrow>
    (('v, 'd, 'g) pb_state, ('v, 'g) pb_msg, 'r) sys \<Rightarrow> 'h \<Rightarrow> 'g sigmas \<Rightarrow> bool" where
  "pb_proved E B s h c \<longleftrightarrow>
     pb_validate E (phash E) (psid E) (psid E, h, c) \<and> distinct_signers (kN E) c \<and>
     pb_unforged E B s c \<and>
     signs_bind E B (\<lambda>q d. pb_digest (loc s q) = Some d) {phash E (psid E, h)}"

lemma pb_start_node:
  assumes "pki_correct E" and "pleader E < kN E"
  shows "pb_node_ok E m0 p (loc (pb_initial E B m0) p)"
  using assms by (auto simp: pb_initial_def start_sys_def pb_start_def pb_node_ok_def Let_def
      shares_valid_def pki_correct_def pb_init_def)

lemma pb_start_msgs:
  "\<forall>(q, p, x) \<in> net (pb_initial E B m). q \<notin> cbyz (pb_cfg E B) \<longrightarrow>
     True \<and> pb_signed E q (loc (pb_initial E B m) q) x"
  by (auto simp: pb_initial_def start_sys_def pb_start_def pb_signed_def Let_def routed_iff
      split: if_splits)

lemma pb_made_signed:
  assumes "pki_correct E" and "pleader E < kN E" and "pb_reachable E B m0 s"
    and "q \<notin> B" and "pb_made E s q g"
  shows "\<exists>d. pb_digest (loc s q) = Some d \<and> g = ksgn E q d"
proof (cases "(q, pleader E, PB_ECHO g) \<in> net s")
  case True
  from pb.reach_msg(2) [where inp = m0, OF assms(3) [unfolded pb_reachable_def] _ pb_start_msgs True] assms(4)
    pb_start_node [OF assms(1,2)] show ?thesis
    by (simp add: pb_cfg_def pb_signed_def)
next
  case False
  then show ?thesis using assms(5) by (auto simp: pb_made_def split: option.splits)
qed

lemma pb_proved_held:
  assumes "pki_correct E" and "pleader E < kN E" and "pb_reachable E B m0 s" and "pb_proved E B s h c"
  shows "accepted_cert (E, B) (phash E (psid E, h)) c"
    and "\<forall>q \<in> cert_signers (kN E) c - B. pb_digest (loc s q) = Some (phash E (psid E, h))"
proof -
  have len: "length (kpks E) = kN E" using assms(1) by (simp add: pki_correct_def)
  have cert: "check_cert E (phash E (psid E, h)) c = Inr ()"
    using assms(4) by (simp add: pb_proved_def pb_validate_def)
  then show "accepted_cert (E, B) (phash E (psid E, h)) c"
    using assms(4) len by (simp add: pb_proved_def accepted_cert_def)
  show "\<forall>q \<in> cert_signers (kN E) c - B. pb_digest (loc s q) = Some (phash E (psid E, h))"
    using cert_signed [OF cert len, of B "pb_made E s" "\<lambda>q. pb_digest (loc s q)"] assms(4)
      pb_made_signed [OF assms(1-3)] by (auto simp: pb_proved_def pb_unforged_def)
qed

lemma pb_unique_aux:
  assumes "wf_cfg (pb_cfg E B)" and "pki_correct E" and "pleader E < kN E" and "pb_reachable E B m0 s"
    and "pb_proved E B s h c" and "pb_proved E B s h' c'"
    and "phash E (psid E, h) = phash E (psid E, h') \<longrightarrow> h = h'"
  shows "h = h'"
proof -
  note p = pb_proved_held [OF assms(2-4) assms(5)] and p' = pb_proved_held [OF assms(2-4) assms(6)]
  have "phash E (psid E, h) = phash E (psid E, h')"
    by (rule ecdsa.certificates_agree [of "(E, B)" _ c _ c' "\<lambda>q. pb_digest (loc s q)", OF _ p(1) p'(1)])
      (use p(2) p'(2) assms(1) in \<open>simp_all add: pki_cfg_def pb_cfg_def\<close>)
  then show ?thesis using assms(7) by blast
qed

lemma pb_available_aux:
  assumes "wf_cfg (pb_cfg E B)" and "pki_correct E" and "pleader E < kN E" and "pb_reachable E B m0 s"
    and "pb_proved E B s h c"
    and "\<forall>q. \<forall>v \<in> set (pb_outputs (loc s q)). phash E (psid E, pin E v) = phash E (psid E, h) \<longrightarrow> pin E v = h"
  shows "kf E + 1 \<le> card {q. q < kN E \<and> q \<notin> B \<and> (\<exists>v \<in> set (pb_outputs (loc s q)). pin E v = h)}"
proof -
  note p = pb_proved_held [OF assms(2-4) assms(5)]
  let ?Q = "cert_signers (kN E) c"
  have cfg: "pki_cfg (E, B) = pb_cfg E B" by (simp add: pki_cfg_def pb_cfg_def)
  have q: "nf_quorum (pb_cfg E B) ?Q"
    using ecdsa.accept_quorum [of "(E, B)", OF _ p(1)] assms(1) cfg by simp
  from nf.quorum_weak [OF assms(1) this] have weak: "f1_set (pb_cfg E B) (?Q - B)"
    by (simp add: pb_cfg_def)
  have node: "pb_node_ok E m0 q (loc s q)" for q
    using pb.reach_node [OF assms(4) [unfolded pb_reachable_def] _ pb_start_msgs]
      pb_start_node [OF assms(2,3)] assms(2) by (simp add: pki_correct_def)
  have "?Q - B \<subseteq> {q. q < kN E \<and> q \<notin> B \<and> (\<exists>v \<in> set (pb_outputs (loc s q)). pin E v = h)}"
  proof
    fix x assume x: "x \<in> ?Q - B"
    then have "x < kN E" using q by (auto simp: nf_quorum_def pb_cfg_def)
    moreover have "pb_digest (loc s x) = Some (phash E (psid E, h))" using p(2) x by blast
    ultimately show "x \<in> {q. q < kN E \<and> q \<notin> B \<and> (\<exists>v \<in> set (pb_outputs (loc s q)). pin E v = h)}"
      using node [of x] assms(6) x unfolding pb_node_ok_def by fastforce
  qed
  then have "card (?Q - B) \<le> card {q. q < kN E \<and> q \<notin> B \<and> (\<exists>v \<in> set (pb_outputs (loc s q)). pin E v = h)}"
    by (rule card_mono [rotated]) simp
  then show ?thesis using weak by (simp add: f1_set_def pb_cfg_def)
qed

lemma pb_leader_aux:
  assumes "pki_correct E" and "pleader E < kN E" and "pb_reachable E B m0 s"
    and "ended s p = Returned x"
  shows "case x of (sid, h, c) \<Rightarrow> p = pleader E \<and> h = pin E m0 \<and>
    pb_validate E (phash E) (psid E) (sid, h, c) \<and> distinct_signers (kN E) c"
  using assms(4)
proof (rule pb.reach_returned [where inp = m0, OF assms(3) [unfolded pb_reachable_def] _ pb_start_msgs, rotated 3])
  show "\<forall>p. length (kpks E) = kN E \<longrightarrow> pb_node_ok E m0 p (loc (pb_initial E B m0) p)"
    using pb_start_node [OF assms(1,2)] by blast
  show "\<forall>p. ended (pb_initial E B m0) p = Running"
    by (simp add: pb_initial_def ini_ended)
next
  fix p l q m l' outs x
  assume *: "length (kpks E) = kN E \<longrightarrow> pb_node_ok E m0 p l" "pb_step E p l (q, m) = (l', outs, Returned x)"
  have len: "length (kpks E) = kN E" using assms(1) by (simp add: pki_correct_def)
  with * have ok: "pb_node_ok E m0 p l" by simp
  from *(2) show "case x of (sid, h, c) \<Rightarrow> p = pleader E \<and> h = pin E m0 \<and>
    pb_validate E (phash E) (psid E) (sid, h, c) \<and> distinct_signers (kN E) c"
  proof (cases rule: pb_step_cases)
    case idle
    then show ?thesis by blast
  next
    case (share g)
    have "pb_node_ok E m0 p l'" by (rule pb_node_step [OF len ok *(2)])
    then have "shares_valid E (phash E (psid E, pin E m0)) (pb_shares l')"
      using share(2) by (simp add: pb_node_ok_def)
    moreover have "kN E - kf E \<le> length (pb_shares l')" and "x = (psid E, pin E m0,
        map (\<lambda>(i, g). (int i, g)) (take (kN E - kf E) (pb_shares l')))"
      using share(2,6) ok by (auto simp: pb_node_ok_def split: if_splits)
    ultimately show ?thesis
      using collected_cert [OF _ _ len] share(2) by (simp add: pb_validate_def)
  qed simp_all
qed

section \<open>Properties\<close>

text \<open>
  The proofs of one provable broadcast agree. In any run with at most \<open>f\<close> Byzantine nodes,
  the Byzantine leader included, two accepted proofs with distinct signers are for the same hash.
\<close>

theorem pb_unique:
  assumes "wf_cfg (pb_cfg E B)" and "pki_correct E" and "pleader E < kN E" and "pb_reachable E B m0 s"
    and "pb_proved E B s h c" and "pb_proved E B s h' c'"
    and "phash E (psid E, h) = phash E (psid E, h') \<longrightarrow> h = h'"
  shows "h = h'"
  using assms by (rule pb_unique_aux)

text \<open>
  C7: A proof shows availability. When a proof for \<open>h\<close> exists whose \<open>N - f\<close> signers are distinct (which
  \<open>pb_validate\<close> does not check) and whose signatures under correct nodes' keys were made by those nodes,
  at least \<open>f + 1\<close> correct nodes have already output a value with hash \<open>h\<close>, so a correct node can recast
  it. The values the nodes have output do not collide under the hash.
\<close>

theorem pb_available:
  assumes "wf_cfg (pb_cfg E B)" and "pki_correct E" and "pleader E < kN E" and "pb_reachable E B m0 s"
    and "pb_proved E B s h c"
    and "\<forall>q. \<forall>v \<in> set (pb_outputs (loc s q)). phash E (psid E, pin E v) = phash E (psid E, h) \<longrightarrow> pin E v = h"
  shows "kf E + 1 \<le> card {q. q < kN E \<and> q \<notin> B \<and> (\<exists>v \<in> set (pb_outputs (loc s q)). pin E v = h)}"
  using assms by (rule pb_available_aux)

text \<open>
  What \<open>provablebroadcast\<close> returns. Only a leader returns, and what a correct leader returns is a
  proof for the hash of its own input that \<open>pb_validate\<close> accepts and whose signers are distinct.
\<close>

theorem pb_leader_proof:
  assumes "pki_correct E" and "pleader E < kN E" and "pb_reachable E B m0 s"
    and "ended s p = Returned x"
  shows "case x of (sid, h, c) \<Rightarrow> p = pleader E \<and> h = pin E m0 \<and>
    pb_validate E (phash E) (psid E) (sid, h, c) \<and> distinct_signers (kN E) c"
  using assms by (rule pb_leader_aux)

section \<open>Witnesses\<close>

definition ex_pb :: "(nat, bytes, nat \<times> bytes \<times> nat, nat, bytes, bytes) pb_env" where
  "ex_pb = \<lparr>kN = 4, kf = 1, kpks = [0, 1, 2, 3], kvr = (\<lambda>pk d g. fst g = pk \<and> fst (snd g) = d),
     kmal = (\<lambda>g. False), ksgn = (\<lambda>i d. (i, d, 0)), pleader = 0, psid = 9, phash = ex_pair_hash, pin = (\<lambda>v. 5 # v)\<rparr>"

definition ex_pb_final :: "((bytes, bytes, nat \<times> bytes \<times> nat) pb_state, (bytes, nat \<times> bytes \<times> nat) pb_msg,
    nat \<times> bytes \<times> (nat \<times> bytes \<times> nat) sigmas) sys" where
  "ex_pb_final = deliver_all (pb_cfg ex_pb {3}) (pb_step ex_pb) (pb_initial ex_pb {3} [7])
     [(0, 1, PB_SEND [7]), (0, 2, PB_SEND [7]), (1, 0, PB_ECHO (1, [9, 5, 7], 0)),
      (2, 0, PB_ECHO (2, [9, 5, 7], 0))]"

definition ex_pb_cert :: "(nat \<times> bytes \<times> nat) sigmas" where
  "ex_pb_cert = [(0, (0, [9, 5, 7], 0)), (1, (1, [9, 5, 7], 0)), (2, (2, [9, 5, 7], 0))]"

lemma ex_pb_setting: "wf_cfg (pb_cfg ex_pb {3})" "pki_correct ex_pb" "pleader ex_pb < kN ex_pb"
proof -
  show "pki_correct ex_pb" by (auto simp: pki_correct_def ex_pb_def less_Suc_eq numeral_eq_Suc)
qed (simp_all add: wf_cfg_def pb_cfg_def ex_pb_def)

lemma ex_pb_reachable: "pb_reachable ex_pb {3} [7] ex_pb_final"
  unfolding pb_reachable_def ex_pb_final_def by (rule deliver_all_reaches [OF reaches.start])

lemma ex_pb_ended: "ended ex_pb_final 0 = Returned (9, [5, 7], ex_pb_cert)"
  by code_simp

lemma ex_pb_proved: "pb_proved ex_pb {3} ex_pb_final [5, 7] ex_pb_cert"
  unfolding pb_proved_def
proof (intro conjI)
  show "signs_bind ex_pb {3} (\<lambda>q d. pb_digest (loc ex_pb_final q) = Some d)
      {phash ex_pb (psid ex_pb, [5, 7])}"
    by (auto simp: signs_bind_def ex_pb_def)
qed code_simp+

theorem pb_unique_witness: "pb_proved ex_pb {3} ex_pb_final [5, 7] ex_pb_cert \<and> [5, 7] = ([5, 7] :: bytes)"
  using pb_unique [OF ex_pb_setting ex_pb_reachable ex_pb_proved ex_pb_proved] ex_pb_proved by simp

theorem pb_available_witness:
  "2 \<le> card {q. q < 4 \<and> q \<notin> {3} \<and> (\<exists>v \<in> set (pb_outputs (loc ex_pb_final q)). pin ex_pb v = [5, 7])}"
proof -
  have "\<forall>q. \<forall>v \<in> set (pb_outputs (loc ex_pb_final q)).
      phash ex_pb (psid ex_pb, pin ex_pb v) = phash ex_pb (psid ex_pb, [5, 7]) \<longrightarrow> pin ex_pb v = [5, 7]"
    by (simp add: ex_pb_def ex_pair_hash_def)
  from pb_available [OF ex_pb_setting ex_pb_reachable ex_pb_proved this] show ?thesis
    by (simp add: ex_pb_def)
qed

theorem pb_leader_proof_witness:
  "pb_validate ex_pb (phash ex_pb) (psid ex_pb) (9, [5, 7], ex_pb_cert) \<and> [5, 7] = pin ex_pb [7]"
  using pb_leader_proof [OF ex_pb_setting(2,3) ex_pb_reachable ex_pb_ended] by auto

end
