(* ===== verification/DumboACS.thy ===== *)
theory DumboACS
  imports ACS PRBC_Theorems PB
begin

text \<open>
  The common subsets that run on one vector agreement: \<open>dumbocommonsubset\<close>
  (\<open>src/dumbobft/core/dumbocommonsubset.py\<close>) over provable reliable broadcasts and
  \<open>speedydumbocommonsubset\<close> (\<open>src/speedydumbobft/core/speedydumbocommonsubset.py\<close>) over provable
  broadcasts. Outputs of the sub-protocols are events, a call of \<open>vacs_in\<close> is an outgoing message.
\<close>

section \<open>Model\<close>

datatype ('v, 'q) dacs_event =
    PRBC_OUT nat 'v 'q
  | PRBC_ERR nat
  | VACS_OUT "'q option list option"

record ('v, 'q) dacs_state =
  d_values :: "'v option list"
  d_proofs :: "'q option list"
  d_done :: "bool list"
  d_vector :: "'q option list option"
  d_cur :: nat

definition dacs_init :: "nat \<Rightarrow> ('v, 'q) dacs_state" where
  "dacs_init N = \<lparr>d_values = replicate N None, d_proofs = replicate N None, d_done = replicate N False,
     d_vector = None, d_cur = 0\<rparr>"

text \<open>The loop over the vector: wait for the chosen broadcasts, kill the greenlets of the others.\<close>

fun dacs_join :: "'q option list \<Rightarrow> nat list \<Rightarrow> ('v, 'q) dacs_state \<Rightarrow> (('v, 'q) dacs_state, 'q, 'v option list) reply" where
  "dacs_join vec [] s = (s, [], Returned (d_values s))"
| "dacs_join vec (j # js) s =
     (case py_index vec (int j) of
        Inl e \<Rightarrow> (s, [], Raised e)
      | Inr (Some q) \<Rightarrow>
          if \<not> d_done s ! j then stay (s\<lparr>d_cur := j\<rparr>)
          else if d_values s ! j = None then (s\<lparr>d_cur := j\<rparr>, [], Raised AssertionError)
          else dacs_join vec js s
      | Inr None \<Rightarrow>
          dacs_join vec js (s\<lparr>d_values := (d_values s)[j := None], d_done := (d_done s)[j := True]\<rparr>))"

definition dacs_continue ::
    "nat \<Rightarrow> ('v, 'q) dacs_state \<Rightarrow> 'q out list \<Rightarrow> (('v, 'q) dacs_state, 'q, 'v option list) reply" where
  "dacs_continue N s outs =
     (case d_vector s of
        None \<Rightarrow> (s, outs, Running)
      | Some vec \<Rightarrow> (case dacs_join vec [d_cur s..<N] s of (s', o', c) \<Rightarrow> (s', outs @ o', c)))"

definition wait_for_prbc_to_continue ::
    "nat \<Rightarrow> nat \<Rightarrow> ('v, 'q) dacs_state \<Rightarrow> nat \<Rightarrow> 'v \<Rightarrow> 'q \<Rightarrow> (('v, 'q) dacs_state, 'q, 'v option list) reply" where
  "wait_for_prbc_to_continue N pid s leader msg proof =
     dacs_continue N
       (s\<lparr>d_values := (d_values s)[leader := Some msg], d_proofs := (d_proofs s)[leader := Some proof],
          d_done := (d_done s)[leader := True]\<rparr>)
       (if leader = pid then [Send 0 proof] else [])"

definition dacs_vector ::
    "nat \<Rightarrow> ('v, 'q) dacs_state \<Rightarrow> 'q option list option \<Rightarrow> (('v, 'q) dacs_state, 'q, 'v option list) reply" where
  "dacs_vector N s v =
     (case v of
        None \<Rightarrow> (s, [], Returned (d_values s))
      | Some vec \<Rightarrow> dacs_continue N (s\<lparr>d_vector := Some vec, d_cur := 0\<rparr>) [])"

fun dumbocommonsubset ::
    "nat \<Rightarrow> nat \<Rightarrow> ('v, 'q) dacs_state \<Rightarrow> ('v, 'q) dacs_event \<Rightarrow> (('v, 'q) dacs_state, 'q, 'v option list) reply" where
  "dumbocommonsubset N pid s (PRBC_OUT j v q) =
     (if j < N \<and> \<not> d_done s ! j then wait_for_prbc_to_continue N pid s j v q else stay s)"
| "dumbocommonsubset N pid s (PRBC_ERR j) =
     (if j < N \<and> \<not> d_done s ! j then dacs_continue N (s\<lparr>d_done := (d_done s)[j := True]\<rparr>) [] else stay s)"
| "dumbocommonsubset N pid s (VACS_OUT v) = (if d_vector s = None then dacs_vector N s v else stay s)"

text \<open>
  The variant of Speedy Dumbo: values and the one proof of the own broadcast arrive separately, and the
  proof is handed to the vector agreement as it comes.
\<close>

datatype ('v, 'q) sacs_event =
    PB_VALUE nat 'v
  | PB_VALUE_ERR nat
  | PB_PROOF 'q
  | SVACS_OUT "'q option list option"

fun wait_for_pb_value ::
    "nat \<Rightarrow> ('v, 'q) dacs_state \<Rightarrow> nat \<Rightarrow> 'v option \<Rightarrow> (('v, 'q) dacs_state, 'q, 'v option list) reply" where
  "wait_for_pb_value N s leader (Some msg) =
     dacs_continue N (s\<lparr>d_values := (d_values s)[leader := Some msg], d_done := (d_done s)[leader := True]\<rparr>) []"
| "wait_for_pb_value N s leader None = dacs_continue N (s\<lparr>d_done := (d_done s)[leader := True]\<rparr>) []"

fun speedydumbocommonsubset ::
    "nat \<Rightarrow> ('v, 'q) dacs_state \<Rightarrow> ('v, 'q) sacs_event \<Rightarrow> (('v, 'q) dacs_state, 'q, 'v option list) reply" where
  "speedydumbocommonsubset N s (PB_VALUE j v) =
     (if j < N \<and> \<not> d_done s ! j then wait_for_pb_value N s j (Some v) else stay s)"
| "speedydumbocommonsubset N s (PB_VALUE_ERR j) =
     (if j < N \<and> \<not> d_done s ! j then wait_for_pb_value N s j None else stay s)"
| "speedydumbocommonsubset N s (PB_PROOF q) = (s, [Send 0 q], Running)"
| "speedydumbocommonsubset N s (SVACS_OUT v) = (if d_vector s = None then dacs_vector N s v else stay s)"

section \<open>What is returned\<close>

text \<open>\<open>X\<close>: the broadcast outputs seen, \<open>V\<close>: the vectors seen.\<close>

definition dacs_inv ::
    "nat \<Rightarrow> (nat \<times> 'v) set \<Rightarrow> 'q option list option set \<Rightarrow> ('v, 'q) dacs_state \<Rightarrow> bool" where
  "dacs_inv N X V s \<longleftrightarrow>
     length (d_values s) = N \<and> length (d_done s) = N \<and> d_cur s \<le> N \<and>
     (\<forall>j < N. \<forall>v. d_values s ! j = Some v \<longrightarrow> (j, v) \<in> X \<and> d_done s ! j) \<and>
     (case d_vector s of
        None \<Rightarrow> d_cur s = 0
      | Some vec \<Rightarrow> Some vec \<in> V \<and>
          (\<forall>j < d_cur s. j < length vec \<and> (d_values s ! j = None) = (vec ! j = None) \<and> d_done s ! j))"

definition dacs_result ::
    "nat \<Rightarrow> (nat \<times> 'v) set \<Rightarrow> 'q option list option set \<Rightarrow> 'v option list \<Rightarrow> bool" where
  "dacs_result N X V vs \<longleftrightarrow> None \<in> V \<or>
     length vs = N \<and> (\<exists>vec. Some vec \<in> V \<and>
       (\<forall>j < N. (vs ! j = None) = (vec ! j = None) \<and> (\<forall>v. vs ! j = Some v \<longrightarrow> (j, v) \<in> X)))"

lemma dacs_init_inv: "dacs_inv N X V (dacs_init N)"
  by (simp add: dacs_inv_def dacs_init_def)

lemma dacs_join_inv:
  assumes "dacs_inv N X V s" and "d_vector s = Some vec" and "js = [i..<N]" and "i \<le> N"
    and "\<forall>j < i. j < length vec \<and> (d_values s ! j = None) = (vec ! j = None) \<and> d_done s ! j"
    and "dacs_join vec js s = (s', outs, c)"
  shows "dacs_inv N X V s' \<and> outs = [] \<and> (\<forall>vs. c = Returned vs \<longrightarrow> dacs_result N X V vs)"
  using assms
proof (induction js arbitrary: i s)
  case Nil
  then have "i = N" using upt_eq_Nil_conv [of i N] by auto
  with Nil show ?case unfolding dacs_inv_def dacs_result_def by auto
next
  case (Cons j js)
  have j: "j = i" "i < N" "js = [Suc i..<N]"
    using Cons.prems(3) [symmetric] by (auto simp: upt_eq_Cons_conv)
  show ?case
  proof (cases "i < length vec")
    case False
    then have "s' = s" "outs = []" "\<forall>vs. c \<noteq> Returned vs"
      using Cons.prems(6) j by (auto simp: py_index_def Let_def)
    then show ?thesis using Cons.prems(1) by simp
  next
    case True
    show ?thesis
    proof (cases "vec ! i")
      case None
      define s1 where "s1 = s\<lparr>d_values := (d_values s)[i := None], d_done := (d_done s)[i := True]\<rparr>"
      have "dacs_join vec js s1 = (s', outs, c)" using Cons.prems(6) j True None by (simp add: s1_def)
      moreover have "dacs_inv N X V s1"
        using Cons.prems(1,2,5) None j(2) unfolding dacs_inv_def s1_def by (simp add: upd_nth)
      moreover have "\<forall>j < Suc i. j < length vec \<and> (d_values s1 ! j = None) = (vec ! j = None) \<and> d_done s1 ! j"
      proof (intro allI impI)
        fix k assume k: "k < Suc i"
        have "length (d_values s) = N" "length (d_done s) = N" using Cons.prems(1) by (simp_all add: dacs_inv_def)
        then show "k < length vec \<and> (d_values s1 ! k = None) = (vec ! k = None) \<and> d_done s1 ! k"
          using Cons.prems(5) None j(2) k True by (cases "k = i") (simp_all add: s1_def)
      qed
      ultimately show ?thesis using Cons.IH [of s1 "Suc i"] Cons.prems(2) j by (simp add: s1_def)
    next
      case (Some q)
      show ?thesis
      proof (cases "d_done s ! i \<and> d_values s ! i \<noteq> None")
        case True
        then have "dacs_join vec js s = (s', outs, c)"
          using Cons.prems(6) j Some \<open>i < length vec\<close> by auto
        moreover have "\<forall>j < Suc i. j < length vec \<and> (d_values s ! j = None) = (vec ! j = None) \<and> d_done s ! j"
          using Cons.prems(5) True Some \<open>i < length vec\<close> by (auto simp: less_Suc_eq)
        ultimately show ?thesis using Cons.IH [OF Cons.prems(1,2) j(3)] j(2) by simp
      next
        case False
        then have "s' = s\<lparr>d_cur := i\<rparr>" "outs = []" "\<forall>vs. c \<noteq> Returned vs"
          using Cons.prems(6) j Some True by (auto split: if_splits)
        then show ?thesis using Cons.prems(1,2,4,5) unfolding dacs_inv_def by simp
      qed
    qed
  qed
qed

lemma dacs_continue_inv:
  assumes "dacs_inv N X V s" and "dacs_continue N s o1 = (s', outs, c)"
  shows "dacs_inv N X V s' \<and> outs = o1 \<and> (\<forall>vs. c = Returned vs \<longrightarrow> dacs_result N X V vs)"
proof (cases "d_vector s")
  case None
  then show ?thesis using assms by (auto simp: dacs_continue_def)
next
  case (Some vec)
  obtain s2 o2 c2 where 2: "dacs_join vec [d_cur s..<N] s = (s2, o2, c2)" by (cases "dacs_join vec [d_cur s..<N] s")
  have "d_cur s \<le> N" "\<forall>j < d_cur s. j < length vec \<and> (d_values s ! j = None) = (vec ! j = None) \<and> d_done s ! j"
    using assms(1) Some unfolding dacs_inv_def by auto
  note dacs_join_inv [OF assms(1) Some refl this 2]
  moreover have "s' = s2" "outs = o1 @ o2" "c = c2" using assms(2) Some 2 by (simp_all add: dacs_continue_def)
  ultimately show ?thesis by simp
qed

lemma dacs_deliver_inv:
  assumes "dacs_inv N X V s" and "j < N" and "\<not> d_done s ! j" and "\<forall>v. w = Some v \<longrightarrow> (j, v) \<in> X"
  shows "dacs_inv N X V (s\<lparr>d_values := (case w of Some v \<Rightarrow> (d_values s)[j := Some v] | None \<Rightarrow> d_values s),
    d_proofs := ps, d_done := (d_done s)[j := True]\<rparr>)"
proof -
  have "d_cur s \<le> j" if "d_vector s = Some vec" for vec
    using assms(1,3) that unfolding dacs_inv_def by (auto simp: not_less [symmetric])
  then show ?thesis
    using assms unfolding dacs_inv_def by (cases "d_vector s"; cases w) (auto simp: upd_nth)
qed

lemma dacs_vector_inv:
  assumes "dacs_inv N X V s" and "v \<in> V" and "dacs_vector N s v = (s', outs, c)"
  shows "dacs_inv N X V s' \<and> (\<forall>vs. c = Returned vs \<longrightarrow> dacs_result N X V vs)"
proof (cases v)
  case None
  then show ?thesis using assms by (auto simp: dacs_vector_def dacs_result_def)
next
  case (Some vec)
  then have "dacs_inv N X V (s\<lparr>d_vector := Some vec, d_cur := 0\<rparr>)"
    using assms(1,2) by (simp add: dacs_inv_def)
  moreover have "dacs_continue N (s\<lparr>d_vector := Some vec, d_cur := 0\<rparr>) [] = (s', outs, c)"
    using assms(3) Some by (simp add: dacs_vector_def)
  ultimately show ?thesis using dacs_continue_inv by blast
qed

text \<open>What one event tells about outputs and vectors.\<close>

fun dacs_outputs :: "('v, 'q) dacs_event \<Rightarrow> (nat \<times> 'v) set" where
  "dacs_outputs (PRBC_OUT j v q) = {(j, v)}"
| "dacs_outputs _ = {}"

fun dacs_vectors :: "('v, 'q) dacs_event \<Rightarrow> 'q option list option set" where
  "dacs_vectors (VACS_OUT v) = {v}"
| "dacs_vectors _ = {}"

lemma dumbo_step_inv:
  assumes i: "dacs_inv N X V s" and e: "dacs_outputs e \<subseteq> X" "dacs_vectors e \<subseteq> V"
    and h: "dumbocommonsubset N pid s e = (s', outs, c)"
  shows "dacs_inv N X V s' \<and> (\<forall>vs. c = Returned vs \<longrightarrow> dacs_result N X V vs)"
proof (cases e)
  case (PRBC_OUT j v q)
  show ?thesis
  proof (cases "j < N \<and> \<not> d_done s ! j")
    case True
    have "dacs_inv N X V (s\<lparr>d_values := (d_values s)[j := Some v], d_proofs := (d_proofs s)[j := Some q],
        d_done := (d_done s)[j := True]\<rparr>)"
      using dacs_deliver_inv [OF i, of j "Some v"] True e(1) PRBC_OUT by simp
    from dacs_continue_inv [OF this] h True show ?thesis
      by (simp add: PRBC_OUT wait_for_prbc_to_continue_def)
  next
    case False
    then have "s' = s" "c = Running" using h PRBC_OUT by auto
    then show ?thesis using i by simp
  qed
next
  case (PRBC_ERR j)
  show ?thesis
  proof (cases "j < N \<and> \<not> d_done s ! j")
    case True
    have "dacs_inv N X V (s\<lparr>d_done := (d_done s)[j := True]\<rparr>)"
      using dacs_deliver_inv [OF i, of j None "d_proofs s"] True by simp
    from dacs_continue_inv [OF this] h True show ?thesis by (simp add: PRBC_ERR)
  next
    case False
    then have "s' = s" "c = Running" using h PRBC_ERR by auto
    then show ?thesis using i by simp
  qed
next
  case (VACS_OUT v)
  then show ?thesis
    using dacs_vector_inv [OF i _, of v] e(2) h i by (cases "d_vector s = None") auto
qed

lemma dumbo_run_result:
  "dacs_inv N X V s \<Longrightarrow> (\<Union>e \<in> set es. dacs_outputs e) \<subseteq> X \<Longrightarrow> (\<Union>e \<in> set es. dacs_vectors e) \<subseteq> V \<Longrightarrow>
    run_loop (dumbocommonsubset N pid) s es = (s', outs, Returned vs) \<Longrightarrow> dacs_result N X V vs"
proof (induction es arbitrary: s outs)
  case Nil
  then show ?case by simp
next
  case (Cons e es)
  obtain s1 o1 c1 where h: "dumbocommonsubset N pid s e = (s1, o1, c1)" by (cases "dumbocommonsubset N pid s e")
  have e: "dacs_outputs e \<subseteq> X" "dacs_vectors e \<subseteq> V" using Cons.prems(2,3) by auto
  note s1 = dumbo_step_inv [OF Cons.prems(1) e h]
  show ?case
  proof (cases c1)
    case Running
    then obtain o2 where "run_loop (dumbocommonsubset N pid) s1 es = (s', o2, Returned vs)"
      using Cons.prems(4) h by (auto split: prod.splits)
    then show ?thesis using Cons.IH [of s1 o2] s1 Cons.prems(2,3) by auto
  next
    case (Returned w)
    then show ?thesis using Cons.prems(4) h s1 by simp
  next
    case (Raised x)
    then show ?thesis using Cons.prems(4) h by simp
  qed
qed

lemma dacs_results_equal:
  assumes "dacs_result N X V vs" and "dacs_result N X' V' vs'" and "V \<union> V' \<subseteq> {Some vec}"
    and v: "\<And>j v v'. j < N \<Longrightarrow> (j, v) \<in> X \<Longrightarrow> (j, v') \<in> X' \<Longrightarrow> v = v'"
  shows "vs = vs'"
proof (rule nth_equalityI)
  have a: "length vs = N" "\<forall>j < N. (vs ! j = None) = (vec ! j = None) \<and> (\<forall>v. vs ! j = Some v \<longrightarrow> (j, v) \<in> X)"
    using assms(1,3) unfolding dacs_result_def by auto
  have a': "length vs' = N" "\<forall>j < N. (vs' ! j = None) = (vec ! j = None) \<and> (\<forall>v. vs' ! j = Some v \<longrightarrow> (j, v) \<in> X')"
    using assms(2,3) unfolding dacs_result_def by auto
  show "length vs = length vs'" using a(1) a'(1) by simp
  fix j assume "j < length vs"
  then have j: "j < N" using a(1) by simp
  show "vs ! j = vs' ! j"
  proof (cases "vs ! j")
    case None
    then show ?thesis using a(2) a'(2) j by metis
  next
    case (Some w)
    then obtain w' where w': "vs' ! j = Some w'" using a(2) a'(2) j by (cases "vs' ! j") force+
    have "w = w'" by (rule v [OF j]) (use a(2) a'(2) Some w' j in blast)+
    then show ?thesis using Some w' by simp
  qed
qed

section \<open>Agreement over provable reliable broadcasts\<close>

definition prbc_instance ::
    "('k, 'd, 'g, 's) prbc_env \<times> nat set \<times> bytes \<Rightarrow> ('g prbc_state, 'g prbc_msg, ('g, 's) prbc_value) sys \<Rightarrow> bool" where
  "prbc_instance c s = (case c of (E, B, m0) \<Rightarrow>
     prbc_wf E B \<and> coder_ok (env_coder (qR E)) \<and> prbc_reachable E B m0 s \<and>
     (\<forall>p p' x x'. ended s p = Returned x \<longrightarrow> ended s p' = Returned x' \<longrightarrow> codes_apart (qR E) (fst x) (fst x')))"

definition prbc_outputs :: "('g prbc_state, 'g prbc_msg, ('g, 's) prbc_value) sys \<Rightarrow> nat \<Rightarrow> bytes \<Rightarrow> bool" where
  "prbc_outputs s p v \<longleftrightarrow> (\<exists>x. ended s p = Returned x \<and> fst x = v)"

interpretation prbc_agreed: agreed_outputs prbc_instance "\<lambda>c. fst (snd c)" prbc_outputs
proof (unfold_locales, goal_cases)
  case (1 c s p p' v v')
  obtain E B m0 where c: "c = (E, B, m0)" by (cases c)
  then have i: "prbc_wf E B" "coder_ok (env_coder (qR E))" "prbc_reachable E B m0 s"
    "\<forall>p p' x x'. ended s p = Returned x \<longrightarrow> ended s p' = Returned x' \<longrightarrow> codes_apart (qR E) (fst x) (fst x')"
    using 1(1) by (simp_all add: prbc_instance_def)
  from 1(4,5) obtain x x' where r: "ended s p = Returned x" "fst x = v" "ended s p' = Returned x'" "fst x' = v'"
    unfolding prbc_outputs_def by blast
  obtain sid root k where x: "x = (v, sid, root, k)" using r(2) by (cases x) auto
  obtain sid' root' k' where x': "x' = (v', sid', root', k')" using r(4) by (cases x') auto
  have "codes_apart (qR E) (fst x) (fst x')" using i(4) r(1,3) by blast
  then have "codes_apart (qR E) v v'" using r(2,4) by simp
  from prbc_agreement_aux [OF i(1-3) r(1) [unfolded x] r(3) [unfolded x'] this] show ?case by simp
qed

definition from_prbc ::
    "(nat \<Rightarrow> ('g prbc_state, 'g prbc_msg, ('g, 's) prbc_value) sys) \<Rightarrow> nat \<Rightarrow> (bytes, 'q) dacs_event list \<Rightarrow> bool" where
  "from_prbc rs p es \<longleftrightarrow> (\<forall>j v. (j, v) \<in> (\<Union>e \<in> set es. dacs_outputs e) \<longrightarrow> prbc_outputs (rs j) p v)"

lemma dumbo_acs_agreement_aux:
  assumes "\<forall>j < N. prbc_instance (rc j) (rs j) \<and> p \<notin> fst (snd (rc j)) \<and> p' \<notin> fst (snd (rc j))"
    and "from_prbc rs p es" and "from_prbc rs p' es'"
    and "(\<Union>e \<in> set es \<union> set es'. dacs_vectors e) \<subseteq> {Some vec}"
    and "ctl_of (run_loop (dumbocommonsubset N p) (dacs_init N) es) = Returned vs"
    and "ctl_of (run_loop (dumbocommonsubset N p') (dacs_init N) es') = Returned vs'"
  shows "vs = vs'"
proof (rule dacs_results_equal)
  show "dacs_result N (\<Union>e \<in> set es. dacs_outputs e) (\<Union>e \<in> set es. dacs_vectors e) vs"
    "dacs_result N (\<Union>e \<in> set es'. dacs_outputs e) (\<Union>e \<in> set es'. dacs_vectors e) vs'"
    using dumbo_run_result [OF dacs_init_inv order_refl order_refl] assms(5,6) by (metis prod.collapse)+
  show "(\<Union>e \<in> set es. dacs_vectors e) \<union> (\<Union>e \<in> set es'. dacs_vectors e) \<subseteq> {Some vec}"
    using assms(4) by simp
  show "v = v'" if "j < N" "(j, v) \<in> (\<Union>e \<in> set es. dacs_outputs e)" "(j, v') \<in> (\<Union>e \<in> set es'. dacs_outputs e)" for j v v'
    by (rule prbc_agreed.family_agrees [OF assms(1) assms(2,3) [unfolded from_prbc_def] that])
qed

section \<open>Provable broadcasts are not enough\<close>

text \<open>
  A Byzantine leader 3 of four nodes sends one value to the nodes 0 and 1 and another to node 2. With
  its own signature it has a proof for the first value.
\<close>

definition pb_split :: "(nat, bytes, nat \<times> bytes \<times> nat, nat, bytes, bytes) pb_env" where
  "pb_split = ex_pb\<lparr>pleader := 3\<rparr>"

definition pb_split_run :: "((bytes, bytes, nat \<times> bytes \<times> nat) pb_state, (bytes, nat \<times> bytes \<times> nat) pb_msg,
    nat \<times> bytes \<times> (nat \<times> bytes \<times> nat) sigmas) sys" where
  "pb_split_run = deliver_all (pb_cfg pb_split {3}) (pb_step pb_split)
     (forge_all (pb_initial pb_split {3} [7]) [(3, 0, PB_SEND [7]), (3, 1, PB_SEND [7]), (3, 2, PB_SEND [8])])
     [(3, 0, PB_SEND [7]), (3, 1, PB_SEND [7]), (3, 2, PB_SEND [8])]"

definition pb_split_proof :: "nat \<times> bytes \<times> (nat \<times> bytes \<times> nat) sigmas" where
  "pb_split_proof = (9, [5, 7], [(0, (0, [9, 5, 7], 0)), (1, (1, [9, 5, 7], 0)), (3, (3, [9, 5, 7], 0))])"

definition pb_split_vector :: "(nat \<times> bytes \<times> (nat \<times> bytes \<times> nat) sigmas) option list" where
  "pb_split_vector = [None, None, None, Some pb_split_proof]"

lemma pb_split_reachable: "pb_reachable pb_split {3} [7] pb_split_run"
  unfolding pb_reachable_def pb_split_run_def
  by (rule deliver_all_reaches, rule forge_all_reaches [OF reaches.start]) (simp add: pb_cfg_def)

text \<open>
  Speedy Dumbo's common subset can disagree. The proof in the vector is valid and its shares were
  really sent, both correct nodes get the same vector, and what each hands over is what its
  \<open>provablebroadcast\<close> has output; still node 0 and node 2 return different tuples, because
  \<open>speedydumbocommonsubset\<close> never compares a delivered value with the proof's digest.
\<close>

theorem speedy_acs_disagreement:
  "\<exists>s vec es es' vs vs'. pb_reachable pb_split {3} [7] s \<and> wf_cfg (pb_cfg pb_split {3}) \<and>
     {(0, 3, PB_ECHO (ksgn pb_split 0 (phash pb_split (9, [5, 7])))),
      (1, 3, PB_ECHO (ksgn pb_split 1 (phash pb_split (9, [5, 7]))))} \<subseteq> net s \<and>
     pb_validate pb_split (phash pb_split) 9 pb_split_proof \<and> vec ! 3 = Some pb_split_proof \<and>
     es = [PB_VALUE 3 (hd (pb_outputs (loc s 0))), SVACS_OUT (Some vec)] \<and>
     es' = [PB_VALUE 3 (hd (pb_outputs (loc s 2))), SVACS_OUT (Some vec)] \<and>
     ctl_of (run_loop (speedydumbocommonsubset 4) (dacs_init 4) es) = Returned vs \<and>
     ctl_of (run_loop (speedydumbocommonsubset 4) (dacs_init 4) es') = Returned vs' \<and> vs \<noteq> vs'"
proof (intro exI conjI)
  show "pb_reachable pb_split {3} [7] pb_split_run" by (rule pb_split_reachable)
  show "wf_cfg (pb_cfg pb_split {3})" by code_simp
  show "{(0, 3, PB_ECHO (ksgn pb_split 0 (phash pb_split (9, [5, 7])))),
      (1, 3, PB_ECHO (ksgn pb_split 1 (phash pb_split (9, [5, 7]))))} \<subseteq> net pb_split_run" by code_simp
  show "pb_validate pb_split (phash pb_split) 9 pb_split_proof" by code_simp
  show "pb_split_vector ! 3 = Some pb_split_proof" by code_simp
  show "ctl_of (run_loop (speedydumbocommonsubset 4) (dacs_init 4)
      [PB_VALUE 3 (hd (pb_outputs (loc pb_split_run 0))), SVACS_OUT (Some pb_split_vector)]) =
    Returned [None, None, None, Some [7]]" by code_simp
  show "ctl_of (run_loop (speedydumbocommonsubset 4) (dacs_init 4)
      [PB_VALUE 3 (hd (pb_outputs (loc pb_split_run 2))), SVACS_OUT (Some pb_split_vector)]) =
    Returned [None, None, None, Some [8]]" by code_simp
qed (rule refl | simp)+

section \<open>Example\<close>

definition ex_dacs_events :: "nat list \<Rightarrow> (bytes, nat) dacs_event list" where
  "ex_dacs_events js = VACS_OUT (Some [Some 7, None, Some 8, Some 9]) # map (\<lambda>j. PRBC_OUT j [5] j) js"

lemma deliver_all_untouched: "cN c \<le> p \<Longrightarrow> ended (deliver_all c h s es) p = ended s p"
proof (induction es arbitrary: s)
  case Nil
  then show ?case by (simp add: deliver_all_def)
next
  case (Cons e es)
  have "ended (deliver_one c h s e) p = ended s p"
    using Cons.prems by (auto simp: deliver_one_def split: prod.splits)
  with Cons show ?case by (simp add: deliver_all_def)
qed

lemma prbc_untouched: "4 \<le> p \<Longrightarrow> ended ex_prbc_final p = Running"
  unfolding ex_prbc_final_def
  by (subst deliver_all_untouched) (simp_all add: prbc_initial_def start_sys_def ex_prbc_def)

lemma ex_dacs_prbc: "prbc_instance (ex_prbc, {3}, [5]) ex_prbc_final"
proof -
  have "\<forall>p \<in> {0, 1, 2, 3}. (case ended ex_prbc_final p of Returned x \<Rightarrow> fst x = [5] | _ \<Rightarrow> True)" by code_simp
  then have "fst x = [5]" if "ended ex_prbc_final p = Returned x" for p x
    using that prbc_untouched [of p] by (cases "4 \<le> p") (auto simp: not_le less_Suc_eq numeral_eq_Suc)
  then have "codes_apart (qR ex_prbc) (fst x) (fst x')"
    if "ended ex_prbc_final p = Returned x" "ended ex_prbc_final p' = Returned x'" for p p' x x'
    using that ex_prbc_apart by metis
  then show ?thesis using ex_prbc_wf ex_prbc_reachable unfolding prbc_instance_def by auto
qed

end
