(* ===== verification/TVA.thy ===== *)
theory TVA
  imports AsyncNet
begin

text \<open>
  Two-value agreement: \<open>haltingtwovalueagreement\<close> of
  \<open>src/dumbobft/core/haltingtwovalueagreement.py\<close> and \<open>twovalueagreement\<close> of
  \<open>src/mulebft/core/twovalueagreement.py\<close>, which differ in their coin. As in binary agreement, the
  pseudo-message \<open>TRUN\<close> of a node to itself resumes its main loop, and \<open>t_phase\<close> says where it waits.
  The iteration order of a Python set of integers is the parameter \<open>torder\<close>.
\<close>

section \<open>Model\<close>

record tva_env =
  tN :: nat
  tf :: nat
  tcoin :: "nat \<Rightarrow> int"
  torder :: "int set \<Rightarrow> int list"

datatype tva_msg = TEST nat int | TAUX nat int | TCONF nat "int list" | TFINISH int | TRUN

datatype tva_phase = TEntering | TWaitInt | TWaitAux | TWaitConf | TWaitCoin "int set" | TStopped py_error

record tva_state =
  t_est :: "nat \<Rightarrow> int \<Rightarrow> nat set"
  t_aux :: "nat \<Rightarrow> int \<Rightarrow> nat set"
  t_conf :: "nat \<Rightarrow> int list \<Rightarrow> nat set"
  t_est_sent :: "nat \<Rightarrow> int \<Rightarrow> bool"
  t_conf_sent :: "nat \<Rightarrow> int list \<Rightarrow> bool"
  t_int :: "nat \<Rightarrow> int set"
  t_finish_sent :: bool
  t_finish_value :: "int set"
  t_finish_cnt :: nat
  t_receiving :: bool
  t_phase :: tva_phase
  t_round :: nat
  t_cur :: int
  t_decides :: "int list"

definition tva_init :: "int \<Rightarrow> tva_state" where
  "tva_init vi = \<lparr>t_est = (\<lambda>_ _. {}), t_aux = (\<lambda>_ _. {}), t_conf = (\<lambda>_ _. {}),
     t_est_sent = (\<lambda>_ _. False), t_conf_sent = (\<lambda>_ _. False), t_int = (\<lambda>_. {}),
     t_finish_sent = False, t_finish_value = {}, t_finish_cnt = 0, t_receiving = True,
     t_phase = TEntering, t_round = 0, t_cur = vi, t_decides = []\<rparr>"

definition upd2 :: "(nat \<Rightarrow> 'k \<Rightarrow> 'v) \<Rightarrow> nat \<Rightarrow> 'k \<Rightarrow> 'v \<Rightarrow> nat \<Rightarrow> 'k \<Rightarrow> 'v" where
  "upd2 t r k v = t(r := (t r)(k := v))"

text \<open>An exception ends the receive greenlet only.\<close>

abbreviation tva_recv_fails :: "tva_state \<Rightarrow> (tva_state, tva_msg, unit) reply" where
  "tva_recv_fails s \<equiv> stay (s\<lparr>t_receiving := False\<rparr>)"

definition tva_est :: "tva_env \<Rightarrow> tva_state \<Rightarrow> nat \<Rightarrow> nat \<Rightarrow> int \<Rightarrow> (tva_state, tva_msg, unit) reply" where
  "tva_est E s sender r v =
     (if sender \<in> t_est s r v then stay s
      else let s1 = s\<lparr>t_est := upd2 (t_est s) r v (insert sender (t_est s r v))\<rparr>;
               relay = (tf E + 1 \<le> card (t_est s1 r v) \<and> \<not> t_est_sent s1 r v);
               s2 = (if relay then s1\<lparr>t_est_sent := upd2 (t_est_sent s1) r v True\<rparr> else s1);
               s3 = (if 2 * tf E + 1 \<le> card (t_est s2 r v)
                     then s2\<lparr>t_int := (t_int s2)(r := insert v (t_int s2 r))\<rparr> else s2)
           in (s3, if relay then [Send (-2) (TEST r v)] else [], Running))"

definition tva_aux :: "tva_state \<Rightarrow> nat \<Rightarrow> nat \<Rightarrow> int \<Rightarrow> (tva_state, tva_msg, unit) reply" where
  "tva_aux s sender r v = stay (s\<lparr>t_aux := upd2 (t_aux s) r v (insert sender (t_aux s r v))\<rparr>)"

definition tva_conf :: "tva_state \<Rightarrow> nat \<Rightarrow> nat \<Rightarrow> int list \<Rightarrow> (tva_state, tva_msg, unit) reply" where
  "tva_conf s sender r v =
     (if length v = 1 \<or> length v = 2
      then stay (s\<lparr>t_conf := upd2 (t_conf s) r v (insert sender (t_conf s r v))\<rparr>)
      else tva_recv_fails s)"

text \<open>\<open>finish_signal\<close> ends the whole protocol: both greenlets are killed.\<close>

definition tva_finish :: "tva_env \<Rightarrow> tva_state \<Rightarrow> int \<Rightarrow> (tva_state, tva_msg, unit) reply" where
  "tva_finish E s v =
     (let s1 = s\<lparr>t_finish_cnt := t_finish_cnt s + 1, t_finish_value := insert v (t_finish_value s)\<rparr> in
      if card (t_finish_value s1) \<noteq> 1 then tva_recv_fails s1
      else let amplify = (\<not> t_finish_sent s1 \<and> tf E + 1 \<le> t_finish_cnt s1);
               s2 = (if amplify then s1\<lparr>t_decides := t_decides s1 @ [v], t_finish_cnt := t_finish_cnt s1 + 1,
                                        t_finish_sent := True\<rparr> else s1)
           in (s2, if amplify then [Send (-2) (TFINISH v)] else [],
               if 2 * tf E + 1 \<le> t_finish_cnt s2 then Returned () else Running))"

text \<open>The main loop, one definition per stretch between two waits.\<close>

definition tva_enter :: "tva_env \<Rightarrow> nat \<Rightarrow> tva_state \<Rightarrow> (tva_state, tva_msg, unit) reply" where
  "tva_enter E pid s =
     (let r = t_round s; v = t_cur s; s1 = s\<lparr>t_phase := TWaitInt\<rparr> in
      if t_est_sent s r v then stay s1
      else (s1\<lparr>t_est_sent := upd2 (t_est_sent s) r v True, t_est := upd2 (t_est s) r v (insert pid (t_est s r v))\<rparr>,
            [Send (-2) (TEST r v)], Running))"

definition tva_int :: "tva_env \<Rightarrow> nat \<Rightarrow> tva_state \<Rightarrow> (tva_state, tva_msg, unit) reply" where
  "tva_int E pid s =
     (let r = t_round s in
      case torder E (t_int s r) of
        [] \<Rightarrow> stay s
      | w # _ \<Rightarrow> (s\<lparr>t_phase := TWaitAux, t_aux := upd2 (t_aux s) r w (insert pid (t_aux s r w))\<rparr>,
                 [Send (-2) (TAUX r w)], Running))"

definition tva_aux_wait :: "tva_env \<Rightarrow> nat \<Rightarrow> tva_state \<Rightarrow> (tva_state, tva_msg, unit) reply" where
  "tva_aux_wait E pid s =
     (let r = t_round s; V = torder E (t_int s r) in
      if length V \<noteq> 1 \<and> length V \<noteq> 2 then stay (s\<lparr>t_phase := TStopped AssertionError\<rparr>)
      else if tN E - tf E \<le> sum_list (map (\<lambda>v. card (t_aux s r v)) V)
      then (if \<not> t_conf_sent s r V
            then (s\<lparr>t_conf_sent := upd2 (t_conf_sent s) r V True,
                   t_conf := upd2 (t_conf s) r V (insert pid (t_conf s r V)), t_phase := TWaitConf\<rparr>,
                  [Send (-2) (TCONF r V)], Running)
            else stay (s\<lparr>t_phase := TWaitConf\<rparr>))
      else stay s)"

definition tva_conf_wait :: "tva_env \<Rightarrow> tva_state \<Rightarrow> (tva_state, tva_msg, unit) reply" where
  "tva_conf_wait E s =
     (let r = t_round s in
      if tN E - tf E \<le> card (t_conf s r (torder E (t_int s r)))
      then stay (s\<lparr>t_phase := TWaitCoin (t_int s r)\<rparr>) else stay s)"

definition tva_coin :: "tva_env \<Rightarrow> tva_state \<Rightarrow> int set \<Rightarrow> (tva_state, tva_msg, unit) reply" where
  "tva_coin E s values =
     (let c = tcoin E (t_round s); next_round = (\<lambda>s e. s\<lparr>t_cur := e, t_round := t_round s + 1, t_phase := TEntering\<rparr>) in
      case torder E values of
        [v] \<Rightarrow>
          if v mod 2 = c \<and> \<not> t_finish_sent s
          then (let s1 = s\<lparr>t_decides := t_decides s @ [v], t_finish_cnt := t_finish_cnt s + 1, t_finish_sent := True\<rparr>
                in (next_round s1 v, [Send (-2) (TFINISH v)],
                    if 2 * tf E + 1 \<le> t_finish_cnt s1 then Returned () else Running))
          else stay (next_round s v)
      | [v, w] \<Rightarrow>
          if \<bar>v - w\<bar> \<noteq> 1 then stay (s\<lparr>t_phase := TStopped AssertionError\<rparr>)
          else stay (next_round s (if v mod 2 = c then v else w))
      | _ \<Rightarrow> stay (s\<lparr>t_phase := TStopped AssertionError\<rparr>))"

definition tva_main :: "tva_env \<Rightarrow> nat \<Rightarrow> tva_state \<Rightarrow> (tva_state, tva_msg, unit) reply" where
  "tva_main E pid s =
     (case t_phase s of
        TEntering \<Rightarrow> tva_enter E pid s
      | TWaitInt \<Rightarrow> tva_int E pid s
      | TWaitAux \<Rightarrow> tva_aux_wait E pid s
      | TWaitConf \<Rightarrow> tva_conf_wait E s
      | TWaitCoin vals \<Rightarrow> tva_coin E s vals
      | TStopped e \<Rightarrow> stay s)"

fun tva_recv :: "tva_env \<Rightarrow> tva_state \<Rightarrow> nat \<Rightarrow> tva_msg \<Rightarrow> (tva_state, tva_msg, unit) reply" where
  "tva_recv E s sender (TEST r v) = tva_est E s sender r v"
| "tva_recv E s sender (TAUX r v) = tva_aux s sender r v"
| "tva_recv E s sender (TCONF r v) = tva_conf s sender r v"
| "tva_recv E s sender (TFINISH v) = tva_finish E s v"
| "tva_recv E s sender TRUN = stay s"

definition tva_step :: "tva_env \<Rightarrow> nat \<Rightarrow> tva_state \<Rightarrow> nat \<times> tva_msg \<Rightarrow> (tva_state, tva_msg, unit) reply" where
  "tva_step E pid s e =
     (case e of (sender, m) \<Rightarrow>
        if m = TRUN then (if sender = pid then tva_main E pid s else stay s)
        else if \<not> t_receiving s then stay s
        else if \<not> sender < tN E then tva_recv_fails s
        else tva_recv E s sender m)"

text \<open>
  The coins. \<open>twovalueagreement\<close> takes ten bits of a hash of the session before it asks the common coin.
  \<open>haltingtwovalueagreement\<close> assigns \<open>s = 1\<close> in round 0 and never assigns \<open>s\<close> again.
\<close>

fun halting_coin :: "nat \<Rightarrow> int" where
  "halting_coin 0 = (if (1::int) \<in> {0, 1} then 1 else 1 mod 2)"
| "halting_coin (Suc r) = (let s = halting_coin r in if s \<in> {0, 1} then s else s mod 2)"

definition cheap_coin :: "nat \<Rightarrow> (nat \<Rightarrow> int) \<Rightarrow> nat \<Rightarrow> int" where
  "cheap_coin cheap_coins coin r =
     (let s = (if r < 10 then int (cheap_coins div 2 ^ r mod 2) else coin r) in if s \<in> {0, 1} then s else s mod 2)"

definition haltingtwovalueagreement :: "nat \<Rightarrow> nat \<Rightarrow> (int set \<Rightarrow> int list) \<Rightarrow> tva_env" where
  "haltingtwovalueagreement N f ord = \<lparr>tN = N, tf = f, tcoin = halting_coin, torder = ord\<rparr>"

definition twovalueagreement :: "nat \<Rightarrow> nat \<Rightarrow> nat \<Rightarrow> (nat \<Rightarrow> int) \<Rightarrow> (int set \<Rightarrow> int list) \<Rightarrow> tva_env" where
  "twovalueagreement N f cheap_coins coin ord =
     \<lparr>tN = N, tf = f, tcoin = cheap_coin cheap_coins coin, torder = ord\<rparr>"

section \<open>Decisions\<close>

text \<open>The iteration order of a set lists the set.\<close>

definition set_order :: "(int set \<Rightarrow> int list) \<Rightarrow> bool" where
  "set_order ord \<longleftrightarrow> (\<forall>V. finite V \<longrightarrow> distinct (ord V) \<and> set (ord V) = V)"

lemma set_order_single: "set_order ord \<Longrightarrow> ord {v} = [v]"
proof -
  assume "set_order ord"
  then have "distinct (ord {v})" "set (ord {v}) = {v}" by (simp_all add: set_order_def)
  then show "ord {v} = [v]"
    by (metis distinct_singleton set_empty2 list.set_intros(1) neq_Nil_conv distinct.simps(2) set_ConsD
        singletonD insert_not_empty list.set_intros(2))
qed

text \<open>The nodes a message came from, counting the node itself.\<close>

definition heard :: "tva_env \<Rightarrow> nat \<Rightarrow> (nat \<times> tva_msg) list \<Rightarrow> tva_msg \<Rightarrow> nat set" where
  "heard E p es m = insert p {q \<in> {..<tN E}. (q, m) \<in> set es}"

text \<open>
  Why a value may be decided: the main loop got to the coin of a round with this value alone, on
  \<open>2f + 1\<close> \<open>EST\<close>s, \<open>N - f\<close> \<open>AUX\<close>s and \<open>N - f\<close> \<open>CONF\<close>s of that round for it, and the parity of the
  value is that coin; or \<open>f + 1\<close> messages \<open>FINISH\<close> carried the value.
\<close>

definition coin_certified :: "tva_env \<Rightarrow> nat \<Rightarrow> (nat \<times> tva_msg) list \<Rightarrow> nat \<Rightarrow> int \<Rightarrow> bool" where
  "coin_certified E p es r v \<longleftrightarrow>
     v mod 2 = tcoin E r \<and> 2 * tf E + 1 \<le> card (heard E p es (TEST r v)) \<and>
     tN E - tf E \<le> card (heard E p es (TAUX r v)) \<and> tN E - tf E \<le> card (heard E p es (TCONF r [v]))"

definition finish_certified :: "tva_env \<Rightarrow> (nat \<times> tva_msg) list \<Rightarrow> int \<Rightarrow> bool" where
  "finish_certified E es v \<longleftrightarrow> tf E + 1 \<le> count_list (map snd es) (TFINISH v)"

lemma heard_finite [simp]: "finite (heard E p es m)"
  by (simp add: heard_def)

lemma heard_self [simp]: "p \<in> heard E p es m"
  by (simp add: heard_def)

lemma heard_mono: "heard E p es m \<subseteq> heard E p (es @ es') m"
  by (auto simp: heard_def)

lemma heard_card_mono: "n \<le> card (heard E p es m) \<Longrightarrow> n \<le> card (heard E p (es @ es') m)"
  by (rule le_trans [OF _ card_mono [OF heard_finite heard_mono]])

lemma heard_last: "q < tN E \<Longrightarrow> q \<in> heard E p (es @ [(q, m)]) m"
  by (simp add: heard_def)

lemma certified_mono:
  "coin_certified E p es r v \<Longrightarrow> coin_certified E p (es @ es') r v"
  "finish_certified E es v \<Longrightarrow> finish_certified E (es @ es') v"
  by (simp_all add: coin_certified_def finish_certified_def heard_card_mono)

text \<open>The bookkeeping of the receive greenlet: every set holds senders of messages that were received.\<close>

definition tva_heard :: "tva_env \<Rightarrow> nat \<Rightarrow> (nat \<times> tva_msg) list \<Rightarrow> tva_state \<Rightarrow> bool" where
  "tva_heard E p es s \<longleftrightarrow>
     (\<forall>r v. t_est s r v \<subseteq> heard E p es (TEST r v)) \<and> (\<forall>r v. t_aux s r v \<subseteq> heard E p es (TAUX r v)) \<and>
     (\<forall>r V. t_conf s r V \<subseteq> heard E p es (TCONF r V)) \<and> (\<forall>r. finite (t_int s r)) \<and>
     (\<forall>r. \<forall>v \<in> t_int s r. 2 * tf E + 1 \<le> card (heard E p es (TEST r v)))"

text \<open>What the main loop has checked when it waits in a phase; \<open>I\<close> is \<open>int_values\<close> of its round \<open>r\<close>.\<close>

fun tva_waits :: "tva_env \<Rightarrow> nat \<Rightarrow> (nat \<times> tva_msg) list \<Rightarrow> nat \<Rightarrow> int set \<Rightarrow> tva_phase \<Rightarrow> bool" where
  "tva_waits E p es r I TWaitConf \<longleftrightarrow>
     I \<noteq> {} \<and> (\<forall>v. I = {v} \<longrightarrow> tN E - tf E \<le> card (heard E p es (TAUX r v)))"
| "tva_waits E p es r I (TWaitCoin V) \<longleftrightarrow>
     finite V \<and> (\<forall>v. V = {v} \<longrightarrow> 2 * tf E + 1 \<le> card (heard E p es (TEST r v)) \<and>
       tN E - tf E \<le> card (heard E p es (TAUX r v)) \<and> tN E - tf E \<le> card (heard E p es (TCONF r [v])))"
| "tva_waits E p es r I _ \<longleftrightarrow> True"

text \<open>While nothing is decided, the \<open>FINISH\<close> messages counted all carry one value.\<close>

definition tva_finishing :: "(nat \<times> tva_msg) list \<Rightarrow> tva_state \<Rightarrow> bool" where
  "tva_finishing es s \<longleftrightarrow>
     (\<not> t_finish_sent s \<longrightarrow> t_receiving s \<longrightarrow> t_finish_cnt s = 0 \<and> t_finish_value s = {} \<or>
        (\<exists>v. t_finish_value s = {v} \<and> t_finish_cnt s \<le> count_list (map snd es) (TFINISH v)))"

definition tva_inv :: "tva_env \<Rightarrow> nat \<Rightarrow> (nat \<times> tva_msg) list \<Rightarrow> tva_state \<Rightarrow> bool" where
  "tva_inv E p es s \<longleftrightarrow>
     length (t_decides s) \<le> 1 \<and> t_finish_sent s = (t_decides s \<noteq> []) \<and>
     (\<forall>v \<in> set (t_decides s). finish_certified E es v \<or> (\<exists>r. coin_certified E p es r v)) \<and>
     tva_heard E p es s \<and> tva_waits E p es (t_round s) (t_int s (t_round s)) (t_phase s) \<and> tva_finishing es s"

lemma tva_waits_mono:
  "tva_waits E p es r I x \<Longrightarrow> I \<subseteq> I' \<Longrightarrow> tva_waits E p (es @ es') r I' x"
proof (cases x)
  case TWaitConf
  assume a: "tva_waits E p es r I x" "I \<subseteq> I'"
  have "I = {v}" if "I' = {v}" for v using a that TWaitConf by auto
  then show ?thesis using a TWaitConf heard_card_mono by auto
next
  case (TWaitCoin V)
  assume "tva_waits E p es r I x"
  then show ?thesis using TWaitCoin heard_card_mono by auto
qed simp_all

lemma tva_inv_mono: "tva_inv E p es s \<Longrightarrow> tva_inv E p (es @ es') s"
proof -
  assume i: "tva_inv E p es s"
  then have h: "tva_heard E p es s" by (simp add: tva_inv_def)
  have "tva_heard E p (es @ es') s"
    unfolding tva_heard_def
  proof (intro conjI allI ballI)
    fix r v V
    have "t_est s r v \<subseteq> heard E p es (TEST r v)" "t_aux s r v \<subseteq> heard E p es (TAUX r v)"
      "t_conf s r V \<subseteq> heard E p es (TCONF r V)"
      using h by (auto simp: tva_heard_def)
    then show "t_est s r v \<subseteq> heard E p (es @ es') (TEST r v)" "t_aux s r v \<subseteq> heard E p (es @ es') (TAUX r v)"
      "t_conf s r V \<subseteq> heard E p (es @ es') (TCONF r V)"
      using heard_mono subset_trans by metis+
    show "finite (t_int s r)" using h by (simp add: tva_heard_def)
    show "2 * tf E + 1 \<le> card (heard E p (es @ es') (TEST r v))" if "v \<in> t_int s r"
      by (rule heard_card_mono) (use h that in \<open>simp add: tva_heard_def\<close>)
  qed
  moreover have "tva_finishing (es @ es') s"
    using i unfolding tva_inv_def tva_finishing_def by force
  ultimately show ?thesis
    using i certified_mono tva_waits_mono [OF _ order_refl] unfolding tva_inv_def by meson
qed

text \<open>Steps that decide nothing.\<close>

lemma tva_inv_quiet:
  assumes "tva_inv E p es s" and "tva_heard E p es s'"
    and "tva_waits E p es (t_round s') (t_int s' (t_round s')) (t_phase s')"
    and "t_decides s' = t_decides s" and "t_finish_sent s' = t_finish_sent s" and "tva_finishing es s'"
  shows "tva_inv E p es s'"
  using assms by (simp add: tva_inv_def)

lemma tva_finishing_same:
  "tva_finishing es s \<Longrightarrow> t_finish_sent s' = t_finish_sent s \<Longrightarrow> t_receiving s' \<longrightarrow> t_receiving s \<Longrightarrow>
    t_finish_cnt s' = t_finish_cnt s \<Longrightarrow> t_finish_value s' = t_finish_value s \<Longrightarrow> tva_finishing es s'"
  by (auto simp: tva_finishing_def)

lemma upd2_apply: "upd2 t r k x r' k' = (if r' = r \<and> k' = k then x else t r' k')"
  by (simp add: upd2_def)

lemma tva_heard_own:
  "tva_heard E p es s \<Longrightarrow> tva_heard E p es (s\<lparr>t_est := upd2 (t_est s) r v (insert p (t_est s r v))\<rparr>)"
  "tva_heard E p es s \<Longrightarrow> tva_heard E p es (s\<lparr>t_aux := upd2 (t_aux s) r v (insert p (t_aux s r v))\<rparr>)"
  "tva_heard E p es s \<Longrightarrow> tva_heard E p es (s\<lparr>t_conf := upd2 (t_conf s) r V (insert p (t_conf s r V))\<rparr>)"
  by (auto simp: tva_heard_def upd2_apply)

lemma tva_heard_same:
  "tva_heard E p es s \<Longrightarrow> t_est s' = t_est s \<Longrightarrow> t_aux s' = t_aux s \<Longrightarrow> t_conf s' = t_conf s \<Longrightarrow>
    t_int s' = t_int s \<Longrightarrow> tva_heard E p es s'"
  by (simp add: tva_heard_def)

lemma tva_inv_move:
  assumes "tva_inv E p es s" and "tva_waits E p es r (t_int s r) x"
  shows "tva_inv E p es (s\<lparr>t_cur := e, t_round := r, t_phase := x\<rparr>)"
  by (rule tva_inv_quiet [OF assms(1)])
    (use assms in \<open>auto simp: tva_inv_def intro: tva_heard_same tva_finishing_same\<close>)

lemma tva_inv_phase:
  assumes "tva_inv E p es s" and "tva_waits E p es (t_round s) (t_int s (t_round s)) x"
  shows "tva_inv E p es (s\<lparr>t_phase := x\<rparr>)"
  by (rule tva_inv_quiet [OF assms(1)])
    (use assms in \<open>auto simp: tva_inv_def intro: tva_heard_same tva_finishing_same\<close>)

lemma tva_aux_wait_inv:
  assumes i: "tva_inv E p es s" and o: "set_order (torder E)" and h: "tva_aux_wait E p s = (s', outs, c)"
    and ph: "t_phase s = TWaitAux"
  shows "tva_inv E p es s'"
proof -
  define r I where "r = t_round s" and "I = t_int s r"
  have hd: "tva_heard E p es s" and fin: "finite I" and fs: "tva_finishing es s"
    using i by (auto simp: tva_inv_def tva_heard_def I_def)
  have waits: "tva_waits E p es r I TWaitConf"
    if "length (torder E I) = 1 \<or> length (torder E I) = 2"
      "tN E - tf E \<le> sum_list (map (\<lambda>v. card (t_aux s r v)) (torder E I))"
  proof -
    have "set (torder E I) = I" using o fin by (simp add: set_order_def)
    then have "I \<noteq> {}" using that(1) by auto
    moreover have "tN E - tf E \<le> card (heard E p es (TAUX r v))" if v: "I = {v}" for v
    proof -
      have "tN E - tf E \<le> card (t_aux s r v)" using that v set_order_single [OF o] \<open>tN E - tf E \<le> sum_list _\<close> by simp
      also have "\<dots> \<le> card (heard E p es (TAUX r v))"
        using hd by (intro card_mono) (auto simp: tva_heard_def)
      finally show ?thesis .
    qed
    ultimately show ?thesis by simp
  qed
  show ?thesis
  proof (cases "t_phase s' = TWaitConf")
    case True
    then have g: "length (torder E I) = 1 \<or> length (torder E I) = 2"
      "tN E - tf E \<le> sum_list (map (\<lambda>v. card (t_aux s r v)) (torder E I))"
      using h ph by (auto simp: tva_aux_wait_def Let_def r_def I_def split: if_splits)
    have s': "t_int s' = t_int s" "t_round s' = t_round s" "t_decides s' = t_decides s" "t_finish_sent s' = t_finish_sent s"
      "tva_heard E p es s'" "tva_finishing es s'"
      using h g hd fs tva_heard_own(3) [OF hd, of r "torder E I"]
      by (auto simp: tva_aux_wait_def Let_def r_def I_def intro: tva_heard_same tva_finishing_same split: if_splits)
    show ?thesis
      by (rule tva_inv_quiet [OF i s'(5) _ s'(3,4,6)])
        (use waits [OF g] True s' in \<open>simp add: r_def I_def\<close>)
  next
    case False
    then have "s' = s \<or> s' = s\<lparr>t_phase := TStopped AssertionError\<rparr>"
      using h by (auto simp: tva_aux_wait_def Let_def split: if_splits)
    then show ?thesis using i tva_inv_phase [OF i, of "TStopped AssertionError"] by auto
  qed
qed

lemma tva_conf_wait_inv:
  assumes i: "tva_inv E p es s" and o: "set_order (torder E)" and h: "tva_conf_wait E s = (s', outs, c)"
    and ph: "t_phase s = TWaitConf"
  shows "tva_inv E p es s'"
proof -
  define r I where "r = t_round s" and "I = t_int s r"
  have hd: "tva_heard E p es s" and fin: "finite I" and w: "tva_waits E p es r I TWaitConf"
    using i ph by (auto simp: tva_inv_def tva_heard_def I_def r_def)
  show ?thesis
  proof (cases "tN E - tf E \<le> card (t_conf s r (torder E I))")
    case True
    have "tva_waits E p es r I (TWaitCoin I)"
    proof -
      have "2 * tf E + 1 \<le> card (heard E p es (TEST r v)) \<and> tN E - tf E \<le> card (heard E p es (TAUX r v)) \<and>
          tN E - tf E \<le> card (heard E p es (TCONF r [v]))" if v: "I = {v}" for v
      proof (intro conjI)
        show "2 * tf E + 1 \<le> card (heard E p es (TEST r v))" using hd v by (simp add: tva_heard_def I_def)
        show "tN E - tf E \<le> card (heard E p es (TAUX r v))" using w v by simp
        have "card (t_conf s r [v]) \<le> card (heard E p es (TCONF r [v]))"
          using hd by (intro card_mono) (auto simp: tva_heard_def)
        then show "tN E - tf E \<le> card (heard E p es (TCONF r [v]))"
          using True set_order_single [OF o] v by simp
      qed
      then show ?thesis using fin by simp
    qed
    then have "tva_inv E p es (s\<lparr>t_phase := TWaitCoin I\<rparr>)"
      by (intro tva_inv_phase [OF i]) (simp add: I_def r_def)
    moreover have "s' = s\<lparr>t_phase := TWaitCoin I\<rparr>"
      using h True by (simp add: tva_conf_wait_def Let_def I_def r_def)
    ultimately show ?thesis by simp
  next
    case False
    then show ?thesis using h i by (simp add: tva_conf_wait_def Let_def I_def r_def)
  qed
qed

lemma tva_coin_inv:
  assumes i: "tva_inv E p es s" and o: "set_order (torder E)" and h: "tva_coin E s V = (s', outs, c)"
    and ph: "t_phase s = TWaitCoin V"
  shows "tva_inv E p es s'"
proof -
  have w: "tva_waits E p es (t_round s) (t_int s (t_round s)) (TWaitCoin V)" and hd: "tva_heard E p es s"
    using i ph by (simp_all add: tva_inv_def)
  then have fin: "finite V" by simp
  consider (dec) v where "torder E V = [v]" "v mod 2 = tcoin E (t_round s)" "\<not> t_finish_sent s"
    | (other) "\<forall>v. torder E V = [v] \<longrightarrow> \<not> (v mod 2 = tcoin E (t_round s) \<and> \<not> t_finish_sent s)" by blast
  then show ?thesis
  proof cases
    case dec
    have s': "t_decides s' = t_decides s @ [v]" "t_finish_sent s'" "t_phase s' = TEntering"
      "t_est s' = t_est s" "t_aux s' = t_aux s" "t_conf s' = t_conf s" "t_int s' = t_int s"
      using h dec by (auto simp: tva_coin_def Let_def)
    have hd': "tva_heard E p es s'" by (rule tva_heard_same [OF hd s'(4-7)])
    have "set (torder E V) = V" using o fin by (simp add: set_order_def)
    then have "V = {v}" using dec(1) by simp
    then have "coin_certified E p es (t_round s) v"
      using w dec(2) by (simp add: coin_certified_def)
    moreover have "t_decides s = []" using i dec(3) by (simp add: tva_inv_def)
    ultimately show ?thesis using s'(1-3) hd' unfolding tva_inv_def by (auto simp: tva_finishing_def)
  next
    case other
    then have s': "(\<exists>e. s' = s\<lparr>t_cur := e, t_round := t_round s + 1, t_phase := TEntering\<rparr>) \<or>
        s' = s\<lparr>t_phase := TStopped AssertionError\<rparr>"
      using h by (auto simp: tva_coin_def Let_def split: list.splits if_splits)
    then show ?thesis
    proof
      assume "\<exists>e. s' = s\<lparr>t_cur := e, t_round := t_round s + 1, t_phase := TEntering\<rparr>"
      then show ?thesis using tva_inv_move [OF i] by force
    next
      assume "s' = s\<lparr>t_phase := TStopped AssertionError\<rparr>"
      then show ?thesis using tva_inv_phase [OF i, of "TStopped AssertionError"] by simp
    qed
  qed
qed

lemma tva_main_inv:
  assumes i: "tva_inv E p es s" and o: "set_order (torder E)" and h: "tva_main E p s = (s', outs, c)"
  shows "tva_inv E p es s'"
proof -
  have hd: "tva_heard E p es s" and fs: "tva_finishing es s" using i by (simp_all add: tva_inv_def)
  show ?thesis
  proof (cases "t_phase s")
    case TEntering
    then have e: "tva_enter E p s = (s', outs, c)" using h by (simp add: tva_main_def)
    show ?thesis
    proof (cases "t_est_sent s (t_round s) (t_cur s)")
      case True
      then show ?thesis using e tva_inv_phase [OF i, of TWaitInt] by (simp add: tva_enter_def Let_def)
    next
      case False
      then show ?thesis
        using e tva_heard_own(1) [OF hd, of "t_round s" "t_cur s"]
        by (intro tva_inv_quiet [OF i])
          (auto simp: tva_enter_def Let_def intro: tva_heard_same tva_finishing_same [OF fs])
    qed
  next
    case TWaitInt
    then have "tva_int E p s = (s', outs, c)" using h by (simp add: tva_main_def)
    then show ?thesis
    proof (cases "torder E (t_int s (t_round s))")
      case Nil
      then show ?thesis using \<open>tva_int E p s = _\<close> i by (simp add: tva_int_def Let_def)
    next
      case (Cons w ws)
      then show ?thesis
        using \<open>tva_int E p s = _\<close> tva_heard_own(2) [OF hd, of "t_round s" w]
        by (intro tva_inv_quiet [OF i])
          (auto simp: tva_int_def Let_def intro: tva_heard_same tva_finishing_same [OF fs])
    qed
  next
    case TWaitAux
    then show ?thesis using tva_aux_wait_inv [OF i o] h by (simp add: tva_main_def)
  next
    case TWaitConf
    then show ?thesis using tva_conf_wait_inv [OF i o] h by (simp add: tva_main_def)
  next
    case (TWaitCoin V)
    then show ?thesis using tva_coin_inv [OF i o] h by (simp add: tva_main_def)
  next
    case (TStopped e)
    then show ?thesis using h i by (simp add: tva_main_def)
  qed
qed

lemma tva_est_fields:
  fixes E :: tva_env
  assumes "q \<notin> t_est s r v"
  defines "X \<equiv> insert q (t_est s r v)" and "s' \<equiv> fst (tva_est E s q r v)"
  shows "t_est s' = upd2 (t_est s) r v X" and "t_aux s' = t_aux s" and "t_conf s' = t_conf s"
    and "t_phase s' = t_phase s" and "t_round s' = t_round s" and "t_decides s' = t_decides s"
    and "t_finish_sent s' = t_finish_sent s" and "t_receiving s' = t_receiving s"
    and "t_finish_cnt s' = t_finish_cnt s" and "t_finish_value s' = t_finish_value s"
    and "t_int s' = (if 2 * tf E + 1 \<le> card X then (t_int s)(r := insert v (t_int s r)) else t_int s)"
  using assms(1) by (simp_all add: tva_est_def Let_def X_def s'_def upd2_apply)

lemma tva_est_inv:
  assumes i: "tva_inv E p es s" and q: "q \<in> heard E p es (TEST r v)" and h: "tva_est E s q r v = (s', outs, c)"
  shows "tva_inv E p es s'"
proof (cases "q \<in> t_est s r v")
  case True
  then show ?thesis using h i by (simp add: tva_est_def)
next
  case False
  have hd: "tva_heard E p es s" and fs: "tva_finishing es s" using i by (simp_all add: tva_inv_def)
  define X where "X = insert q (t_est s r v)"
  have sub: "X \<subseteq> heard E p es (TEST r v)" using hd q by (auto simp: X_def tva_heard_def)
  have n: "2 * tf E + 1 \<le> card X \<Longrightarrow> 2 * tf E + 1 \<le> card (heard E p es (TEST r v))"
    using card_mono [OF heard_finite sub] by simp
  have "s' = fst (tva_est E s q r v)" using h by simp
  note s' = tva_est_fields [OF False, of E, folded this X_def]
  have "tva_heard E p es s'"
    using hd sub n by (auto simp: tva_heard_def s' upd2_apply)
  moreover have "tva_waits E p es (t_round s') (t_int s' (t_round s')) (t_phase s')"
  proof -
    have "tva_waits E p es (t_round s) (t_int s (t_round s)) (t_phase s)" using i by (simp add: tva_inv_def)
    moreover have "t_int s (t_round s) \<subseteq> t_int s' (t_round s)" by (auto simp: s')
    ultimately show ?thesis using tva_waits_mono [of _ _ _ _ _ _ _ "[]"] s'(4,5) by (metis append_Nil2)
  qed
  ultimately show ?thesis
    by (rule tva_inv_quiet [OF i]) (use s' tva_finishing_same [OF fs, of s'] in simp_all)
qed

lemma tva_finish_inv:
  assumes i: "tva_inv E p es s" and rc: "t_receiving s" and h: "tva_finish E s v = (s', outs, c)"
  shows "tva_inv E p (es @ [(q, TFINISH v)]) s'"
proof -
  let ?es = "es @ [(q, TFINISH v)]"
  have j: "tva_inv E p ?es s" by (rule tva_inv_mono [OF i])
  have hd: "tva_heard E p ?es s'"
    by (rule tva_heard_same [of _ _ _ s]) (use j h in \<open>auto simp: tva_inv_def tva_finish_def Let_def split: if_splits\<close>)
  have same: "t_phase s' = t_phase s" "t_round s' = t_round s" "t_int s' = t_int s"
    using h by (auto simp: tva_finish_def Let_def split: if_splits)
  have n: "t_finish_cnt s + 1 \<le> count_list (map snd ?es) (TFINISH v)"
    if "\<not> t_finish_sent s" "card (insert v (t_finish_value s)) = 1"
  proof -
    have "t_finish_cnt s = 0 \<or> (\<exists>u. t_finish_value s = {u} \<and> t_finish_cnt s \<le> count_list (map snd es) (TFINISH u))"
      using i rc that(1) by (auto simp: tva_inv_def tva_finishing_def)
    then show ?thesis
    proof
      assume "\<exists>u. t_finish_value s = {u} \<and> t_finish_cnt s \<le> count_list (map snd es) (TFINISH u)"
      then obtain u where u: "t_finish_value s = {u}" "t_finish_cnt s \<le> count_list (map snd es) (TFINISH u)" by blast
      have "v = u" using that(2) u(1) by (cases "v = u") auto
      then show ?thesis using u(2) by simp
    qed simp
  qed
  consider (amp) "card (insert v (t_finish_value s)) = 1" "\<not> t_finish_sent s" "tf E + 1 \<le> t_finish_cnt s + 1"
      "t_decides s' = t_decides s @ [v]" "t_finish_sent s'"
    | (one) "card (insert v (t_finish_value s)) = 1" "t_decides s' = t_decides s" "t_finish_sent s' = t_finish_sent s"
      "t_finish_cnt s' = t_finish_cnt s + 1" "t_finish_value s' = insert v (t_finish_value s)"
    | (dead) "t_decides s' = t_decides s" "t_finish_sent s' = t_finish_sent s" "\<not> t_receiving s'"
    using h by (fastforce simp: tva_finish_def Let_def split: if_splits)
  then show ?thesis
  proof cases
    case amp
    have "finish_certified E ?es v" unfolding finish_certified_def by (rule order_trans [OF amp(3) n [OF amp(2,1)]])
    moreover have "t_decides s = []" using i amp(2) by (simp add: tva_inv_def)
    ultimately show ?thesis using j hd same amp(4,5) unfolding tva_inv_def by (simp add: tva_finishing_def)
  next
    case one
    have v: "insert v (t_finish_value s) = {v}" using one(1) by (metis card_1_singletonE insertI1 singletonD)
    have "tva_finishing ?es s'"
      unfolding tva_finishing_def using n one v by auto
    then show ?thesis using j hd same by (intro tva_inv_quiet [OF j] one(2,3)) (simp_all add: tva_inv_def)
  next
    case dead
    then have "tva_finishing ?es s'" by (simp add: tva_finishing_def)
    then show ?thesis using j hd same by (intro tva_inv_quiet [OF j] dead(1,2)) (simp_all add: tva_inv_def)
  qed
qed

lemma tva_step_inv:
  assumes i: "tva_inv E p es s" and o: "set_order (torder E)" and h: "tva_step E p s (q, m) = (s', outs, c)"
  shows "tva_inv E p (es @ [(q, m)]) s'"
proof -
  let ?es = "es @ [(q, m)]"
  have j: "tva_inv E p ?es s" by (rule tva_inv_mono [OF i])
  have hd: "tva_heard E p ?es s" and fs: "tva_finishing ?es s" using j by (simp_all add: tva_inv_def)
  have fails: "tva_inv E p ?es (s\<lparr>t_receiving := False\<rparr>)"
    by (rule tva_inv_quiet [OF j tva_heard_same [OF hd] _ _ _ tva_finishing_same [OF fs]])
      (use j in \<open>simp_all add: tva_inv_def\<close>)
  show ?thesis
  proof (cases "m \<noteq> TRUN \<and> t_receiving s \<and> q < tN E")
    case True
    then have r: "tva_recv E s q m = (s', outs, c)" using h by (simp add: tva_step_def)
    have q: "q \<in> heard E p ?es m" using True by (simp add: heard_last)
    show ?thesis
    proof (cases m)
      case (TEST r v)
      then show ?thesis using tva_est_inv [OF j, of q r v] q r by simp
    next
      case (TAUX r' v)
      then have "s' = s\<lparr>t_aux := upd2 (t_aux s) r' v (insert q (t_aux s r' v))\<rparr>" using r by (simp add: tva_aux_def)
      moreover have "tva_heard E p ?es (s\<lparr>t_aux := upd2 (t_aux s) r' v (insert q (t_aux s r' v))\<rparr>)"
        using hd q TAUX by (auto simp: tva_heard_def upd2_apply)
      ultimately show ?thesis
        using j by (intro tva_inv_quiet [OF j]) (auto simp: tva_inv_def intro: tva_finishing_same)
    next
      case (TCONF r' V)
      have "tva_heard E p ?es (s\<lparr>t_conf := upd2 (t_conf s) r' V (insert q (t_conf s r' V))\<rparr>)"
        using hd q TCONF by (auto simp: tva_heard_def upd2_apply)
      then have "tva_inv E p ?es (s\<lparr>t_conf := upd2 (t_conf s) r' V (insert q (t_conf s r' V))\<rparr>)"
        using j by (intro tva_inv_quiet [OF j]) (auto simp: tva_inv_def intro: tva_finishing_same)
      then show ?thesis using r TCONF fails by (auto simp: tva_conf_def split: if_splits)
    next
      case (TFINISH v)
      then show ?thesis using tva_finish_inv [OF i, of v s' outs c q] r True by simp
    qed (use True in simp)
  next
    case False
    then have "s' = s \<or> tva_main E p s = (s', outs, c) \<or> s' = s\<lparr>t_receiving := False\<rparr>"
      using h by (auto simp: tva_step_def split: if_splits)
    then show ?thesis using tva_main_inv [OF j o] fails j by auto
  qed
qed

lemma tva_run_inv:
  "tva_inv E p es0 s \<Longrightarrow> set_order (torder E) \<Longrightarrow> run_loop (tva_step E p) s es = (s', outs, c) \<Longrightarrow>
    tva_inv E p (es0 @ es) s'"
proof (induction es arbitrary: es0 s outs)
  case Nil
  then show ?case by simp
next
  case (Cons e es)
  obtain q m where e: "e = (q, m)" by (cases e)
  obtain s1 o1 c1 where h: "tva_step E p s (q, m) = (s1, o1, c1)" by (cases "tva_step E p s (q, m)")
  have s1: "tva_inv E p (es0 @ [e]) s1" using tva_step_inv [OF Cons.prems(1,2) h] e by simp
  show ?case
  proof (cases c1)
    case Running
    then obtain o2 where "run_loop (tva_step E p) s1 es = (s', o2, c)"
      using Cons.prems(3) h e by (auto split: prod.splits)
    then show ?thesis using Cons.IH [OF s1 Cons.prems(2)] by simp
  qed (use Cons.prems(3) h e tva_inv_mono [OF s1, of es] in simp_all)
qed

lemma halting_coin_one: "halting_coin r = 1"
  by (induction r) simp_all

lemma tva_init_inv: "tva_inv E p [] (tva_init v)"
  by (simp add: tva_inv_def tva_init_def tva_heard_def tva_finishing_def)

section \<open>Properties\<close>

text \<open>
  C18: A node decides at most once, in its main loop or on \<open>FINISH\<close> messages, and for a reason: either
  \<open>f + 1\<close> \<open>FINISH\<close> messages carried the value, or in some round the value had the parity of that round's
  coin and was the only one left after \<open>2f + 1\<close> \<open>EST\<close>s, \<open>N - f\<close> \<open>AUX\<close>s and \<open>N - f\<close> \<open>CONF\<close>s for it of
  different senders, counting the node itself. This holds whatever messages arrive, in whatever order,
  from whomever; the iteration order of a set is only assumed to list its elements.
\<close>

theorem tva_decides_once:
  assumes "set_order (torder E)" and "run_loop (tva_step E p) (tva_init vi) es = (s, outs, c)"
  shows "length (t_decides s) \<le> 1 \<and>
    (\<forall>v \<in> set (t_decides s). finish_certified E es v \<or> (\<exists>r. coin_certified E p es r v))"
  using tva_run_inv [OF tva_init_inv assms] unfolding tva_inv_def by simp

text \<open>
  The halting variant never decides an even value by itself. Its coin stays 1 in all rounds, so a
  node that has received no \<open>FINISH\<close> for an even value has decided none, however long it runs: with even
  inputs everywhere nobody ever sends the first \<open>FINISH\<close>.
\<close>

theorem halting_never_even:
  assumes "set_order ord"
    and "run_loop (tva_step (haltingtwovalueagreement N f ord) p) (tva_init vi) es = (s, outs, c)"
    and "\<forall>v. TFINISH v \<in> snd ` set es \<longrightarrow> odd v"
  shows "\<forall>v \<in> set (t_decides s). odd v"
proof -
  let ?E = "haltingtwovalueagreement N f ord"
  have "set_order (torder ?E)" using assms(1) by (simp add: haltingtwovalueagreement_def)
  from tva_run_inv [OF tva_init_inv this assms(2)]
  have d: "\<forall>v \<in> set (t_decides s). finish_certified ?E es v \<or> (\<exists>r. coin_certified ?E p es r v)"
    by (simp add: tva_inv_def)
  have "odd v" if "finish_certified ?E es v" for v
  proof -
    have "count_list (map snd es) (TFINISH v) \<noteq> 0" using that by (simp add: finish_certified_def)
    then have "TFINISH v \<in> set (map snd es)" using count_notin by metis
    then show ?thesis using assms(3) by simp
  qed
  moreover have "odd v" if "coin_certified ?E p es r v" for r v
    using that by (simp add: coin_certified_def haltingtwovalueagreement_def halting_coin_one odd_iff_mod_2_eq_one)
  ultimately show ?thesis using d by blast
qed

definition tva_cfg :: "tva_env \<Rightarrow> nat set \<Rightarrow> cfg" where
  "tva_cfg E B = \<lparr>cN = tN E, cf = tf E, cbyz = B\<rparr>"

definition tva_initial :: "tva_env \<Rightarrow> (nat \<Rightarrow> int) \<Rightarrow> (tva_state, tva_msg, unit) sys" where
  "tva_initial E inp = start_sys (\<lambda>p. tva_init (inp p)) ((\<lambda>p. (p, p, TRUN)) ` set [0..<tN E])"

definition ex_tva :: tva_env where
  "ex_tva = twovalueagreement 4 1 5 (\<lambda>r. 0) sorted_list_of_set"

definition ex_tva_final :: "(tva_state, tva_msg, unit) sys" where
  "ex_tva_final = deliver_all (tva_cfg ex_tva {3}) (tva_step ex_tva)
     (forge_all (tva_initial ex_tva (\<lambda>_. 1)) [(3, 0, TFINISH 7), (3, 1, TFINISH 8)])
     [(3, 0, TFINISH 7), (3, 0, TFINISH 7), (3, 1, TFINISH 8), (3, 1, TFINISH 8)]"

text \<open>
  \<open>FINISH\<close> messages are counted, not their senders. One Byzantine node of four that sends two of them
  to each of two correct nodes makes these decide two different values, none of which anybody proposed.
\<close>

theorem tva_forged_finish:
  "\<exists>s. reaches (tva_cfg ex_tva {3}) (tva_step ex_tva) (tva_initial ex_tva (\<lambda>_. 1)) s \<and>
     wf_cfg (tva_cfg ex_tva {3}) \<and> t_decides (loc s 0) = [7] \<and> t_decides (loc s 1) = [8]"
proof (intro exI conjI)
  show "reaches (tva_cfg ex_tva {3}) (tva_step ex_tva) (tva_initial ex_tva (\<lambda>_. 1)) ex_tva_final"
    unfolding ex_tva_final_def
    by (rule deliver_all_reaches, rule forge_all_reaches [OF reaches.start]) (simp add: tva_cfg_def)
  show "wf_cfg (tva_cfg ex_tva {3})" by code_simp
  show "t_decides (loc ex_tva_final 0) = [7]" "t_decides (loc ex_tva_final 1) = [8]" by code_simp+
qed

section \<open>Witnesses\<close>

definition ex_tva_events :: "(nat \<times> tva_msg) list" where
  "ex_tva_events = [(0, TRUN), (1, TEST 0 1), (2, TEST 0 1), (0, TRUN), (1, TAUX 0 1), (2, TAUX 0 1), (0, TRUN),
     (1, TCONF 0 [1]), (2, TCONF 0 [1]), (0, TRUN), (0, TRUN), (1, TFINISH 1)]"

definition ex_halting :: tva_env where
  "ex_halting = haltingtwovalueagreement 4 1 sorted_list_of_set"

lemma ex_tva_decides:
  "t_decides (fst (run_loop (tva_step ex_tva 0) (tva_init 1) ex_tva_events)) = [1]"
  "t_decides (fst (run_loop (tva_step ex_halting 0) (tva_init 1) ex_tva_events)) = [1]"
  by code_simp+

lemma sorted_set_order: "set_order sorted_list_of_set"
  by (simp add: set_order_def)

theorem tva_decides_once_witness:
  "t_decides (fst (run_loop (tva_step ex_tva 0) (tva_init 1) ex_tva_events)) = [1] \<and>
   (finish_certified ex_tva ex_tva_events 1 \<or> (\<exists>r. coin_certified ex_tva 0 ex_tva_events r 1))"
proof -
  have "set_order (torder ex_tva)" using sorted_set_order by (simp add: ex_tva_def twovalueagreement_def)
  then show ?thesis
    using tva_decides_once [of ex_tva 0 1 ex_tva_events] ex_tva_decides(1)
    by (cases "run_loop (tva_step ex_tva 0) (tva_init 1) ex_tva_events") simp
qed

theorem halting_never_even_witness:
  "filter even (t_decides (fst (run_loop (tva_step ex_halting 0) (tva_init 1) ex_tva_events))) = []"
proof -
  have "\<forall>v. TFINISH v \<in> snd ` set ex_tva_events \<longrightarrow> odd v" by (auto simp: ex_tva_events_def)
  then show ?thesis
    using halting_never_even [OF sorted_set_order, of 4 1 0 1 ex_tva_events] ex_halting_def
    by (cases "run_loop (tva_step ex_halting 0) (tva_init 1) ex_tva_events") (simp add: filter_empty_conv)
qed

end
