(* ===== verification/VACS.thy ===== *)
theory VACS
  imports AsyncNet
begin

text \<open>
  The validated common subset of Dumbo, \<open>validatedcommonsubset\<close> of
  \<open>src/dumbobft/core/validatedcommonsubset.py\<close>: broadcast the input, collect the values of \<open>N - f\<close> nodes
  that satisfy the predicate, and agree on one such vector with \<open>validatedagreement\<close>, whose input and
  output are events here.
\<close>

section \<open>Model\<close>

record 'v vacs_env =
  vN :: nat
  vf :: nat
  vpred :: "nat \<Rightarrow> 'v \<Rightarrow> bool"

datatype 'v vacs_msg = VACS_VAL 'v | VACS_INPUT 'v | VABA_INPUT "'v option list" | VABA_OUTPUT "'v option list"

record 'v vacs_state =
  valueSenders :: "nat set"
  vacs_values :: "'v option list"
  vacs_started :: bool

definition vacs_init :: "'v vacs_env \<Rightarrow> 'v vacs_state" where
  "vacs_init E = \<lparr>valueSenders = {}, vacs_values = replicate (vN E) None, vacs_started = False\<rparr>"

definition vaba_predicate :: "'v vacs_env \<Rightarrow> 'v option list \<Rightarrow> bool" where
  "vaba_predicate E m =
     (let counter = (if length m = vN E
                     then length (filter (\<lambda>i. case m ! i of None \<Rightarrow> False | Some v \<Rightarrow> vpred E i v) [0..<vN E])
                     else 0)
      in vN E - vf E \<le> counter)"

text \<open>One round of the collecting loop, and what follows it.\<close>

definition vacs_collect ::
    "'v vacs_env \<Rightarrow> 'v vacs_state \<Rightarrow> nat \<Rightarrow> 'v \<Rightarrow> ('v vacs_state, 'v vacs_msg, 'v option list) reply" where
  "vacs_collect E s j vj =
     (if \<not> vpred E j vj then stay s
      else let s1 = s\<lparr>valueSenders := insert j (valueSenders s)\<rparr> in
        if \<not> j < vN E then stay s1
        else let s2 = s1\<lparr>vacs_values := (vacs_values s1)[j := Some vj]\<rparr> in
          if vN E - vf E \<le> card (valueSenders s2)
          then (s2\<lparr>vacs_started := True\<rparr>, [Send 0 (VABA_INPUT (vacs_values s2))], Running)
          else stay s2)"

fun validatedcommonsubset ::
    "'v vacs_env \<Rightarrow> nat \<Rightarrow> 'v vacs_state \<Rightarrow> nat \<times> 'v vacs_msg \<Rightarrow> ('v vacs_state, 'v vacs_msg, 'v option list) reply" where
  "validatedcommonsubset E pid s (j, VACS_INPUT v) =
     (if j = pid then (s, [Send (-1) (VACS_VAL v)], Running) else stay s)"
| "validatedcommonsubset E pid s (j, VACS_VAL v) = (if vacs_started s then stay s else vacs_collect E s j v)"
| "validatedcommonsubset E pid s (j, VABA_OUTPUT vec) =
     (if j = pid \<and> vacs_started s then (s, [], Returned vec) else stay s)"
| "validatedcommonsubset E pid s (j, VABA_INPUT vec) = stay s"

section \<open>The input of the vector agreement\<close>

definition vacs_inv :: "'v vacs_env \<Rightarrow> (nat \<times> 'v vacs_msg) set \<Rightarrow> 'v vacs_state \<Rightarrow> bool" where
  "vacs_inv E X s \<longleftrightarrow>
     length (vacs_values s) = vN E \<and>
     valueSenders s = {j. j < vN E \<and> vacs_values s ! j \<noteq> None} \<and>
     (\<forall>j < vN E. \<forall>v. vacs_values s ! j = Some v \<longrightarrow> vpred E j v \<and> (j, VACS_VAL v) \<in> X)"

definition vaba_input_ok :: "'v vacs_env \<Rightarrow> (nat \<times> 'v vacs_msg) set \<Rightarrow> 'v option list \<Rightarrow> bool" where
  "vaba_input_ok E X vec \<longleftrightarrow> vaba_predicate E vec \<and> length vec = vN E \<and>
     (\<forall>j < vN E. \<forall>v. vec ! j = Some v \<longrightarrow> vpred E j v \<and> (j, VACS_VAL v) \<in> X)"

definition vaba_inputs :: "'v vacs_msg out list \<Rightarrow> 'v option list list" where
  "vaba_inputs outs = concat (map (\<lambda>x. case out_msg x of VABA_INPUT v \<Rightarrow> [v] | _ \<Rightarrow> []) outs)"

lemma vacs_predicate:
  assumes "vacs_inv E X s" and "vN E - vf E \<le> card (valueSenders s)"
  shows "vaba_input_ok E X (vacs_values s)"
proof -
  have "filter (\<lambda>i. case vacs_values s ! i of None \<Rightarrow> False | Some v \<Rightarrow> vpred E i v) [0..<vN E] =
      filter (\<lambda>i. i \<in> valueSenders s) [0..<vN E]"
    using assms(1) by (intro filter_cong) (auto simp: vacs_inv_def split: option.splits)
  moreover have "length (filter (\<lambda>i. i \<in> valueSenders s) [0..<vN E]) = card (valueSenders s)"
  proof -
    have "length (filter (\<lambda>i. i \<in> valueSenders s) [0..<vN E]) = card (set (filter (\<lambda>i. i \<in> valueSenders s) [0..<vN E]))"
      by (rule distinct_card [symmetric]) simp
    also have "set (filter (\<lambda>i. i \<in> valueSenders s) [0..<vN E]) = valueSenders s"
      using assms(1) by (auto simp: vacs_inv_def)
    finally show ?thesis .
  qed
  ultimately show ?thesis using assms by (simp add: vaba_input_ok_def vaba_predicate_def vacs_inv_def)
qed

lemma vacs_collect_inv:
  assumes i: "vacs_inv E X s" and x: "(j, VACS_VAL v) \<in> X" and j: "j < vN E"
    and h: "vacs_collect E s j v = (s', outs, c)"
  shows "vacs_inv E X s' \<and>
    (vaba_inputs outs = [] \<and> vacs_started s' = vacs_started s \<or>
     vacs_started s' \<and> (\<exists>vec. vaba_inputs outs = [vec] \<and> vaba_input_ok E X vec))"
proof (cases "vpred E j v")
  case True
  define s2 where "s2 = s\<lparr>valueSenders := insert j (valueSenders s), vacs_values := (vacs_values s)[j := Some v]\<rparr>"
  have len: "length (vacs_values s) = vN E" using i by (simp add: vacs_inv_def)
  have i2: "vacs_inv E X s2"
    using i True x j len unfolding vacs_inv_def s2_def by (auto simp: nth_list_update)
  show ?thesis
  proof (cases "vN E - vf E \<le> card (valueSenders s2)")
    case True
    then have "s' = s2\<lparr>vacs_started := True\<rparr>" "outs = [Send 0 (VABA_INPUT (vacs_values s2))]"
      using h \<open>vpred E j v\<close> j by (simp_all add: vacs_collect_def s2_def)
    then show ?thesis using i2 vacs_predicate [OF i2 True] by (simp add: vacs_inv_def vaba_inputs_def)
  next
    case False
    then have "s' = s2" "outs = []" using h \<open>vpred E j v\<close> j by (simp_all add: vacs_collect_def s2_def)
    then show ?thesis using i2 by (simp add: vaba_inputs_def s2_def)
  qed
next
  case False
  then show ?thesis using h i by (auto simp: vacs_collect_def vaba_inputs_def)
qed

lemma vacs_step_inv:
  assumes i: "vacs_inv E X s" and x: "e \<in> X" and q: "fst e < vN E"
    and h: "validatedcommonsubset E p s e = (s', outs, c)"
  shows "vacs_inv E X s' \<and>
    (vaba_inputs outs = [] \<and> vacs_started s' = vacs_started s \<or>
     \<not> vacs_started s \<and> vacs_started s' \<and> (\<exists>vec. vaba_inputs outs = [vec] \<and> vaba_input_ok E X vec))"
proof -
  obtain j m where e: "e = (j, m)" by (cases e)
  show ?thesis
  proof (cases "\<exists>v. m = VACS_VAL v \<and> \<not> vacs_started s")
    case True
    then obtain v where v: "m = VACS_VAL v" "\<not> vacs_started s" by blast
    then have "vacs_collect E s j v = (s', outs, c)" using h e by simp
    from vacs_collect_inv [OF i _ _ this] x q e v show ?thesis by auto
  next
    case False
    then have "s' = s \<and> vaba_inputs outs = []"
      using h e by (cases m) (auto simp: vaba_inputs_def split: if_splits)
    then show ?thesis using i by simp
  qed
qed

lemma vacs_run_inv:
  "vacs_inv E X s \<Longrightarrow> set es \<subseteq> X \<Longrightarrow> \<forall>e \<in> set es. fst e < vN E \<Longrightarrow>
    run_loop (validatedcommonsubset E p) s es = (s', outs, c) \<Longrightarrow>
    length (vaba_inputs outs) \<le> (if vacs_started s then 0 else 1) \<and>
    (\<forall>vec \<in> set (vaba_inputs outs). vaba_input_ok E X vec)"
proof (induction es arbitrary: s outs)
  case Nil
  then show ?case by (auto simp: vaba_inputs_def)
next
  case (Cons e es)
  obtain s1 o1 c1 where h: "validatedcommonsubset E p s e = (s1, o1, c1)" by (cases "validatedcommonsubset E p s e")
  have e: "e \<in> X" "fst e < vN E" using Cons.prems(2,3) by simp_all
  note s1 = vacs_step_inv [OF Cons.prems(1) e h]
  show ?case
  proof (cases c1)
    case Running
    then obtain o2 where 2: "run_loop (validatedcommonsubset E p) s1 es = (s', o2, c)" "outs = o1 @ o2"
      using Cons.prems(4) h by (auto split: prod.splits)
    have "vaba_inputs outs = vaba_inputs o1 @ vaba_inputs o2" by (simp add: vaba_inputs_def 2(2))
    moreover have "length (vaba_inputs o2) \<le> (if vacs_started s1 then 0 else 1) \<and>
        (\<forall>vec \<in> set (vaba_inputs o2). vaba_input_ok E X vec)"
      using Cons.IH [OF _ _ _ 2(1)] s1 Cons.prems(2,3) by simp
    ultimately show ?thesis using s1 by (auto split: if_splits)
  next
    case (Returned w)
    then have "outs = o1" using Cons.prems(4) h by simp
    then show ?thesis using s1 by auto
  next
    case (Raised x)
    then have "outs = o1" using Cons.prems(4) h by simp
    then show ?thesis using s1 by auto
  qed
qed

section \<open>Properties\<close>

text \<open>
  C19: The vector agreement gets at most one input, and that one satisfies the predicate it is given: it
  has \<open>N\<close> entries, at least \<open>N - f\<close> of them present, and each present one is valid and was sent by its
  node, whatever invalid or repeated values arrived in between.
\<close>

theorem vacs_input_valid:
  assumes "run_loop (validatedcommonsubset E p) (vacs_init E) es = (s, outs, c)"
    and "\<forall>e \<in> set es. fst e < vN E"
  shows "length (vaba_inputs outs) \<le> 1 \<and> (\<forall>vec \<in> set (vaba_inputs outs). vaba_input_ok E (set es) vec)"
proof -
  have "vacs_inv E (set es) (vacs_init E)" by (auto simp: vacs_inv_def vacs_init_def)
  from vacs_run_inv [OF this order_refl assms(2,1)] show ?thesis by (auto split: if_splits)
qed

section \<open>Witnesses\<close>

definition ex_vacs :: "nat vacs_env" where
  "ex_vacs = \<lparr>vN = 4, vf = 1, vpred = (\<lambda>i v. v = i + 10)\<rparr>"

definition ex_vacs_events :: "(nat \<times> nat vacs_msg) list" where
  "ex_vacs_events = [(0, VACS_INPUT 10), (2, VACS_VAL 12), (3, VACS_VAL 12), (2, VACS_VAL 12), (0, VACS_VAL 10),
     (1, VACS_VAL 11), (3, VACS_VAL 13)]"

lemma ex_vacs_inputs:
  "vaba_inputs (out_of (run_loop (validatedcommonsubset ex_vacs 0) (vacs_init ex_vacs) ex_vacs_events)) =
    [[Some 10, Some 11, Some 12, None]]"
  by code_simp

theorem vacs_input_valid_witness: "vaba_predicate ex_vacs [Some 10, Some 11, Some 12, None]"
proof -
  have "\<forall>e \<in> set ex_vacs_events. fst e < vN ex_vacs" by code_simp
  then show ?thesis
    using vacs_input_valid [of ex_vacs 0 ex_vacs_events] ex_vacs_inputs
    by (cases "run_loop (validatedcommonsubset ex_vacs 0) (vacs_init ex_vacs) ex_vacs_events")
      (simp add: vaba_input_ok_def)
qed

end
