(* ===== verification/VABA.thy ===== *)
theory VABA
  imports ACS
begin

text \<open>
  Dumbo's multi-valued agreement, \<open>validatedagreement\<close> of \<open>src/dumbobft/core/validatedagreement.py\<close>.
  The sub-protocols are events: outputs of the consistent broadcasts and of the commit broadcasts, the
  permutation drawn from the coin, the outputs of the binary agreements. \<open>b_phase\<close> says where the
  main greenlet waits.
\<close>

section \<open>Model\<close>

record ('v, 'g) vaba_env =
  bN :: nat
  bf :: nat
  bpred :: "'v \<Rightarrow> bool"
  bcert :: "nat \<Rightarrow> 'v \<Rightarrow> 'g \<Rightarrow> bool"

text \<open>A ballot: the leader, the bit, and the broadcast output (\<open>None\<close> stands for \<open>"Bottom"\<close>).\<close>

type_synonym ('v, 'g) ballot = "nat \<times> nat \<times> ('v \<times> 'g) option"

datatype ('v, 'g) vaba_event =
    VABA_IN 'v
  | CBC_OUT nat 'v 'g
  | COMMIT_OUT nat "nat list"
  | PERMUTED "nat list"
  | VABA_VOTE nat nat "('v, 'g) ballot"
  | VABA_ABA_OUT nat nat

datatype ('v, 'g) vaba_out =
    CBC_IN 'v
  | COMMIT_IN "nat list"
  | COIN_IN
  | VOTE_OUT nat "('v, 'g) ballot"
  | ABA_IN nat nat

datatype vaba_phase = WaitCbc | WaitCommit | WaitPermutation | Voting | WaitAba | WaitOutput

record ('v, 'g) vaba_state =
  cbc_outputs :: "nat \<Rightarrow> ('v \<times> 'g) option"
  is_cbc_delivered :: "nat list"
  commit_values :: "nat list option list"
  is_commit_delivered :: "nat list"
  b_pi :: "nat list"
  b_r :: nat
  b_a :: nat
  b_votes :: "(nat \<times> ('v, 'g) ballot) list"
  vote_recvs :: "nat \<Rightarrow> (nat \<times> ('v, 'g) ballot) list"
  b_phase :: vaba_phase

definition vaba_init :: "('v, 'g) vaba_env \<Rightarrow> ('v, 'g) vaba_state" where
  "vaba_init E = \<lparr>cbc_outputs = (\<lambda>_. None), is_cbc_delivered = replicate (bN E) 0,
     commit_values = replicate (bN E) None, is_commit_delivered = replicate (bN E) 0,
     b_pi = [], b_r = 0, b_a = 0, b_votes = [], vote_recvs = (\<lambda>_. []), b_phase = WaitCbc\<rparr>"

type_synonym ('v, 'g) vaba_reply = "(('v, 'g) vaba_state, ('v, 'g) vaba_out, 'v) reply"

text \<open>\<open>wait_for_cbc_to_continue\<close> and \<open>wait_for_commit_to_continue\<close>: the state, and whether the signal is set.\<close>

definition cbc_to_continue ::
    "('v, 'g) vaba_env \<Rightarrow> ('v, 'g) vaba_state \<Rightarrow> nat \<Rightarrow> 'v \<Rightarrow> 'g \<Rightarrow> ('v, 'g) vaba_state \<times> bool" where
  "cbc_to_continue E s leader msg sigmas =
     (if bpred E msg \<and> cbc_outputs s leader = None
      then let s1 = s\<lparr>cbc_outputs := (cbc_outputs s)(leader := Some (msg, sigmas)),
                      is_cbc_delivered := (is_cbc_delivered s)[leader := 1]\<rparr>
           in (s1, bN E - bf E \<le> sum_list (is_cbc_delivered s1))
      else (s, False))"

definition commit_to_continue ::
    "('v, 'g) vaba_env \<Rightarrow> ('v, 'g) vaba_state \<Rightarrow> nat \<Rightarrow> nat list \<Rightarrow> ('v, 'g) vaba_state \<times> bool" where
  "commit_to_continue E s leader commit_list =
     (if bN E - bf E \<le> sum_list commit_list
      then let s1 = s\<lparr>commit_values := (commit_values s)[leader := Some commit_list],
                      is_commit_delivered := (is_commit_delivered s)[leader := 1]\<rparr>
           in (s1, bN E - bf E \<le> sum_list (is_commit_delivered s1))
      else (s, False))"

text \<open>One ballot of the vote loop: is it counted? A short commit list of the sender raises.\<close>

definition count_vote ::
    "('v, 'g) vaba_env \<Rightarrow> ('v, 'g) vaba_state \<Rightarrow> nat \<Rightarrow> ('v, 'g) ballot \<Rightarrow> py_error + bool" where
  "count_vote E s sender vote =
     (case vote of (a, b, cbc_out) \<Rightarrow>
        if b_pi s ! b_r s = a \<and> (b = 0 \<or> b = 1) then
          (if b = 1
           then Inr (case cbc_out of None \<Rightarrow> False | Some (m, sigmas) \<Rightarrow> bcert E a m sigmas)
           else (case py_index (commit_values s) (int sender) of
                   Inl e \<Rightarrow> Inl e
                 | Inr None \<Rightarrow> Inr False
                 | Inr (Some cl) \<Rightarrow> res_bind (py_index cl (int a)) (\<lambda>x. Inr (x = 0))))
        else Inr False)"

text \<open>
  After \<open>N - f\<close> ballots: the input bit, and a broadcast output taken from a ballot when the node has
  none. The ballots are scanned in the order they came (a Python set has no order of its own).
\<close>

definition adopt_output :: "('v, 'g) vaba_state \<Rightarrow> nat \<times> ('v, 'g) ballot \<Rightarrow> ('v, 'g) vaba_state" where
  "adopt_output s x =
     (case x of (_, _, b, cbc_out) \<Rightarrow>
        if b = 1 \<and> is_cbc_delivered s ! b_a s = 0 \<and> cbc_outputs s (b_a s) = None
        then s\<lparr>cbc_outputs := (cbc_outputs s)(b_a s := cbc_out)\<rparr> else s)"

definition close_votes :: "('v, 'g) vaba_state \<Rightarrow> ('v, 'g) vaba_reply" where
  "close_votes s =
     (let s1 = foldl adopt_output s (b_votes s);
          b = (if \<exists>x \<in> set (b_votes s). fst (snd (snd x)) = 1 then 1 else 0)
      in (s1\<lparr>b_phase := WaitAba\<rparr>, [Send 0 (ABA_IN (b_r s) b)], Running))"

text \<open>The vote loop over the ballots that are in the queue of the round.\<close>

function vote_loop :: "('v, 'g) vaba_env \<Rightarrow> ('v, 'g) vaba_state \<Rightarrow> ('v, 'g) vaba_reply" where
  "vote_loop E s =
     (case vote_recvs s (b_r s) of
        [] \<Rightarrow> stay (s\<lparr>b_phase := Voting\<rparr>)
      | (sender, vote) # rest \<Rightarrow>
          let s1 = s\<lparr>vote_recvs := (vote_recvs s)(b_r s := rest), b_a := fst vote\<rparr> in
          (case count_vote E s1 sender vote of
             Inl e \<Rightarrow> (s1, [], Raised e)
           | Inr ok \<Rightarrow>
               let s2 = (if ok \<and> (sender, vote) \<notin> set (b_votes s1)
                         then s1\<lparr>b_votes := b_votes s1 @ [(sender, vote)]\<rparr> else s1)
               in if bN E - bf E \<le> length (b_votes s2) then close_votes s2 else vote_loop E s2))"
  by pat_completeness auto
termination
  by (relation "measure (\<lambda>(E, s). length (vote_recvs s (b_r s)))") (auto split: if_splits)

declare vote_loop.simps [simp del]

text \<open>The start of round \<open>r\<close>: the own ballot, then the vote loop.\<close>

definition start_round :: "('v, 'g) vaba_env \<Rightarrow> ('v, 'g) vaba_state \<Rightarrow> ('v, 'g) vaba_reply" where
  "start_round E s =
     (case py_index (b_pi s) (int (b_r s)) of
        Inl e \<Rightarrow> (s, [], Raised e)
      | Inr a \<Rightarrow>
          let vote = (if is_cbc_delivered s ! a = 1 then (a, 1, cbc_outputs s a) else (a, 0, None)) in
          (case vote_loop E (s\<lparr>b_a := a, b_votes := []\<rparr>) of
             (s', outs, c) \<Rightarrow> (s', Send (-1) (VOTE_OUT (b_r s) vote) # outs, c)))"

text \<open>\<open>decide(cbc_outputs[a].get()[0])\<close>, which may have to wait.\<close>

definition output_value :: "('v, 'g) vaba_state \<Rightarrow> ('v, 'g) vaba_reply" where
  "output_value s =
     (case cbc_outputs s (b_a s) of
        None \<Rightarrow> stay (s\<lparr>b_phase := WaitOutput\<rparr>)
      | Some (m, _) \<Rightarrow> (s, [], Returned m))"

fun validatedagreement ::
    "('v, 'g) vaba_env \<Rightarrow> ('v, 'g) vaba_state \<Rightarrow> ('v, 'g) vaba_event \<Rightarrow> ('v, 'g) vaba_reply" where
  "validatedagreement E s (VABA_IN v) = (s, [Send 0 (CBC_IN v)], Running)"
| "validatedagreement E s (CBC_OUT j m sigmas) =
     (case cbc_to_continue E s j m sigmas of (s1, go) \<Rightarrow>
        if b_phase s = WaitCbc \<and> go
        then (s1\<lparr>b_phase := WaitCommit\<rparr>, [Send 0 (COMMIT_IN (is_cbc_delivered s1))], Running)
        else if b_phase s = WaitOutput then output_value s1
        else stay s1)"
| "validatedagreement E s (COMMIT_OUT j cl) =
     (if b_phase s = WaitCbc then stay s
      else case commit_to_continue E s j cl of (s1, go) \<Rightarrow>
        if b_phase s = WaitCommit \<and> go
        then (s1\<lparr>b_phase := WaitPermutation\<rparr>, [Send 0 COIN_IN], Running) else stay s1)"
| "validatedagreement E s (PERMUTED pi) =
     (if b_phase s = WaitPermutation then start_round E (s\<lparr>b_pi := pi, b_r := 0\<rparr>) else stay s)"
| "validatedagreement E s (VABA_VOTE r sender vote) =
     (let s1 = s\<lparr>vote_recvs := (vote_recvs s)(r := vote_recvs s r @ [(sender, vote)])\<rparr> in
      if b_phase s = Voting \<and> r = b_r s then vote_loop E s1 else stay s1)"
| "validatedagreement E s (VABA_ABA_OUT r b) =
     (if b_phase s = WaitAba \<and> r = b_r s
      then (if b = 1 then output_value s else start_round E (s\<lparr>b_r := b_r s + 1\<rparr>))
      else stay s)"

section \<open>Where a decision comes from\<close>

text \<open>A value is certified for a leader when a broadcast or a valid ballot brought it.\<close>

definition certified ::
    "('v, 'g) vaba_env \<Rightarrow> ('v, 'g) vaba_event set \<Rightarrow> nat \<Rightarrow> 'v \<Rightarrow> bool" where
  "certified E X j m \<longleftrightarrow> (\<exists>g. CBC_OUT j m g \<in> X) \<or>
     (\<exists>r q g. VABA_VOTE r q (j, 1, Some (m, g)) \<in> X \<and> bcert E j m g)"

definition vaba_result :: "('v, 'g) vaba_env \<Rightarrow> ('v, 'g) vaba_event set \<Rightarrow> 'v \<Rightarrow> bool" where
  "vaba_result E X m \<longleftrightarrow> (\<exists>r pi. VABA_ABA_OUT r 1 \<in> X \<and> (\<forall>i < r. \<exists>b. b \<noteq> 1 \<and> VABA_ABA_OUT i b \<in> X) \<and>
     PERMUTED pi \<in> X \<and> r < length pi \<and> certified E X (pi ! r) m)"

definition ballot_ok ::
    "('v, 'g) vaba_env \<Rightarrow> ('v, 'g) vaba_event set \<Rightarrow> nat \<Rightarrow> nat \<times> ('v, 'g) ballot \<Rightarrow> bool" where
  "ballot_ok E X a x \<longleftrightarrow>
     (case x of (q, a', b, out) \<Rightarrow> a' = a \<and> (b = 1 \<longrightarrow> (\<exists>m g. out = Some (m, g) \<and> certified E X a m)))"

definition queues_ok :: "('v, 'g) vaba_event set \<Rightarrow> ('v, 'g) vaba_state \<Rightarrow> bool" where
  "queues_ok X s \<longleftrightarrow> (\<forall>r q v. (q, v) \<in> set (vote_recvs s r) \<longrightarrow> VABA_VOTE r q v \<in> X)"

definition outputs_ok :: "('v, 'g) vaba_env \<Rightarrow> ('v, 'g) vaba_event set \<Rightarrow> ('v, 'g) vaba_state \<Rightarrow> bool" where
  "outputs_ok E X s \<longleftrightarrow> (\<forall>j m g. cbc_outputs s j = Some (m, g) \<longrightarrow> certified E X j m)"

definition round_ok :: "('v, 'g) vaba_event set \<Rightarrow> ('v, 'g) vaba_state \<Rightarrow> bool" where
  "round_ok X s \<longleftrightarrow> PERMUTED (b_pi s) \<in> X \<and> (\<forall>i < b_r s. \<exists>b. b \<noteq> 1 \<and> VABA_ABA_OUT i b \<in> X)"

definition voting_ok :: "('v, 'g) vaba_env \<Rightarrow> ('v, 'g) vaba_event set \<Rightarrow> ('v, 'g) vaba_state \<Rightarrow> bool" where
  "voting_ok E X s \<longleftrightarrow> queues_ok X s \<and> outputs_ok E X s \<and> round_ok X s \<and> b_r s < length (b_pi s) \<and>
     length (b_votes s) < bN E - bf E \<and> (\<forall>x \<in> set (b_votes s). ballot_ok E X (b_pi s ! b_r s) x)"

definition vaba_inv :: "('v, 'g) vaba_env \<Rightarrow> ('v, 'g) vaba_event set \<Rightarrow> ('v, 'g) vaba_state \<Rightarrow> bool" where
  "vaba_inv E X s \<longleftrightarrow> queues_ok X s \<and> outputs_ok E X s \<and>
     (case b_phase s of
        Voting \<Rightarrow> voting_ok E X s
      | WaitAba \<Rightarrow> round_ok X s \<and> b_r s < length (b_pi s) \<and> b_a s = b_pi s ! b_r s
      | WaitOutput \<Rightarrow> round_ok X s \<and> b_r s < length (b_pi s) \<and> b_a s = b_pi s ! b_r s \<and>
          VABA_ABA_OUT (b_r s) 1 \<in> X
      | _ \<Rightarrow> True)"

lemmas vaba_ok_defs = queues_ok_def outputs_ok_def round_ok_def

lemma adopt_output_ok:
  assumes "outputs_ok E X s" and "ballot_ok E X (b_a s) x"
  shows "outputs_ok E X (adopt_output s x) \<and> adopt_output s x = s\<lparr>cbc_outputs := cbc_outputs (adopt_output s x)\<rparr>"
  using assms by (cases x) (auto simp: adopt_output_def outputs_ok_def ballot_ok_def)

lemma adopt_all_ok:
  "outputs_ok E X s \<Longrightarrow> \<forall>x \<in> set xs. ballot_ok E X (b_a s) x \<Longrightarrow>
    outputs_ok E X (foldl adopt_output s xs) \<and>
    foldl adopt_output s xs = s\<lparr>cbc_outputs := cbc_outputs (foldl adopt_output s xs)\<rparr>"
proof (induction xs arbitrary: s)
  case Nil
  then show ?case by simp
next
  case (Cons x xs)
  define s1 where "s1 = adopt_output s x"
  have s1: "outputs_ok E X s1" "s1 = s\<lparr>cbc_outputs := cbc_outputs s1\<rparr>"
    using adopt_output_ok [OF Cons.prems(1)] Cons.prems(2) unfolding s1_def by simp_all
  have "b_a s1 = b_a s" by (subst s1(2)) simp
  then have "\<forall>x \<in> set xs. ballot_ok E X (b_a s1) x" using Cons.prems(2) by simp
  note ih = Cons.IH [OF s1(1) this]
  have "foldl adopt_output s (x # xs) = foldl adopt_output s1 xs" by (simp add: s1_def)
  moreover have "s1\<lparr>cbc_outputs := c\<rparr> = s\<lparr>cbc_outputs := c\<rparr>" for c by (subst s1(2)) simp
  ultimately show ?case using ih by metis
qed

lemma close_votes_ok:
  assumes "queues_ok X s" and "outputs_ok E X s" and "round_ok X s" and "b_r s < length (b_pi s)"
    and "b_a s = b_pi s ! b_r s" and "\<forall>x \<in> set (b_votes s). ballot_ok E X (b_a s) x"
    and "close_votes s = (s', outs, c)"
  shows "vaba_inv E X s' \<and> c = Running"
proof -
  define s1 where "s1 = foldl adopt_output s (b_votes s)"
  have s1: "outputs_ok E X s1" "s1 = s\<lparr>cbc_outputs := cbc_outputs s1\<rparr>"
    using adopt_all_ok [OF assms(2,6)] unfolding s1_def by blast+
  have "b_r s1 = b_r s" "b_pi s1 = b_pi s" "b_a s1 = b_a s" "vote_recvs s1 = vote_recvs s"
    by (subst s1(2), simp)+
  moreover have "s' = s1\<lparr>b_phase := WaitAba\<rparr>" "c = Running"
    using assms(7) by (simp_all add: close_votes_def s1_def Let_def)
  ultimately show ?thesis
    using assms s1(1) by (simp add: vaba_inv_def vaba_ok_defs)
qed

lemma count_vote_ok:
  assumes "count_vote E s q v = Inr True" and "VABA_VOTE (b_r s) q v \<in> X"
  shows "ballot_ok E X (b_pi s ! b_r s) (q, v) \<and> fst v = b_pi s ! b_r s"
  using assms by (cases v) (auto simp: count_vote_def ballot_ok_def certified_def split: if_splits option.splits)

lemma vote_loop_ok:
  "voting_ok E X s \<Longrightarrow> vote_loop E s = (s', outs, c) \<Longrightarrow> (c = Running \<longrightarrow> vaba_inv E X s') \<and> (\<forall>m. c \<noteq> Returned m)"
proof (induction E s arbitrary: s' outs c rule: vote_loop.induct)
  case (1 E s)
  show ?case
  proof (cases "vote_recvs s (b_r s)")
    case Nil
    then have "s' = s\<lparr>b_phase := Voting\<rparr>" "c = Running" using "1.prems"(2) by (simp_all add: vote_loop.simps [of E s])
    then show ?thesis using "1.prems"(1) by (simp add: vaba_inv_def voting_ok_def vaba_ok_defs)
  next
    case (Cons x rest)
    obtain q v where x: "x = (q, v)" by (cases x)
    define s1 where "s1 = s\<lparr>vote_recvs := (vote_recvs s)(b_r s := rest), b_a := fst v\<rparr>"
    have ok1: "voting_ok E X s1"
      using "1.prems"(1) Cons unfolding voting_ok_def vaba_ok_defs s1_def by auto
    have inX: "VABA_VOTE (b_r s1) q v \<in> X"
    proof -
      have "queues_ok X s" "(q, v) \<in> set (vote_recvs s (b_r s))"
        using "1.prems"(1) Cons x by (simp_all add: voting_ok_def)
      then have "VABA_VOTE (b_r s) q v \<in> X" unfolding queues_ok_def by blast
      then show ?thesis by (simp add: s1_def)
    qed
    show ?thesis
    proof (cases "count_vote E s1 q v")
      case (Inl e)
      then have "c = Raised e"
        using "1.prems"(2) Cons x by (simp add: vote_loop.simps [of E s] s1_def Let_def)
      then show ?thesis by simp
    next
      case (Inr ok)
      define s2 where "s2 = (if ok \<and> (q, v) \<notin> set (b_votes s1) then s1\<lparr>b_votes := b_votes s1 @ [(q, v)]\<rparr> else s1)"
      have step: "vote_loop E s = (if bN E - bf E \<le> length (b_votes s2) then close_votes s2 else vote_loop E s2)"
        using Cons x Inr by (simp add: vote_loop.simps [of E s] s1_def s2_def Let_def)
      have votes: "\<forall>y \<in> set (b_votes s2). ballot_ok E X (b_pi s2 ! b_r s2) y"
        using ok1 count_vote_ok [of E s1 q v X] Inr inX unfolding voting_ok_def s2_def by auto
      have same: "b_pi s2 = b_pi s1" "b_r s2 = b_r s1" "queues_ok X s2" "outputs_ok E X s2" "round_ok X s2"
        "b_r s2 < length (b_pi s2)"
        using ok1 unfolding voting_ok_def s2_def by (auto simp: vaba_ok_defs)
      show ?thesis
      proof (cases "bN E - bf E \<le> length (b_votes s2)")
        case True
        then have new: "s2 = s1\<lparr>b_votes := b_votes s1 @ [(q, v)]\<rparr>" "ok"
          using ok1 unfolding voting_ok_def s2_def by (auto split: if_splits)
        then have "b_a s2 = b_pi s2 ! b_r s2"
          using count_vote_ok [of E s1 q v X] Inr inX by (simp add: s1_def)
        then show ?thesis
          using close_votes_ok [OF same(3-6), of s' outs c] votes step True "1.prems"(2) by simp
      next
        case False
        then have "voting_ok E X s2" using same votes unfolding voting_ok_def by simp
        moreover have "vote_loop E s2 = (s', outs, c)" using step False "1.prems"(2) by simp
        ultimately show ?thesis
          using "1.IH" [OF Cons x [symmetric] s1_def Inr s2_def False] by blast
      qed
    qed
  qed
qed

lemma start_round_ok:
  assumes "queues_ok X s" and "outputs_ok E X s" and "round_ok X s" and n: "0 < bN E - bf E"
    and h: "start_round E s = (s', outs, c)"
  shows "(c = Running \<longrightarrow> vaba_inv E X s') \<and> (\<forall>m. c \<noteq> Returned m)"
proof (cases "b_r s < length (b_pi s)")
  case True
  define s1 where "s1 = s\<lparr>b_a := b_pi s ! b_r s, b_votes := []\<rparr>"
  obtain s2 o2 c2 where 2: "vote_loop E s1 = (s2, o2, c2)" by (cases "vote_loop E s1")
  have "voting_ok E X s1" using assms(1-4) True by (simp add: voting_ok_def vaba_ok_defs s1_def)
  note vote_loop_ok [OF this 2]
  moreover have "s' = s2" "c = c2" using h True 2 by (simp_all add: start_round_def s1_def Let_def)
  ultimately show ?thesis by simp
next
  case False
  then have "c = Raised IndexError" using h by (simp add: start_round_def py_index_def Let_def)
  then show ?thesis by simp
qed

lemma vaba_invD:
  assumes "vaba_inv E X s"
  shows "queues_ok X s" and "outputs_ok E X s"
    and "b_phase s = WaitAba \<or> b_phase s = WaitOutput \<Longrightarrow>
      round_ok X s \<and> b_r s < length (b_pi s) \<and> b_a s = b_pi s ! b_r s"
    and "b_phase s = WaitOutput \<Longrightarrow> VABA_ABA_OUT (b_r s) 1 \<in> X"
  using assms unfolding vaba_inv_def by auto

lemma output_value_ok:
  assumes "queues_ok X s" and "outputs_ok E X s" and "round_ok X s" and "b_r s < length (b_pi s)"
    and "b_a s = b_pi s ! b_r s" and "VABA_ABA_OUT (b_r s) 1 \<in> X"
    and h: "output_value s = (s', outs, c)"
  shows "(c = Running \<longrightarrow> vaba_inv E X s') \<and> (\<forall>m. c = Returned m \<longrightarrow> vaba_result E X m)"
proof (cases "cbc_outputs s (b_a s)")
  case None
  then have "s' = s\<lparr>b_phase := WaitOutput\<rparr>" "c = Running" using h by (simp_all add: output_value_def)
  then show ?thesis using assms(1-6) by (simp add: vaba_inv_def vaba_ok_defs)
next
  case (Some x)
  obtain m g where x: "x = (m, g)" by (cases x)
  have c: "c = Returned m" using h Some x by (simp add: output_value_def)
  have "certified E X (b_pi s ! b_r s) m" using assms(2,5) Some x by (simp add: outputs_ok_def)
  then have "vaba_result E X m"
    unfolding vaba_result_def using assms(3,4,6)
    by (intro exI [of _ "b_r s"] exI [of _ "b_pi s"]) (simp add: round_ok_def)
  then show ?thesis using c by simp
qed

lemma cbc_to_continue_ok:
  assumes "cbc_to_continue E s j m g = (s1, go)" and "CBC_OUT j m g \<in> X" and "vaba_inv E X s"
  shows "vaba_inv E X s1 \<and> b_phase s1 = b_phase s"
proof (cases "bpred E m \<and> cbc_outputs s j = None")
  case True
  then have s1: "s1 = s\<lparr>cbc_outputs := (cbc_outputs s)(j := Some (m, g)), is_cbc_delivered := (is_cbc_delivered s)[j := 1]\<rparr>"
    using assms(1) by (simp add: cbc_to_continue_def Let_def)
  have "certified E X j m" using assms(2) by (auto simp: certified_def)
  then have "outputs_ok E X s1" if "outputs_ok E X s" using that by (simp add: s1 outputs_ok_def)
  then show ?thesis
    using assms(3) unfolding vaba_inv_def voting_ok_def by (auto simp: s1 queues_ok_def round_ok_def split: vaba_phase.splits)
next
  case False
  then show ?thesis using assms by (auto simp: cbc_to_continue_def)
qed

lemma vaba_step_ok:
  assumes i: "vaba_inv E X s" and e: "e \<in> X" and n: "0 < bN E - bf E"
    and h: "validatedagreement E s e = (s', outs, c)"
  shows "(c = Running \<longrightarrow> vaba_inv E X s') \<and> (\<forall>m. c = Returned m \<longrightarrow> vaba_result E X m)"
proof (cases e)
  case (VABA_IN v)
  then show ?thesis using h i by auto
next
  case (CBC_OUT j m g)
  obtain s1 go where 1: "cbc_to_continue E s j m g = (s1, go)" by (cases "cbc_to_continue E s j m g")
  have i1: "vaba_inv E X s1" "b_phase s1 = b_phase s"
    using cbc_to_continue_ok [OF 1 _ i] e CBC_OUT by simp_all
  consider (wait) "b_phase s = WaitCbc \<and> go" | (out) "b_phase s = WaitOutput"
    | (other) "\<not> (b_phase s = WaitCbc \<and> go)" "b_phase s \<noteq> WaitOutput" by blast
  then show ?thesis
  proof cases
    case wait
    then have "s' = s1\<lparr>b_phase := WaitCommit\<rparr>" "c = Running" using h CBC_OUT 1 by simp_all
    then show ?thesis using i1(1) by (simp add: vaba_inv_def vaba_ok_defs)
  next
    case out
    then have "output_value s1 = (s', outs, c)" using h CBC_OUT 1 by simp
    with output_value_ok [of X s1 E] vaba_invD [OF i1(1)] i1(2) out show ?thesis by simp
  next
    case other
    then have "s' = s1" "c = Running" using h CBC_OUT 1 by auto
    then show ?thesis using i1 by simp
  qed
next
  case (COMMIT_OUT j cl)
  have "c = Running" using h COMMIT_OUT by (auto split: if_splits prod.splits)
  moreover have "vaba_inv E X s'"
  proof (cases "b_phase s = WaitCbc")
    case True
    then show ?thesis using h COMMIT_OUT i by simp
  next
    case False
    obtain s1 go where 1: "commit_to_continue E s j cl = (s1, go)" by (cases "commit_to_continue E s j cl")
    obtain cv cd where "s1 = s\<lparr>commit_values := cv, is_commit_delivered := cd\<rparr>"
    proof
      show "s1 = s\<lparr>commit_values := commit_values s1, is_commit_delivered := is_commit_delivered s1\<rparr>"
        using 1 by (simp add: commit_to_continue_def Let_def split: if_splits) auto
    qed
    then have s1: "vaba_inv E X s1" "queues_ok X s1" "outputs_ok E X s1"
      using i unfolding vaba_inv_def voting_ok_def
      by (simp_all add: vaba_ok_defs split: vaba_phase.splits)
    have "s' = s1 \<or> s' = s1\<lparr>b_phase := WaitPermutation\<rparr>"
      using h COMMIT_OUT False 1 by (auto split: if_splits)
    then show ?thesis using s1 by (auto simp: vaba_inv_def vaba_ok_defs)
  qed
  ultimately show ?thesis by simp
next
  case (PERMUTED pi)
  show ?thesis
  proof (cases "b_phase s = WaitPermutation")
    case True
    then have "start_round E (s\<lparr>b_pi := pi, b_r := 0\<rparr>) = (s', outs, c)" using h PERMUTED by simp
    then show ?thesis
      using start_round_ok [of X "s\<lparr>b_pi := pi, b_r := 0\<rparr>" E] i e n PERMUTED
      by (simp add: vaba_inv_def vaba_ok_defs)
  next
    case False
    then show ?thesis using h PERMUTED i by auto
  qed
next
  case (VABA_VOTE r q v)
  define s1 where "s1 = s\<lparr>vote_recvs := (vote_recvs s)(r := vote_recvs s r @ [(q, v)])\<rparr>"
  have q: "queues_ok X s1" if "queues_ok X s" using that e VABA_VOTE by (auto simp: queues_ok_def s1_def)
  show ?thesis
  proof (cases "b_phase s = Voting \<and> r = b_r s")
    case True
    then have "vote_loop E s1 = (s', outs, c)" using h VABA_VOTE by (simp add: s1_def)
    moreover have "voting_ok E X s1"
      using i True q unfolding vaba_inv_def voting_ok_def by (simp add: s1_def outputs_ok_def round_ok_def)
    ultimately show ?thesis using vote_loop_ok by blast
  next
    case False
    then have "s' = s1" "c = Running" using h VABA_VOTE by (auto simp: s1_def Let_def)
    moreover have "vaba_inv E X s1"
      using i q unfolding vaba_inv_def voting_ok_def by (auto simp: s1_def outputs_ok_def round_ok_def split: vaba_phase.splits)
    ultimately show ?thesis by simp
  qed
next
  case (VABA_ABA_OUT r b)
  show ?thesis
  proof (cases "b_phase s = WaitAba \<and> r = b_r s")
    case True
    show ?thesis
    proof (cases "b = 1")
      case True
      then have "output_value s = (s', outs, c)"
        using h VABA_ABA_OUT \<open>b_phase s = WaitAba \<and> r = b_r s\<close> by simp
      with output_value_ok [of X s E] vaba_invD [OF i] e VABA_ABA_OUT True
        \<open>b_phase s = WaitAba \<and> r = b_r s\<close> show ?thesis by simp
    next
      case False
      then have "start_round E (s\<lparr>b_r := b_r s + 1\<rparr>) = (s', outs, c)"
        using h VABA_ABA_OUT True by simp
      moreover have "round_ok X (s\<lparr>b_r := b_r s + 1\<rparr>)"
        using i e VABA_ABA_OUT True False by (auto simp: vaba_inv_def round_ok_def less_Suc_eq)
      ultimately show ?thesis
        using start_round_ok [of X "s\<lparr>b_r := b_r s + 1\<rparr>" E] i n by (simp add: vaba_inv_def queues_ok_def outputs_ok_def)
    qed
  next
    case False
    then show ?thesis using h VABA_ABA_OUT i by auto
  qed
qed

lemma vaba_run_ok:
  "vaba_inv E X s \<Longrightarrow> set es \<subseteq> X \<Longrightarrow> 0 < bN E - bf E \<Longrightarrow>
    run_loop (validatedagreement E) s es = (s', outs, Returned m) \<Longrightarrow> vaba_result E X m"
proof (induction es arbitrary: s outs)
  case Nil
  then show ?case by simp
next
  case (Cons e es)
  obtain s1 o1 c1 where h: "validatedagreement E s e = (s1, o1, c1)" by (cases "validatedagreement E s e")
  have "e \<in> X" using Cons.prems(2) by simp
  note s1 = vaba_step_ok [OF Cons.prems(1) this Cons.prems(3) h]
  show ?case
  proof (cases c1)
    case Running
    then obtain o2 where "run_loop (validatedagreement E) s1 es = (s', o2, Returned m)"
      using Cons.prems(4) h by (auto split: prod.splits)
    then show ?thesis using Cons.IH [of s1 o2] s1 Running Cons.prems(2,3) by simp
  qed (use Cons.prems(4) h s1 in simp_all)
qed

lemma vaba_init_inv: "vaba_inv E X (vaba_init E)"
  by (simp add: vaba_inv_def vaba_init_def vaba_ok_defs)

end
