(* ===== verification/CBC.thy ===== *)
theory CBC
  imports Certs
begin

text \<open>
  \<open>consistentbroadcast\<close> of \<open>src/dumbobft/core/consistentbroadcast.py\<close>: the leader's send and
  the receive loop, one definition per message tag; the fields of \<open>cbc_state\<close> are the local variables
  \<open>m\<close>, \<open>digestFromLeader\<close>, \<open>finalSent\<close> and \<open>cbc_echo_sshares\<close>. The sender of a message indexes
  \<open>PK2s\<close>; an index a Byzantine leader puts into a certificate may be out of range, which raises
  \<open>IndexError\<close> past the handler's \<open>except AssertionError\<close>.
\<close>

section \<open>Model\<close>

record ('k, 'd, 'g, 's, 'v) cbc_env = "('k, 'd, 'g) pki" +
  bleader :: nat
  bsid :: 's
  bhash :: "'s \<times> 'v \<Rightarrow> 'd"

datatype ('v, 'g) cbc_msg =
    CBC_SEND 'v
  | CBC_ECHO 'g
  | CBC_FINAL 'v "'g sigmas"

record ('v, 'd, 'g) cbc_state =
  cb_m :: "'v option"
  cb_digest :: "'d option"
  cb_final :: bool
  cb_shares :: "(nat, 'g) odict"

definition cbc_init :: "('v, 'd, 'g) cbc_state" where
  "cbc_init = \<lparr>cb_m = None, cb_digest = None, cb_final = False, cb_shares = []\<rparr>"

type_synonym ('v, 'd, 'g) cbc_reply =
  "(('v, 'd, 'g) cbc_state, ('v, 'g) cbc_msg, 'v \<times> 'g sigmas) reply"

definition cbc_start :: "('k, 'd, 'g, 's, 'v) cbc_env \<Rightarrow> nat \<Rightarrow> 'v \<Rightarrow>
    ('v, 'd, 'g) cbc_state \<times> ('v, 'g) cbc_msg out list" where
  "cbc_start E pid m =
     (if pid = bleader E then
        let d = bhash E (bsid E, m) in
          (cbc_init\<lparr>cb_m := Some m, cb_digest := Some d, cb_shares := od_set pid (ksgn E pid d) []\<rparr>,
           [Send (-1) (CBC_SEND m)])
      else (cbc_init, []))"

definition cbc_send :: "('k, 'd, 'g, 's, 'v) cbc_env \<Rightarrow> nat \<Rightarrow> ('v, 'd, 'g) cbc_state \<Rightarrow> nat \<Rightarrow> 'v \<Rightarrow>
    ('v, 'd, 'g) cbc_reply" where
  "cbc_send E pid s j m =
     (let s1 = s\<lparr>cb_m := Some m\<rparr> in
      if j \<noteq> bleader E then stay s1
      else let d = bhash E (bsid E, m) in
        (s1\<lparr>cb_digest := Some d\<rparr>, [Send (int (bleader E)) (CBC_ECHO (ksgn E pid d))], Running))"

text \<open>The leader's certificate; its \<open>m\<close> is set before the loop starts.\<close>

definition cbc_echo :: "('k, 'd, 'g, 's, 'v) cbc_env \<Rightarrow> nat \<Rightarrow> ('v, 'd, 'g) cbc_state \<Rightarrow> nat \<Rightarrow> 'g \<Rightarrow>
    ('v, 'd, 'g) cbc_reply" where
  "cbc_echo E pid s j sig =
     (if pid \<noteq> bleader E then stay s
      else case share_ok E (cb_digest s) j sig of
        Inl e \<Rightarrow> (s, [], Raised e)
      | Inr ok \<Rightarrow>
          if \<not> ok then stay s
          else let s1 = s\<lparr>cb_shares := od_set j sig (cb_shares s)\<rparr> in
            if kN E - kf E \<le> length (cb_shares s1) \<and> \<not> cb_final s1
            then (case cb_m s1 of
                    None \<Rightarrow> stay s1
                  | Some m \<Rightarrow>
                      (s1\<lparr>cb_final := True\<rparr>,
                       [Send (-1) (CBC_FINAL m (map (\<lambda>(i, g). (int i, g))
                          (take (kN E - kf E) (cb_shares s1))))],
                       Running))
            else stay s1)"

definition cbc_final :: "('k, 'd, 'g, 's, 'v) cbc_env \<Rightarrow> ('v, 'd, 'g) cbc_state \<Rightarrow> nat \<Rightarrow> 'v \<Rightarrow>
    'g sigmas \<Rightarrow> ('v, 'd, 'g) cbc_reply" where
  "cbc_final E s j m sigmas =
     (if j \<noteq> bleader E then stay s
      else let s1 = s\<lparr>cb_m := Some m\<rparr> in
        case check_cert E (bhash E (bsid E, m)) sigmas of
          Inr u \<Rightarrow> (s1, [], Returned (m, sigmas))
        | Inl AssertionError \<Rightarrow> stay s1
        | Inl e \<Rightarrow> (s1, [], Raised e))"

fun cbc_step :: "('k, 'd, 'g, 's, 'v) cbc_env \<Rightarrow> nat \<Rightarrow> ('v, 'd, 'g) cbc_state \<Rightarrow>
    nat \<times> ('v, 'g) cbc_msg \<Rightarrow> ('v, 'd, 'g) cbc_reply" where
  "cbc_step E pid s (j, CBC_SEND m) =
     (if cb_digest s = None then cbc_send E pid s j m else stay s)"
| "cbc_step E pid s (j, CBC_ECHO sig) = cbc_echo E pid s j sig"
| "cbc_step E pid s (j, CBC_FINAL m sigmas) = cbc_final E s j m sigmas"

lemmas cbc_defs = cbc_send_def cbc_echo_def cbc_final_def Let_def

section \<open>What a call changes\<close>

lemma cbc_returned:
  assumes "cbc_step E pid s (j, m) = (s', outs, Returned (v, c))"
  shows "check_cert E (bhash E (bsid E, v)) c = Inr () \<and> m = CBC_FINAL v c \<and> j = bleader E"
  using assms
  by (cases m) (auto simp: cbc_defs split: if_splits sum.splits py_error.splits option.splits)

lemma cbc_digest_stable:
  "cbc_step E pid s (j, m) = (s', outs, k) \<Longrightarrow> cb_digest s = Some d \<Longrightarrow> cb_digest s' = Some d"
  by (cases m) (auto simp: cbc_defs split: if_splits sum.splits py_error.splits option.splits)

lemma cbc_echo_sent:
  "cbc_step E pid s (j, m) = (s', outs, k) \<Longrightarrow> CBC_ECHO g \<in> out_msg ` set outs \<Longrightarrow>
     \<exists>d. cb_digest s' = Some d \<and> g = ksgn E pid d"
  by (cases m) (auto simp: cbc_defs split: if_splits sum.splits py_error.splits option.splits)

lemma cbc_final_sent:
  "cbc_step E pid s (j, m) = (s', outs, k) \<Longrightarrow> CBC_FINAL v c \<in> out_msg ` set outs \<Longrightarrow>
     pid = bleader E \<and> cb_m s = Some v \<and> cb_m s' = Some v"
  by (cases m) (auto simp: cbc_defs split: if_splits sum.splits py_error.splits option.splits)

section \<open>Nodes sign one digest\<close>

text \<open>A signature that a node has sent is its signature on the digest it holds.\<close>

definition echo_signed :: "('k, 'd, 'g, 's, 'v) cbc_env \<Rightarrow> nat \<Rightarrow> ('v, 'd, 'g) cbc_state \<Rightarrow>
    ('v, 'g) cbc_msg \<Rightarrow> bool" where
  "echo_signed E p s m \<longleftrightarrow>
     (\<forall>g. m = CBC_ECHO g \<longrightarrow> (\<exists>d. cb_digest s = Some d \<and> g = ksgn E p d))"

definition cbc_cfg :: "('k, 'd, 'g, 's, 'v) cbc_env \<Rightarrow> nat set \<Rightarrow> cfg" where
  "cbc_cfg E B = \<lparr>cN = kN E, cf = kf E, cbyz = B\<rparr>"

interpretation cbc_sig: sender_invariant "cbc_cfg E B" "cbc_step E" "\<lambda>_ _. True" "\<lambda>_ _. True" "echo_signed E"
  for E :: "('k, 'd, 'g, 's, 'v) cbc_env" and B
proof (unfold_locales, goal_cases)
  case (3 p s q m s' outs k m')
  then show ?case
    using cbc_digest_stable [of E p s q m s' outs k] by (auto simp: echo_signed_def)
next
  case (4 p s q m s' outs k m')
  then show ?case
    unfolding echo_signed_def by (blast dest: cbc_echo_sent)
qed simp

section \<open>Networks\<close>

definition cbc_initial :: "('k, 'd, 'g, 's, 'v) cbc_env \<Rightarrow> nat set \<Rightarrow> 'v \<Rightarrow>
    (('v, 'd, 'g) cbc_state, ('v, 'g) cbc_msg, 'v \<times> 'g sigmas) sys" where
  "cbc_initial E B m =
     start_sys (\<lambda>p. fst (cbc_start E p m))
       (if bleader E \<in> B then {} else routed (kN E) (bleader E) (snd (cbc_start E (bleader E) m)))"

definition cbc_reachable :: "('k, 'd, 'g, 's, 'v) cbc_env \<Rightarrow> nat set \<Rightarrow> 'v \<Rightarrow>
    (('v, 'd, 'g) cbc_state, ('v, 'g) cbc_msg, 'v \<times> 'g sigmas) sys \<Rightarrow> bool" where
  "cbc_reachable E B m s = reaches (cbc_cfg E B) (cbc_step E) (cbc_initial E B m) s"

text \<open>
  Unforgeability, for one certificate in one state: a signature under a correct node's key was made
  by that node, in an \<open>ECHO\<close> or as the leader's own share, and verifies for the digest signed only.
\<close>

definition cbc_made :: "('k, 'd, 'g, 's, 'v) cbc_env \<Rightarrow>
    (('v, 'd, 'g) cbc_state, ('v, 'g) cbc_msg, 'r) sys \<Rightarrow> nat \<Rightarrow> 'g \<Rightarrow> bool" where
  "cbc_made E s q g \<longleftrightarrow> (q, bleader E, CBC_ECHO g) \<in> net s \<or>
     q = bleader E \<and> (case cb_digest (loc s q) of Some d \<Rightarrow> g = ksgn E q d | None \<Rightarrow> False)"

definition cbc_unforged :: "('k, 'd, 'g, 's, 'v) cbc_env \<Rightarrow> nat set \<Rightarrow>
    (('v, 'd, 'g) cbc_state, ('v, 'g) cbc_msg, 'r) sys \<Rightarrow> 'g sigmas \<Rightarrow> bool" where
  "cbc_unforged E B s c \<longleftrightarrow> cert_made (kN E) B (cbc_made E s) c"

lemma cbc_made_signed:
  assumes "cbc_reachable E B m0 s" and "cbc_made E s q g" and "q \<notin> B"
  shows "\<exists>d. cb_digest (loc s q) = Some d \<and> g = ksgn E q d"
proof -
  have "\<forall>(q, p, m) \<in> net (cbc_initial E B m0).
      q \<notin> cbyz (cbc_cfg E B) \<longrightarrow> True \<and> echo_signed E q (loc (cbc_initial E B m0) q) m"
    by (auto simp: cbc_initial_def start_sys_def cbc_start_def echo_signed_def Let_def routed_iff
        split: if_splits)
  note sent = cbc_sig.reach_msg(2) [OF assms(1) [unfolded cbc_reachable_def] _ this]
  show ?thesis
  proof (cases "(q, bleader E, CBC_ECHO g) \<in> net s")
    case True
    from sent [OF _ this] assms(3) show ?thesis by (simp add: cbc_cfg_def echo_signed_def)
  next
    case False
    then show ?thesis
      using assms(2) by (auto simp: cbc_made_def split: option.splits)
  qed
qed

lemma cbc_cert_signed:
  assumes "cbc_reachable E B m0 s" and "length (kpks E) = kN E" and "check_cert E d c = Inr ()"
    and "cbc_unforged E B s c" and "signs_bind E B (\<lambda>q d'. cb_digest (loc s q) = Some d') {d}"
  shows "\<forall>q \<in> cert_signers (kN E) c - B. cb_digest (loc s q) = Some d"
  by (rule cert_signed [OF assms(3,2) assms(4) [unfolded cbc_unforged_def] assms(5)])
    (use cbc_made_signed [OF assms(1)] in blast)

section \<open>Agreement and validity\<close>

lemma cbc_agreement_aux:
  assumes "wf_cfg (cbc_cfg E B)" and "length (kpks E) = kN E" and "cbc_reachable E B m0 s"
    and "ended s p = Returned (v, c)" and "ended s p' = Returned (v', c')"
    and "distinct_signers (kN E) c" and "distinct_signers (kN E) c'"
    and "cbc_unforged E B s c" and "cbc_unforged E B s c'"
    and "signs_bind E B (\<lambda>q d. cb_digest (loc s q) = Some d) {bhash E (bsid E, v), bhash E (bsid E, v')}"
    and "bhash E (bsid E, v) = bhash E (bsid E, v') \<longrightarrow> v = v'"
  shows "v = v'"
proof -
  have cert: "check_cert E (bhash E (bsid E, v)) c = Inr ()" if "ended s p = Returned (v, c)" for p v c
    using reaches_returned [of "cbc_cfg E B" "cbc_step E" "\<lambda>p. fst (cbc_start E p m0)" _ s p "(v, c)"
        "\<lambda>(v, c). check_cert E (bhash E (bsid E, v)) c = Inr ()"] that assms(3) cbc_returned
    unfolding cbc_reachable_def cbc_initial_def by fast
  have acc: "accepted_cert (E, B) (bhash E (bsid E, v)) c" "accepted_cert (E, B) (bhash E (bsid E, v')) c'"
    using cert assms(2,4-7) by (simp_all add: accepted_cert_def)
  have cfg: "pki_cfg (E, B) = cbc_cfg E B" by (simp add: pki_cfg_def cbc_cfg_def)
  let ?signed = "\<lambda>q d. cb_digest (loc s q) = Some d"
  have binds: "signs_bind E B ?signed {bhash E (bsid E, v)}" "signs_bind E B ?signed {bhash E (bsid E, v')}"
    using assms(10) by (auto simp: signs_bind_def)
  have "bhash E (bsid E, v) = bhash E (bsid E, v')"
    using ecdsa.certificates_agree [of "(E, B)" _ c _ c' "\<lambda>q. cb_digest (loc s q)", OF _ acc]
      cbc_cert_signed [OF assms(3,2) cert [OF assms(4)] assms(8) binds(1)]
      cbc_cert_signed [OF assms(3,2) cert [OF assms(5)] assms(9) binds(2)] assms(1) cfg
    by (simp add: cbc_cfg_def)
  then show ?thesis using assms(11) by blast
qed

text \<open>A correct leader keeps its input and sends nothing else.\<close>

definition leader_keeps :: "('k, 'd, 'g, 's, 'v) cbc_env \<Rightarrow> nat set \<Rightarrow> 'v \<Rightarrow> nat \<Rightarrow>
    ('v, 'd, 'g) cbc_state \<Rightarrow> bool" where
  "leader_keeps E B v p s \<longleftrightarrow>
     (p = bleader E \<and> p \<notin> B \<longrightarrow> cb_m s = Some v \<and> cb_digest s \<noteq> None)"

definition leader_sends :: "('k, 'd, 'g, 's, 'v) cbc_env \<Rightarrow> nat set \<Rightarrow> 'v \<Rightarrow> nat \<Rightarrow> ('v, 'g) cbc_msg \<Rightarrow> bool" where
  "leader_sends E B v p m \<longleftrightarrow>
     (p = bleader E \<and> p \<notin> B \<longrightarrow> (case m of CBC_FINAL v' c \<Rightarrow> v' = v | _ \<Rightarrow> True))"

interpretation cbc_lead: sender_invariant "cbc_cfg E B" "cbc_step E" "leader_keeps E B v"
  "leader_sends E B v" "\<lambda>_ _ _. True"
  for E :: "('k, 'd, 'g, 's, 'v) cbc_env" and B v
proof (unfold_locales, goal_cases)
  case (1 p s q m s' outs k)
  then show ?case
    by (cases m) (auto simp: leader_keeps_def leader_sends_def cbc_cfg_def cbc_defs
        split: if_splits sum.splits py_error.splits option.splits)
next
  case (2 p s q m s' outs k m')
  have "v' = v" if "m' = CBC_FINAL v' c" "p = bleader E" "p \<notin> B" for v' c
    using cbc_final_sent [OF 2(3), of v' c] that 2(1,4) by (simp add: leader_keeps_def)
  then show ?case by (auto simp: leader_sends_def split: cbc_msg.splits)
qed simp_all

lemma cbc_validity_aux:
  assumes "cbc_reachable E B m0 s" and "bleader E \<notin> B" and "ended s p = Returned (v, c)"
  shows "v = m0"
proof -
  have "\<forall>p. leader_keeps E B m0 p (loc (cbc_initial E B m0) p)"
    by (simp add: cbc_initial_def start_sys_def cbc_start_def leader_keeps_def Let_def)
  moreover have "\<forall>(q, p, m) \<in> net (cbc_initial E B m0). q \<notin> cbyz (cbc_cfg E B) \<longrightarrow>
      leader_sends E B m0 q m \<and> True"
    by (auto simp: cbc_initial_def start_sys_def cbc_start_def leader_sends_def Let_def routed_iff
        split: if_splits)
  moreover have "\<forall>p. ended (cbc_initial E B m0) p = Running"
    by (simp add: cbc_initial_def ini_ended)
  ultimately have "(case x of (v, c) \<Rightarrow> v = m0)" if "ended s p = Returned x" for x
  proof (rule cbc_lead.reach_returned [OF assms(1) [unfolded cbc_reachable_def]])
    fix p l q m l' outs x
    assume *: "q \<notin> cbyz (cbc_cfg E B) \<longrightarrow> leader_sends E B m0 q m"
      "cbc_step E p l (q, m) = (l', outs, Returned x)"
    obtain v c where x: "x = (v, c)" by (cases x)
    have "m = CBC_FINAL v c" "q = bleader E"
      using cbc_returned [of E p l q m l' outs v c] *(2) x by auto
    then show "case x of (v, c) \<Rightarrow> v = m0"
      using *(1) assms(2) by (simp add: leader_sends_def cbc_cfg_def x)
  qed (rule that)
  then show ?thesis using assms(3) by fastforce
qed

section \<open>The leader completes\<close>

definition valid_echoers :: "('k, 'd, 'g, 's, 'v) cbc_env \<Rightarrow> 'd \<Rightarrow> (nat \<times> ('v, 'g) cbc_msg) set \<Rightarrow> nat set" where
  "valid_echoers E d M =
     fst ` Set.filter (\<lambda>(j, m). case m of CBC_ECHO g \<Rightarrow> kvr E (kpks E ! j) d g | _ \<Rightarrow> False) M"

definition final_sent :: "('k, 'd, 'g, 's, 'v) cbc_env \<Rightarrow> 'v \<Rightarrow> ('v, 'g) cbc_msg set \<Rightarrow> bool" where
  "final_sent E m ms \<longleftrightarrow>
     (\<exists>c. CBC_FINAL m c \<in> ms \<and> cbc_validate E (bhash E) (bsid E) m c \<and> distinct_signers (kN E) c)"

definition collecting :: "('k, 'd, 'g, 's, 'v) cbc_env \<Rightarrow> 'v \<Rightarrow> (nat \<times> ('v, 'g) cbc_msg) set \<Rightarrow>
    ('v, 'g) cbc_msg set \<Rightarrow> ('v, 'd, 'g) cbc_state \<Rightarrow> bool" where
  "collecting E v M ms s \<longleftrightarrow>
     (let d = bhash E (bsid E, v) in
       cb_m s = Some v \<and> cb_digest s = Some d \<and> shares_valid E d (cb_shares s) \<and>
       insert (bleader E) (valid_echoers E d M) \<subseteq> fst ` set (cb_shares s) \<and>
       (cb_final s \<longrightarrow> final_sent E v ms) \<and>
       (valid_echoers E d M \<noteq> {} \<longrightarrow> kN E - kf E \<le> length (cb_shares s) \<longrightarrow> cb_final s))"

text \<open>
  Messages that cannot end the leader's loop: no certificate from the leader itself and no bytes that
  coincurve cannot parse.
\<close>

definition collectable :: "('k, 'd, 'g, 's, 'v) cbc_env \<Rightarrow> nat \<times> ('v, 'g) cbc_msg \<Rightarrow> bool" where
  "collectable E e =
     (case e of (j, m) \<Rightarrow> j < kN E \<and>
        (case m of CBC_FINAL v c \<Rightarrow> j \<noteq> bleader E | CBC_ECHO g \<Rightarrow> \<not> kmal E g | CBC_SEND v \<Rightarrow> True))"

lemma valid_echoers_insert:
  "valid_echoers E d (insert (j, m) M) =
    (case m of CBC_ECHO g \<Rightarrow> if kvr E (kpks E ! j) d g then insert j (valid_echoers E d M)
       else valid_echoers E d M | _ \<Rightarrow> valid_echoers E d M)"
proof -
  have "Set.filter P (insert x M) = (if P x then insert x (Set.filter P M) else Set.filter P M)" for P x
    by auto
  then show ?thesis
    by (auto simp: valid_echoers_def split: cbc_msg.splits)
qed

lemma final_sent_mono: "final_sent E v ms \<Longrightarrow> final_sent E v (ms \<union> ms')"
  by (auto simp: final_sent_def)

lemma collecting_share:
  assumes c: "collecting E v M ms s" and len: "length (kpks E) = kN E" and j: "j < kN E"
    and mal: "\<not> kmal E g"
    and h: "cbc_echo E (bleader E) s j g = (s', outs, k)"
  shows "k = Running \<and> collecting E v (insert (j, CBC_ECHO g) M) (ms \<union> out_msg ` set outs) s'"
proof -
  define d where "d = bhash E (bsid E, v)"
  note col = c [unfolded collecting_def, folded d_def, unfolded Let_def]
  have ok: "share_ok E (cb_digest s) j g = Inr (kvr E (kpks E ! j) d g)"
    using share_ok_valid [OF len j] col mal by (simp add: d_def)
  show ?thesis
  proof (cases "kvr E (kpks E ! j) d g")
    case False
    then have "s' = s \<and> outs = [] \<and> k = Running"
      using h ok by (auto simp: cbc_echo_def)
    then show ?thesis
      using c False by (simp add: collecting_def valid_echoers_insert d_def)
  next
    case True
    define sh where "sh = od_set j g (cb_shares s)"
    have val: "shares_valid E d sh"
      unfolding sh_def by (rule shares_valid_set [OF _ j True]) (use col in \<open>simp add: d_def\<close>)
    have keys: "fst ` set sh = insert j (fst ` set (cb_shares s))"
      by (simp add: sh_def od_set_keys)
    show ?thesis
    proof (cases "kN E - kf E \<le> length sh \<and> \<not> cb_final s")
      case send: True
      let ?c = "map (\<lambda>(i, g). (int i, g)) (take (kN E - kf E) sh)"
      from h have *: "s' = s\<lparr>cb_shares := sh, cb_final := True\<rparr> \<and> outs = [Send (-1) (CBC_FINAL v ?c)] \<and>
          k = Running"
        using ok True send col by (auto simp: cbc_echo_def Let_def sh_def)
      have "check_cert E d ?c = Inr ()" "distinct_signers (kN E) ?c"
        using collected_cert [OF val _ len] send by simp_all
      then have "final_sent E v (out_msg ` set outs)"
        using * by (auto simp: final_sent_def cbc_validate_def d_def)
      then show ?thesis
        using * col val keys final_sent_mono [of E v "out_msg ` set outs" ms]
        by (auto simp: collecting_def d_def valid_echoers_insert True Un_commute)
    next
      case False
      from h have *: "s' = s\<lparr>cb_shares := sh\<rparr> \<and> outs = [] \<and> k = Running"
        using ok True False by (auto simp: cbc_echo_def Let_def sh_def)
      then show ?thesis
        using col val keys False by (auto simp: collecting_def d_def valid_echoers_insert True)
    qed
  qed
qed

lemma collecting_run:
  assumes "collecting E v M ms s" and "length (kpks E) = kN E"
    and "\<forall>e \<in> set es. collectable E e"
    and "run_loop (cbc_step E (bleader E)) s es = (s', outs, k)"
  shows "k = Running \<and> collecting E v (M \<union> set es) (ms \<union> out_msg ` set outs) s'"
  using assms(1,3,4)
proof (induction es arbitrary: M ms s outs)
  case Nil
  then show ?case by simp
next
  case (Cons e es)
  obtain j m where e: "e = (j, m)" by (cases e)
  obtain s1 o1 k1 where h: "cbc_step E (bleader E) s (j, m) = (s1, o1, k1)"
    by (cases "cbc_step E (bleader E) s (j, m)")
  have 1: "k1 = Running \<and> collecting E v (insert (j, m) M) (ms \<union> out_msg ` set o1) s1"
  proof (cases m)
    case (CBC_SEND x)
    then have "s1 = s \<and> o1 = [] \<and> k1 = Running"
      using h Cons.prems(1) by (auto simp: collecting_def Let_def)
    then show ?thesis
      using Cons.prems(1) CBC_SEND by (simp add: collecting_def valid_echoers_insert)
  next
    case (CBC_ECHO g)
    then show ?thesis
      using collecting_share [OF Cons.prems(1) assms(2), of j g s1 o1 k1] h Cons.prems(2) e
      by (simp add: collectable_def)
  next
    case (CBC_FINAL x c)
    then have "s1 = s \<and> o1 = [] \<and> k1 = Running"
      using h Cons.prems(2) e by (auto simp: cbc_final_def collectable_def)
    then show ?thesis
      using Cons.prems(1) CBC_FINAL by (simp add: collecting_def valid_echoers_insert)
  qed
  then obtain outs' where run: "run_loop (cbc_step E (bleader E)) s1 es = (s', outs', k)"
    "outs = o1 @ outs'"
    using Cons.prems(3) h e by (auto split: prod.splits)
  have sets: "insert (j, m) M \<union> set es = M \<union> set (e # es)"
    "ms \<union> out_msg ` set o1 \<union> out_msg ` set outs' = ms \<union> out_msg ` set outs"
    by (auto simp: e run(2))
  have "k = Running \<and> collecting E v (insert (j, m) M \<union> set es)
      (ms \<union> out_msg ` set o1 \<union> out_msg ` set outs') s'"
    by (rule Cons.IH [OF _ _ run(1)]) (use 1 Cons.prems(2) in simp_all)
  then show ?case by (simp only: sets)
qed

lemma cbc_completes_aux:
  assumes "length (kpks E) = kN E" and "bleader E < kN E"
    and "kvr E (kpks E ! bleader E) (bhash E (bsid E, v)) (ksgn E (bleader E) (bhash E (bsid E, v)))"
    and "\<forall>e \<in> set es. collectable E e"
    and "valid_echoers E (bhash E (bsid E, v)) (set es) \<noteq> {}"
    and "kN E - kf E \<le> card (insert (bleader E) (valid_echoers E (bhash E (bsid E, v)) (set es)))"
    and "run_loop (cbc_step E (bleader E)) (fst (cbc_start E (bleader E) v)) es = (s, outs, k)"
  shows "k = Running \<and> final_sent E v (out_msg ` set outs)"
proof -
  let ?d = "bhash E (bsid E, v)"
  let ?s0 = "fst (cbc_start E (bleader E) v)"
  have "collecting E v {} {} ?s0"
    using assms(2,3) by (auto simp: collecting_def cbc_start_def Let_def shares_valid_def valid_echoers_def)
      (simp add: cbc_init_def)
  from collecting_run [OF this assms(1,4,7)]
  have k: "k = Running" and col: "collecting E v (set es) (out_msg ` set outs) s" by simp_all
  have "insert (bleader E) (valid_echoers E ?d (set es)) \<subseteq> fst ` set (cb_shares s)"
    using col by (simp add: collecting_def Let_def)
  then have "card (insert (bleader E) (valid_echoers E ?d (set es))) \<le> card (fst ` set (cb_shares s))"
    by (rule card_mono [rotated]) simp
  also have "\<dots> \<le> length (cb_shares s)"
    by (metis card_length length_map list.set_map)
  finally have "cb_final s"
    using col assms(5,6) by (simp add: collecting_def Let_def)
  then show ?thesis using k col by (simp add: collecting_def Let_def)
qed

section \<open>Properties\<close>

text \<open>
  C6: Agreement of consistent broadcast. In any run with at most \<open>f\<close> Byzantine nodes, two correct
  nodes return the same value, provided the certificates they return have distinct signers and are
  unforged (the signatures under correct keys were made by those nodes, and bind the digest) and the
  two values' digests do not collide.
\<close>

theorem cbc_agreement:
  assumes "wf_cfg (cbc_cfg E B)" and "length (kpks E) = kN E" and "cbc_reachable E B m0 s"
    and "ended s p = Returned (v, c)" and "ended s p' = Returned (v', c')"
    and "distinct_signers (kN E) c" and "distinct_signers (kN E) c'"
    and "cbc_unforged E B s c" and "cbc_unforged E B s c'"
    and "signs_bind E B (\<lambda>q d. cb_digest (loc s q) = Some d) {bhash E (bsid E, v), bhash E (bsid E, v')}"
    and "bhash E (bsid E, v) = bhash E (bsid E, v') \<longrightarrow> v = v'"
  shows "v = v'"
  using assms by (rule cbc_agreement_aux)

text \<open>
  Validity of consistent broadcast. With a correct leader, a node returns the leader's input:
  this needs no assumption on signatures.
\<close>

theorem cbc_validity:
  assumes "cbc_reachable E B m0 s" and "bleader E \<notin> B" and "ended s p = Returned (v, c)"
  shows "v = m0"
  using assms by (rule cbc_validity_aux)

text \<open>
  The leader completes. Once the leader has received valid shares of \<open>N - f\<close> nodes counting
  itself, in any order and between any other messages that are no malformed signatures, it has
  broadcast a \<open>CBC_FINAL\<close> with its input whose certificate \<open>cbc_validate\<close> accepts and whose signers
  are distinct; its loop has not failed.
\<close>

theorem cbc_leader_completes:
  assumes "length (kpks E) = kN E" and "bleader E < kN E"
    and "kvr E (kpks E ! bleader E) (bhash E (bsid E, v)) (ksgn E (bleader E) (bhash E (bsid E, v)))"
    and "\<forall>e \<in> set es. collectable E e"
    and "valid_echoers E (bhash E (bsid E, v)) (set es) \<noteq> {}"
    and "kN E - kf E \<le> card (insert (bleader E) (valid_echoers E (bhash E (bsid E, v)) (set es)))"
    and "run_loop (cbc_step E (bleader E)) (fst (cbc_start E (bleader E) v)) es = (s, outs, k)"
  shows "k = Running \<and> final_sent E v (out_msg ` set outs)"
  using assms by (rule cbc_completes_aux)

text \<open>Four nodes, leader \<open>l\<close>; signatures carry a nonce, as ECDSA's do.\<close>

definition cbc_four :: "nat \<Rightarrow> (nat, bytes, nat \<times> bytes \<times> nat, nat, bytes) cbc_env" where
  "cbc_four l = \<lparr>kN = 4, kf = 1, kpks = [0, 1, 2, 3], kvr = (\<lambda>pk d g. fst g = pk \<and> fst (snd g) = d),
     kmal = (\<lambda>g. False), ksgn = (\<lambda>i d. (i, d, 0)), bleader = l, bsid = 9, bhash = ex_pair_hash\<rparr>"

definition one_signer_cert :: "bytes \<Rightarrow> (nat \<times> bytes \<times> nat) sigmas" where
  "one_signer_cert d = map (\<lambda>r. (3, (3, d, r))) [0, 1, 2]"

definition split_run :: "((bytes, bytes, nat \<times> bytes \<times> nat) cbc_state, (bytes, nat \<times> bytes \<times> nat) cbc_msg,
    bytes \<times> (nat \<times> bytes \<times> nat) sigmas) sys" where
  "split_run = deliver_all (cbc_cfg (cbc_four 3) {3}) (cbc_step (cbc_four 3))
     (forge_all (cbc_initial (cbc_four 3) {3} [0])
        [(3, 0, CBC_FINAL [1] (one_signer_cert [9, 1])), (3, 1, CBC_FINAL [2] (one_signer_cert [9, 2]))])
     [(3, 0, CBC_FINAL [1] (one_signer_cert [9, 1])), (3, 1, CBC_FINAL [2] (one_signer_cert [9, 2]))]"

text \<open>
  One malformed share stops the leader: any node can end the loop of \<open>consistentbroadcast\<close> at the
  leader with bytes that are no signature.
\<close>

lemma cbc_malformed_share:
  assumes "length (kpks E) = kN E" and "j < kN E" and "cb_digest s = Some d"
    and "kmal E g" and "\<not> kvr E (kpks E ! j) d g"
  shows "cbc_step E (bleader E) s (j, CBC_ECHO g) = (s, [], Raised ValueError)"
  using share_ok_malformed [OF assms(1,2,5,4)] assms(3) by (simp add: cbc_echo_def)

text \<open>
  Without distinct signers agreement fails. With four nodes of which one, the leader, is
  Byzantine, there is a run in which two correct nodes return different values from
  \<open>consistentbroadcast\<close>; the adversary forges no signature, it only signs several times itself.
\<close>

theorem cbc_one_signer_disagreement:
  "wf_cfg (cbc_cfg (cbc_four 3) {3}) \<and> cbc_reachable (cbc_four 3) {3} [0] split_run \<and>
   ended split_run 0 = Returned ([1], one_signer_cert [9, 1]) \<and>
   ended split_run 1 = Returned ([2], one_signer_cert [9, 2]) \<and>
   cbc_unforged (cbc_four 3) {3} split_run (one_signer_cert [9, 1]) \<and>
   cbc_unforged (cbc_four 3) {3} split_run (one_signer_cert [9, 2])"
proof (intro conjI)
  show "wf_cfg (cbc_cfg (cbc_four 3) {3})"
    by (simp add: wf_cfg_def cbc_cfg_def cbc_four_def)
  show "cbc_reachable (cbc_four 3) {3} [0] split_run"
    unfolding cbc_reachable_def split_run_def
    by (intro deliver_all_reaches forge_all_reaches reaches.start) (simp add: cbc_cfg_def)
qed code_simp+

section \<open>Witnesses\<close>

text \<open>Four nodes, leader 0, node 3 Byzantine; the leader's value \<open>[7]\<close> reaches nodes 1 and 2.\<close>

definition ex_cbc :: "(nat, bytes, nat \<times> bytes \<times> nat, nat, bytes) cbc_env" where
  "ex_cbc = cbc_four 0"

definition ex_cert :: "(nat \<times> bytes \<times> nat) sigmas" where
  "ex_cert = [(0, (0, [9, 7], 0)), (1, (1, [9, 7], 0)), (2, (2, [9, 7], 0))]"

definition ex_cbc_final :: "((bytes, bytes, nat \<times> bytes \<times> nat) cbc_state, (bytes, nat \<times> bytes \<times> nat) cbc_msg,
    bytes \<times> (nat \<times> bytes \<times> nat) sigmas) sys" where
  "ex_cbc_final = deliver_all (cbc_cfg ex_cbc {3}) (cbc_step ex_cbc) (cbc_initial ex_cbc {3} [7])
     [(0, 1, CBC_SEND [7]), (0, 2, CBC_SEND [7]), (1, 0, CBC_ECHO (1, [9, 7], 0)),
      (2, 0, CBC_ECHO (2, [9, 7], 0)), (0, 1, CBC_FINAL [7] ex_cert), (0, 2, CBC_FINAL [7] ex_cert)]"

lemma ex_cbc_reachable: "cbc_reachable ex_cbc {3} [7] ex_cbc_final"
  unfolding cbc_reachable_def ex_cbc_final_def by (rule deliver_all_reaches [OF reaches.start])

lemma ex_cbc_ended:
  "ended ex_cbc_final 1 = Returned ([7], ex_cert) \<and> ended ex_cbc_final 2 = Returned ([7], ex_cert)"
  by code_simp

lemma ex_cbc_unforged: "cbc_unforged ex_cbc {3} ex_cbc_final ex_cert"
  by code_simp

lemma ex_cbc_binds: "signs_bind ex_cbc B made D"
  by (auto simp: signs_bind_def ex_cbc_def cbc_four_def)

theorem cbc_agreement_witness: "ended ex_cbc_final 1 = Returned ([7], ex_cert) \<and> [7] = ([7] :: bytes)"
proof -
  have "wf_cfg (cbc_cfg ex_cbc {3})" "length (kpks ex_cbc) = kN ex_cbc"
    by (simp_all add: wf_cfg_def cbc_cfg_def ex_cbc_def cbc_four_def)
  moreover have "distinct_signers (kN ex_cbc) ex_cert" by code_simp
  ultimately show ?thesis
    using cbc_agreement [OF _ _ ex_cbc_reachable, of 1 "[7]" ex_cert 2 "[7]" ex_cert] ex_cbc_ended
      ex_cbc_unforged ex_cbc_binds by blast
qed

theorem cbc_validity_witness: "ended ex_cbc_final 2 = Returned ([7], ex_cert) \<and> [7] = ([7] :: bytes)"
proof -
  have "bleader ex_cbc \<notin> {3}" by (simp add: ex_cbc_def cbc_four_def)
  from cbc_validity [OF ex_cbc_reachable this, of 2 "[7]" ex_cert] ex_cbc_ended
  show ?thesis by simp
qed

theorem cbc_leader_completes_witness:
  "final_sent ex_cbc [7] (out_msg ` set (out_of (run_loop (cbc_step ex_cbc 0)
     (fst (cbc_start ex_cbc 0 [7]))
     [(3, CBC_ECHO (3, [8], 0)), (1, CBC_ECHO (1, [9, 7], 0)), (3, CBC_SEND [8]),
      (2, CBC_ECHO (2, [9, 7], 0))])))"
proof -
  let ?es = "[(3, CBC_ECHO (3, [8], 0)), (1, CBC_ECHO (1, [9, 7], 0)), (3, CBC_SEND [8]),
      (2, CBC_ECHO (2, [9, 7], 0))] :: (nat \<times> (bytes, nat \<times> bytes \<times> nat) cbc_msg) list"
  obtain s outs k where r: "run_loop (cbc_step ex_cbc 0) (fst (cbc_start ex_cbc 0 [7])) ?es = (s, outs, k)"
    by (cases "run_loop (cbc_step ex_cbc 0) (fst (cbc_start ex_cbc 0 [7])) ?es")
  have l: "bleader ex_cbc = 0" by (simp add: ex_cbc_def cbc_four_def)
  have "length (kpks ex_cbc) = kN ex_cbc" "bleader ex_cbc < kN ex_cbc"
    by (simp_all add: ex_cbc_def cbc_four_def)
  moreover have "kvr ex_cbc (kpks ex_cbc ! bleader ex_cbc) (bhash ex_cbc (bsid ex_cbc, [7]))
      (ksgn ex_cbc (bleader ex_cbc) (bhash ex_cbc (bsid ex_cbc, [7])))"
    by code_simp
  moreover have "\<forall>e \<in> set ?es. collectable ex_cbc e" by code_simp
  moreover have "valid_echoers ex_cbc (bhash ex_cbc (bsid ex_cbc, [7])) (set ?es) \<noteq> {}"
    by code_simp
  moreover have "kN ex_cbc - kf ex_cbc \<le> card (insert (bleader ex_cbc)
      (valid_echoers ex_cbc (bhash ex_cbc (bsid ex_cbc, [7])) (set ?es)))"
    by code_simp
  ultimately have "k = Running \<and> final_sent ex_cbc [7] (out_msg ` set outs)"
    by (rule cbc_leader_completes) (simp only: l r)
  then show ?thesis by (simp only: r fst_conv snd_conv)
qed

end
