(* ===== verification/VABA_Theorems.thy ===== *)
theory VABA_Theorems
  imports VABA CBC
begin

text \<open>
  The properties of \<open>validatedagreement\<close> over runs of consistent broadcast and binary agreement:
  agreement, and the failure of external validity.
\<close>

section \<open>Certificates of one broadcast\<close>

text \<open>
  A certificate that consistent broadcast accepts, with distinct signers and unforged signatures in the
  state \<open>s\<close> of its instance.
\<close>

definition cert_genuine ::
    "('k, 'd, 'g, 's, 'v) cbc_env \<Rightarrow> nat set \<Rightarrow> (('v, 'd, 'g) cbc_state, ('v, 'g) cbc_msg, 'v \<times> 'g sigmas) sys \<Rightarrow>
      'v \<Rightarrow> 'g sigmas \<Rightarrow> bool" where
  "cert_genuine E B s m c \<longleftrightarrow>
     check_cert E (bhash E (bsid E, m)) c = Inr () \<and> distinct_signers (kN E) c \<and> cbc_unforged E B s c \<and>
     signs_bind E B (\<lambda>q d. cb_digest (loc s q) = Some d) {bhash E (bsid E, m)}"

definition cbc_instance ::
    "('k, 'd, 'g, 's, 'v) cbc_env \<Rightarrow> nat set \<Rightarrow> 'v \<Rightarrow> (('v, 'd, 'g) cbc_state, ('v, 'g) cbc_msg, 'v \<times> 'g sigmas) sys \<Rightarrow>
      bool" where
  "cbc_instance E B m0 s \<longleftrightarrow>
     wf_cfg (cbc_cfg E B) \<and> length (kpks E) = kN E \<and> cbc_reachable E B m0 s"

lemma genuine_certs_agree:
  assumes i: "cbc_instance E B m0 s" and c: "cert_genuine E B s m c" and c': "cert_genuine E B s m' c'"
  shows "bhash E (bsid E, m) = bhash E (bsid E, m')"
proof -
  have acc: "accepted_cert (E, B) (bhash E (bsid E, m)) c" "accepted_cert (E, B) (bhash E (bsid E, m')) c'"
    using c c' i by (simp_all add: cert_genuine_def accepted_cert_def cbc_instance_def)
  have sg: "\<forall>q \<in> cert_signers (kN E) c - B. cb_digest (loc s q) = Some (bhash E (bsid E, m))"
    "\<forall>q \<in> cert_signers (kN E) c' - B. cb_digest (loc s q) = Some (bhash E (bsid E, m'))"
    using i c c' by (auto simp: cbc_instance_def cert_genuine_def intro!: cbc_cert_signed [THEN bspec])
  show ?thesis
    using ecdsa.certificates_agree [of "(E, B)" _ c _ c' "\<lambda>q. cb_digest (loc s q)", OF _ acc] sg i
    by (simp add: cbc_instance_def pki_cfg_def cbc_cfg_def)
qed

text \<open>Every certificate among the events is genuine in the instance of its leader.\<close>

definition genuine_events ::
    "(nat \<Rightarrow> ('k, 'd, 'g, 's, 'v) cbc_env) \<Rightarrow> nat set \<Rightarrow>
      (nat \<Rightarrow> (('v, 'd, 'g) cbc_state, ('v, 'g) cbc_msg, 'v \<times> 'g sigmas) sys) \<Rightarrow>
      ('v, 'g sigmas) vaba_env \<Rightarrow> ('v, 'g sigmas) vaba_event list \<Rightarrow> bool" where
  "genuine_events cE B cs E es \<longleftrightarrow>
     (\<forall>j m c. CBC_OUT j m c \<in> set es \<longrightarrow> cert_genuine (cE j) B (cs j) m c) \<and>
     (\<forall>r q j m c. VABA_VOTE r q (j, 1, Some (m, c)) \<in> set es \<longrightarrow> bcert E j m c \<longrightarrow> cert_genuine (cE j) B (cs j) m c)"

text \<open>
  The values of leader \<open>j\<close> that come with a certificate among the events, and the assumption on the
  hash: of these values no two have one digest.
\<close>

definition cert_values :: "nat \<Rightarrow> ('v, 'c) vaba_event list \<Rightarrow> 'v set" where
  "cert_values j es =
     {m. \<exists>c. CBC_OUT j m c \<in> set es \<or> (\<exists>r q. VABA_VOTE r q (j, 1, Some (m, c)) \<in> set es)}"

definition digests_apart :: "(nat \<Rightarrow> ('k, 'd, 'g, 's, 'v) cbc_env) \<Rightarrow> (nat \<Rightarrow> 'v set) \<Rightarrow> bool" where
  "digests_apart cE X \<longleftrightarrow> (\<forall>j. inj_on (\<lambda>m. bhash (cE j) (bsid (cE j), m)) (X j))"

lemma digests_apart_mono:
  "digests_apart cE X \<Longrightarrow> (\<And>j. Y j \<subseteq> X j) \<Longrightarrow> digests_apart cE Y"
  unfolding digests_apart_def by (meson inj_on_subset)

definition aba_events :: "(nat \<Rightarrow> ba_sys) \<Rightarrow> nat \<Rightarrow> ('v, 'g) vaba_event list \<Rightarrow> bool" where
  "aba_events bs p es \<longleftrightarrow> (\<forall>r b. VABA_ABA_OUT r b \<in> set es \<longrightarrow> ba_outputs (bs r) p b)"

lemma certified_genuine:
  assumes "genuine_events cE B cs E es" and "certified E (set es) j m"
  shows "(\<exists>c. cert_genuine (cE j) B (cs j) m c) \<and> m \<in> cert_values j es"
  using assms unfolding genuine_events_def certified_def cert_values_def by blast

lemma vaba_agreement_aux:
  assumes n: "bf E < bN E" "bf E' < bN E'"
    and aba: "\<forall>r. ba_instance (bc r) (bs r) \<and> p \<notin> fst (snd (bc r)) \<and> p' \<notin> fst (snd (bc r))"
    and ev: "aba_events bs p es" "aba_events bs p' es'"
    and perm: "\<forall>pi'. PERMUTED pi' \<in> set es \<union> set es' \<longrightarrow> pi' = pi"
    and cbc: "\<forall>j. cbc_instance (cE j) B (m0 j) (cs j)"
    and gen: "genuine_events cE B cs E es" "genuine_events cE B cs E' es'"
    and apart: "digests_apart cE (\<lambda>j. cert_values j es \<union> cert_values j es')"
    and ret: "ctl_of (run_loop (validatedagreement E) (vaba_init E) es) = Returned m"
      "ctl_of (run_loop (validatedagreement E') (vaba_init E') es') = Returned m'"
  shows "m = m'"
proof -
  have n': "0 < bN E - bf E" "0 < bN E' - bf E'" using n by simp_all
  have "vaba_result E (set es) m" "vaba_result E' (set es') m'"
    using vaba_run_ok [OF vaba_init_inv order_refl n'(1)] vaba_run_ok [OF vaba_init_inv order_refl n'(2)] ret
    by (metis prod.collapse)+
  then obtain r q r' q' where
    r: "VABA_ABA_OUT r 1 \<in> set es" "\<forall>i < r. \<exists>b. b \<noteq> 1 \<and> VABA_ABA_OUT i b \<in> set es"
      "PERMUTED q \<in> set es" "certified E (set es) (q ! r) m" and
    r': "VABA_ABA_OUT r' 1 \<in> set es'" "\<forall>i < r'. \<exists>b. b \<noteq> 1 \<and> VABA_ABA_OUT i b \<in> set es'"
      "PERMUTED q' \<in> set es'" "certified E' (set es') (q' ! r') m'"
    unfolding vaba_result_def by blast
  have agree: "b = b'" if "VABA_ABA_OUT i b \<in> set es" "VABA_ABA_OUT i b' \<in> set es'" for i b b'
    using ba_agreed.agree [of "bc i" "bs i" p p' b b'] aba ev that unfolding aba_events_def by blast
  have "\<not> r < r'" using r(1) r'(2) agree by blast
  moreover have "\<not> r' < r" using r'(1) r(2) agree by blast
  ultimately have "r' = r" by simp
  moreover have "q = pi" "q' = pi" using perm r(3) r'(3) by blast+
  ultimately have "certified E (set es) (pi ! r) m" "certified E' (set es') (pi ! r) m'" using r(4) r'(4) by simp_all
  then have "\<exists>c c'. cert_genuine (cE (pi ! r)) B (cs (pi ! r)) m c \<and> cert_genuine (cE (pi ! r)) B (cs (pi ! r)) m' c'"
    and "m \<in> cert_values (pi ! r) es" "m' \<in> cert_values (pi ! r) es'"
    using certified_genuine gen by metis+
  then show ?thesis
    using genuine_certs_agree [OF cbc [rule_format]] apart unfolding digests_apart_def inj_on_def by blast
qed

section \<open>Properties\<close>

text \<open>
  C20: Agreement of the multi-valued agreement. Two correct nodes that return from \<open>validatedagreement\<close>
  return one value, when the binary agreements are runs of \<open>baisedbinaryagreement\<close> with at most \<open>f\<close>
  Byzantine nodes, the coin gives both one permutation, the certificates they see are genuine (accepted
  by \<open>cbc_validate\<close>, with distinct signers, which it does not check, and unforged in the runs of
  \<open>consistentbroadcast\<close>), and no two of the certified values the two nodes see for one leader have the
  same digest.
\<close>

theorem vaba_agreement:
  assumes "bf E < bN E"
    and "\<forall>r. ba_instance (bc r) (bs r) \<and> p \<notin> fst (snd (bc r)) \<and> p' \<notin> fst (snd (bc r))"
    and "aba_events bs p es" and "aba_events bs p' es'"
    and "\<forall>pi'. PERMUTED pi' \<in> set es \<union> set es' \<longrightarrow> pi' = pi"
    and "\<forall>j. cbc_instance (cE j) B (m0 j) (cs j)"
    and "genuine_events cE B cs E es" and "genuine_events cE B cs E es'"
    and "digests_apart cE (\<lambda>j. cert_values j es \<union> cert_values j es')"
    and "ctl_of (run_loop (validatedagreement E) (vaba_init E) es) = Returned m"
    and "ctl_of (run_loop (validatedagreement E) (vaba_init E) es') = Returned m'"
  shows "m = m'"
  by (rule vaba_agreement_aux [OF assms(1) assms])

text \<open>
  Four nodes; node 3 is Byzantine and holds a genuine certificate for the value 66, which the predicate
  refuses. It votes for itself when it is the first of the permutation.
\<close>

definition bad_cert :: "(nat \<times> bytes \<times> nat) sigmas" where
  "bad_cert = map (\<lambda>i. (int i, (i, [9, 66], 0))) [0, 1, 3]"

definition ex_vaba :: "(bytes, (nat \<times> bytes \<times> nat) sigmas) vaba_env" where
  "ex_vaba = \<lparr>bN = 4, bf = 1, bpred = (\<lambda>m. m \<noteq> [66]),
     bcert = (\<lambda>j m c. case check_cert (cbc_four j) (bhash (cbc_four j) (bsid (cbc_four j), m)) c of
       Inr _ \<Rightarrow> True | Inl _ \<Rightarrow> False)\<rparr>"

definition cert_of :: "bytes \<Rightarrow> (nat \<times> bytes \<times> nat) sigmas" where
  "cert_of m = map (\<lambda>i. (int i, (i, 9 # m, 0))) [0, 1, 2]"

definition bad_events :: "(bytes, (nat \<times> bytes \<times> nat) sigmas) vaba_event list" where
  "bad_events =
     map (\<lambda>j. CBC_OUT j [7] (cert_of [7])) [0, 1, 2] @ map (\<lambda>j. COMMIT_OUT j [1, 1, 1, 0]) [0, 1, 2] @
     [PERMUTED [3, 1, 0, 2], VABA_VOTE 0 0 (3, 0, None), VABA_VOTE 0 3 (3, 1, Some ([66], bad_cert)),
      VABA_VOTE 0 1 (3, 0, None), VABA_ABA_OUT 0 1]"

text \<open>
  External validity fails. All broadcast outputs the node gets satisfy the predicate, the ballots of
  the other correct nodes are honest, and yet \<open>validatedagreement\<close> returns the value 66, which the
  predicate refuses: the vote loop checks the certificate of a ballot, not its value.
\<close>

theorem vaba_invalid_decision:
  "ctl_of (run_loop (validatedagreement ex_vaba) (vaba_init ex_vaba) bad_events) = Returned [66] \<and>
   \<not> bpred ex_vaba [66] \<and> bpred ex_vaba [7] \<and> list_all (\<lambda>j. bcert ex_vaba j [7] (cert_of [7])) [0, 1, 2] \<and>
   bcert ex_vaba 3 [66] bad_cert \<and> distinct_signers 4 bad_cert"
  by code_simp

section \<open>Witness\<close>

definition vote_run :: "'v \<Rightarrow> 'g \<Rightarrow> nat list \<Rightarrow> ('v, 'g) vaba_event list" where
  "vote_run m c js =
     map (\<lambda>j. CBC_OUT j m c) js @ map (\<lambda>j. COMMIT_OUT j [1, 1, 1, 0]) [0, 1, 2] @
     [PERMUTED [2, 1, 0, 3]] @ map (\<lambda>j. VABA_VOTE 0 j (2, 1, Some (m, c))) js @ [VABA_ABA_OUT 0 1]"

lemma vote_run_genuine:
  "cert_genuine cE B s m c \<Longrightarrow> genuine_events (\<lambda>_. cE) B (\<lambda>_. s) E (vote_run m c js)"
  by (auto simp: genuine_events_def vote_run_def)

lemma vote_run_values: "cert_values j (vote_run m c js) \<subseteq> {m}"
  by (auto simp: cert_values_def vote_run_def)

lemma vote_run_apart:
  "digests_apart cE (\<lambda>j. cert_values j (vote_run m c js) \<union> cert_values j (vote_run m c js'))"
  by (rule digests_apart_mono [of cE "\<lambda>_. {m}"]) (simp_all add: digests_apart_def vote_run_values)

lemma vote_run_aba:
  "p = 0 \<or> p = 1 \<Longrightarrow> aba_events (\<lambda>_. ex_ba_final) p (vote_run m c js)"
  using ex_ba_decided by (auto simp: aba_events_def vote_run_def ba_outputs_def)

lemma vote_run_perm: "PERMUTED pi \<in> set (vote_run m c js) \<Longrightarrow> pi = [2, 1, 0, 3]"
  by (auto simp: vote_run_def)

lemma ex_ba_instance: "ba_instance (ex_ba, {3}, \<lambda>_. 1) ex_ba_final"
  using ex_ba_wf ex_ba_reachable by (simp add: ba_instance_def)

abbreviation good_events :: "nat list \<Rightarrow> (bytes, (nat \<times> bytes \<times> nat) sigmas) vaba_event list" where
  "good_events \<equiv> vote_run [7] ex_cert"

lemma good_certs: "genuine_events (\<lambda>_. ex_cbc) {3} (\<lambda>_. ex_cbc_final) E (good_events js)"
proof -
  have "check_cert ex_cbc (bhash ex_cbc (bsid ex_cbc, [7])) ex_cert = Inr ()" "distinct_signers (kN ex_cbc) ex_cert"
    by code_simp+
  then have "cert_genuine ex_cbc {3} ex_cbc_final [7] ex_cert"
    using ex_cbc_unforged ex_cbc_binds by (simp add: cert_genuine_def)
  then show ?thesis by (rule vote_run_genuine)
qed

theorem vaba_agreement_witness: "([7] :: bytes) = [7]"
proof (rule vaba_agreement [where E = ex_vaba and bc = "\<lambda>_. (ex_ba, {3}, \<lambda>_. 1)" and bs = "\<lambda>_. ex_ba_final"
      and p = 0 and p' = 1 and es = "good_events [0, 1, 2]" and es' = "good_events [2, 0, 1]" and pi = "[2, 1, 0, 3]"
      and cE = "\<lambda>_. ex_cbc" and B = "{3}" and cs = "\<lambda>_. ex_cbc_final" and ?m0.0 = "\<lambda>_. [7]"])
  show "\<forall>r. ba_instance (ex_ba, {3}, \<lambda>_. 1) ex_ba_final \<and> (0::nat) \<notin> fst (snd (ex_ba, {3::nat}, \<lambda>_::nat. 1::nat)) \<and>
      (1::nat) \<notin> fst (snd (ex_ba, {3::nat}, \<lambda>_::nat. 1::nat))" using ex_ba_instance by simp
  show "aba_events (\<lambda>_. ex_ba_final) 0 (good_events [0, 1, 2])" "aba_events (\<lambda>_. ex_ba_final) 1 (good_events [2, 0, 1])"
    by (rule vote_run_aba, simp)+
  show "\<forall>j. cbc_instance ex_cbc {3} [7] ex_cbc_final"
    using ex_cbc_reachable
    by (simp add: cbc_instance_def wf_cfg_def cbc_cfg_def ex_cbc_def cbc_four_def)
  show "ctl_of (run_loop (validatedagreement ex_vaba) (vaba_init ex_vaba) (good_events [0, 1, 2])) = Returned [7]"
    "ctl_of (run_loop (validatedagreement ex_vaba) (vaba_init ex_vaba) (good_events [2, 0, 1])) = Returned [7]"
    by code_simp+
  show "genuine_events (\<lambda>_. ex_cbc) {3} (\<lambda>_. ex_cbc_final) ex_vaba (good_events [0, 1, 2])"
    "genuine_events (\<lambda>_. ex_cbc) {3} (\<lambda>_. ex_cbc_final) ex_vaba (good_events [2, 0, 1])"
    by (rule good_certs)+
  show "digests_apart (\<lambda>_. ex_cbc) (\<lambda>j. cert_values j (good_events [0, 1, 2]) \<union> cert_values j (good_events [2, 0, 1]))"
    by (rule vote_run_apart)
  show "\<forall>pi'. PERMUTED pi' \<in> set (good_events [0, 1, 2]) \<union> set (good_events [2, 0, 1]) \<longrightarrow> pi' = [2, 1, 0, 3]"
    using vote_run_perm by fast
qed (simp add: ex_vaba_def)

end
