(* ===== verification/VectorAgreement.thy ===== *)
theory VectorAgreement
  imports DumboACS VACS VABA_Theorems
begin

text \<open>
  The vector of Dumbo's common subset, from its parts: \<open>dumbocommonsubset\<close> takes the output of
  \<open>validatedcommonsubset\<close>, which takes the output of the \<open>validatedagreement\<close> it spawns, whose binary
  agreements and consistent broadcasts are runs of the network. The nodes that get a vector get the same.
\<close>

section \<open>One instance\<close>

text \<open>
  What the nodes share: the runs of the sub-protocols, the permutation that the coin gives, and for every
  leader the values that nodes see with a certificate; of these no two have the same digest.
\<close>

record ('k, 'd, 'g, 's, 'v) vaba_world =
  vw_aba_cfg :: "nat \<Rightarrow> ba_env \<times> nat set \<times> (nat \<Rightarrow> nat)"
  vw_aba :: "nat \<Rightarrow> ba_sys"
  vw_perm :: "nat list"
  vw_byz :: "nat set"
  vw_cbc_env :: "nat \<Rightarrow> ('k, 'd, 'g, 's, 'v) cbc_env"
  vw_input :: "nat \<Rightarrow> 'v"
  vw_cbc :: "nat \<Rightarrow> (('v, 'd, 'g) cbc_state, ('v, 'g) cbc_msg, 'v \<times> 'g sigmas) sys"
  vw_values :: "nat \<Rightarrow> 'v set"

definition vaba_world_ok :: "('k, 'd, 'g, 's, 'v) vaba_world \<Rightarrow> bool" where
  "vaba_world_ok W \<longleftrightarrow> (\<forall>r. ba_instance (vw_aba_cfg W r) (vw_aba W r)) \<and>
     (\<forall>j. cbc_instance (vw_cbc_env W j) (vw_byz W) (vw_input W j) (vw_cbc W j)) \<and>
     digests_apart (vw_cbc_env W) (vw_values W)"

text \<open>What one node sees: the events of its \<open>validatedcommonsubset\<close> and of its \<open>validatedagreement\<close>.\<close>

record ('g, 'v) vector_view =
  vv_vacs_env :: "'v vacs_env"
  vv_cert :: "nat \<Rightarrow> 'v option list \<Rightarrow> 'g sigmas \<Rightarrow> bool"
  vv_vacs :: "(nat \<times> 'v vacs_msg) list"
  vv_vaba :: "('v option list, 'g sigmas) vaba_event list"

text \<open>The agreement that \<open>validatedcommonsubset\<close> spawns, with its own \<open>N\<close>, \<open>f\<close> and \<open>vaba_predicate\<close>.\<close>

definition spawn_vaba ::
    "'v vacs_env \<Rightarrow> (nat \<Rightarrow> 'v option list \<Rightarrow> 'c \<Rightarrow> bool) \<Rightarrow> ('v option list, 'c) vaba_env" where
  "spawn_vaba E cert = \<lparr>bN = vN E, bf = vf E, bpred = vaba_predicate E, bcert = cert\<rparr>"

definition vacs_run :: "nat \<Rightarrow> ('g, 'v) vector_view \<Rightarrow> ('v vacs_state, 'v vacs_msg, 'v option list) reply" where
  "vacs_run p V = run_loop (validatedcommonsubset (vv_vacs_env V) p) (vacs_init (vv_vacs_env V)) (vv_vacs V)"

definition vaba_run :: "('g, 'v) vector_view \<Rightarrow> ('v option list, 'g sigmas) vaba_reply" where
  "vaba_run V = run_loop (validatedagreement (spawn_vaba (vv_vacs_env V) (vv_cert V)))
     (vaba_init (spawn_vaba (vv_vacs_env V) (vv_cert V))) (vv_vaba V)"

text \<open>
  The view is one of the world's: its node is correct in the binary agreements, their outputs are its
  events, its permutation is the coin's, its certificates are genuine, and what \<open>validatedcommonsubset\<close>
  takes from its agreement is what the agreement returns.
\<close>

definition vector_view_ok :: "('k, 'd, 'g, 's, 'v option list) vaba_world \<Rightarrow> nat \<Rightarrow> ('g, 'v) vector_view \<Rightarrow> bool" where
  "vector_view_ok W p V \<longleftrightarrow>
     vf (vv_vacs_env V) < vN (vv_vacs_env V) \<and> (\<forall>r. p \<notin> fst (snd (vw_aba_cfg W r))) \<and>
     aba_events (vw_aba W) p (vv_vaba V) \<and> (\<forall>pi. PERMUTED pi \<in> set (vv_vaba V) \<longrightarrow> pi = vw_perm W) \<and>
     genuine_events (vw_cbc_env W) (vw_byz W) (vw_cbc W) (spawn_vaba (vv_vacs_env V) (vv_cert V)) (vv_vaba V) \<and>
     (\<forall>j. cert_values j (vv_vaba V) \<subseteq> vw_values W j) \<and>
     (\<forall>vec. (p, VABA_OUTPUT vec) \<in> set (vv_vacs V) \<longrightarrow> ctl_of (vaba_run V) = Returned vec)"

text \<open>The vectors among the events of the common subset are those that \<open>validatedcommonsubset\<close> decides.\<close>

definition from_vacs :: "nat \<Rightarrow> ('g, 'q) vector_view \<Rightarrow> ('v, 'q) dacs_event list \<Rightarrow> bool" where
  "from_vacs p V es \<longleftrightarrow> (\<forall>v. VACS_OUT v \<in> set es \<longrightarrow> (\<exists>vec. v = Some vec \<and> ctl_of (vacs_run p V) = Returned vec))"

section \<open>One vector\<close>

lemma vacs_returns_output:
  "ctl_of (run_loop (validatedcommonsubset E p) s es) = Returned vec \<Longrightarrow> (p, VABA_OUTPUT vec) \<in> set es"
proof (induction es arbitrary: s)
  case (Cons e es)
  obtain j m where e: "e = (j, m)" by (cases e)
  obtain s1 o1 c1 where h: "validatedcommonsubset E p s (j, m) = (s1, o1, c1)" by (cases "validatedcommonsubset E p s (j, m)")
  show ?case
  proof (cases c1)
    case Running
    then have "ctl_of (run_loop (validatedcommonsubset E p) s1 es) = Returned vec"
      using Cons.prems h e by (auto split: prod.splits)
    then show ?thesis using Cons.IH by simp
  next
    case (Returned w)
    then have "m = VABA_OUTPUT w \<and> j = p"
      using h by (cases m) (auto simp: vacs_collect_def Let_def split: if_splits)
    then show ?thesis using Cons.prems h e Returned by simp
  next
    case (Raised x)
    then show ?thesis using Cons.prems h e by simp
  qed
qed simp

lemma vacs_from_vaba:
  "vector_view_ok W p V \<Longrightarrow> ctl_of (vacs_run p V) = Returned vec \<Longrightarrow> ctl_of (vaba_run V) = Returned vec"
  using vacs_returns_output [of "vv_vacs_env V" p "vacs_init (vv_vacs_env V)" "vv_vacs V" vec]
  by (simp add: vector_view_ok_def vacs_run_def)

lemma vacs_agreement:
  assumes "vaba_world_ok W" and "vector_view_ok W p V" and "vector_view_ok W p' V'"
    and "ctl_of (vacs_run p V) = Returned vec" and "ctl_of (vacs_run p' V') = Returned vec'"
  shows "vec = vec'"
proof (rule vaba_agreement_aux)
  show "bf (spawn_vaba (vv_vacs_env V) (vv_cert V)) < bN (spawn_vaba (vv_vacs_env V) (vv_cert V))"
    "bf (spawn_vaba (vv_vacs_env V') (vv_cert V')) < bN (spawn_vaba (vv_vacs_env V') (vv_cert V'))"
    using assms(2,3) by (simp_all add: vector_view_ok_def spawn_vaba_def)
  show "ctl_of (run_loop (validatedagreement (spawn_vaba (vv_vacs_env V) (vv_cert V)))
      (vaba_init (spawn_vaba (vv_vacs_env V) (vv_cert V))) (vv_vaba V)) = Returned vec"
    "ctl_of (run_loop (validatedagreement (spawn_vaba (vv_vacs_env V') (vv_cert V')))
      (vaba_init (spawn_vaba (vv_vacs_env V') (vv_cert V'))) (vv_vaba V')) = Returned vec'"
    using vacs_from_vaba [OF assms(2,4)] vacs_from_vaba [OF assms(3,5)] by (simp_all add: vaba_run_def)
  show "genuine_events (vw_cbc_env W) (vw_byz W) (vw_cbc W) (spawn_vaba (vv_vacs_env V) (vv_cert V)) (vv_vaba V)"
    "genuine_events (vw_cbc_env W) (vw_byz W) (vw_cbc W) (spawn_vaba (vv_vacs_env V') (vv_cert V')) (vv_vaba V')"
    using assms(2,3) by (simp_all add: vector_view_ok_def)
  show "digests_apart (vw_cbc_env W) (\<lambda>j. cert_values j (vv_vaba V) \<union> cert_values j (vv_vaba V'))"
    by (rule digests_apart_mono [of _ "vw_values W"])
      (use assms in \<open>simp_all add: vaba_world_ok_def vector_view_ok_def\<close>)
  show "\<forall>pi. PERMUTED pi \<in> set (vv_vaba V) \<union> set (vv_vaba V') \<longrightarrow> pi = vw_perm W"
    using assms(2,3) unfolding vector_view_ok_def by blast
  show "\<forall>r. ba_instance (vw_aba_cfg W r) (vw_aba W r) \<and> p \<notin> fst (snd (vw_aba_cfg W r)) \<and> p' \<notin> fst (snd (vw_aba_cfg W r))"
    using assms(1-3) by (simp add: vaba_world_ok_def vector_view_ok_def)
  show "aba_events (vw_aba W) p (vv_vaba V)" "aba_events (vw_aba W) p' (vv_vaba V')"
    using assms(2,3) by (simp_all add: vector_view_ok_def)
  show "\<forall>j. cbc_instance (vw_cbc_env W j) (vw_byz W) (vw_input W j) (vw_cbc W j)"
    using assms(1) by (simp add: vaba_world_ok_def)
qed

lemma one_vector:
  assumes "vaba_world_ok W" and "vector_view_ok W p V" and "vector_view_ok W p' V'"
    and "from_vacs p V es" and "from_vacs p' V' es'"
  shows "\<exists>vec. (\<Union>e \<in> set es \<union> set es'. dacs_vectors e) \<subseteq> {Some vec}"
proof -
  have v: "VACS_OUT v \<in> set es \<union> set es'" if v: "v \<in> (\<Union>e \<in> set es \<union> set es'. dacs_vectors e)" for v
  proof -
    obtain e where "e \<in> set es \<union> set es'" "v \<in> dacs_vectors e" using v by blast
    then show ?thesis by (cases e) auto
  qed
  have d: "\<exists>vec. v = Some vec \<and> (ctl_of (vacs_run p V) = Returned vec \<or> ctl_of (vacs_run p' V') = Returned vec)"
    if "VACS_OUT v \<in> set es \<union> set es'" for v
    using that assms(4,5) unfolding from_vacs_def by auto
  have "v = v'" if "VACS_OUT v \<in> set es \<union> set es'" "VACS_OUT v' \<in> set es \<union> set es'" for v v'
    using d [OF that(1)] d [OF that(2)] vacs_agreement [OF assms(1-3)] by auto
  then show ?thesis using v d by (metis (no_types, lifting) insertI1 subsetI)
qed

section \<open>Property\<close>

text \<open>
  C17: Agreement of Dumbo's common subset. Two correct nodes whose \<open>dumbocommonsubset\<close> returns, return the
  same tuple. The broadcast outputs they get are those of runs of \<open>provablereliablebroadcast\<close> with at
  most \<open>f\<close> Byzantine nodes; the vector each gets is what its own \<open>validatedcommonsubset\<close> decides, which
  takes it from its \<open>validatedagreement\<close>, over shared runs of the binary agreements and the consistent
  broadcasts, one permutation from the coin and genuine certificates (distinct signers, unforged) whose
  values do not collide under the digest.
\<close>

theorem dumbo_acs_agreement:
  assumes "\<forall>j < N. prbc_instance (rc j) (rs j) \<and> p \<notin> fst (snd (rc j)) \<and> p' \<notin> fst (snd (rc j))"
    and "from_prbc rs p es" and "from_prbc rs p' es'"
    and "vaba_world_ok W" and "vector_view_ok W p V" and "vector_view_ok W p' V'"
    and "from_vacs p V es" and "from_vacs p' V' es'"
    and "ctl_of (run_loop (dumbocommonsubset N p) (dacs_init N) es) = Returned vs"
    and "ctl_of (run_loop (dumbocommonsubset N p') (dacs_init N) es') = Returned vs'"
  shows "vs = vs'"
proof -
  obtain vec where "(\<Union>e \<in> set es \<union> set es'. dacs_vectors e) \<subseteq> {Some vec}"
    using one_vector [OF assms(4-8)] by blast
  then show ?thesis by (rule dumbo_acs_agreement_aux [OF assms(1-3) _ assms(9,10)])
qed

section \<open>Example\<close>

text \<open>
  Four nodes, node 3 Byzantine; the vector \<open>ex_vec\<close> is the value of the broadcasts. Digests are the hashed
  pairs themselves, signatures carry a nonce.
\<close>

type_synonym ex_digest = "nat \<times> nat option list"

definition ex_vec :: "nat option list" where
  "ex_vec = [Some 7, None, Some 8, Some 9]"

definition ex_vec_cbc :: "(nat, ex_digest, nat \<times> ex_digest \<times> nat, nat, nat option list) cbc_env" where
  "ex_vec_cbc = \<lparr>kN = 4, kf = 1, kpks = [0, 1, 2, 3], kvr = (\<lambda>pk d g. fst g = pk \<and> fst (snd g) = d), kmal = (\<lambda>g. False),
     ksgn = (\<lambda>i d. (i, d, 0)), bleader = 0, bsid = 9, bhash = id\<rparr>"

definition ex_vec_cert :: "(nat \<times> ex_digest \<times> nat) sigmas" where
  "ex_vec_cert = map (\<lambda>i. (int i, (i, (9, ex_vec), 0))) [0, 1, 2]"

definition ex_vec_final :: "((nat option list, ex_digest, nat \<times> ex_digest \<times> nat) cbc_state,
    (nat option list, nat \<times> ex_digest \<times> nat) cbc_msg, nat option list \<times> (nat \<times> ex_digest \<times> nat) sigmas) sys" where
  "ex_vec_final = deliver_all (cbc_cfg ex_vec_cbc {3}) (cbc_step ex_vec_cbc) (cbc_initial ex_vec_cbc {3} ex_vec)
     [(0, 1, CBC_SEND ex_vec), (0, 2, CBC_SEND ex_vec), (1, 0, CBC_ECHO (1, (9, ex_vec), 0)),
      (2, 0, CBC_ECHO (2, (9, ex_vec), 0)), (0, 1, CBC_FINAL ex_vec ex_vec_cert), (0, 2, CBC_FINAL ex_vec ex_vec_cert)]"

definition ex_world :: "(nat, ex_digest, nat \<times> ex_digest \<times> nat, nat, nat option list) vaba_world" where
  "ex_world = \<lparr>vw_aba_cfg = (\<lambda>_. (ex_ba, {3}, \<lambda>_. 1)), vw_aba = (\<lambda>_. ex_ba_final), vw_perm = [2, 1, 0, 3], vw_byz = {3},
     vw_cbc_env = (\<lambda>_. ex_vec_cbc), vw_input = (\<lambda>_. ex_vec), vw_cbc = (\<lambda>_. ex_vec_final),
     vw_values = (\<lambda>_. {ex_vec})\<rparr>"

definition ex_view :: "nat \<Rightarrow> nat list \<Rightarrow> (nat \<times> ex_digest \<times> nat, nat) vector_view" where
  "ex_view p js = \<lparr>vv_vacs_env = \<lparr>vN = 4, vf = 1, vpred = (\<lambda>i v. v = [7, 0, 8, 9] ! i)\<rparr>,
     vv_cert = (\<lambda>j m c. check_cert ex_vec_cbc (bhash ex_vec_cbc (bsid ex_vec_cbc, m)) c = Inr ()),
     vv_vacs = [(0, VACS_VAL 7), (2, VACS_VAL 8), (1, VACS_VAL 3), (3, VACS_VAL 9), (p, VABA_OUTPUT ex_vec)],
     vv_vaba = vote_run ex_vec ex_vec_cert js\<rparr>"

lemma ex_world_ok: "vaba_world_ok ex_world"
proof -
  have "cbc_reachable ex_vec_cbc {3} ex_vec ex_vec_final"
    unfolding cbc_reachable_def ex_vec_final_def by (rule deliver_all_reaches [OF reaches.start])
  then show ?thesis
    using ex_ba_instance
    by (simp add: vaba_world_ok_def ex_world_def cbc_instance_def wf_cfg_def cbc_cfg_def ex_vec_cbc_def digests_apart_def)
qed

lemma ex_vec_genuine: "cert_genuine ex_vec_cbc {3} ex_vec_final ex_vec ex_vec_cert"
proof -
  have "cbc_unforged ex_vec_cbc {3} ex_vec_final ex_vec_cert" "distinct_signers (kN ex_vec_cbc) ex_vec_cert"
    "check_cert ex_vec_cbc (bhash ex_vec_cbc (bsid ex_vec_cbc, ex_vec)) ex_vec_cert = Inr ()"
    by code_simp+
  moreover have "signs_bind ex_vec_cbc B made D" for B made D by (auto simp: signs_bind_def ex_vec_cbc_def)
  ultimately show ?thesis by (simp add: cert_genuine_def)
qed

lemma ex_view_runs:
  "ctl_of (vaba_run (ex_view 0 [0, 1, 2])) = Returned ex_vec" "ctl_of (vaba_run (ex_view 1 [2, 0, 1])) = Returned ex_vec"
  "ctl_of (vacs_run 0 (ex_view 0 [0, 1, 2])) = Returned ex_vec" "ctl_of (vacs_run 1 (ex_view 1 [2, 0, 1])) = Returned ex_vec"
  by code_simp+

lemma ex_view_ok:
  assumes "p = 0 \<or> p = 1" and "ctl_of (vaba_run (ex_view p js)) = Returned ex_vec"
  shows "vector_view_ok ex_world p (ex_view p js)"
proof -
  have "p \<notin> {3}" using assms(1) by auto
  moreover have "(p, VABA_OUTPUT vec) \<in> set (vv_vacs (ex_view p js)) \<Longrightarrow> vec = ex_vec" for vec
    by (simp add: ex_view_def)
  moreover note assms(2) vote_run_genuine [OF ex_vec_genuine] vote_run_aba [OF assms(1)] vote_run_perm
    vote_run_values
  ultimately show ?thesis
    unfolding vector_view_ok_def by (intro conjI allI impI) (simp_all add: ex_world_def ex_view_def)
qed

lemma ex_views_ok: "vector_view_ok ex_world 0 (ex_view 0 [0, 1, 2])" "vector_view_ok ex_world 1 (ex_view 1 [2, 0, 1])"
  using ex_view_ok ex_view_runs(1,2) by blast+

theorem dumbo_acs_agreement_witness: "[Some [5], None, Some [5], Some [5]] = ([Some [5], None, Some [5], Some [5]] :: bytes option list)"
proof (rule dumbo_acs_agreement [OF _ _ _ ex_world_ok ex_views_ok])
  show "\<forall>j < 4. prbc_instance (ex_prbc, {3}, [5]) ex_prbc_final \<and> (0::nat) \<notin> fst (snd (ex_prbc, {3}, [5::8 word])) \<and>
      (1::nat) \<notin> fst (snd (ex_prbc, {3}, [5::8 word]))"
    using ex_dacs_prbc by simp
  show "from_prbc (\<lambda>_. ex_prbc_final) 0 (ex_dacs_events [1, 0, 2, 3])"
    "from_prbc (\<lambda>_. ex_prbc_final) 1 (ex_dacs_events [3, 2, 0])"
    using ex_prbc_ended by (auto simp: from_prbc_def ex_dacs_events_def prbc_outputs_def ex_prbc_value_def)
  show "from_vacs 0 (ex_view 0 [0, 1, 2]) (ex_dacs_events [1, 0, 2, 3])"
    "from_vacs 1 (ex_view 1 [2, 0, 1]) (ex_dacs_events [3, 2, 0])"
    using ex_view_runs(3,4) by (auto simp: from_vacs_def ex_dacs_events_def ex_vec_def)
  show "ctl_of (run_loop (dumbocommonsubset 4 0) (dacs_init 4) (ex_dacs_events [1, 0, 2, 3])) =
      Returned [Some [5], None, Some [5], Some [5]]" by code_simp
  show "ctl_of (run_loop (dumbocommonsubset 4 1) (dacs_init 4) (ex_dacs_events [3, 2, 0])) =
      Returned [Some [5], None, Some [5], Some [5]]" by code_simp
qed

end
