(* ===== verification/SPBC.thy ===== *)
theory SPBC
  imports Certs ThreshSig
begin

text \<open>
  \<open>strongprovablebroadcast\<close>, of \<open>src/speedmvba/core/spbc.py\<close> (threshold signatures) and of
  \<open>src/speedmvba/core/spbc_ec.py\<close> (lists of ECDSA signatures). The receive loop is the same; the
  record \<open>spbc_env\<close> holds what differs, and \<open>spbc_ts\<close> and \<open>spbc_ec\<close> are the two instances.

  The argument \<open>output\<close> is the one \<open>src/speedmvba/core/smvba.py\<close> and \<open>smvba_e.py\<close> pass,
  \<open>put_nowait\<close> of a queue that holds one value: on a queue that is full it raises, past the loop.
  The reader of that queue, \<open>get_spbc_s1\<close>, is a greenlet of its own; it takes a value when the
  pseudo-message \<open>SPBC_TAKE\<close> of the node to itself is delivered, which may be any number of times.
\<close>

section \<open>Model\<close>

text \<open>
  \<open>xecho v\<close> and \<open>xfinal v\<close> are the digests of \<open>(sid, v, "ECHO")\<close> and \<open>(sid, v, "FINAL")\<close>. \<open>xfresh\<close>:
  is the digest of an \<open>SPBC_ECHO\<close> computed again from \<open>m\<close> (\<open>spbc_ec\<close>) or read from
  \<open>digest1FromLeader\<close> (\<open>spbc\<close>)?
\<close>

record ('d, 'g, 'c, 'v) spbc_env =
  xN :: nat
  xf :: nat
  xleader :: nat
  xecho :: "'v \<Rightarrow> 'd"
  xfinal :: "'v \<Rightarrow> 'd"
  xsign :: "nat \<Rightarrow> 'd \<Rightarrow> 'g"
  xshare :: "'g \<Rightarrow> nat \<Rightarrow> 'd \<Rightarrow> py_error + bool"
  xcombine :: "(nat, 'g) odict \<Rightarrow> py_error + 'c"
  xcert :: "'c \<Rightarrow> 'd \<Rightarrow> py_error + bool"
  xfresh :: bool

datatype ('v, 'g, 'c) spbc_msg =
    SPBC_SEND 'v
  | SPBC_ECHO 'g
  | SPBC_READY 'v 'c
  | SPBC_FINAL 'g
  | SPBC_DONE 'v 'c
  | SPBC_TAKE

text \<open>
  \<open>sp_queue\<close> is the content of the output queue, \<open>sp_outputs\<close> the values put there so far and
  \<open>sp_refused\<close> the value whose \<open>put_nowait\<close> found the queue full.
\<close>

record ('v, 'd, 'g, 'c) spbc_state =
  sp_m :: "'v option"
  sp_digest1 :: "'d option"
  sp_echo_sent :: bool
  sp_final_sent :: bool
  sp_shares :: "(nat, 'g) odict"
  sp_shares2 :: "(nat, 'g) odict"
  sp_queue :: "('v \<times> 'c) option"
  sp_outputs :: "('v \<times> 'c) list"
  sp_refused :: "('v \<times> 'c) list"

definition spbc_init :: "('v, 'd, 'g, 'c) spbc_state" where
  "spbc_init = \<lparr>sp_m = None, sp_digest1 = None, sp_echo_sent = False, sp_final_sent = False,
     sp_shares = [], sp_shares2 = [], sp_queue = None, sp_outputs = [], sp_refused = []\<rparr>"

type_synonym ('v, 'd, 'g, 'c) spbc_reply =
  "(('v, 'd, 'g, 'c) spbc_state, ('v, 'g, 'c) spbc_msg, 'v \<times> 'c) reply"

definition spbc_start :: "('d, 'g, 'c, 'v) spbc_env \<Rightarrow> nat \<Rightarrow> 'v \<Rightarrow>
    ('v, 'd, 'g, 'c) spbc_state \<times> ('v, 'g, 'c) spbc_msg out list" where
  "spbc_start E pid m =
     (if pid = xleader E
      then (spbc_init\<lparr>sp_m := Some m, sp_digest1 := Some (xecho E m),
              sp_shares := od_set pid (xsign E pid (xecho E m)) []\<rparr>, to_all (xN E) (SPBC_SEND m))
      else (spbc_init, []))"

text \<open>The variable \<open>m\<close> is bound to the payload of an \<open>SPBC_SEND\<close> before its sender is compared with the leader.\<close>

definition spbc_send :: "('d, 'g, 'c, 'v) spbc_env \<Rightarrow> nat \<Rightarrow> ('v, 'd, 'g, 'c) spbc_state \<Rightarrow> nat \<Rightarrow> 'v \<Rightarrow>
    ('v, 'd, 'g, 'c) spbc_reply" where
  "spbc_send E pid s j v =
     (let s1 = s\<lparr>sp_m := Some v\<rparr> in
      if j \<noteq> xleader E then stay s1
      else (s1\<lparr>sp_digest1 := Some (xecho E v)\<rparr>,
            [Send (int (xleader E)) (SPBC_ECHO (xsign E pid (xecho E v)))], Running))"

text \<open>The leader's count of shares; \<open>kind\<close> makes the certificate message that is broadcast.\<close>

definition spbc_echo :: "('d, 'g, 'c, 'v) spbc_env \<Rightarrow> nat \<Rightarrow> ('v, 'd, 'g, 'c) spbc_state \<Rightarrow> nat \<Rightarrow> 'g \<Rightarrow>
    ('v, 'd, 'g, 'c) spbc_reply" where
  "spbc_echo E pid s j sig =
     (if pid \<noteq> xleader E then stay s
      else let s1 = (if xfresh E then s\<lparr>sp_digest1 := map_option (xecho E) (sp_m s)\<rparr> else s) in
        case sp_digest1 s1 of
          None \<Rightarrow> stay s1
        | Some d \<Rightarrow>
            (case xshare E sig j d of
               Inl e \<Rightarrow> (s1, [], Raised e)
             | Inr ok \<Rightarrow>
                 if \<not> ok then stay s1
                 else let s2 = s1\<lparr>sp_shares := od_set j sig (sp_shares s1)\<rparr> in
                   if length (sp_shares s2) = xN E - xf E \<and> \<not> sp_echo_sent s2
                   then (case (xcombine E (sp_shares s2), sp_m s2) of
                           (Inl e, _) \<Rightarrow> (s2, [], Raised e)
                         | (Inr c, None) \<Rightarrow> stay s2
                         | (Inr c, Some m) \<Rightarrow> (s2\<lparr>sp_echo_sent := True\<rparr>, to_all (xN E) (SPBC_READY m c), Running))
                   else stay s2))"

text \<open>
  \<open>output((sid, pid, m, sigmas))\<close>: by then the \<open>FINAL\<close> share is on its way to the leader.
\<close>

definition spbc_output :: "('v, 'd, 'g, 'c) spbc_state \<Rightarrow> ('v, 'g, 'c) spbc_msg out list \<Rightarrow> 'v \<times> 'c \<Rightarrow>
    ('v, 'd, 'g, 'c) spbc_reply" where
  "spbc_output s outs x =
     (if sp_queue s = None
      then (s\<lparr>sp_queue := Some x, sp_outputs := sp_outputs s @ [x]\<rparr>, outs, Running)
      else (s\<lparr>sp_refused := sp_refused s @ [x]\<rparr>, outs, Raised QueueFull))"

definition spbc_ready :: "('d, 'g, 'c, 'v) spbc_env \<Rightarrow> nat \<Rightarrow> ('v, 'd, 'g, 'c) spbc_state \<Rightarrow> nat \<Rightarrow> 'v \<Rightarrow> 'c \<Rightarrow>
    ('v, 'd, 'g, 'c) spbc_reply" where
  "spbc_ready E pid s j v c =
     (if j \<noteq> xleader E then stay s
      else let s1 = s\<lparr>sp_m := Some v\<rparr> in
        case xcert E c (xecho E v) of
          Inl e \<Rightarrow> (s1, [], Raised e)
        | Inr ok \<Rightarrow>
            if \<not> ok then stay s1
            else spbc_output s1 [Send (int (xleader E)) (SPBC_FINAL (xsign E pid (xfinal E v)))] (v, c))"

definition spbc_final :: "('d, 'g, 'c, 'v) spbc_env \<Rightarrow> nat \<Rightarrow> ('v, 'd, 'g, 'c) spbc_state \<Rightarrow> nat \<Rightarrow> 'g \<Rightarrow>
    ('v, 'd, 'g, 'c) spbc_reply" where
  "spbc_final E pid s j sig =
     (if pid \<noteq> xleader E then stay s
      else case sp_m s of
          None \<Rightarrow> stay s
        | Some m \<Rightarrow>
            (case xshare E sig j (xfinal E m) of
               Inl e \<Rightarrow> (s, [], Raised e)
             | Inr ok \<Rightarrow>
                 if \<not> ok then stay s
                 else let s1 = s\<lparr>sp_shares2 := od_set j sig (sp_shares2 s)\<rparr> in
                   if length (sp_shares2 s1) = xN E - xf E \<and> \<not> sp_final_sent s1
                   then (case xcombine E (sp_shares2 s1) of
                           Inl e \<Rightarrow> (s1, [], Raised e)
                         | Inr c \<Rightarrow> (s1\<lparr>sp_final_sent := True\<rparr>, to_all (xN E) (SPBC_DONE m c), Running))
                   else stay s1))"

definition spbc_done :: "('d, 'g, 'c, 'v) spbc_env \<Rightarrow> ('v, 'd, 'g, 'c) spbc_state \<Rightarrow> nat \<Rightarrow> 'v \<Rightarrow> 'c \<Rightarrow>
    ('v, 'd, 'g, 'c) spbc_reply" where
  "spbc_done E s j v c =
     (if j \<noteq> xleader E then stay s
      else let s1 = s\<lparr>sp_m := Some v\<rparr> in
        case xcert E c (xfinal E v) of
          Inl e \<Rightarrow> (s1, [], Raised e)
        | Inr ok \<Rightarrow> if ok then (s1, [], Returned (v, c)) else stay s1)"

fun strongprovablebroadcast :: "('d, 'g, 'c, 'v) spbc_env \<Rightarrow> nat \<Rightarrow> ('v, 'd, 'g, 'c) spbc_state \<Rightarrow>
    nat \<times> ('v, 'g, 'c) spbc_msg \<Rightarrow> ('v, 'd, 'g, 'c) spbc_reply" where
  "strongprovablebroadcast E pid s (j, SPBC_SEND v) = spbc_send E pid s j v"
| "strongprovablebroadcast E pid s (j, SPBC_ECHO sig) = spbc_echo E pid s j sig"
| "strongprovablebroadcast E pid s (j, SPBC_READY v c) = spbc_ready E pid s j v c"
| "strongprovablebroadcast E pid s (j, SPBC_FINAL sig) = spbc_final E pid s j sig"
| "strongprovablebroadcast E pid s (j, SPBC_DONE v c) = spbc_done E s j v c"
| "strongprovablebroadcast E pid s (j, SPBC_TAKE) = stay (if j = pid then s\<lparr>sp_queue := None\<rparr> else s)"

text \<open>\<open>try: assert x\<close> with \<open>except AssertionError: continue\<close>: a failed assert is an answer, other errors get out.\<close>

definition try_assert :: "py_error + bool \<Rightarrow> py_error + bool" where
  "try_assert x = (case x of Inl AssertionError \<Rightarrow> Inr False | _ \<Rightarrow> x)"

definition spbc_ts :: "('z::field, 'g, 'h, 't, 'y) pairing_scheme \<Rightarrow> 'h tbls_key \<Rightarrow> (nat \<Rightarrow> 'z) \<Rightarrow> nat \<Rightarrow> nat \<Rightarrow> nat \<Rightarrow>
    ('v \<Rightarrow> 'g) \<Rightarrow> ('v \<Rightarrow> 'g) \<Rightarrow> ('g, 'g, 'g, 'v) spbc_env" where
  "spbc_ts P PK1 SK1 N f leader d1 d2 =
     \<lparr>xN = N, xf = f, xleader = leader, xecho = d1, xfinal = d2, xsign = (\<lambda>i. tsign P (SK1 i)),
      xshare = (\<lambda>sig j d. try_assert (verify_share P PK1 sig j d)), xcombine = combine_shares P PK1,
      xcert = (\<lambda>c d. try_assert (verify_signature P PK1 c d)), xfresh = False\<rparr>"

definition spbc_ec :: "('k, 'd, 'g, 'x) pki_scheme \<Rightarrow> nat \<Rightarrow> ('v \<Rightarrow> 'd) \<Rightarrow> ('v \<Rightarrow> 'd) \<Rightarrow>
    ('d, 'g, 'g sigmas, 'v) spbc_env" where
  "spbc_ec P leader d1 d2 =
     \<lparr>xN = kN P, xf = kf P, xleader = leader, xecho = d1, xfinal = d2, xsign = ksgn P,
      xshare = (\<lambda>sig j d. share_ok P (Some d) j sig),
      xcombine = (\<lambda>shares. Inr (map (\<lambda>(i, g). (int i, g)) (take (kN P - kf P) shares))),
      xcert = (\<lambda>c d. try_assert (res_bind (sig_loop P d c) (\<lambda>_. Inr True))), xfresh = True\<rparr>"

lemmas spbc_defs = spbc_send_def spbc_echo_def spbc_ready_def spbc_output_def spbc_final_def spbc_done_def
  Let_def

section \<open>Invariants\<close>

text \<open>The values a node has accepted with an \<open>SPBC_READY\<close>: the last one may not have got into the queue.\<close>

definition sp_accepted :: "('v, 'd, 'g, 'c) spbc_state \<Rightarrow> ('v \<times> 'c) set" where
  "sp_accepted s = set (sp_outputs s) \<union> set (sp_refused s)"

text \<open>
  A call accepts at most one value, with a certificate on its \<open>ECHO\<close> digest, and signs its \<open>FINAL\<close>
  digest exactly then.
\<close>

lemma spbc_effects:
  assumes "strongprovablebroadcast E p s (j, x) = (s', outs, k)"
  obtains (same) "sp_accepted s' = sp_accepted s" "\<And>g. SPBC_FINAL g \<notin> out_msg ` set outs"
  | (deliver) v c where "sp_accepted s' = insert (v, c) (sp_accepted s)" "xcert E c (xecho E v) = Inr True"
      "out_msg ` set outs = {SPBC_FINAL (xsign E p (xfinal E v))}"
proof (cases x)
  case (SPBC_READY v c)
  show ?thesis
  proof (cases "j = xleader E \<and> xcert E c (xecho E v) = Inr True")
    case True
    show ?thesis
      by (rule deliver)
        (use assms SPBC_READY True in \<open>auto simp: spbc_ready_def spbc_output_def sp_accepted_def Let_def
           split: if_splits\<close>)
  next
    case False
    show ?thesis
      by (rule same) (use assms SPBC_READY False in \<open>auto simp: spbc_ready_def sp_accepted_def Let_def
           split: if_splits sum.splits\<close>)
  qed
next
  case (SPBC_SEND v)
  show ?thesis
    by (rule same) (use assms SPBC_SEND in \<open>auto simp: spbc_send_def sp_accepted_def Let_def split: if_splits\<close>)
next
  case (SPBC_ECHO g)
  show ?thesis
    by (rule same) (use assms SPBC_ECHO in \<open>auto simp: spbc_echo_def sp_accepted_def Let_def to_all_def
        split: if_splits option.splits sum.splits\<close>)
next
  case (SPBC_FINAL g)
  show ?thesis
    by (rule same) (use assms SPBC_FINAL in \<open>auto simp: spbc_final_def sp_accepted_def Let_def to_all_def
        split: if_splits option.splits sum.splits\<close>)
next
  case (SPBC_DONE v c)
  show ?thesis
    by (rule same) (use assms SPBC_DONE in \<open>auto simp: spbc_done_def sp_accepted_def Let_def
          split: if_splits sum.splits\<close>)
next
  case SPBC_TAKE
  show ?thesis
    by (rule same) (use assms SPBC_TAKE in \<open>auto simp: sp_accepted_def split: if_splits\<close>)
qed

definition spbc_locked_ok :: "('d, 'g, 'c, 'v) spbc_env \<Rightarrow> ('v, 'd, 'g, 'c) spbc_state \<Rightarrow> bool" where
  "spbc_locked_ok E s \<longleftrightarrow> (\<forall>(v, c) \<in> sp_accepted s. xcert E c (xecho E v) = Inr True)"

definition spbc_signed :: "('d, 'g, 'c, 'v) spbc_env \<Rightarrow> nat \<Rightarrow> ('v, 'd, 'g, 'c) spbc_state \<Rightarrow>
    ('v, 'g, 'c) spbc_msg \<Rightarrow> bool" where
  "spbc_signed E p s x \<longleftrightarrow>
     (\<forall>g. x = SPBC_FINAL g \<longrightarrow> (\<exists>v \<in> fst ` sp_accepted s. g = xsign E p (xfinal E v)))"

definition spbc_cfg :: "('d, 'g, 'c, 'v) spbc_env \<Rightarrow> nat set \<Rightarrow> cfg" where
  "spbc_cfg E B = \<lparr>cN = xN E, cf = xf E, cbyz = B\<rparr>"

interpretation spbc: sender_invariant "spbc_cfg E B" "strongprovablebroadcast E"
  "\<lambda>_. spbc_locked_ok E" "\<lambda>_ _. True" "spbc_signed E"
  for E :: "('d, 'g, 'c, 'v) spbc_env" and B
proof (unfold_locales, goal_cases)
  case (1 p s q m s' outs k)
  from 1(3) show ?case by (cases rule: spbc_effects) (use 1(1) in \<open>auto simp: spbc_locked_ok_def\<close>)
next
  case (3 p s q m s' outs k m')
  from 3(3) show ?case by (cases rule: spbc_effects) (use 3(4) in \<open>auto simp: spbc_signed_def\<close>)
next
  case (4 p s q m s' outs k m')
  from 4(3) show ?case
  proof (cases rule: spbc_effects)
    case same
    then have "m' \<noteq> SPBC_FINAL g" for g using 4(4) by blast
    then show ?thesis by (simp add: spbc_signed_def)
  next
    case (deliver v c)
    then show ?thesis using 4(4) by (simp add: spbc_signed_def)
  qed
qed simp

text \<open>A second accepted value before the queue is read ends the loop.\<close>

lemma spbc_queue_full:
  assumes "sp_queue s \<noteq> None" and "xcert E c (xecho E v) = Inr True"
  shows "snd (snd (strongprovablebroadcast E p s (xleader E, SPBC_READY v c))) = Raised QueueFull"
  using assms by (simp add: spbc_ready_def spbc_output_def Let_def)

section \<open>Networks\<close>

definition spbc_initial :: "('d, 'g, 'c, 'v) spbc_env \<Rightarrow> nat set \<Rightarrow> 'v \<Rightarrow>
    (('v, 'd, 'g, 'c) spbc_state, ('v, 'g, 'c) spbc_msg, 'v \<times> 'c) sys" where
  "spbc_initial E B m =
     start_sys (\<lambda>p. fst (spbc_start E p m))
       ((\<lambda>p. (p, p, SPBC_TAKE)) ` {..<xN E} \<union>
        (if xleader E \<in> B then {} else routed (xN E) (xleader E) (snd (spbc_start E (xleader E) m))))"

definition spbc_reachable :: "('d, 'g, 'c, 'v) spbc_env \<Rightarrow> nat set \<Rightarrow> 'v \<Rightarrow>
    (('v, 'd, 'g, 'c) spbc_state, ('v, 'g, 'c) spbc_msg, 'v \<times> 'c) sys \<Rightarrow> bool" where
  "spbc_reachable E B m s = reaches (spbc_cfg E B) (strongprovablebroadcast E) (spbc_initial E B m) s"

lemma spbc_start_ok: "spbc_locked_ok E (loc (spbc_initial E B m) p)"
  by (simp add: spbc_initial_def start_sys_def spbc_start_def spbc_locked_ok_def spbc_init_def sp_accepted_def)

lemma spbc_start_msgs:
  "\<forall>(q, p, x) \<in> net (spbc_initial E B m). q \<notin> cbyz (spbc_cfg E B) \<longrightarrow>
     True \<and> spbc_signed E q (loc (spbc_initial E B m) q) x"
  by (auto simp: spbc_initial_def start_sys_def spbc_start_def spbc_signed_def Let_def routed_iff to_all_def
      split: if_splits)

text \<open>A certificate whose entries under correct nodes' keys are shares those nodes have sent.\<close>

definition final_unforged :: "('d, 'g, 'g sigmas, 'v) spbc_env \<Rightarrow> nat set \<Rightarrow>
    (('v, 'd, 'g, 'g sigmas) spbc_state, ('v, 'g, 'g sigmas) spbc_msg, 'r) sys \<Rightarrow> 'g sigmas \<Rightarrow> bool" where
  "final_unforged E B s c \<longleftrightarrow> cert_made (xN E) B (\<lambda>q g. (q, xleader E, SPBC_FINAL g) \<in> net s) c"

text \<open>The digests a node has signed with its \<open>FINAL\<close> shares.\<close>

definition final_signed :: "('d, 'g, 'c, 'v) spbc_env \<Rightarrow>
    (('v, 'd, 'g, 'c) spbc_state, ('v, 'g, 'c) spbc_msg, 'r) sys \<Rightarrow> nat \<Rightarrow> 'd \<Rightarrow> bool" where
  "final_signed E s q d \<longleftrightarrow> (\<exists>v \<in> fst ` sp_accepted (loc s q). d = xfinal E v)"

lemma cert_signed_by:
  assumes "check_cert P d c = Inr ()" and "length (kpks P) = kN P" and "cert_made (kN P) B made c"
    and "signs_bind P B held {d}" and "\<And>q g. q \<notin> B \<Longrightarrow> made q g \<Longrightarrow> \<exists>d'. held q d' \<and> g = ksgn P q d'"
  shows "\<forall>q \<in> cert_signers (kN P) c - B. held q d"
proof
  fix q assume q: "q \<in> cert_signers (kN P) c - B"
  then obtain i g where ig: "(i, g) \<in> set c" "q = signer_of (kN P) i"
    by (auto simp: cert_signers_def)
  note v = check_cert_signer [OF assms(1,2) ig(1)]
  have "made q g" using assms(3) ig q by (auto simp: cert_made_def)
  then obtain d' where d': "held q d'" "g = ksgn P q d'" using assms(5) q by blast
  then have "d' = d" using v assms(4) ig(2) q unfolding signs_bind_def by blast
  with d' show "held q d" by simp
qed

lemma spbc_locked_aux:
  fixes P :: "('k, 'd, 'g, 'x) pki_scheme" and E :: "('d, 'g, 'g sigmas, 'v) spbc_env"
  assumes E: "E = spbc_ec P leader d1 d2" and wf: "wf_cfg (spbc_cfg E B)" and r: "spbc_reachable E B m s"
    and a: "accepted_cert (P, B) (d2 v) c" and u: "final_unforged E B s c"
    and b: "signs_bind P B (final_signed E s) {d2 v}"
    and inj: "\<forall>q v' c'. q \<notin> B \<longrightarrow> (v', c') \<in> sp_accepted (loc s q) \<longrightarrow> d2 v' = d2 v \<longrightarrow> v' = v"
  shows "kf P + 1 \<le> card {q. q < kN P \<and> q \<notin> B \<and>
    (\<exists>c1. (v, c1) \<in> sp_accepted (loc s q) \<and> sig_loop P (d1 v) c1 = Inr ())}" (is "_ \<le> card ?S")
proof -
  have node: "spbc_locked_ok E (loc s q)" for q
    by (rule spbc.reach_node [OF r [unfolded spbc_reachable_def] _ spbc_start_msgs]) (simp add: spbc_start_ok)
  have sent: "\<exists>d'. final_signed E s q d' \<and> g = ksgn P q d'"
    if "q \<notin> B" "(q, leader, SPBC_FINAL g) \<in> net s" for q g
  proof -
    have "spbc_signed E q (loc s q) (SPBC_FINAL g)"
      by (rule spbc.reach_msg(2) [OF r [unfolded spbc_reachable_def] _ spbc_start_msgs that(2)])
        (use that(1) in \<open>simp_all add: spbc_start_ok spbc_cfg_def\<close>)
    then show ?thesis by (auto simp: spbc_signed_def final_signed_def E spbc_ec_def)
  qed
  have acc: "check_cert P (d2 v) c = Inr ()" "length (kpks P) = kN P" using a by (simp_all add: accepted_cert_def)
  have made: "cert_made (kN P) B (\<lambda>q g. (q, leader, SPBC_FINAL g) \<in> net s) c"
    using u by (simp add: final_unforged_def E spbc_ec_def)
  have "\<forall>q \<in> cert_signers (kN P) c - B. final_signed E s q (d2 v)"
    by (rule cert_signed_by [OF acc made b sent])
  then have held: "\<forall>q \<in> cert_signers (kN P) c - B. \<exists>v' \<in> fst ` sp_accepted (loc s q). d2 v = d2 v'"
    by (simp add: final_signed_def E spbc_ec_def)
  have cfg: "pki_cfg (P, B) = spbc_cfg E B" by (simp add: pki_cfg_def spbc_cfg_def E spbc_ec_def)
  have q: "nf_quorum (spbc_cfg E B) (cert_signers (kN P) c)"
    using ecdsa.accept_quorum [OF _ a] wf cfg by simp
  have weak: "f1_set (spbc_cfg E B) (cert_signers (kN P) c - B)"
    using nf.quorum_weak [OF wf q] by (simp add: spbc_cfg_def)
  have "cert_signers (kN P) c - B \<subseteq> ?S"
  proof
    fix x assume x: "x \<in> cert_signers (kN P) c - B"
    then have "x < kN P" using q by (auto simp: nf_quorum_def spbc_cfg_def E spbc_ec_def)
    moreover from held x obtain v' c1 where v': "(v', c1) \<in> sp_accepted (loc s x)" "d2 v = d2 v'" by fastforce
    then have "v' = v" using inj x by (metis DiffD2)
    with v' have c1: "(v, c1) \<in> sp_accepted (loc s x)" by simp
    moreover have "try_assert (res_bind (sig_loop P (d1 v) c1) (\<lambda>_. Inr True)) = Inr True"
      using node [of x] c1 by (auto simp: spbc_locked_ok_def E spbc_ec_def)
    then have "sig_loop P (d1 v) c1 = Inr ()"
      by (cases "sig_loop P (d1 v) c1") (auto simp: try_assert_def split: py_error.splits)
    ultimately show "x \<in> ?S" using x by blast
  qed
  then have "card (cert_signers (kN P) c - B) \<le> card ?S" by (rule card_mono [rotated]) simp
  then show ?thesis using weak by (simp add: f1_set_def spbc_cfg_def E spbc_ec_def)
qed

section \<open>Properties\<close>

text \<open>
  C21: The lock. When a certificate on the \<open>FINAL\<close> digest of \<open>v\<close> exists that has \<open>N - f\<close> different
  signers (the code does not check that) and whose signatures under correct nodes' keys were made by
  those nodes in the run, at least \<open>f + 1\<close> correct nodes have already accepted \<open>v\<close>, that is put it into
  the output queue or ended on finding that queue full, each with a list of signatures on the \<open>ECHO\<close>
  digest of \<open>v\<close> that are all valid; the code does not check how many they are. So every set of \<open>N - f\<close>
  nodes meets one of these nodes. No value that a correct node accepted in the run collides with \<open>v\<close>.
\<close>

theorem spbc_locked:
  fixes P :: "('k, 'd, 'g, 'x) pki_scheme"
  assumes "E = spbc_ec P leader d1 d2" and "wf_cfg (spbc_cfg E B)" and "spbc_reachable E B m s"
    and "accepted_cert (P, B) (d2 v) c" and "final_unforged E B s c"
    and "signs_bind P B (final_signed E s) {d2 v}"
    and "\<forall>q v' c'. q \<notin> B \<longrightarrow> (v', c') \<in> sp_accepted (loc s q) \<longrightarrow> d2 v' = d2 v \<longrightarrow> v' = v"
  shows "kf P + 1 \<le> card {q. q < kN P \<and> q \<notin> B \<and>
    (\<exists>c1. (v, c1) \<in> sp_accepted (loc s q) \<and> sig_loop P (d1 v) c1 = Inr ())}"
  using assms by (rule spbc_locked_aux)

section \<open>An equivocating leader\<close>

definition ex_spbc :: "(bytes, nat \<times> bytes \<times> nat, (nat \<times> bytes \<times> nat) sigmas, bytes) spbc_env" where
  "ex_spbc = spbc_ec ex_pki 3 (\<lambda>v. 1 # v) (\<lambda>v. 2 # v)"

definition full_cert :: "bytes \<Rightarrow> (nat \<times> bytes \<times> nat) sigmas" where
  "full_cert d = map (\<lambda>i. (int i, (i, d, 0))) [0, 1, 2]"

definition spbc_split :: "((bytes, bytes, nat \<times> bytes \<times> nat, (nat \<times> bytes \<times> nat) sigmas) spbc_state,
    (bytes, nat \<times> bytes \<times> nat, (nat \<times> bytes \<times> nat) sigmas) spbc_msg, bytes \<times> (nat \<times> bytes \<times> nat) sigmas) sys" where
  "spbc_split =
     (let sends = List.product [0, 1, 2] [[5], [6]];
          ask = map (\<lambda>(p, v). (3, p, SPBC_SEND v)) sends;
          lock = (\<lambda>v. map (\<lambda>p. (3, p, SPBC_READY v (full_cert (1 # v)))) [0, 1, 2]);
          take = map (\<lambda>p. (p, p, SPBC_TAKE)) [0, 1, 2];
          end = [(3, 0, SPBC_DONE [5] (full_cert [2, 5])), (3, 1, SPBC_DONE [6] (full_cert [2, 6]))]
      in deliver_all (spbc_cfg ex_spbc {3}) (strongprovablebroadcast ex_spbc)
           (forge_all (spbc_initial ex_spbc {3} [0]) (ask @ lock [5] @ lock [6] @ end))
           (ask @ lock [5] @ take @ lock [6] @ end))"

lemma spbc_split_reachable: "spbc_reachable ex_spbc {3} [0] spbc_split"
  unfolding spbc_reachable_def spbc_split_def Let_def
  by (rule deliver_all_reaches, rule forge_all_reaches [OF reaches.start]) (auto simp: spbc_cfg_def)

text \<open>
  A node signs every value of its leader, and agreement of strong provable broadcast fails. In a run
  with four nodes whose leader is faulty two correct nodes return different values, each with the
  signatures of all three correct nodes on its \<open>FINAL\<close> digest. No signature is forged or repeated.
\<close>

theorem spbc_disagreement:
  "\<exists>s. spbc_reachable ex_spbc {3} [0] s \<and> wf_cfg (spbc_cfg ex_spbc {3}) \<and>
     ended s 0 = Returned ([5], full_cert [2, 5]) \<and> ended s 1 = Returned ([6], full_cert [2, 6]) \<and>
     accepted_cert (ex_pki, {3}) [2, 5] (full_cert [2, 5]) \<and> final_unforged ex_spbc {3} s (full_cert [2, 5]) \<and>
     accepted_cert (ex_pki, {3}) [2, 6] (full_cert [2, 6]) \<and> final_unforged ex_spbc {3} s (full_cert [2, 6])"
proof (intro exI conjI)
  show "spbc_reachable ex_spbc {3} [0] spbc_split"
    by (rule spbc_split_reachable)
qed code_simp+

section \<open>Witness\<close>

theorem spbc_locked_witness:
  "2 \<le> card {q. q < 4 \<and> q \<notin> {3} \<and>
    (\<exists>c1. ([5], c1) \<in> sp_accepted (loc spbc_split q) \<and> sig_loop ex_pki [1, 5] c1 = Inr ())}"
proof -
  have "signs_bind ex_pki {3} made {[2, 5]}" for made by (auto simp: signs_bind_def ex_pki_def)
  moreover have "wf_cfg (spbc_cfg ex_spbc {3})" "accepted_cert (ex_pki, {3}) [2, 5] (full_cert [2, 5])"
    "final_unforged ex_spbc {3} spbc_split (full_cert [2, 5])" by code_simp+
  ultimately show ?thesis
    using spbc_locked [OF ex_spbc_def _ spbc_split_reachable, of "[5]" "full_cert [2, 5]"]
    by (simp add: ex_pki_def)
qed

end
