(* ===== verification/SMVBA.thy ===== *)
theory SMVBA
  imports SPBC
begin

text \<open>
  \<open>speedmvba\<close>: \<open>src/speedmvba/core/smvba.py\<close> and \<open>src/speedmvba/core/smvba_e.py\<close>, whose code is the
  same. The strong provable broadcasts are events; the main greenlet waits for them
  (\<open>y_phase = WaitSpbc\<close>) or for the ballots of its round (\<open>Balloting\<close>), the greenlet \<open>halt\<close> runs beside it.
\<close>

section \<open>Model\<close>

text \<open>
  What goes into a broadcast: \<open>(v, proof, round, tag)\<close>. In the \<open>'yn'\<close> case the code puts a whole such
  tuple, or the integer 0 it initialises \<open>vote_yes_msg\<close> with, in the place of \<open>v\<close>.
\<close>

datatype spbc_tag = First | NoTag | YnTag

datatype ('v, 'g) item = Val 'v | Zero | Tup "('v, 'g) spbc_input"
  and ('v, 'g) spbc_input = Input "('v, 'g) item" "'g sigmas option" nat spbc_tag

fun item0 :: "('v, 'g) spbc_input \<Rightarrow> ('v, 'g) item" where
  "item0 (Input x p r t) = x"

datatype ('v, 'g) aba_msg =
    PrevoteYes nat "('v, 'g) spbc_input" "'g sigmas"
  | PrevoteNo nat 'g
  | VoteYes nat "('v, 'g) spbc_input" "'g sigmas" 'g
  | VoteNo nat "'g sigmas" 'g
  | VoteOther "'g sigmas"

type_synonym ('v, 'g) halt_msg = "nat \<times> ('v, 'g) spbc_input \<times> 'g sigmas"

text \<open>
  \<open>yecho L m\<close>, \<open>yfinal L m\<close>: the digests of broadcast \<open>L\<close>; \<open>ypre L r\<close>, \<open>yvote L r\<close>: the digests of
  \<open>(sid, L, r, 'pre')\<close> and \<open>(sid, L, r, 'vote')\<close>; \<open>yseed\<close>: the hash of the session modulo \<open>2^10 - 1\<close>.
\<close>

record ('k, 'd, 'v, 'g) mvba_env = "('k, 'd, 'g) pki" +
  yecho :: "nat \<Rightarrow> ('v, 'g) spbc_input \<Rightarrow> 'd"
  yfinal :: "nat \<Rightarrow> ('v, 'g) spbc_input \<Rightarrow> 'd"
  ypre :: "nat \<Rightarrow> nat \<Rightarrow> 'd"
  yvote :: "nat \<Rightarrow> nat \<Rightarrow> 'd"
  yhash :: nat
  ypred :: "('v, 'g) item \<Rightarrow> bool"

datatype ('v, 'g) mvba_event =
    MVBA_IN 'v
  | S1_OUT nat "('v, 'g) spbc_input" "'g sigmas"
  | SPBC_OUT nat "('v, 'g) spbc_input" "'g sigmas"
  | MVBA_ABA nat nat "('v, 'g) aba_msg"
  | MVBA_HALT nat bool "('v, 'g) halt_msg"

datatype ('v, 'g) mvba_out =
    SPBC_INPUT nat "('v, 'g) spbc_input"
  | ABA_OUT_MSG nat "('v, 'g) aba_msg"
  | HALT_OUT nat "('v, 'g) halt_msg"

datatype mvba_phase = WaitSpbc | Balloting | MvReturned | MvStopped py_error

record ('v, 'g) mvba_state =
  y_my_msg :: "'v option"
  y_r :: nat
  y_outputs :: "nat \<Rightarrow> (('v, 'g) spbc_input \<times> 'g sigmas) option"
  y_s1 :: "nat \<Rightarrow> (('v, 'g) spbc_input \<times> 'g sigmas) option"
  y_delivered :: "nat list"
  y_prevote_no :: "(nat, 'g) odict"
  y_vote_yes :: "(nat, 'g) odict"
  y_vote_no :: "(nat, 'g) odict"
  y_vote_yes_msg :: "('v, 'g) spbc_input option option"
  y_recvs :: "nat \<Rightarrow> (nat \<times> ('v, 'g) aba_msg) list"
  y_phase :: mvba_phase
  y_halting :: bool
  y_decides :: "('v, 'g) item list"

definition mvba_init :: "('k, 'd, 'v, 'g) mvba_env \<Rightarrow> ('v, 'g) mvba_state" where
  "mvba_init E = \<lparr>y_my_msg = None, y_r = 0, y_outputs = (\<lambda>_. None), y_s1 = (\<lambda>_. None),
     y_delivered = replicate (kN E) 0, y_prevote_no = [], y_vote_yes = [], y_vote_no = [],
     y_vote_yes_msg = None, y_recvs = (\<lambda>_. []), y_phase = WaitSpbc, y_halting = True, y_decides = []\<rparr>"

type_synonym ('v, 'g) mvba_reply = "(('v, 'g) mvba_state, ('v, 'g) mvba_out, unit) reply"

text \<open>The leader of every round: \<open>seed\<close> does not depend on \<open>r\<close>.\<close>

definition mvba_leader :: "('k, 'd, 'v, 'g) mvba_env \<Rightarrow> nat" where
  "mvba_leader E = (yhash E mod (2 ^ 10 - 1)) mod kN E"

text \<open>An exception ends the main greenlet; \<open>halt\<close> goes on.\<close>

abbreviation main_fails :: "('v, 'g) mvba_state \<Rightarrow> py_error \<Rightarrow> ('v, 'g) mvba_reply" where
  "main_fails s e \<equiv> stay (s\<lparr>y_phase := MvStopped e\<rparr>)"

text \<open>
  \<open>try\<close> around a loop of \<open>assert ecdsa_vrfy(PK2s[k], d, sig_k)\<close>: accepted, refused, or an \<open>IndexError\<close>
  that the handler \<open>except AssertionError\<close> does not catch.
\<close>

definition sigs_ok :: "('k, 'd, 'g, 'x) pki_scheme \<Rightarrow> 'd \<Rightarrow> 'g sigmas \<Rightarrow> py_error + bool" where
  "sigs_ok P d sigs = try_assert (res_bind (sig_loop P d sigs) (\<lambda>_. Inr True))"

definition dict_sigs :: "('k, 'd, 'g, 'x) pki_scheme \<Rightarrow> (nat, 'g) odict \<Rightarrow> 'g sigmas" where
  "dict_sigs P d = map (\<lambda>(i, g). (int i, g)) (take (kN P - kf P) d)"

text \<open>The greenlet \<open>halt\<close>.\<close>

definition mvba_halt :: "('k, 'd, 'v, 'g) mvba_env \<Rightarrow> ('v, 'g) mvba_state \<Rightarrow> bool \<Rightarrow> ('v, 'g) halt_msg \<Rightarrow>
    ('v, 'g) mvba_reply" where
  "mvba_halt E s tag_ok hm =
     (if \<not> y_halting s \<or> \<not> tag_ok then stay s
      else case hm of (L, m, sigs) \<Rightarrow>
        (case sigs_ok E (yfinal E L m) sigs of
           Inl e \<Rightarrow> stay (s\<lparr>y_halting := False\<rparr>)
         | Inr False \<Rightarrow> stay s
         | Inr True \<Rightarrow> (s\<lparr>y_halting := False, y_decides := y_decides s @ [item0 m]\<rparr>,
                        [Send (-1) (HALT_OUT (y_r s) hm)], Running)))"

text \<open>A \<open>prevote\<close> message of the round.\<close>

definition prevote_no :: "('k, 'd, 'v, 'g) mvba_env \<Rightarrow> nat \<Rightarrow> ('v, 'g) mvba_state \<Rightarrow> nat \<Rightarrow> nat \<Rightarrow> 'g \<Rightarrow>
    ('v, 'g) mvba_reply" where
  "prevote_no E pid s sender L sig =
     (let Ld = mvba_leader E; s0 = s\<lparr>y_vote_yes_msg := Some None\<rparr> in
      if L \<noteq> Ld then stay s0
      else case share_ok E (Some (ypre E Ld (y_r s))) sender sig of
          Inl e \<Rightarrow> main_fails s0 e
        | Inr False \<Rightarrow> stay s0
        | Inr True \<Rightarrow>
            let s1 = s0\<lparr>y_prevote_no := od_set sender sig (y_prevote_no s0)\<rparr> in
            if length (y_prevote_no s1) = kN E - kf E
            then (s1, [Send (-1) (ABA_OUT_MSG (y_r s) (VoteNo Ld (dict_sigs E (y_prevote_no s1))
                    (ksgn E pid (yvote E Ld (y_r s)))))], Running)
            else stay s1)"

definition prevote_yes :: "('k, 'd, 'v, 'g) mvba_env \<Rightarrow> nat \<Rightarrow> ('v, 'g) mvba_state \<Rightarrow> nat \<Rightarrow>
    ('v, 'g) spbc_input \<Rightarrow> 'g sigmas \<Rightarrow> ('v, 'g) mvba_reply" where
  "prevote_yes E pid s L m sigs =
     (let Ld = mvba_leader E; s0 = s\<lparr>y_vote_yes_msg := Some None\<rparr> in
      if L \<noteq> Ld then stay s0
      else case sigs_ok E (yecho E Ld m) sigs of
          Inl e \<Rightarrow> main_fails s0 e
        | Inr False \<Rightarrow> stay s0
        | Inr True \<Rightarrow> (s0, [Send (-1) (ABA_OUT_MSG (y_r s)
            (VoteYes Ld m sigs (ksgn E pid (yfinal E Ld m))))], Running))"

text \<open>The start of the next round, and the branch where \<open>yes\<close> and \<open>no\<close> votes have met.\<close>

definition next_mvba_round :: "('v, 'g) mvba_state \<Rightarrow> ('v, 'g) mvba_state" where
  "next_mvba_round s = s\<lparr>y_r := y_r s + 1, y_phase := WaitSpbc\<rparr>"

definition both_votes :: "('v, 'g) mvba_state \<Rightarrow> 'g sigmas \<Rightarrow> ('v, 'g) mvba_reply" where
  "both_votes s sigs =
     (if y_vote_no s \<noteq> [] \<and> y_vote_yes s \<noteq> []
      then (case y_vote_yes_msg s of
              None \<Rightarrow> main_fails s NameError
            | Some vm \<Rightarrow>
                (next_mvba_round s,
                 [Send 0 (SPBC_INPUT (y_r s + 1)
                    (Input (case vm of None \<Rightarrow> Zero | Some m \<Rightarrow> Tup m) (Some sigs) (y_r s) YnTag))], Running))
      else stay s)"

text \<open>A \<open>vote\<close> message. A wrong leader is only logged.\<close>

definition vote_yes :: "('k, 'd, 'v, 'g) mvba_env \<Rightarrow> ('v, 'g) mvba_state \<Rightarrow> nat \<Rightarrow> ('v, 'g) spbc_input \<Rightarrow>
    'g sigmas \<Rightarrow> 'g \<Rightarrow> ('v, 'g) mvba_reply" where
  "vote_yes E s sender m sigs sig =
     (let Ld = mvba_leader E in
      case res_bind (sig_loop E (yecho E Ld m) sigs) (\<lambda>_. share_ok E (Some (yfinal E Ld m)) sender sig) of
        Inl AssertionError \<Rightarrow> stay s
      | Inl e \<Rightarrow> main_fails s e
      | Inr False \<Rightarrow> stay s
      | Inr True \<Rightarrow>
          let s1 = s\<lparr>y_vote_yes := od_set sender sig (y_vote_yes s), y_vote_yes_msg := Some (Some m)\<rparr> in
          if length (y_vote_yes s1) = kN E - kf E
          then (s1\<lparr>y_decides := y_decides s1 @ [item0 m], y_phase := MvReturned\<rparr>,
                [Send (-1) (HALT_OUT (y_r s) (Ld, m, dict_sigs E (y_vote_yes s1)))], Running)
          else both_votes s1 sigs)"

definition vote_no :: "('k, 'd, 'v, 'g) mvba_env \<Rightarrow> ('v, 'g) mvba_state \<Rightarrow> nat \<Rightarrow> 'g sigmas \<Rightarrow> 'g \<Rightarrow>
    ('v, 'g) mvba_reply" where
  "vote_no E s sender sigs sig =
     (let Ld = mvba_leader E in
      case res_bind (sig_loop E (ypre E Ld (y_r s)) sigs)
             (\<lambda>_. share_ok E (Some (yvote E Ld (y_r s))) sender sig) of
        Inl AssertionError \<Rightarrow> stay s
      | Inl e \<Rightarrow> main_fails s e
      | Inr False \<Rightarrow> stay s
      | Inr True \<Rightarrow>
          let s1 = s\<lparr>y_vote_no := od_set sender sig (y_vote_no s)\<rparr> in
          if length (y_vote_no s1) = kN E - kf E
          then (case y_my_msg s1 of
                  None \<Rightarrow> main_fails s1 NameError
                | Some v \<Rightarrow> (next_mvba_round s1,
                    [Send 0 (SPBC_INPUT (y_r s + 1)
                       (Input (Val v) (Some (dict_sigs E (y_vote_no s1))) (y_r s) NoTag))], Running))
          else both_votes s1 sigs)"

fun mvba_ballot :: "('k, 'd, 'v, 'g) mvba_env \<Rightarrow> nat \<Rightarrow> ('v, 'g) mvba_state \<Rightarrow> nat \<times> ('v, 'g) aba_msg \<Rightarrow>
    ('v, 'g) mvba_reply" where
  "mvba_ballot E pid s (sender, PrevoteYes L m sigs) = prevote_yes E pid s L m sigs"
| "mvba_ballot E pid s (sender, PrevoteNo L sig) = prevote_no E pid s sender L sig"
| "mvba_ballot E pid s (sender, VoteYes L m sigs sig) = vote_yes E s sender m sigs sig"
| "mvba_ballot E pid s (sender, VoteNo L sigs sig) = vote_no E s sender sigs sig"
| "mvba_ballot E pid s (sender, VoteOther sigs) = both_votes s sigs"

text \<open>The ballot loop over the messages that wait in the queue of the round.\<close>

fun ballot_loop :: "('k, 'd, 'v, 'g) mvba_env \<Rightarrow> nat \<Rightarrow> ('v, 'g) mvba_state \<Rightarrow> (nat \<times> ('v, 'g) aba_msg) list \<Rightarrow>
    ('v, 'g) mvba_reply" where
  "ballot_loop E pid s [] = stay s"
| "ballot_loop E pid s (x # xs) =
     (case mvba_ballot E pid s x of (s1, outs, c) \<Rightarrow>
        if y_phase s1 = Balloting
        then (case ballot_loop E pid s1 xs of (s2, outs2, c2) \<Rightarrow> (s2, outs @ outs2, c2))
        else (s1, outs, c))"

text \<open>After the signal: the election, then a decision or the own prevote and the ballot loop.\<close>

definition mvba_elect :: "('k, 'd, 'v, 'g) mvba_env \<Rightarrow> nat \<Rightarrow> ('v, 'g) mvba_state \<Rightarrow> ('v, 'g) mvba_reply" where
  "mvba_elect E pid s =
     (let Ld = mvba_leader E in
      if \<not> y_r s < 100 then main_fails s IndexError
      else if y_delivered s ! Ld = 1
      then (case y_outputs s Ld of
              None \<Rightarrow> stay s
            | Some (m, sigs) \<Rightarrow>
                (s\<lparr>y_decides := y_decides s @ [item0 m], y_phase := MvReturned\<rparr>,
                 [Send (-1) (HALT_OUT (y_r s) (Ld, m, sigs))], Running))
      else let prevote = (case y_s1 s Ld of Some (m, s1) \<Rightarrow> PrevoteYes Ld m s1
                          | None \<Rightarrow> PrevoteNo Ld (ksgn E pid (ypre E Ld (y_r s))));
               s1 = s\<lparr>y_phase := Balloting, y_prevote_no := [], y_vote_yes := [], y_vote_no := [],
                      y_recvs := (y_recvs s)(y_r s := [])\<rparr>
           in (case ballot_loop E pid s1 (y_recvs s (y_r s)) of
                 (s2, outs, c) \<Rightarrow> (s2, Send (-1) (ABA_OUT_MSG (y_r s) prevote) # outs, c)))"

definition mvba_delivered :: "('k, 'd, 'v, 'g) mvba_env \<Rightarrow> ('v, 'g) mvba_state \<Rightarrow> nat \<Rightarrow> ('v, 'g) spbc_input \<Rightarrow>
    'g sigmas \<Rightarrow> ('v, 'g) mvba_state \<times> bool" where
  "mvba_delivered E s j m sigs =
     (if ypred E (item0 m)
      then let s1 = s\<lparr>y_outputs := (y_outputs s)(j := Some (m, sigs)), y_delivered := (y_delivered s)[j := 1]\<rparr>
           in (s1, kN E - kf E \<le> sum_list (y_delivered s1))
      else (s, False))"

fun speedmvba :: "('k, 'd, 'v, 'g) mvba_env \<Rightarrow> nat \<Rightarrow> ('v, 'g) mvba_state \<Rightarrow> ('v, 'g) mvba_event \<Rightarrow>
    ('v, 'g) mvba_reply" where
  "speedmvba E pid s (MVBA_IN v) =
     (s\<lparr>y_my_msg := Some v\<rparr>, [Send 0 (SPBC_INPUT 0 (Input (Val v) None 0 First))], Running)"
| "speedmvba E pid s (S1_OUT j m sigs) = stay (s\<lparr>y_s1 := (y_s1 s)(j := Some (m, sigs))\<rparr>)"
| "speedmvba E pid s (SPBC_OUT j m sigs) =
     (case mvba_delivered E s j m sigs of (s1, go) \<Rightarrow>
        if go \<and> y_phase s1 = WaitSpbc then mvba_elect E pid s1 else stay s1)"
| "speedmvba E pid s (MVBA_ABA r sender x) =
     (if y_phase s = Balloting \<and> r = y_r s then ballot_loop E pid s [(sender, x)]
      else stay (s\<lparr>y_recvs := (y_recvs s)(r := y_recvs s r @ [(sender, x)])\<rparr>))"
| "speedmvba E pid s (MVBA_HALT sender tag_ok hm) = mvba_halt E s tag_ok hm"

text \<open>\<open>smvba_e.py\<close> holds the same loop once more.\<close>

definition speedmvba_e :: "('k, 'd, 'v, 'g) mvba_env \<Rightarrow> nat \<Rightarrow> ('v, 'g) mvba_state \<Rightarrow> ('v, 'g) mvba_event list \<Rightarrow>
    ('v, 'g) mvba_reply" where
  "speedmvba_e E pid s es = run_loop (speedmvba E pid) s es"

section \<open>Where a decision comes from\<close>

definition halt_source :: "('k, 'd, 'v, 'g) mvba_env \<Rightarrow> ('v, 'g) mvba_event set \<Rightarrow> ('v, 'g) item \<Rightarrow> bool" where
  "halt_source E X x \<longleftrightarrow> (\<exists>q L m sigs. MVBA_HALT q True (L, m, sigs) \<in> X \<and> x = item0 m \<and>
     sigs_ok E (yfinal E L m) sigs = Inr True)"

definition broadcast_source :: "('k, 'd, 'v, 'g) mvba_env \<Rightarrow> ('v, 'g) mvba_event set \<Rightarrow> ('v, 'g) item \<Rightarrow> bool" where
  "broadcast_source E X x \<longleftrightarrow>
     (\<exists>m sigs. SPBC_OUT (mvba_leader E) m sigs \<in> X \<and> x = item0 m \<and> ypred E x)"

text \<open>The nodes whose \<open>yes\<close> vote of round \<open>r\<close> carries a valid share of theirs.\<close>

definition yes_voters :: "('k, 'd, 'v, 'g) mvba_env \<Rightarrow> ('v, 'g) mvba_event set \<Rightarrow> nat \<Rightarrow> nat set" where
  "yes_voters E X r = {q. \<exists>L m sigs sig. MVBA_ABA r q (VoteYes L m sigs sig) \<in> X \<and>
     share_ok E (Some (yfinal E (mvba_leader E) m)) q sig = Inr True}"

definition vote_source :: "('k, 'd, 'v, 'g) mvba_env \<Rightarrow> ('v, 'g) mvba_event set \<Rightarrow> ('v, 'g) item \<Rightarrow> bool" where
  "vote_source E X x \<longleftrightarrow>
     (\<exists>r q L m sigs sig Q. MVBA_ABA r q (VoteYes L m sigs sig) \<in> X \<and> x = item0 m \<and>
        sig_loop E (yecho E (mvba_leader E) m) sigs = Inr () \<and>
        Q \<subseteq> yes_voters E X r \<and> card Q = kN E - kf E)"

definition mvba_source :: "('k, 'd, 'v, 'g) mvba_env \<Rightarrow> ('v, 'g) mvba_event set \<Rightarrow> ('v, 'g) item \<Rightarrow> bool" where
  "mvba_source E X x \<longleftrightarrow> halt_source E X x \<or> broadcast_source E X x \<or> vote_source E X x"

definition decides_ok :: "('k, 'd, 'v, 'g) mvba_env \<Rightarrow> ('v, 'g) mvba_event set \<Rightarrow> ('v, 'g) mvba_state \<Rightarrow> bool" where
  "decides_ok E X s \<longleftrightarrow> (\<forall>x \<in> set (y_decides s). mvba_source E X x)"

definition leader_output_ok :: "('k, 'd, 'v, 'g) mvba_env \<Rightarrow> ('v, 'g) mvba_event set \<Rightarrow> ('v, 'g) mvba_state \<Rightarrow> bool" where
  "leader_output_ok E X s \<longleftrightarrow> (\<forall>m sigs. y_outputs s (mvba_leader E) = Some (m, sigs) \<longrightarrow>
     SPBC_OUT (mvba_leader E) m sigs \<in> X \<and> ypred E (item0 m))"

definition recvs_ok :: "('v, 'g) mvba_event set \<Rightarrow> ('v, 'g) mvba_state \<Rightarrow> bool" where
  "recvs_ok X s \<longleftrightarrow> (\<forall>r q x. (q, x) \<in> set (y_recvs s r) \<longrightarrow> MVBA_ABA r q x \<in> X)"

definition yes_ok :: "('k, 'd, 'v, 'g) mvba_env \<Rightarrow> ('v, 'g) mvba_event set \<Rightarrow> ('v, 'g) mvba_state \<Rightarrow> bool" where
  "yes_ok E X s \<longleftrightarrow> (y_phase s = Balloting \<longrightarrow>
     distinct (map fst (y_vote_yes s)) \<and> (\<forall>q g. (q, g) \<in> set (y_vote_yes s) \<longrightarrow> q \<in> yes_voters E X (y_r s)))"

definition mvba_inv :: "('k, 'd, 'v, 'g) mvba_env \<Rightarrow> ('v, 'g) mvba_event set \<Rightarrow> ('v, 'g) mvba_state \<Rightarrow> bool" where
  "mvba_inv E X s \<longleftrightarrow> decides_ok E X s \<and> leader_output_ok E X s \<and> recvs_ok X s \<and> yes_ok E X s"

lemmas mvba_ok_defs = mvba_inv_def decides_ok_def leader_output_ok_def recvs_ok_def yes_ok_def

text \<open>Steps that keep the round, the decisions, the queues and the \<open>yes\<close> votes.\<close>

lemma mvba_inv_frame:
  assumes "mvba_inv E X s" and "y_decides s' = y_decides s" and "y_outputs s' = y_outputs s"
    and "y_recvs s' = y_recvs s" and "y_phase s' = Balloting \<Longrightarrow> y_phase s = Balloting \<and>
      y_vote_yes s' = y_vote_yes s \<and> y_r s' = y_r s"
  shows "mvba_inv E X s'"
  using assms unfolding mvba_ok_defs by metis

lemma both_votes_inv:
  assumes "mvba_inv E X s" and "both_votes s sigs = (s', outs, c)"
  shows "mvba_inv E X s'"
  using assms(2)
  by (intro mvba_inv_frame [OF assms(1)])
    (auto simp: both_votes_def next_mvba_round_def split: if_splits option.splits)

lemma prevote_no_inv:
  assumes "mvba_inv E X s" and "prevote_no E p s q L g = (s', outs, c)"
  shows "mvba_inv E X s'"
  using assms(2)
  by (intro mvba_inv_frame [OF assms(1)])
    (auto simp: prevote_no_def Let_def split: if_splits sum.splits bool.splits)

lemma prevote_yes_inv:
  assumes "mvba_inv E X s" and "prevote_yes E p s L m sigs = (s', outs, c)"
  shows "mvba_inv E X s'"
  using assms(2)
  by (intro mvba_inv_frame [OF assms(1)])
    (auto simp: prevote_yes_def Let_def split: if_splits sum.splits bool.splits)

lemma vote_no_inv:
  assumes "mvba_inv E X s" and "vote_no E s q sigs g = (s', outs, c)"
  shows "mvba_inv E X s'"
proof -
  have i1: "mvba_inv E X (s\<lparr>y_vote_no := od_set q g (y_vote_no s)\<rparr>)"
    by (rule mvba_inv_frame [OF assms(1)]) simp_all
  consider (idle) "s' = s" | (fails) e where "s' = s\<lparr>y_phase := MvStopped e\<rparr>"
    | (nomsg) "s' = s\<lparr>y_vote_no := od_set q g (y_vote_no s), y_phase := MvStopped NameError\<rparr>"
    | (round) "s' = next_mvba_round (s\<lparr>y_vote_no := od_set q g (y_vote_no s)\<rparr>)"
    | (both) "both_votes (s\<lparr>y_vote_no := od_set q g (y_vote_no s)\<rparr>) sigs = (s', outs, c)"
  proof (cases "res_bind (sig_loop E (ypre E (mvba_leader E) (y_r s)) sigs)
      (\<lambda>_. share_ok E (Some (yvote E (mvba_leader E) (y_r s))) q g)")
    case (Inl e)
    with assms(2) have "s' = s \<or> s' = s\<lparr>y_phase := MvStopped e\<rparr>"
      by (cases e) (simp_all add: vote_no_def Let_def)
    with idle fails show ?thesis by blast
  next
    case (Inr ok)
    show ?thesis
    proof (cases ok)
      case False
      with assms(2) idle Inr show ?thesis by (simp add: vote_no_def Let_def)
    next
      case ok: True
      show ?thesis
      proof (cases "length (od_set q g (y_vote_no s)) = kN E - kf E")
        case False
        with assms(2) both Inr ok show ?thesis by (simp add: vote_no_def Let_def)
      next
        case True
        with assms(2) nomsg round Inr ok show ?thesis by (cases "y_my_msg s") (simp_all add: vote_no_def Let_def)
      qed
    qed
  qed
  then show ?thesis
  proof cases
    case both
    then show ?thesis by (rule both_votes_inv [OF i1])
  qed (use assms(1) in \<open>auto intro: mvba_inv_frame simp: next_mvba_round_def\<close>)
qed

lemma vote_yes_accepted:
  "res_bind (sig_loop E d sigs) (\<lambda>_. share_ok E d' q g) = Inr True \<longleftrightarrow>
     sig_loop E d sigs = Inr () \<and> share_ok E d' q g = Inr True"
  by (cases "sig_loop E d sigs") auto

lemma vote_yes_inv:
  assumes "mvba_inv E X s" and b: "y_phase s = Balloting" and e: "MVBA_ABA (y_r s) q (VoteYes L m sigs g) \<in> X"
    and h: "vote_yes E s q m sigs g = (s', outs, c)"
  shows "mvba_inv E X s'"
proof -
  let ?a = "res_bind (sig_loop E (yecho E (mvba_leader E) m) sigs)
    (\<lambda>_. share_ok E (Some (yfinal E (mvba_leader E) m)) q g)"
  show ?thesis
  proof (cases "?a = Inr True")
    case False
    then have "s' = s \<or> (\<exists>e. s' = s\<lparr>y_phase := MvStopped e\<rparr>)"
      using h by (auto simp: vote_yes_def Let_def split: sum.splits bool.splits py_error.splits)
    then show ?thesis using assms(1) by (auto intro: mvba_inv_frame)
  next
    case True
    define s1 where "s1 = s\<lparr>y_vote_yes := od_set q g (y_vote_yes s), y_vote_yes_msg := Some (Some m)\<rparr>"
    have ok: "sig_loop E (yecho E (mvba_leader E) m) sigs = Inr ()"
      "share_ok E (Some (yfinal E (mvba_leader E) m)) q g = Inr True"
      using True by (simp_all add: vote_yes_accepted)
    then have q: "q \<in> yes_voters E X (y_r s)" using e unfolding yes_voters_def by blast
    have y: "yes_ok E X s1"
      using assms(1) b q od_set_mem [of "y_vote_yes s" _ q g]
      by (auto simp: s1_def mvba_inv_def yes_ok_def intro: od_set_distinct)
    have i1: "mvba_inv E X s1" using assms(1) y by (auto simp: s1_def mvba_inv_def decides_ok_def
        leader_output_ok_def recvs_ok_def)
    show ?thesis
    proof (cases "length (y_vote_yes s1) = kN E - kf E")
      case len: True
      let ?Q = "fst ` set (y_vote_yes s1)"
      have "card ?Q = kN E - kf E"
        using y b len distinct_card [of "map fst (y_vote_yes s1)"] by (simp add: yes_ok_def s1_def)
      moreover have "?Q \<subseteq> yes_voters E X (y_r s)" using y b by (auto simp: yes_ok_def s1_def)
      ultimately have src: "vote_source E X (item0 m)" using e ok(1) unfolding vote_source_def by blast
      have "s' = s1\<lparr>y_decides := y_decides s1 @ [item0 m], y_phase := MvReturned\<rparr>"
        using h True len by (simp add: vote_yes_def Let_def s1_def)
      then show ?thesis using i1 src by (auto simp: mvba_ok_defs mvba_source_def)
    next
      case False
      then have "both_votes s1 sigs = (s', outs, c)" using h True by (simp add: vote_yes_def Let_def s1_def)
      then show ?thesis by (rule both_votes_inv [OF i1])
    qed
  qed
qed

lemma mvba_ballot_inv:
  assumes "mvba_inv E X s" and "y_phase s = Balloting" and "MVBA_ABA (y_r s) q x \<in> X"
    and h: "mvba_ballot E p s (q, x) = (s', outs, c)"
  shows "mvba_inv E X s'"
  using assms by (cases x) (auto intro: prevote_no_inv prevote_yes_inv vote_yes_inv vote_no_inv both_votes_inv)

text \<open>While the main greenlet stays in the ballot loop its round does not change.\<close>

lemma ballot_round:
  assumes "mvba_ballot E p s (q, x) = (s', outs, c)" and "y_phase s' = Balloting"
  shows "y_r s' = y_r s"
  using assms by (cases x) (auto simp: prevote_no_def prevote_yes_def vote_yes_def vote_no_def both_votes_def
      next_mvba_round_def Let_def split: if_splits sum.splits bool.splits py_error.splits option.splits)

lemma ballot_loop_inv:
  "mvba_inv E X s \<Longrightarrow> y_phase s = Balloting \<Longrightarrow> \<forall>(q, x) \<in> set xs. MVBA_ABA (y_r s) q x \<in> X \<Longrightarrow>
    ballot_loop E p s xs = (s', outs, c) \<Longrightarrow> mvba_inv E X s'"
proof (induction xs arbitrary: s outs)
  case Nil
  then show ?case by simp
next
  case (Cons e xs)
  obtain q x where e: "e = (q, x)" by (cases e)
  obtain s1 o1 c1 where h: "mvba_ballot E p s (q, x) = (s1, o1, c1)" by (cases "mvba_ballot E p s (q, x)")
  have i1: "mvba_inv E X s1" by (rule mvba_ballot_inv [OF Cons.prems(1,2) _ h]) (use Cons.prems(3) e in auto)
  show ?case
  proof (cases "y_phase s1 = Balloting")
    case True
    then obtain o2 where "ballot_loop E p s1 xs = (s', o2, c)"
      using Cons.prems(4) h e by (auto split: prod.splits)
    then show ?thesis
      using Cons.IH [OF i1 True] Cons.prems(3) e ballot_round [OF h True] by auto
  next
    case False
    then show ?thesis using Cons.prems(4) h e i1 by simp
  qed
qed

lemma mvba_elect_inv:
  assumes i: "mvba_inv E X s" and h: "mvba_elect E p s = (s', outs, c)"
  shows "mvba_inv E X s'"
proof (cases "\<not> y_r s < 100 \<or> y_delivered s ! mvba_leader E = 1")
  case True
  consider (fails) "s' = s\<lparr>y_phase := MvStopped IndexError\<rparr>" | (idle) "s' = s"
    | (decide) m sigs where "y_outputs s (mvba_leader E) = Some (m, sigs)"
        "s' = s\<lparr>y_decides := y_decides s @ [item0 m], y_phase := MvReturned\<rparr>"
  proof (cases "y_r s < 100")
    case False
    with h fails show ?thesis by (simp add: mvba_elect_def Let_def)
  next
    case r: True
    show ?thesis
    proof (cases "y_outputs s (mvba_leader E)")
      case None
      with r h True idle show ?thesis by (simp add: mvba_elect_def Let_def)
    next
      case (Some o1)
      with r h True decide show ?thesis by (cases o1) (simp add: mvba_elect_def Let_def)
    qed
  qed
  then show ?thesis
  proof cases
    case decide
    then have "mvba_source E X (item0 m)"
      using i by (auto simp: mvba_inv_def leader_output_ok_def mvba_source_def broadcast_source_def)
    then show ?thesis using i decide by (auto simp: mvba_ok_defs)
  qed (use i in \<open>auto intro: mvba_inv_frame\<close>)
next
  case False
  define s1 where "s1 = s\<lparr>y_phase := Balloting, y_prevote_no := [], y_vote_yes := [], y_vote_no := [],
      y_recvs := (y_recvs s)(y_r s := [])\<rparr>"
  have i1: "mvba_inv E X s1" using i by (auto simp: s1_def mvba_ok_defs)
  obtain o2 where "ballot_loop E p s1 (y_recvs s (y_r s)) = (s', o2, c)"
    using h False by (auto simp: mvba_elect_def Let_def s1_def split: prod.splits)
  then show ?thesis
    by (rule ballot_loop_inv [OF i1, rotated 2]) (use i in \<open>auto simp: s1_def mvba_inv_def recvs_ok_def\<close>)
qed

lemma mvba_step_inv:
  assumes i: "mvba_inv E X s" and e: "e \<in> X" and h: "speedmvba E p s e = (s', outs, c)"
  shows "mvba_inv E X s'"
proof (cases e)
  case (SPBC_OUT j m sigs)
  obtain s1 go where 1: "mvba_delivered E s j m sigs = (s1, go)" by (cases "mvba_delivered E s j m sigs")
  have f: "y_phase s1 = y_phase s" "y_vote_yes s1 = y_vote_yes s" "y_r s1 = y_r s"
    using 1 by (auto simp: mvba_delivered_def Let_def split: if_splits)
  have "decides_ok E X s1 \<and> leader_output_ok E X s1 \<and> recvs_ok X s1"
    using 1 i e SPBC_OUT unfolding mvba_inv_def
    by (auto simp: mvba_delivered_def Let_def decides_ok_def leader_output_ok_def recvs_ok_def split: if_splits)
  then have i1: "mvba_inv E X s1" using i f by (simp add: mvba_inv_def yes_ok_def)
  show ?thesis
  proof (cases "go \<and> y_phase s1 = WaitSpbc")
    case True
    then show ?thesis using h SPBC_OUT 1 by (auto intro: mvba_elect_inv [OF i1])
  next
    case False
    then show ?thesis using h SPBC_OUT 1 i1 by auto
  qed
next
  case (MVBA_ABA r q x)
  show ?thesis
  proof (cases "y_phase s = Balloting \<and> r = y_r s")
    case True
    have l: "ballot_loop E p s [(q, x)] = (s', outs, c)" using h MVBA_ABA True by simp
    show ?thesis by (rule ballot_loop_inv [OF i _ _ l]) (use True e MVBA_ABA in simp_all)
  next
    case False
    then have "s' = s\<lparr>y_recvs := (y_recvs s)(r := y_recvs s r @ [(q, x)])\<rparr>"
      using h MVBA_ABA by (auto split: if_splits)
    then show ?thesis using i e MVBA_ABA by (auto simp: mvba_ok_defs)
  qed
next
  case (MVBA_HALT q ok hm)
  obtain L m sigs where hm: "hm = (L, m, sigs)" by (cases hm)
  have hh: "mvba_halt E s ok hm = (s', outs, c)" using h MVBA_HALT by simp
  show ?thesis
  proof (cases "y_halting s \<and> ok")
    case False
    then have "s' = s" using hh by (simp add: mvba_halt_def split: if_splits)
    then show ?thesis using i by simp
  next
    case run: True
    show ?thesis
    proof (cases "sigs_ok E (yfinal E L m) sigs = Inr True")
      case True
      then have "s' = s\<lparr>y_halting := False, y_decides := y_decides s @ [item0 m]\<rparr>"
        using hh hm run by (simp add: mvba_halt_def)
      moreover have "mvba_source E X (item0 m)"
        using True run e MVBA_HALT hm by (auto simp: mvba_source_def halt_source_def)
      ultimately show ?thesis using i by (auto simp: mvba_ok_defs)
    next
      case False
      then have "s' = s \<or> s' = s\<lparr>y_halting := False\<rparr>"
        using hh hm run by (cases "sigs_ok E (yfinal E L m) sigs") (auto simp: mvba_halt_def)
      then show ?thesis using i by (auto intro: mvba_inv_frame)
    qed
  qed
next
  case (MVBA_IN v)
  show ?thesis by (rule mvba_inv_frame [OF i]) (use h MVBA_IN in auto)
next
  case (S1_OUT j m sigs)
  show ?thesis by (rule mvba_inv_frame [OF i]) (use h S1_OUT in auto)
qed

lemma mvba_run_inv:
  "mvba_inv E X s \<Longrightarrow> set es \<subseteq> X \<Longrightarrow> run_loop (speedmvba E p) s es = (s', outs, c) \<Longrightarrow> mvba_inv E X s'"
proof (induction es arbitrary: s outs)
  case Nil
  then show ?case by simp
next
  case (Cons e es)
  obtain s1 o1 c1 where h: "speedmvba E p s e = (s1, o1, c1)" by (cases "speedmvba E p s e")
  have i1: "mvba_inv E X s1" by (rule mvba_step_inv [OF Cons.prems(1) _ h]) (use Cons.prems(2) in simp)
  show ?case
    using Cons.IH [OF i1] Cons.prems(2,3) h i1 by (cases c1) (auto split: prod.splits)
qed

lemma mvba_init_inv: "mvba_inv E X (mvba_init E)"
  by (simp add: mvba_ok_defs mvba_init_def)

lemma smvba_sources:
  assumes "x \<in> set (y_decides (fst (run_loop (speedmvba E p) (mvba_init E) es)))"
  shows "mvba_source E (set es) x"
proof -
  obtain s outs c where r: "run_loop (speedmvba E p) (mvba_init E) es = (s, outs, c)"
    by (cases "run_loop (speedmvba E p) (mvba_init E) es")
  show ?thesis using mvba_run_inv [OF mvba_init_inv order_refl r] assms r
    by (simp add: mvba_inv_def decides_ok_def)
qed


section \<open>Properties\<close>

text \<open>
  C22: Where decisions come from. Every value that a node of \<open>speedmvba\<close> decides comes from a \<open>halt\<close>
  message whose signatures verify, from the broadcast of the elected leader with a value that
  satisfies the predicate, or from a \<open>yes\<close> vote of a round in which \<open>N - f\<close> different nodes have voted
  \<open>yes\<close> with a valid share.
\<close>

theorem smvba_decision_source:
  assumes "x \<in> set (y_decides (fst (run_loop (speedmvba E p) (mvba_init E) es)))"
  shows "halt_source E (set es) x \<or> broadcast_source E (set es) x \<or> vote_source E (set es) x"
  using smvba_sources [OF assms] by (simp add: mvba_source_def)

text \<open>
  The leader is never changed. It is a function of the session alone, the same in every round, so
  when the elected node is silent (no broadcast of it completes, nobody can vote \<open>yes\<close>), a node goes
  through rounds and never decides, whatever the other messages are.
\<close>

theorem smvba_silent_leader:
  assumes "\<forall>m sigs. SPBC_OUT (mvba_leader E) m sigs \<notin> set es"
    and "\<forall>r q L m sigs g. MVBA_ABA r q (VoteYes L m sigs g) \<notin> set es"
    and "\<forall>q hm. MVBA_HALT q True hm \<notin> set es"
  shows "y_decides (fst (run_loop (speedmvba E p) (mvba_init E) es)) = []"
proof -
  have "\<not> mvba_source E (set es) x" for x
    using assms by (auto simp: mvba_source_def halt_source_def broadcast_source_def vote_source_def)
  then show ?thesis using smvba_sources by (metis list.set_intros(1) neq_Nil_conv)
qed

text \<open>
  One message decides. A \<open>halt\<close> message with an empty list of signatures passes the check of
  \<open>halt\<close>, so any node makes every other node decide any value, before the predicate or a quorum is asked.
\<close>

theorem smvba_forged_halt:
  "y_decides (fst (run_loop (speedmvba E p) (mvba_init E) [MVBA_HALT q True (L, Input (Val v) None r First, [])]))
     = [Val v]"
  by (simp add: mvba_init_def mvba_halt_def sigs_ok_def try_assert_def)

section \<open>Witnesses\<close>

definition ex_mvba :: "(nat, bytes, bytes, nat \<times> bytes \<times> nat) mvba_env" where
  "ex_mvba = \<lparr>kN = 4, kf = 1, kpks = [0, 1, 2, 3], kvr = (\<lambda>pk d g. fst g = pk \<and> fst (snd g) = d), kmal = (\<lambda>g. False),
     ksgn = (\<lambda>i d. (i, d, 0)),
     yecho = (\<lambda>L m. [1, of_nat L]), yfinal = (\<lambda>L m. [2, of_nat L]),
     ypre = (\<lambda>L r. [3, of_nat L, of_nat r]), yvote = (\<lambda>L r. [4, of_nat L, of_nat r]),
     yhash = 2, ypred = (\<lambda>_. True)\<rparr>"

definition ex_input :: "(bytes, nat \<times> bytes \<times> nat) spbc_input" where
  "ex_input = Input (Val [7]) None 0 First"

text \<open>The leader's broadcast is not complete, its first phase is: three nodes vote \<open>yes\<close>.\<close>

definition ex_mvba_yes :: "(bytes, nat \<times> bytes \<times> nat) mvba_event list" where
  "ex_mvba_yes =
     [MVBA_IN [7], SPBC_OUT 0 ex_input [], SPBC_OUT 1 ex_input [], S1_OUT 2 ex_input (full_cert [1, 2]),
      SPBC_OUT 3 ex_input [], MVBA_ABA 0 0 (PrevoteYes 2 ex_input (full_cert [1, 2]))] @
     map (\<lambda>q. MVBA_ABA 0 q (VoteYes 2 ex_input (full_cert [1, 2]) (q, [2, 2], 0))) [0, 1, 3]"

text \<open>The leader is silent: everybody votes \<open>no\<close>, round 1 begins with the same leader.\<close>

definition ex_mvba_no :: "(bytes, nat \<times> bytes \<times> nat) mvba_event list" where
  "ex_mvba_no =
     [MVBA_IN [7], SPBC_OUT 0 ex_input [], SPBC_OUT 1 ex_input [], SPBC_OUT 3 ex_input []] @
     map (\<lambda>q. MVBA_ABA 0 q (PrevoteNo 2 (q, [3, 2, 0], 0))) [0, 1, 3] @
     map (\<lambda>q. MVBA_ABA 0 q (VoteNo 2 (full_cert [3, 2, 0]) (q, [4, 2, 0], 0))) [0, 1, 3] @
     [SPBC_OUT 0 ex_input []]"

theorem smvba_decision_source_witness:
  "y_decides (fst (run_loop (speedmvba ex_mvba 0) (mvba_init ex_mvba) ex_mvba_yes)) = [Val [7]] \<and>
   (halt_source ex_mvba (set ex_mvba_yes) (Val [7]) \<or> broadcast_source ex_mvba (set ex_mvba_yes) (Val [7]) \<or>
    vote_source ex_mvba (set ex_mvba_yes) (Val [7]))"
proof -
  have d: "y_decides (fst (run_loop (speedmvba ex_mvba 0) (mvba_init ex_mvba) ex_mvba_yes)) = [Val [7]]"
    by code_simp
  with smvba_decision_source [of "Val [7]" ex_mvba 0 ex_mvba_yes] show ?thesis by simp
qed

theorem smvba_silent_leader_witness:
  "y_r (fst (run_loop (speedmvba ex_mvba 0) (mvba_init ex_mvba) ex_mvba_no)) = 1 \<and>
   y_decides (fst (run_loop (speedmvba ex_mvba 0) (mvba_init ex_mvba) ex_mvba_no)) = []"
proof
  have L: "mvba_leader ex_mvba = 2" by (simp add: mvba_leader_def ex_mvba_def)
  show "y_decides (fst (run_loop (speedmvba ex_mvba 0) (mvba_init ex_mvba) ex_mvba_no)) = []"
    by (rule smvba_silent_leader) (auto simp: ex_mvba_no_def L)
qed code_simp

end
