(* ===== verification/HotStuff.thy ===== *)
theory HotStuff
  imports Certs
begin

text \<open>
  The chained fast paths: \<open>hsfastpath\<close> of \<open>src/mulebft/core/hsfastpath.py\<close>, \<open>hsfastpath_notimeout\<close> of
  \<open>src/stablehotstuff/hotstuff_notimeout.py\<close> and \<open>two_chain_hotstuff\<close> of
  \<open>src/stablehotstuff/hotstuff_timeout.py\<close>, one loop in three variants. In every slot a node votes for
  the hash of its last block and waits for a certificate and the next batch. The handler of messages
  and the slots are two greenlets. Two pseudo-messages of a node to itself schedule the second one:
  at \<open>SLOT_RUN\<close> it goes on with the decision in its queue, if there is one, and \<open>SLOT_TIMEOUT\<close> stands
  for the timer. Any number of messages may be handled in between. Times are not modelled; the counter
  of transactions is, because the code divides by it.
\<close>

section \<open>Model\<close>

datatype hs_variant = HsFastpath | HsNoTimeout | HsTwoChain

text \<open>
  \<open>hheader (slot, h_p, batch)\<close> is the hash of the block header, \<open>hbatch slot\<close> what the leader puts into
  a slot, \<open>hcount\<close> the number of occurrences of \<open>"Dummy TX"\<close> in a batch.
\<close>

record ('k, 'd, 'g, 'b) hs_env = "('k, 'd, 'g) pki" +
  hvariant :: hs_variant
  hleader :: nat
  hslots :: nat
  hgenesis :: 'd
  hheader :: "nat \<times> 'd \<times> 'b \<Rightarrow> 'd"
  hbatch :: "nat \<Rightarrow> 'b"
  hdummy :: 'b
  hcount :: "'b \<Rightarrow> nat"

datatype ('d, 'g, 'b) hs_msg =
    VOTE nat 'd 'g
  | DECIDE nat 'd "'g sigmas" 'b
  | TIMEOUT_ECHO
  | SLOT_TIMEOUT
  | SLOT_RUN

text \<open>
  \<open>h_receiving\<close>: is the handler alive? \<open>h_blocked\<close>: is \<open>msg_noncritical_signal\<close> left cleared, because the
  handler died between its \<open>clear\<close> and its \<open>set\<close>? \<open>h_stalled\<close> and \<open>h_timeouted\<close> are the events
  \<open>not_timeouted\<close> (negated) and \<open>timeouted\<close>; \<open>h_decide\<close> is the queue \<open>decides[slot_cur]\<close>, which holds one
  item.
\<close>

type_synonym ('d, 'b) hs_block = "nat \<times> 'd \<times> 'b"

record ('d, 'g, 'b) hs_state =
  h_slot :: nat
  h_prev :: 'd
  h_pending :: "(('d, 'b) hs_block \<times> 'g sigmas) option"
  h_notarized :: "('d, 'b) hs_block option"
  h_fixed :: "('d, 'b) hs_block option"
  h_votes :: "nat \<Rightarrow> (nat, 'g) odict"
  h_decide_sent :: "nat \<Rightarrow> bool"
  h_decide :: "('d \<times> 'g sigmas \<times> 'b) option"
  h_txcnt :: nat
  h_stalled :: bool
  h_timeouted :: bool
  h_receiving :: bool
  h_blocked :: bool
  h_outputs :: "(('d, 'b) hs_block \<times> 'd \<times> 'g sigmas) list"

type_synonym ('d, 'g, 'b) hs_reply =
  "(('d, 'g, 'b) hs_state, ('d, 'g, 'b) hs_msg, ('d \<times> 'g sigmas) option) reply"

definition hs_init :: "('k, 'd, 'g, 'b) hs_env \<Rightarrow> ('d, 'g, 'b) hs_state" where
  "hs_init E = \<lparr>h_slot = 1, h_prev = hgenesis E, h_pending = None, h_notarized = None, h_fixed = None,
     h_votes = (\<lambda>_. []), h_decide_sent = (\<lambda>_. False), h_decide = None, h_txcnt = 0,
     h_stalled = False, h_timeouted = False, h_receiving = True, h_blocked = False, h_outputs = []\<rparr>"

text \<open>The first lines of \<open>one_slot\<close>: the vote.\<close>

definition slot_vote :: "('k, 'd, 'g, 'b) hs_env \<Rightarrow> nat \<Rightarrow> ('d, 'g, 'b) hs_state \<Rightarrow> ('d, 'g, 'b) hs_msg out" where
  "slot_vote E pid s = Send (int (hleader E)) (VOTE (h_slot s) (h_prev s) (ksgn E pid (h_prev s)))"

definition hs_start :: "('k, 'd, 'g, 'b) hs_env \<Rightarrow> nat \<Rightarrow> ('d, 'g, 'b) hs_state \<times> ('d, 'g, 'b) hs_msg out list" where
  "hs_start E pid = (hs_init E, [slot_vote E pid (hs_init E)])"

definition hs_return :: "('d, 'g, 'b) hs_state \<Rightarrow> ('d \<times> 'g sigmas) option" where
  "hs_return s = (case h_notarized s of None \<Rightarrow> None
     | Some _ \<Rightarrow> (case h_pending s of None \<Rightarrow> None | Some ((_, h, _), sigs) \<Rightarrow> Some (h, sigs)))"

text \<open>
  The rest of \<open>one_slot\<close>, for the certificate and the batch \<open>d\<close> of the slot: the pending block becomes
  notarized and the one before it fixed, with the two asserts of \<open>hsfastpath\<close>; the statistics of the
  fixed block; the output; the new pending block.
\<close>

definition fixed_block :: "('d, 'g, 'b) hs_state \<Rightarrow> ('d, 'b) hs_block option" where
  "fixed_block s = (if h_notarized s \<noteq> None then h_notarized s else h_fixed s)"

definition fixed_txs :: "('k, 'd, 'g, 'b) hs_env \<Rightarrow> ('d, 'g, 'b) hs_state \<Rightarrow> nat" where
  "fixed_txs E s = (case fixed_block s of None \<Rightarrow> 0 | Some (_, _, x) \<Rightarrow> hcount E x)"

definition slot_error :: "('k, 'd, 'g, 'b) hs_env \<Rightarrow> ('d, 'g, 'b) hs_state \<Rightarrow> ('d, 'b) hs_block \<Rightarrow> py_error option" where
  "slot_error E s b =
     (if hvariant E = HsFastpath \<and> (case h_notarized s of None \<Rightarrow> False | Some n \<Rightarrow> fst n + 2 \<noteq> h_slot s)
      then Some AssertionError
      else if hvariant E = HsFastpath \<and> fst b + 1 \<noteq> h_slot s then Some AssertionError
      else if fixed_block s \<noteq> None \<and> h_txcnt s + fixed_txs E s = 0 then Some ZeroDivisionError
      else None)"

text \<open>\<open>hsfastpath\<close> outputs after its statistics, the other variants before; after an error the greenlet is gone.\<close>

definition slot_promote :: "('k, 'd, 'g, 'b) hs_env \<Rightarrow> ('d, 'g, 'b) hs_state \<Rightarrow> 'd \<Rightarrow> 'g sigmas \<Rightarrow>
    ('d, 'g, 'b) hs_state \<times> py_error option" where
  "slot_promote E s h sigs =
     (case h_pending s of
        None \<Rightarrow> (s, None)
      | Some (b, _) \<Rightarrow>
          let s1 = s\<lparr>h_fixed := fixed_block s, h_notarized := Some b\<rparr>;
              s2 = s1\<lparr>h_outputs := h_outputs s1 @ [(b, h, sigs)]\<rparr>
          in (case slot_error E s b of
                Some e \<Rightarrow> ((if hvariant E = HsFastpath then s1 else s2), Some e)
              | None \<Rightarrow> (s2\<lparr>h_txcnt := h_txcnt s + fixed_txs E s\<rparr>, None)))"

definition slot_finish :: "('k, 'd, 'g, 'b) hs_env \<Rightarrow> nat \<Rightarrow> ('d, 'g, 'b) hs_state \<Rightarrow> ('d, 'g, 'b) hs_reply" where
  "slot_finish E pid s =
     (case h_decide s of
        None \<Rightarrow> stay s
      | Some (h, sigs, x) \<Rightarrow>
          (case slot_promote E (s\<lparr>h_decide := None\<rparr>) h sigs of
             (s1, Some e) \<Rightarrow> (s1, [], Raised e)
           | (s1, None) \<Rightarrow>
               let b = (h_slot s1, h, x);
                   s2 = s1\<lparr>h_pending := Some (b, sigs), h_prev := hheader E b, h_slot := h_slot s1 + 1\<rparr>
               in if h_slot s2 \<le> hslots E + 2 then (s2, [slot_vote E pid s2], Running)
                  else (s2, [], Returned (hs_return s2))))"

text \<open>
  The other greenlet passes \<open>msg_noncritical_signal.wait()\<close> only while the handler has not died inside
  its critical block, and \<open>not_timeouted.wait()\<close> only after the timeout has been lifted.
\<close>

definition slot_run :: "('k, 'd, 'g, 'b) hs_env \<Rightarrow> nat \<Rightarrow> ('d, 'g, 'b) hs_state \<Rightarrow> ('d, 'g, 'b) hs_reply" where
  "slot_run E pid s = (if h_blocked s \<or> h_stalled s then stay s else slot_finish E pid s)"

text \<open>An exception in the critical block of the handler.\<close>

definition critical_error :: "('d, 'g, 'b) hs_state \<Rightarrow> ('d, 'g, 'b) hs_state" where
  "critical_error s = s\<lparr>h_receiving := False, h_blocked := True\<rparr>"

text \<open>\<open>decides[slot_cur].put_nowait\<close>: a second item before the first is taken raises \<open>Full\<close>.\<close>

definition put_decide :: "('d, 'g, 'b) hs_state \<Rightarrow> 'd \<times> 'g sigmas \<times> 'b \<Rightarrow> ('d, 'g, 'b) hs_state" where
  "put_decide s d = (if h_decide s \<noteq> None then critical_error s else s\<lparr>h_decide := Some d\<rparr>)"

definition hs_vote :: "('k, 'd, 'g, 'b) hs_env \<Rightarrow> nat \<Rightarrow> ('d, 'g, 'b) hs_state \<Rightarrow> nat \<Rightarrow> nat \<Rightarrow> 'd \<Rightarrow> 'g \<Rightarrow>
    ('d, 'g, 'b) hs_reply" where
  "hs_vote E pid s sender slot h sig =
     (if pid \<noteq> hleader E \<or> \<not> length (h_votes s (h_slot s)) < kN E - kf E then stay s
      else if sender \<in> fst ` set (h_votes s slot) \<or> slot \<noteq> h_slot s \<or> h \<noteq> h_prev s then stay s
      else case share_ok E (Some h) sender sig of
          Inl e \<Rightarrow> stay (critical_error s)
        | Inr False \<Rightarrow> stay s
        | Inr True \<Rightarrow>
            let s1 = s\<lparr>h_votes := (h_votes s)(slot := od_set sender sig (h_votes s slot))\<rparr> in
            if length (h_votes s1 slot) = kN E - kf E \<and> \<not> h_decide_sent s slot
            then (let sigs = map (\<lambda>(i, g). (int i, g)) (h_votes s1 slot);
                      x = (if slot = hslots E + 1 \<or> slot = hslots E + 2 then hdummy E else hbatch E slot)
                  in (put_decide (s1\<lparr>h_decide_sent := (h_decide_sent s1)(slot := True)\<rparr>) (h, sigs, x),
                      [Send (-2) (DECIDE slot h sigs x)], Running))
            else stay s1)"

text \<open>A \<open>DECIDE\<close> message: its sender is not looked at, and its hash is not compared with \<open>hash_prev\<close>.\<close>

definition hs_decide :: "('k, 'd, 'g, 'b) hs_env \<Rightarrow> nat \<Rightarrow> ('d, 'g, 'b) hs_state \<Rightarrow> nat \<Rightarrow> 'd \<Rightarrow> 'g sigmas \<Rightarrow> 'b \<Rightarrow>
    ('d, 'g, 'b) hs_reply" where
  "hs_decide E pid s slot h sigs x =
     (if pid = hleader E \<or> slot \<noteq> h_slot s \<or> \<not> kN E - kf E \<le> length sigs then stay s
      else case sig_loop E h sigs of
          Inl AssertionError \<Rightarrow> stay s
        | Inl e \<Rightarrow> stay (critical_error s)
        | Inr _ \<Rightarrow> stay (put_decide s (h, sigs, x)))"

text \<open>
  A timeout ends \<open>hsfastpath\<close>. In \<open>two_chain_hotstuff\<close> it clears \<open>not_timeouted\<close>, on which the main loop
  waits; \<open>pace_maker\<close> then calls \<open>hash\<close> with two arguments and dies of the \<open>TypeError\<close>. Only a message
  \<open>TIMEOUT_ECHO\<close> sets the event again, and the slot starts over with its vote. In both variants the
  timeout first waits for \<open>msg_noncritical_signal\<close>, for ever if the handler died with it cleared.
\<close>

definition hs_timeout :: "('k, 'd, 'g, 'b) hs_env \<Rightarrow> ('d, 'g, 'b) hs_state \<Rightarrow> ('d, 'g, 'b) hs_reply" where
  "hs_timeout E s =
     (if h_blocked s then stay s
      else case hvariant E of
        HsFastpath \<Rightarrow> (s, [], Returned (hs_return s))
      | HsNoTimeout \<Rightarrow> stay s
      | HsTwoChain \<Rightarrow> stay (s\<lparr>h_stalled := True, h_timeouted := True\<rparr>))"

definition hs_echo :: "('k, 'd, 'g, 'b) hs_env \<Rightarrow> nat \<Rightarrow> ('d, 'g, 'b) hs_state \<Rightarrow> ('d, 'g, 'b) hs_reply" where
  "hs_echo E pid s =
     (if hvariant E = HsTwoChain \<and> pid \<noteq> hleader E \<and> h_timeouted s \<and> h_stalled s
      then (s\<lparr>h_stalled := False\<rparr>, [slot_vote E pid s], Running)
      else stay s)"

definition hs_step :: "('k, 'd, 'g, 'b) hs_env \<Rightarrow> nat \<Rightarrow> ('d, 'g, 'b) hs_state \<Rightarrow> nat \<times> ('d, 'g, 'b) hs_msg \<Rightarrow>
    ('d, 'g, 'b) hs_reply" where
  "hs_step E pid s e =
     (case e of (sender, m) \<Rightarrow>
        if m = SLOT_TIMEOUT then (if sender = pid then hs_timeout E s else stay s)
        else if m = SLOT_RUN then (if sender = pid then slot_run E pid s else stay s)
        else if \<not> h_receiving s then stay s
        else if \<not> sender < kN E then stay (s\<lparr>h_receiving := False\<rparr>)
        else case m of
            VOTE slot h sig \<Rightarrow> hs_vote E pid s sender slot h sig
          | DECIDE slot h sigs x \<Rightarrow> hs_decide E pid s slot h sigs x
          | TIMEOUT_ECHO \<Rightarrow> hs_echo E pid s
          | SLOT_TIMEOUT \<Rightarrow> stay s
          | SLOT_RUN \<Rightarrow> stay s)"

text \<open>The three variants.\<close>

definition hsfastpath :: "('k, 'd, 'g, 'b) hs_env \<Rightarrow> nat \<Rightarrow> ('d, 'g, 'b) hs_state \<Rightarrow> nat \<times> ('d, 'g, 'b) hs_msg \<Rightarrow>
    ('d, 'g, 'b) hs_reply" where
  "hsfastpath E = hs_step (E\<lparr>hvariant := HsFastpath\<rparr>)"

definition hsfastpath_notimeout :: "('k, 'd, 'g, 'b) hs_env \<Rightarrow> nat \<Rightarrow> ('d, 'g, 'b) hs_state \<Rightarrow>
    nat \<times> ('d, 'g, 'b) hs_msg \<Rightarrow> ('d, 'g, 'b) hs_reply" where
  "hsfastpath_notimeout E = hs_step (E\<lparr>hvariant := HsNoTimeout\<rparr>)"

definition two_chain_hotstuff :: "('k, 'd, 'g, 'b) hs_env \<Rightarrow> nat \<Rightarrow> ('d, 'g, 'b) hs_state \<Rightarrow>
    nat \<times> ('d, 'g, 'b) hs_msg \<Rightarrow> ('d, 'g, 'b) hs_reply" where
  "two_chain_hotstuff E = hs_step (E\<lparr>hvariant := HsTwoChain\<rparr>)"

section \<open>The blocks of a node\<close>

text \<open>The blocks a node has accepted: those it has output and the pending one.\<close>

definition hs_blocks :: "('d, 'g, 'b) hs_state \<Rightarrow> ('d, 'b) hs_block set" where
  "hs_blocks s = fst ` set (h_outputs s) \<union> fst ` set_option (h_pending s)"

definition hs_hashes :: "('k, 'd, 'g, 'b) hs_env \<Rightarrow> ('d, 'g, 'b) hs_state \<Rightarrow> 'd set" where
  "hs_hashes E s = insert (hgenesis E) (hheader E ` hs_blocks s)"

definition hs_node_ok :: "('k, 'd, 'g, 'b) hs_env \<Rightarrow> ('d, 'g, 'b) hs_state \<Rightarrow> bool" where
  "hs_node_ok E s \<longleftrightarrow>
     (\<forall>b \<in> hs_blocks s. fst b < h_slot s) \<and>
     (\<forall>b \<in> hs_blocks s. \<forall>b' \<in> hs_blocks s. fst b = fst b' \<longrightarrow> b = b') \<and>
     h_prev s \<in> hs_hashes E s"

definition hs_signed :: "('k, 'd, 'g, 'b) hs_env \<Rightarrow> nat \<Rightarrow> ('d, 'g, 'b) hs_state \<Rightarrow> ('d, 'g, 'b) hs_msg \<Rightarrow> bool" where
  "hs_signed E p s m \<longleftrightarrow> (\<forall>k h g. m = VOTE k h g \<longrightarrow> g = ksgn E p h \<and> h \<in> hs_hashes E s)"

text \<open>What a step does to the blocks: nothing, or it accepts one block of the current slot.\<close>

definition hs_same :: "('d, 'g, 'b) hs_state \<Rightarrow> ('d, 'g, 'b) hs_state \<Rightarrow> bool" where
  "hs_same s s' \<longleftrightarrow> hs_blocks s' = hs_blocks s \<and> h_slot s' = h_slot s \<and> h_prev s' = h_prev s"

definition hs_accepts :: "('k, 'd, 'g, 'b) hs_env \<Rightarrow> ('d, 'g, 'b) hs_state \<Rightarrow> ('d, 'g, 'b) hs_state \<Rightarrow> bool" where
  "hs_accepts E s s' \<longleftrightarrow> (\<exists>b. fst b = h_slot s \<and> hs_blocks s' = insert b (hs_blocks s) \<and>
     h_slot s' = h_slot s + 1 \<and> h_prev s' = hheader E b)"

text \<open>All votes among the messages are for the last hash of one of the states.\<close>

definition votes_for :: "('k, 'd, 'g, 'b) hs_env \<Rightarrow> nat \<Rightarrow> 'd set \<Rightarrow> ('d, 'g, 'b) hs_msg out list \<Rightarrow> bool" where
  "votes_for E p H outs \<longleftrightarrow> (\<forall>k h g. VOTE k h g \<in> out_msg ` set outs \<longrightarrow> g = ksgn E p h \<and> h \<in> H)"

lemma votes_for_simps [simp]:
  "votes_for E p H []" "votes_for E p H (Send i (DECIDE k h' g x) # outs) \<longleftrightarrow> votes_for E p H outs"
  "votes_for E p H (slot_vote E p s # outs) \<longleftrightarrow> h_prev s \<in> H \<and> votes_for E p H outs"
  by (auto simp: votes_for_def slot_vote_def)

lemma votes_for_mono: "votes_for E p H outs \<Longrightarrow> H \<subseteq> H' \<Longrightarrow> votes_for E p H' outs"
  unfolding votes_for_def by blast

lemma slot_promote_blocks:
  assumes "slot_promote E s h sigs = (s', x)"
  shows "hs_same s s'" and "x = None \<Longrightarrow> h_pending s' = h_pending s \<and>
    (h_pending s = None \<longrightarrow> h_outputs s' = h_outputs s) \<and>
    (\<forall>b r. h_pending s = Some (b, r) \<longrightarrow> b \<in> fst ` set (h_outputs s'))"
proof -
  have "hs_same s s' \<and> (x = None \<longrightarrow> h_pending s' = h_pending s \<and>
    (h_pending s = None \<longrightarrow> h_outputs s' = h_outputs s) \<and>
    (\<forall>b r. h_pending s = Some (b, r) \<longrightarrow> b \<in> fst ` set (h_outputs s')))"
  proof (cases "h_pending s")
    case None
    then show ?thesis using assms by (auto simp: slot_promote_def hs_same_def)
  next
    case (Some y)
    obtain b r where y: "y = (b, r)" by (cases y)
    show ?thesis
      using assms Some y by (cases "slot_error E s b"; cases "hvariant E = HsFastpath")
        (auto simp: slot_promote_def Let_def hs_same_def hs_blocks_def)
  qed
  then show "hs_same s s'" and "x = None \<Longrightarrow> h_pending s' = h_pending s \<and>
    (h_pending s = None \<longrightarrow> h_outputs s' = h_outputs s) \<and>
    (\<forall>b r. h_pending s = Some (b, r) \<longrightarrow> b \<in> fst ` set (h_outputs s'))" by blast+
qed

lemma slot_finish_blocks:
  assumes "slot_finish E p s = (s', outs, c)"
  shows "(hs_same s s' \<or> hs_accepts E s s') \<and> votes_for E p {h_prev s'} outs"
proof (cases "h_decide s")
  case None
  then show ?thesis using assms by (simp add: slot_finish_def hs_same_def votes_for_def)
next
  case (Some d)
  obtain h sigs x where d: "d = (h, sigs, x)" by (cases d)
  obtain s1 e where 1: "slot_promote E (s\<lparr>h_decide := None\<rparr>) h sigs = (s1, e)"
    by (cases "slot_promote E (s\<lparr>h_decide := None\<rparr>) h sigs")
  have same: "hs_same s s1"
    using slot_promote_blocks(1) [OF 1] by (simp add: hs_same_def hs_blocks_def)
  show ?thesis
  proof (cases e)
    case (Some err)
    then show ?thesis using assms \<open>h_decide s = Some d\<close> d 1 same
      by (simp add: slot_finish_def votes_for_def)
  next
    case None
    let ?b = "(h_slot s1, h, x)"
    have s': "s' = s1\<lparr>h_pending := Some (?b, sigs), h_prev := hheader E ?b, h_slot := h_slot s1 + 1\<rparr>"
      using assms Some d 1 None by (auto simp: slot_finish_def Let_def split: if_splits)
    have "outs = [slot_vote E p s'] \<or> outs = []"
      using assms Some d 1 None s' by (auto simp: slot_finish_def Let_def split: if_splits)
    then have "votes_for E p {h_prev s'} outs" by auto
    moreover have "hs_blocks s' = insert ?b (hs_blocks s1)"
      using slot_promote_blocks(2) [OF 1 None] by (cases "h_pending s1") (auto simp: s' hs_blocks_def)
    then have "hs_accepts E s s'"
      using same unfolding hs_accepts_def hs_same_def by (intro exI [of _ ?b]) (simp add: s')
    ultimately show ?thesis by blast
  qed
qed

definition hs_core :: "('d, 'g, 'b) hs_state \<Rightarrow> nat \<times> (('d, 'b) hs_block \<times> 'g sigmas) option \<times>
    ('d, 'b) hs_block option \<times> (('d, 'b) hs_block \<times> 'd \<times> 'g sigmas) list" where
  "hs_core s = (h_slot s, h_pending s, h_notarized s, h_outputs s)"

text \<open>
  Every step leaves the chain of the node alone, or finishes a slot: \<open>hs_frame\<close> lists what stays.
\<close>

definition hs_frame :: "('d, 'g, 'b) hs_state \<Rightarrow> ('d, 'g, 'b) hs_state \<Rightarrow> bool" where
  "hs_frame s s1 \<longleftrightarrow> hs_core s1 = hs_core s \<and> h_prev s1 = h_prev s \<and> h_txcnt s1 = h_txcnt s"

lemma hs_frame_simps [simp]:
  "hs_frame s s" "hs_frame s (s\<lparr>h_receiving := r\<rparr>)" "hs_frame s (s\<lparr>h_votes := V\<rparr>)"
  "hs_frame s (s\<lparr>h_decide := d\<rparr>)" "hs_frame s (s\<lparr>h_stalled := b, h_timeouted := b'\<rparr>)"
  "hs_frame s (s\<lparr>h_stalled := b\<rparr>)" "hs_frame s (critical_error s)"
  "hs_frame s (put_decide s y)" "hs_frame s (put_decide (s\<lparr>h_votes := V, h_decide_sent := D\<rparr>) y)"
  by (simp_all add: hs_frame_def hs_core_def critical_error_def put_decide_def)

lemma hs_frame_trans: "hs_frame s s1 \<Longrightarrow> hs_frame s1 s2 \<Longrightarrow> hs_frame s s2"
  by (simp add: hs_frame_def)

lemma hs_frame_blocks: "hs_frame s s1 \<Longrightarrow> hs_blocks s1 = hs_blocks s \<and> h_slot s1 = h_slot s \<and> h_prev s1 = h_prev s"
  by (simp add: hs_frame_def hs_core_def hs_blocks_def)

lemma hs_vote_quiet:
  assumes "hs_vote E p s q k h g = (s', outs, c)"
  shows "hs_frame s s' \<and> votes_for E p {} outs \<and> c = Running"
proof -
  have "outs = [] \<or> (\<exists>sigs x. outs = [Send (-2) (DECIDE k h sigs x)])" "c = Running" "hs_frame s s'"
    using assms by (auto simp: hs_vote_def Let_def split: if_splits sum.splits bool.splits)
  then show ?thesis by auto
qed

lemma hs_decide_quiet:
  assumes "hs_decide E p s k h sigs x = (s', outs, c)"
  shows "hs_frame s s' \<and> outs = [] \<and> c = Running"
  using assms by (auto simp: hs_decide_def split: if_splits sum.splits py_error.splits)

lemma hs_echo_quiet:
  assumes "hs_echo E p s = (s', outs, c)"
  shows "hs_frame s s' \<and> votes_for E p {h_prev s} outs \<and> c = Running"
  using assms by (auto simp: hs_echo_def split: if_splits)

lemma hs_step_cases:
  assumes "hs_step E p s (q, m) = (s', outs, c)"
  obtains (quiet) "hs_frame s s'" "votes_for E p {h_prev s} outs" "c = Running"
  | (ended) "s' = s" "outs = []" "c = Returned (hs_return s)"
  | (finish) "slot_finish E p s = (s', outs, c)"
proof -
  consider (timeout) "m = SLOT_TIMEOUT" | (run) "m = SLOT_RUN"
    | (off) "m \<noteq> SLOT_TIMEOUT" "m \<noteq> SLOT_RUN" "\<not> h_receiving s \<or> \<not> q < kN E"
    | (msg) "m \<noteq> SLOT_TIMEOUT" "m \<noteq> SLOT_RUN" "h_receiving s" "q < kN E" by blast
  then show thesis
  proof cases
    case timeout
    show thesis
    proof (cases "q = p \<and> hvariant E = HsFastpath \<and> \<not> h_blocked s")
      case True
      then show thesis using assms timeout by (intro ended) (auto simp: hs_step_def hs_timeout_def)
    next
      case False
      then show thesis using assms timeout
        by (intro quiet) (auto simp: hs_step_def hs_timeout_def split: if_splits hs_variant.splits)
    qed
  next
    case run
    show thesis
    proof (cases "q = p \<and> \<not> h_blocked s \<and> \<not> h_stalled s")
      case True
      then show thesis using assms run by (intro finish) (simp add: hs_step_def slot_run_def)
    next
      case False
      then show thesis using assms run by (intro quiet) (auto simp: hs_step_def slot_run_def split: if_splits)
    qed
  next
    case off
    then show thesis using assms by (intro quiet) (auto simp: hs_step_def split: if_splits)
  next
    case msg
    show thesis
    proof (cases m)
      case (VOTE k h g)
      have "hs_vote E p s q k h g = (s', outs, c)" using assms msg VOTE by (simp add: hs_step_def)
      from hs_vote_quiet [OF this] show thesis by (intro quiet) (auto intro: votes_for_mono)
    next
      case (DECIDE k h sigs x)
      have "hs_decide E p s k h sigs x = (s', outs, c)" using assms msg DECIDE by (simp add: hs_step_def)
      from hs_decide_quiet [OF this] show thesis by (intro quiet) auto
    next
      case TIMEOUT_ECHO
      have "hs_echo E p s = (s', outs, c)" using assms msg TIMEOUT_ECHO by (simp add: hs_step_def)
      from hs_echo_quiet [OF this] show thesis by (intro quiet) auto
    qed (use msg in simp_all)
  qed
qed

lemma hs_step_blocks:
  assumes "hs_step E p s (q, m) = (s', outs, c)"
  shows "(hs_same s s' \<or> hs_accepts E s s') \<and> votes_for E p {h_prev s, h_prev s'} outs"
  using assms
proof (cases rule: hs_step_cases)
  case quiet
  then show ?thesis using hs_frame_blocks [of s s'] by (auto simp: hs_same_def)
next
  case ended
  then show ?thesis by (simp add: hs_same_def)
next
  case finish
  from slot_finish_blocks [OF this] show ?thesis by (auto intro: votes_for_mono)
qed

definition hs_cfg :: "('k, 'd, 'g, 'b) hs_env \<Rightarrow> nat set \<Rightarrow> cfg" where
  "hs_cfg E B = \<lparr>cN = kN E, cf = kf E, cbyz = B\<rparr>"

lemma hs_hashes_step: "hs_same s s' \<or> hs_accepts E s s' \<Longrightarrow> hs_hashes E s \<subseteq> hs_hashes E s'"
  by (auto simp: hs_same_def hs_accepts_def hs_hashes_def)

lemma hs_node_step:
  assumes "hs_node_ok E s" and "hs_same s s' \<or> hs_accepts E s s'"
  shows "hs_node_ok E s'"
  using assms(2)
proof
  assume "hs_same s s'"
  then show ?thesis using assms(1) by (simp add: hs_same_def hs_node_ok_def hs_hashes_def)
next
  assume "hs_accepts E s s'"
  then obtain b where b: "fst b = h_slot s" "hs_blocks s' = insert b (hs_blocks s)" "h_slot s' = h_slot s + 1"
    "h_prev s' = hheader E b" by (auto simp: hs_accepts_def)
  have old: "fst b' < h_slot s" if "b' \<in> hs_blocks s" for b' using assms(1) that by (simp add: hs_node_ok_def)
  have uniq: "b1 = b2" if "b1 \<in> hs_blocks s" "b2 \<in> hs_blocks s" "fst b1 = fst b2" for b1 b2
    using assms(1) that unfolding hs_node_ok_def by blast
  have "fst b1 < h_slot s'" if "b1 \<in> hs_blocks s'" for b1
    using that old [of b1] b by (cases "b1 = b") auto
  moreover have "b1 = b2" if "b1 \<in> hs_blocks s'" "b2 \<in> hs_blocks s'" "fst b1 = fst b2" for b1 b2
    using that old uniq b by (metis insertE less_irrefl)
  ultimately show ?thesis using b by (auto simp: hs_node_ok_def hs_hashes_def)
qed

interpretation hs: sender_invariant "hs_cfg E B" "hs_step E" "\<lambda>_. hs_node_ok E" "\<lambda>_ _. True" "hs_signed E"
  for E :: "('k, 'd, 'g, 'b) hs_env" and B
proof (unfold_locales, goal_cases)
  case (1 p s q m s' outs k)
  then show ?case using hs_node_step hs_step_blocks by blast
next
  case (3 p s q m s' outs k m')
  then show ?case using hs_hashes_step hs_step_blocks unfolding hs_signed_def by blast
next
  case (4 p s q m s' outs k m')
  note st = hs_step_blocks [OF 4(3)]
  have "h_prev s \<in> hs_hashes E s" "h_prev s' \<in> hs_hashes E s'"
    using 4(1) hs_node_step [of E s s'] st unfolding hs_node_ok_def by blast+
  then have "{h_prev s, h_prev s'} \<subseteq> hs_hashes E s'" using hs_hashes_step [of s s' E] st by blast
  then show ?case using st 4(4) unfolding hs_signed_def votes_for_def by blast
qed simp

section \<open>Networks and notarized blocks\<close>

definition hs_initial :: "('k, 'd, 'g, 'b) hs_env \<Rightarrow> nat set \<Rightarrow>
    (('d, 'g, 'b) hs_state, ('d, 'g, 'b) hs_msg, ('d \<times> 'g sigmas) option) sys" where
  "hs_initial E B =
     start_sys (\<lambda>_. hs_init E)
       (\<Union>p \<in> set [0..<kN E]. if p \<in> B then {}
          else {(p, p, SLOT_RUN), (p, p, SLOT_TIMEOUT)} \<union> routed (kN E) p (snd (hs_start E p)))"

definition hs_reachable :: "('k, 'd, 'g, 'b) hs_env \<Rightarrow> nat set \<Rightarrow>
    (('d, 'g, 'b) hs_state, ('d, 'g, 'b) hs_msg, ('d \<times> 'g sigmas) option) sys \<Rightarrow> bool" where
  "hs_reachable E B s = reaches (hs_cfg E B) (hs_step E) (hs_initial E B) s"

lemma hs_init_ok: "hs_node_ok E (loc (hs_initial E B) p)"
  by (simp add: hs_initial_def start_sys_def hs_node_ok_def hs_init_def hs_blocks_def hs_hashes_def)

lemma hs_start_msgs:
  "\<forall>(q, p, m) \<in> net (hs_initial E B). q \<notin> cbyz (hs_cfg E B) \<longrightarrow> True \<and> hs_signed E q (loc (hs_initial E B) q) m"
  by (auto simp: hs_initial_def start_sys_def hs_start_def hs_signed_def slot_vote_def routed_iff hs_init_def
      hs_hashes_def split: if_splits)

text \<open>
  A notarized block as \<open>output_notraized_block\<close> gets it, when the certificate is for the block, has
  distinct signers and is unforged: what the code assumes of a notarized block, but does not check.
\<close>

definition vote_unforged :: "('k, 'd, 'g, 'b) hs_env \<Rightarrow> nat set \<Rightarrow>
    (('d, 'g, 'b) hs_state, ('d, 'g, 'b) hs_msg, 'r) sys \<Rightarrow> 'g sigmas \<Rightarrow> bool" where
  "vote_unforged E B s c \<longleftrightarrow>
     cert_made (kN E) B (\<lambda>q g. \<exists>k h. (q, hleader E, VOTE k h g) \<in> net s) c"

definition vote_signed :: "('k, 'd, 'g, 'b) hs_env \<Rightarrow>
    (('d, 'g, 'b) hs_state, ('d, 'g, 'b) hs_msg, 'r) sys \<Rightarrow> nat \<Rightarrow> 'd \<Rightarrow> bool" where
  "vote_signed E s q d \<longleftrightarrow> (\<exists>k g. (q, hleader E, VOTE k d g) \<in> net s)"

definition well_notarized :: "('k, 'd, 'g, 'b) hs_env \<Rightarrow> nat set \<Rightarrow>
    (('d, 'g, 'b) hs_state, ('d, 'g, 'b) hs_msg, 'r) sys \<Rightarrow> ('d, 'b) hs_block \<times> 'd \<times> 'g sigmas \<Rightarrow> bool" where
  "well_notarized E B s o1 \<longleftrightarrow>
     (case o1 of (b, h, c) \<Rightarrow> h = hheader E b \<and> accepted_cert (E, B) h c \<and> vote_unforged E B s c \<and>
        signs_bind E B (vote_signed E s) {h})"

lemma well_notarizedD:
  assumes "well_notarized E B s (b, h, c)"
  shows "h = hheader E b" and "accepted_cert (E, B) h c" and "vote_unforged E B s c"
    and "signs_bind E B (vote_signed E s) {h}"
  using assms unfolding well_notarized_def by auto

text \<open>The block's header hash collides with that of no block a correct node has accepted in the run.\<close>

definition block_apart :: "('k, 'd, 'g, 'b) hs_env \<Rightarrow> nat set \<Rightarrow>
    (('d, 'g, 'b) hs_state, ('d, 'g, 'b) hs_msg, 'r) sys \<Rightarrow> ('d, 'b) hs_block \<Rightarrow> bool" where
  "block_apart E B s b \<longleftrightarrow>
     hheader E b \<noteq> hgenesis E \<and>
     (\<forall>q. q \<notin> B \<longrightarrow> (\<forall>b1 \<in> hs_blocks (loc s q). hheader E b1 = hheader E b \<longrightarrow> b1 = b))"

text \<open>Every correct signer of such a block has accepted the block itself.\<close>

lemma notarized_accepted:
  assumes r: "hs_reachable E B s" and w: "well_notarized E B s (b, h, c)" and a: "block_apart E B s b"
  shows "\<forall>q \<in> cert_signers (kN E) c - B. b \<in> hs_blocks (loc s q)"
proof -
  have cert: "check_cert E h c = Inr ()" "length (kpks E) = kN E" and made: "cert_made (kN E) B
      (\<lambda>q g. \<exists>k h. (q, hleader E, VOTE k h g) \<in> net s) c"
    and b: "signs_bind E B (vote_signed E s) {h}" and h: "h = hheader E b"
    using well_notarizedD [OF w] by (auto simp: accepted_cert_def vote_unforged_def)
  have sent: "h' \<in> hs_hashes E (loc s q) \<and> g = ksgn E q h'" if "q \<notin> B" "(q, hleader E, VOTE k h' g) \<in> net s" for q g k h'
  proof -
    have "hs_signed E q (loc s q) (VOTE k h' g)"
      by (rule hs.reach_msg(2) [OF r [unfolded hs_reachable_def] _ hs_start_msgs that(2)])
        (use that(1) in \<open>simp_all add: hs_init_ok hs_cfg_def\<close>)
    then show ?thesis by (simp add: hs_signed_def)
  qed
  show ?thesis
  proof
    fix q assume q: "q \<in> cert_signers (kN E) c - B"
    then obtain i g1 where ig: "(i, g1) \<in> set c" "q = signer_of (kN E) i" by (auto simp: cert_signers_def)
    note v = check_cert_signer [OF cert ig(1)]
    obtain k h' where net: "(q, hleader E, VOTE k h' g1) \<in> net s" using made ig q by (fastforce simp: cert_made_def)
    then have s: "h' \<in> hs_hashes E (loc s q)" "g1 = ksgn E q h'" using sent q by blast+
    have "vote_signed E s q h'" using net unfolding vote_signed_def by blast
    then have "h' = h" using b v s(2) ig(2) q unfolding signs_bind_def by blast
    then obtain b1 where "b1 \<in> hs_blocks (loc s q)" "hheader E b1 = hheader E b"
      using s(1) h a unfolding hs_hashes_def block_apart_def by fastforce
    then show "b \<in> hs_blocks (loc s q)" using a q unfolding block_apart_def by blast
  qed
qed

lemma hs_agreement_aux:
  assumes wf: "wf_cfg (hs_cfg E B)" and r: "hs_reachable E B s"
    and a: "block_apart E B s b" and a': "block_apart E B s b'"
    and w: "well_notarized E B s (b, h, c)" and w': "well_notarized E B s (b', h', c')" and k: "fst b = fst b'"
  shows "b = b'"
proof -
  have cfg: "pki_cfg (E, B) = hs_cfg E B" by (simp add: pki_cfg_def hs_cfg_def)
  have q: "nf_quorum (hs_cfg E B) (cert_signers (kN E) c)" "nf_quorum (hs_cfg E B) (cert_signers (kN E) c')"
    using ecdsa.accept_quorum [OF _ well_notarizedD(2) [OF w]] ecdsa.accept_quorum [OF _ well_notarizedD(2) [OF w']]
      wf cfg by simp_all
  obtain x where x: "x \<in> cert_signers (kN E) c" "x \<in> cert_signers (kN E) c'" "x \<notin> B"
    using nf.quorums_meet [OF wf q] by (auto simp: hs_cfg_def)
  have "b \<in> hs_blocks (loc s x)" "b' \<in> hs_blocks (loc s x)"
    using notarized_accepted [OF r w a] notarized_accepted [OF r w' a'] x by blast+
  moreover have "hs_node_ok E (loc s x)"
    by (rule hs.reach_node [OF r [unfolded hs_reachable_def] _ hs_start_msgs]) (simp add: hs_init_ok)
  ultimately show ?thesis using k unfolding hs_node_ok_def by blast
qed

section \<open>Order of the outputs\<close>

text \<open>
  While the loop runs, the outputs are the blocks of slots 1, 2, ..., the pending block is that of the
  slot before the current one, the notarized block the last output.
\<close>

fun core_order :: "nat \<Rightarrow> nat \<times> (('d, 'b) hs_block \<times> 'g sigmas) option \<times> ('d, 'b) hs_block option \<times>
    (('d, 'b) hs_block \<times> 'd \<times> 'g sigmas) list \<Rightarrow> bool" where
  "core_order S (slot, pend, nota, outs) \<longleftrightarrow>
     map (\<lambda>o1. fst (fst o1)) outs = [1..<Suc (length outs)] \<and>
     nota = (if outs = [] then None else Some (fst (last outs))) \<and>
     (case pend of None \<Rightarrow> slot = 1 \<and> outs = [] | Some (b, _) \<Rightarrow> fst b + 1 = slot \<and> length outs + 2 = slot) \<and>
     slot \<le> S + 3"

definition hs_in_order :: "('k, 'd, 'g, 'b) hs_env \<Rightarrow> ('d, 'g, 'b) hs_state \<Rightarrow> bool" where
  "hs_in_order E s \<longleftrightarrow> core_order (hslots E) (hs_core s)"

definition hs_end_ok :: "('k, 'd, 'g, 'b) hs_env \<Rightarrow> ('d, 'g, 'b) hs_state \<Rightarrow> ('d \<times> 'g sigmas) option ctl \<Rightarrow> bool" where
  "hs_end_ok E s c \<longleftrightarrow>
     (case c of
        Running \<Rightarrow> hs_in_order E s \<and> h_slot s \<le> hslots E + 2
      | Returned x \<Rightarrow> hs_in_order E s \<and> x = hs_return s
      | Raised e \<Rightarrow> e = ZeroDivisionError \<and>
          map (\<lambda>o1. fst (fst o1)) (h_outputs s) = [1..<Suc (length (h_outputs s))] \<and>
          length (h_outputs s) \<le> hslots E + 1)"

lemma last_slot:
  assumes "map (\<lambda>o1. fst (fst o1)) outs = [1..<Suc (length outs)]" and "outs \<noteq> []"
  shows "fst (fst (last outs)) = length outs"
proof -
  have "fst (fst (last outs)) = last (map (\<lambda>o1. fst (fst o1)) outs)" using assms(2) by (simp add: last_map)
  also have "\<dots> = length outs" using assms by (cases outs) simp_all
  finally show ?thesis .
qed

lemma slot_error_zero:
  assumes "hs_in_order E s" and "h_pending s = Some (b, r)" and "slot_error E s b = Some e"
  shows "e = ZeroDivisionError"
  using assms last_slot [of "h_outputs s"]
  by (auto simp: hs_in_order_def hs_core_def slot_error_def split: if_splits option.splits)

lemma slot_finish_order:
  assumes i: "hs_in_order E s" "h_slot s \<le> hslots E + 2" and h: "slot_finish E p s = (s', outs, c)"
  shows "hs_end_ok E s' c"
proof (cases "h_decide s")
  case None
  then show ?thesis using i h by (simp add: slot_finish_def hs_end_ok_def)
next
  case (Some d)
  obtain hh sigs x where d: "d = (hh, sigs, x)" by (cases d)
  let ?s = "s\<lparr>h_decide := None\<rparr>"
  have i': "hs_in_order E ?s" using i(1) by (simp add: hs_in_order_def hs_core_def)
  show ?thesis
  proof (cases "h_pending s")
    case None
    then have "h_slot s = 1" "h_outputs s = []" using i(1) by (simp_all add: hs_in_order_def hs_core_def)
    then show ?thesis using h Some d None i(1)
      by (auto simp: slot_finish_def slot_promote_def hs_end_ok_def hs_in_order_def hs_core_def Let_def split: if_splits)
  next
    case pend: (Some y)
    obtain b r where y: "y = (b, r)" by (cases y)
    have f: "map (\<lambda>o1. fst (fst o1)) (h_outputs s) = [1..<Suc (length (h_outputs s))]" "fst b + 1 = h_slot s"
      "length (h_outputs s) + 2 = h_slot s" using i(1) pend y by (simp_all add: hs_in_order_def hs_core_def)
    have f': "map (\<lambda>o1. fst (fst o1)) (h_outputs s @ [(b, hh, sigs)]) = [1..<Suc (Suc (length (h_outputs s)))]"
    proof -
      have "fst b = Suc (length (h_outputs s))" using f(2,3) by simp
      then show ?thesis using f(1) by (simp add: upt_Suc_append del: upt_Suc)
    qed
    show ?thesis
    proof (cases "slot_error E ?s b")
      case None
      then show ?thesis using h Some d pend y f(2,3) f' i(2)
        by (auto simp: slot_finish_def slot_promote_def hs_end_ok_def hs_in_order_def hs_core_def Let_def
            simp del: upt_Suc split: if_splits)
    next
      case err: (Some e)
      have "e = ZeroDivisionError" by (rule slot_error_zero [OF i' _ err, of r]) (simp add: pend y)
      then show ?thesis using h Some d pend y f f' i(2) err
        by (auto simp: slot_finish_def slot_promote_def hs_end_ok_def Let_def simp del: upt_Suc split: if_splits)
    qed
  qed
qed

lemma hs_step_order:
  assumes i: "hs_in_order E s" "h_slot s \<le> hslots E + 2" and h: "hs_step E p s (q, m) = (s', outs, c)"
  shows "hs_end_ok E s' c"
  using h
proof (cases rule: hs_step_cases)
  case quiet
  then show ?thesis using i by (simp add: hs_end_ok_def hs_in_order_def hs_frame_def) (simp add: hs_core_def)
next
  case ended
  then show ?thesis using i by (simp add: hs_end_ok_def)
next
  case finish
  show ?thesis by (rule slot_finish_order [OF i finish])
qed

lemma hs_run_order:
  "hs_in_order E s \<Longrightarrow> h_slot s \<le> hslots E + 2 \<Longrightarrow> run_loop (hs_step E p) s es = (s', outs, c) \<Longrightarrow> hs_end_ok E s' c"
proof (induction es arbitrary: s outs)
  case Nil
  then show ?case by (auto simp: hs_end_ok_def)
next
  case (Cons e es)
  obtain q m where e: "e = (q, m)" by (cases e)
  obtain s1 o1 c1 where h: "hs_step E p s (q, m) = (s1, o1, c1)" by (cases "hs_step E p s (q, m)")
  note 1 = hs_step_order [OF Cons.prems(1,2) h]
  show ?case
  proof (cases c1)
    case Running
    then have "hs_in_order E s1" "h_slot s1 \<le> hslots E + 2" using 1 by (simp_all add: hs_end_ok_def)
    moreover obtain o2 where "run_loop (hs_step E p) s1 es = (s', o2, c)"
      using Cons.prems(3) h e Running by (auto split: prod.splits)
    ultimately show ?thesis by (rule Cons.IH)
  qed (use Cons.prems(3) h e 1 in auto)
qed

lemma hs_init_order: "hs_in_order E (hs_init E)" "h_slot (hs_init E) \<le> hslots E + 2"
  by (simp_all add: hs_in_order_def hs_core_def hs_init_def)

section \<open>The statistics\<close>

text \<open>Without the string \<open>"Dummy TX"\<close> in a batch, the third slot always ends in a division by zero.\<close>

definition hs_starved :: "('k, 'd, 'g, 'b) hs_env \<Rightarrow> ('d, 'g, 'b) hs_state \<Rightarrow> bool" where
  "hs_starved E s \<longleftrightarrow> hs_in_order E s \<and> h_slot s \<le> 3 \<and> h_txcnt s = 0"

lemma slot_finish_starved:
  assumes s: "hs_starved E s" and z: "\<forall>x. hcount E x = 0" and h: "slot_finish E p s = (s', outs, c)"
  shows "h_slot s' \<le> 3 \<and> length (h_outputs s') \<le> 2 \<and> ((\<forall>e. c \<noteq> Raised e) \<longrightarrow> h_txcnt s' = 0)"
proof -
  have tx: "fixed_txs E t = 0" for t using z by (auto simp: fixed_txs_def split: option.splits)
  have o1: "case h_pending s of None \<Rightarrow> h_slot s = 1 \<and> h_outputs s = []
      | Some (b, _) \<Rightarrow> fst b + 1 = h_slot s \<and> length (h_outputs s) + 2 = h_slot s"
    and n: "h_notarized s = (if h_outputs s = [] then None else Some (fst (last (h_outputs s))))"
    using s by (simp_all add: hs_starved_def hs_in_order_def hs_core_def)
  show ?thesis
  proof (cases "h_decide s")
    case None
    then show ?thesis using h s o1 by (cases "h_pending s") (auto simp: slot_finish_def hs_starved_def)
  next
    case (Some d)
    obtain hh sigs x where d: "d = (hh, sigs, x)" by (cases d)
    let ?s = "s\<lparr>h_decide := None\<rparr>"
    show ?thesis
    proof (cases "h_pending s")
      case None
      then show ?thesis using h s o1 Some d
        by (auto simp: slot_finish_def slot_promote_def hs_starved_def Let_def split: if_splits)
    next
      case pend: (Some y)
      obtain b r where y: "y = (b, r)" by (cases y)
      have k: "h_slot s \<le> 3" "length (h_outputs s) + 2 = h_slot s" "h_txcnt s = 0"
        using s o1 pend y by (simp_all add: hs_starved_def)
      show ?thesis
      proof (cases "slot_error E ?s b")
        case None
        then have "fixed_block ?s = None" using k(3) tx by (cases "fixed_block ?s") (simp_all add: slot_error_def split: if_splits)
        then have "h_notarized s = None" by (cases "h_notarized s") (simp_all add: fixed_block_def)
        then have "h_slot s = 2" using n k by (auto split: if_splits)
        then show ?thesis using h Some d pend y None k tx
          by (auto simp: slot_finish_def slot_promote_def Let_def split: if_splits)
      next
        case err: (Some e)
        then show ?thesis using h Some d pend y k
          by (auto simp: slot_finish_def slot_promote_def Let_def split: if_splits)
      qed
    qed
  qed
qed

lemma hs_step_starved:
  assumes s: "hs_starved E s" "h_slot s \<le> hslots E + 2" and z: "\<forall>x. hcount E x = 0" and h: "hs_step E p s (q, m) = (s', outs, c)"
  shows "h_slot s' \<le> 3 \<and> length (h_outputs s') \<le> 2 \<and> (c = Running \<longrightarrow> hs_starved E s' \<and> h_slot s' \<le> hslots E + 2)"
proof -
  have "hs_in_order E s" using s(1) by (simp add: hs_starved_def)
  note ok = hs_step_order [OF this s(2) h]
  have len: "length (h_outputs s) \<le> 2"
    using s(1) by (cases "h_pending s") (auto simp: hs_starved_def hs_in_order_def hs_core_def)
  from h show ?thesis
  proof (cases rule: hs_step_cases)
    case quiet
    then show ?thesis using s(1) len ok by (simp add: hs_starved_def hs_end_ok_def hs_frame_def hs_core_def)
  next
    case ended
    then show ?thesis using s(1) len by (simp add: hs_starved_def)
  next
    case finish
    from slot_finish_starved [OF s(1) z finish] ok show ?thesis by (auto simp: hs_starved_def hs_end_ok_def)
  qed
qed

lemma hs_run_starved:
  "hs_starved E s \<Longrightarrow> h_slot s \<le> hslots E + 2 \<Longrightarrow> \<forall>x. hcount E x = 0 \<Longrightarrow>
    run_loop (hs_step E p) s es = (s', outs, c) \<Longrightarrow> h_slot s' \<le> 3 \<and> length (h_outputs s') \<le> 2"
proof (induction es arbitrary: s outs)
  case Nil
  then show ?case by (cases "h_pending s") (auto simp: hs_starved_def hs_in_order_def hs_core_def)
next
  case (Cons e es)
  obtain q m where e: "e = (q, m)" by (cases e)
  obtain s1 o1 c1 where h: "hs_step E p s (q, m) = (s1, o1, c1)" by (cases "hs_step E p s (q, m)")
  note 1 = hs_step_starved [OF Cons.prems(1,2,3) h]
  show ?case
  proof (cases c1)
    case Running
    moreover obtain o2 where "run_loop (hs_step E p) s1 es = (s', o2, c)"
      using Cons.prems(4) h e Running by (auto split: prod.splits)
    ultimately show ?thesis using Cons.IH [of s1 o2] 1 Cons.prems(3) by blast
  qed (use Cons.prems(4) h e 1 in auto)
qed

section \<open>Properties\<close>

text \<open>
  C23: Notarized blocks of one slot agree. If two blocks of the same slot are notarized the way the
  protocol means it (the certificate is for the hash of the block, its \<open>N - f\<close> signers differ and
  its signatures under correct nodes' keys are votes those nodes sent; the code checks none of the three),
  they are the same block. The two header hashes differ from the genesis hash and from those of the
  other blocks that correct nodes have accepted in the run.
\<close>

theorem hs_agreement:
  assumes "wf_cfg (hs_cfg E B)" and "hs_reachable E B s"
    and "block_apart E B s b" and "block_apart E B s b'"
    and "well_notarized E B s (b, h, c)" and "well_notarized E B s (b', h', c')" and "fst b = fst b'"
  shows "b = b'"
  using assms by (rule hs_agreement_aux)


text \<open>
  The benchmark stops the protocol. The code divides by the number of transactions that contain
  \<open>Dummy TX\<close>. When the batches hold none, no node leaves the third slot or outputs a third block.
\<close>

theorem hs_statistics_crash:
  assumes "\<forall>x. hcount E x = 0" and "run_loop (hs_step E p) (hs_init E) es = (s, outs, c)"
  shows "h_slot s \<le> 3 \<and> length (h_outputs s) \<le> 2"
proof -
  have "hs_starved E (hs_init E)" using hs_init_order(1) by (simp add: hs_starved_def) (simp add: hs_init_def)
  then show ?thesis by (rule hs_run_starved [OF _ hs_init_order(2) assms])
qed

section \<open>Forged decisions\<close>

definition ex_hs :: "(nat, bytes, nat \<times> bytes \<times> nat, nat) hs_env" where
  "ex_hs = \<lparr>kN = 4, kf = 1, kpks = [0, 1, 2, 3], kvr = (\<lambda>pk d g. fst g = pk \<and> fst (snd g) = d), kmal = (\<lambda>g. False),
     ksgn = (\<lambda>i d. (i, d, 0)), hvariant = HsFastpath, hleader = 0, hslots = 2, hgenesis = [],
     hheader = (\<lambda>(k, h, x). of_nat k # of_nat x # h), hbatch = (\<lambda>k. k), hdummy = 0, hcount = (\<lambda>x. 1)\<rparr>"

text \<open>Node 3 alone decides the first two slots of nodes 1 and 2, with its own signature three times.\<close>

definition ex_forged :: "nat \<Rightarrow> nat \<Rightarrow> nat \<times> nat \<times> (bytes, nat \<times> bytes \<times> nat, nat) hs_msg" where
  "ex_forged k x = (let p = (if x = 6 \<or> x = 8 then 2 else 1) in
     (3, p, DECIDE k [9] (replicate 3 (3, (3, [9], 0))) x))"

definition ex_hs_forged :: "((bytes, nat \<times> bytes \<times> nat, nat) hs_state, (bytes, nat \<times> bytes \<times> nat, nat) hs_msg,
    (bytes \<times> (nat \<times> bytes \<times> nat) sigmas) option) sys" where
  "ex_hs_forged = deliver_all (hs_cfg ex_hs {3}) (hs_step ex_hs)
     (forge_all (hs_initial ex_hs {3}) [ex_forged 1 5, ex_forged 2 7, ex_forged 1 6, ex_forged 2 8])
     [ex_forged 1 5, (1, 1, SLOT_RUN), ex_forged 2 7, (1, 1, SLOT_RUN),
      ex_forged 1 6, (2, 2, SLOT_RUN), ex_forged 2 8, (2, 2, SLOT_RUN)]"

text \<open>
  A node that is not the leader forges decisions. \<open>DECIDE\<close> is accepted from any sender, its hash is not
  compared with the hash of the last block, and its signers need not differ: in a run with a correct
  leader, a single faulty node makes two correct nodes output different blocks for slot 1.
\<close>

theorem hs_forged_blocks:
  "\<exists>s b b' r r'. hs_reachable ex_hs {3} s \<and> wf_cfg (hs_cfg ex_hs {3}) \<and> hleader ex_hs = 0 \<and>
     h_outputs (loc s 1) = [(b, r)] \<and> h_outputs (loc s 2) = [(b', r')] \<and> fst b = 1 \<and> fst b' = 1 \<and> b \<noteq> b'"
proof (intro exI conjI)
  show "hs_reachable ex_hs {3} ex_hs_forged"
    unfolding hs_reachable_def ex_hs_forged_def
    by (rule deliver_all_reaches, rule forge_all_reaches [OF reaches.start])
      (simp add: hs_cfg_def ex_forged_def Let_def)
  let ?r = "([9], replicate 3 (3, (3, [9], 0)))"
  show "h_outputs (loc ex_hs_forged 1) = [((1, [9], 5), ?r)]" "h_outputs (loc ex_hs_forged 2) = [((1, [9], 6), ?r)]"
    by code_simp+
  show "wf_cfg (hs_cfg ex_hs {3})" "hleader ex_hs = 0" by code_simp+
qed simp_all

section \<open>Two decisions in a row\<close>

text \<open>
  A node whose handler has died inside its critical block never does anything again: no message, no
  timeout and no decision already queued moves it.
\<close>

lemma hs_blocked_step: "\<not> h_receiving s \<Longrightarrow> h_blocked s \<Longrightarrow> hs_step E p s e = stay s"
  by (auto simp: hs_step_def hs_timeout_def slot_run_def split: prod.splits)

lemma hs_blocked_run: "\<not> h_receiving s \<Longrightarrow> h_blocked s \<Longrightarrow> run_loop (hs_step E p) s es = (s, [], Running)"
  by (induction es) (simp_all add: hs_blocked_step)

text \<open>
  Two \<open>DECIDE\<close>s that arrive one after the other, from whomever, stop a node for good, its timeout
  included: the second finds the queue full.
\<close>

theorem hs_two_decides:
  assumes "h_receiving s" and "p \<noteq> hleader E" and "q < kN E" and "q' < kN E"
    and "kN E - kf E \<le> length c" and "sig_loop E h c = Inr ()"
    and "kN E - kf E \<le> length c'" and "sig_loop E h' c' = Inr ()"
    and "run_loop (hs_step E p) s
      ((q, DECIDE (h_slot s) h c x) # (q', DECIDE (h_slot s) h' c' x') # es) = (s', outs, k)"
  shows "k = Running \<and> outs = [] \<and> h_slot s' = h_slot s \<and> h_outputs s' = h_outputs s"
proof -
  define s1 where "s1 = put_decide s (h, c, x)"
  define s2 where "s2 = (if h_receiving s1 then put_decide s1 (h', c', x') else s1)"
  have 1: "hs_step E p s (q, DECIDE (h_slot s) h c x) = stay s1"
    using assms(1-3,5,6) by (simp add: hs_step_def hs_decide_def s1_def)
  have f: "hs_frame s s1" "hs_frame s s2"
    using hs_frame_trans [of s s1 s2] by (simp_all add: s1_def s2_def)
  then have "h_slot s1 = h_slot s" by (simp add: hs_frame_def hs_core_def)
  then have 2: "hs_step E p s1 (q', DECIDE (h_slot s) h' c' x') = stay s2"
    using assms(2,4,7,8) by (simp add: hs_step_def hs_decide_def s2_def)
  have "\<not> h_receiving s2 \<and> h_blocked s2"
    by (cases "h_decide s") (simp_all add: s1_def s2_def put_decide_def critical_error_def assms(1))
  then have "s' = s2 \<and> outs = [] \<and> k = Running"
    using assms(9) 1 2 hs_blocked_run [of s2 E p es] by simp
  then show ?thesis using f(2) by (simp add: hs_frame_def hs_core_def)
qed

section \<open>Witnesses\<close>

text \<open>A run without faults through slots 1 and 2; node 0 outputs the block of slot 1.\<close>

definition ex_hs_env :: "(nat, nat list, nat \<times> nat list \<times> nat, nat) hs_env" where
  "ex_hs_env = \<lparr>kN = 4, kf = 1, kpks = [0, 1, 2, 3], kvr = (\<lambda>pk d g. fst g = pk \<and> fst (snd g) = d), kmal = (\<lambda>g. False),
     ksgn = (\<lambda>i d. (i, d, 0)), hvariant = HsFastpath, hleader = 0, hslots = 2, hgenesis = [],
     hheader = (\<lambda>(k, h, x). k # x # h), hbatch = (\<lambda>k. k), hdummy = 0, hcount = (\<lambda>x. 0)\<rparr>"

definition ex_votes :: "nat \<Rightarrow> nat list \<Rightarrow> (nat \<times> nat \<times> (nat list, nat \<times> nat list \<times> nat, nat) hs_msg) list" where
  "ex_votes k h = map (\<lambda>i. (i, 0, VOTE k h (i, h, 0))) [0, 1, 2]"

definition ex_sigs :: "nat list \<Rightarrow> (nat \<times> nat list \<times> nat) sigmas" where
  "ex_sigs h = map (\<lambda>i. (int i, (i, h, 0))) [0, 1, 2]"

definition ex_hs_final :: "((nat list, nat \<times> nat list \<times> nat, nat) hs_state, (nat list, nat \<times> nat list \<times> nat, nat) hs_msg,
    (nat list \<times> (nat \<times> nat list \<times> nat) sigmas) option) sys" where
  "ex_hs_final = deliver_all (hs_cfg ex_hs_env {3}) (hs_step ex_hs_env) (hs_initial ex_hs_env {3})
     (ex_votes 1 [] @ map (\<lambda>p. (0, p, DECIDE 1 [] (ex_sigs []) 1)) [1, 2] @
      map (\<lambda>p. (p, p, SLOT_RUN)) [0, 1, 2] @ ex_votes 2 [1, 1] @ [(0, 0, SLOT_RUN)])"

definition ex_block1 :: "(nat list, nat) hs_block \<times> nat list \<times> (nat \<times> nat list \<times> nat) sigmas" where
  "ex_block1 = ((1, [], 1), [1, 1], ex_sigs [1, 1])"

theorem hs_agreement_witness: "h_outputs (loc ex_hs_final 0) = [ex_block1] \<and> fst ex_block1 = (1, [], 1)"
proof
  have r: "hs_reachable ex_hs_env {3} ex_hs_final"
    unfolding hs_reachable_def ex_hs_final_def by (rule deliver_all_reaches [OF reaches.start])
  have "signs_bind ex_hs_env {3} made {[1, 1]}" for made by (auto simp: signs_bind_def ex_hs_env_def)
  moreover have "[1, 1] = hheader ex_hs_env (1, [], 1)" "accepted_cert (ex_hs_env, {3}) [1, 1] (ex_sigs [1, 1])"
    by code_simp+
  moreover have "vote_unforged ex_hs_env {3} ex_hs_final (ex_sigs [1, 1])"
  proof -
    have "(q, 0, VOTE 2 [1, 1] (q, [1, 1], 0)) \<in> net ex_hs_final" if "q \<in> set [0, 1, 2]" for q
    proof -
      have "list_all (\<lambda>q. (q, 0, VOTE 2 [1, 1] (q, [1, 1], 0)) \<in> net ex_hs_final) [0, 1, 2]" by code_simp
      with that show ?thesis unfolding list_all_iff by blast
    qed
    then show ?thesis
      by (fastforce simp: vote_unforged_def cert_made_def ex_sigs_def signer_of_def ex_hs_env_def)
  qed
  ultimately have w: "well_notarized ex_hs_env {3} ex_hs_final ((1, [], 1), [1, 1], ex_sigs [1, 1])"
    by (simp add: well_notarized_def)
  have "fst ex_block1 = (1, [], 1)"
    using hs_agreement [OF _ r _ _ w w] by (simp add: ex_block1_def)
  moreover have "wf_cfg (hs_cfg ex_hs_env {3})" by code_simp
  moreover have "block_apart ex_hs_env {3} ex_hs_final (1, [], 1)"
    by (auto simp: block_apart_def ex_hs_env_def)
  ultimately show "fst ex_block1 = (1, [], 1)" by simp
qed code_simp

definition ex_hs_events :: "(nat \<times> (nat list, nat \<times> nat list \<times> nat, nat) hs_msg) list" where
  "ex_hs_events =
     (let votes = (\<lambda>k h. map (\<lambda>(q, _, m). (q, m)) (ex_votes k h)) in
      votes 1 [] @ [(0, SLOT_RUN)] @ votes 2 [1, 1] @ [(0, SLOT_RUN)] @ votes 3 [2, 2, 1, 1] @ [(0, SLOT_RUN)])"

lemma ex_hs_run: "ctl_of (run_loop (hs_step ex_hs_env 0) (hs_init ex_hs_env) ex_hs_events) = Raised ZeroDivisionError"
  by code_simp


theorem hs_statistics_crash_witness:
  "ctl_of (run_loop (hs_step ex_hs_env 0) (hs_init ex_hs_env) ex_hs_events) = Raised ZeroDivisionError \<and>
   h_slot (fst (run_loop (hs_step ex_hs_env 0) (hs_init ex_hs_env) ex_hs_events)) \<le> 3"
proof -
  obtain s outs c where r: "run_loop (hs_step ex_hs_env 0) (hs_init ex_hs_env) ex_hs_events = (s, outs, c)"
    by (cases "run_loop (hs_step ex_hs_env 0) (hs_init ex_hs_env) ex_hs_events")
  have "\<forall>x. hcount ex_hs_env x = 0" by (simp add: ex_hs_env_def)
  from hs_statistics_crash [OF this r] ex_hs_run show ?thesis by (simp add: r)
qed

end
