(* ===== verification/Routing.thy ===== *)
theory Routing
  imports Prelude "HOL-Library.Sublist"
begin

text \<open>
  How a message reaches a sub-protocol. The receive greenlet of a driver buffers what the network
  delivers in one queue per round or epoch; the greenlet \<open>broadcast_receiver_loop\<close> of a round moves
  the messages of its queue, by tag and index, into the queue the sub-protocol reads. All drivers and
  the agreement modules with sub-protocols contain such loops; they differ in the tags, in the shape
  of the queues and in whether an exception ends the receive greenlet. The lemmas show that the two
  greenlets together implement one FIFO channel per round, tag and index.
\<close>

section \<open>Routing by tag\<close>

text \<open>The second component of a message \<open>(tag, j, msg)\<close>: a number, or a string such as \<open>''\<close>.\<close>

datatype idx = Num int | Str string

text \<open>What hangs below a tag: a queue, a list of queues, a \<open>defaultdict\<close> of queues or of lists of queues.\<close>

datatype qshape = Plain | Row nat | Table | Grid nat

record router =
  r_arity :: nat
  r_shapes :: "(string \<times> qshape) list"

type_synonym channel = "string \<times> idx list"

text \<open>What arrives: a tuple of a tag, the indices and the message, or something that cannot be unpacked.\<close>

datatype 'm packet = Packet string "idx list" 'm | Malformed

definition row_index :: "nat \<Rightarrow> idx \<Rightarrow> py_error + idx" where
  "row_index n j =
     (case j of Num i \<Rightarrow> res_bind (py_index [0..<n] i) (\<lambda>k. Inr (Num (int k))) | Str _ \<Rightarrow> Inl TypeError)"

definition route_key :: "router \<Rightarrow> string \<Rightarrow> idx list \<Rightarrow> py_error + channel" where
  "route_key R tag ix =
     (if length ix \<noteq> r_arity R then Inl ValueError
      else case map_of (r_shapes R) tag of
        None \<Rightarrow> Inl UnknownTagError
      | Some Plain \<Rightarrow> Inr (tag, [])
      | Some (Row n) \<Rightarrow> res_bind (py_index ix 0) (\<lambda>j. res_bind (row_index n j) (\<lambda>k. Inr (tag, [k])))
      | Some Table \<Rightarrow> res_bind (py_index ix 0) (\<lambda>j. Inr (tag, [j]))
      | Some (Grid n) \<Rightarrow> res_bind (py_index ix 0) (\<lambda>r.
          res_bind (py_index ix 1) (\<lambda>j. res_bind (row_index n j) (\<lambda>k. Inr (tag, [r, k])))))"

fun route :: "router \<Rightarrow> 'm packet \<Rightarrow> py_error + channel \<times> 'm" where
  "route R Malformed = Inl ValueError"
| "route R (Packet tag ix m) = res_bind (route_key R tag ix) (\<lambda>c. Inr (c, m))"

type_synonym 'm queues = "channel \<Rightarrow> (nat \<times> 'm) list"

definition enqueue :: "'k \<Rightarrow> 'x \<Rightarrow> ('k \<Rightarrow> 'x list) \<Rightarrow> 'k \<Rightarrow> 'x list" where
  "enqueue k x q = q(k := q k @ [x])"

text \<open>One turn of \<open>broadcast_receiver\<close>.\<close>

definition broadcast_receiver ::
    "router \<Rightarrow> 'm queues \<Rightarrow> nat \<times> 'm packet \<Rightarrow> ('m queues, unit, unit) reply" where
  "broadcast_receiver R qs x =
     (case route R (snd x) of
        Inl e \<Rightarrow> (qs, [], Raised e)
      | Inr (c, m) \<Rightarrow> stay (enqueue c (fst x, m) qs))"

text \<open>The routers of the drivers and of the modules with sub-protocols, for \<open>N\<close> nodes.\<close>

definition hb_router :: "nat \<Rightarrow> router" where
  "hb_router N = \<lparr>r_arity = 1, r_shapes =
     [(''ACS_COIN'', Row N), (''ACS_ABA'', Row N), (''ACS_RBC'', Row N), (''TPKE'', Plain)]\<rparr>"

definition dumbo_router :: "nat \<Rightarrow> router" where
  "dumbo_router N = \<lparr>r_arity = 1, r_shapes = [(''ACS_PRBC'', Row N), (''ACS_VACS'', Plain), (''TPKE'', Plain)]\<rparr>"

definition speedy_router :: "nat \<Rightarrow> router" where
  "speedy_router N = \<lparr>r_arity = 1, r_shapes = [(''ACS_PRBC'', Row N), (''ACS_VACS'', Plain), (''TPKE'', Plain)]\<rparr>"

definition mule_router :: "nat \<Rightarrow> router" where
  "mule_router N = \<lparr>r_arity = 1, r_shapes =
     [(''TCVBA'', Plain), (''ABA'', Plain), (''ABA_COIN'', Plain), (''FAST'', Plain), (''VIEW_CHANGE'', Plain),
      (''VIEW_COIN'', Plain), (''ACS_PRBC'', Row N), (''ACS_VACS'', Plain), (''TPKE'', Plain)]\<rparr>"

definition rbcmule_router :: "nat \<Rightarrow> router" where
  "rbcmule_router N = \<lparr>r_arity = 1, r_shapes =
     [(''TCVBA'', Plain), (''ABA'', Plain), (''ABA_COIN'', Plain), (''FAST'', Plain), (''VIEW_CHANGE'', Plain),
      (''VIEW_COIN'', Plain), (''ACS_PRBC'', Row N), (''ACS_VACS'', Plain), (''TPKE'', Plain)]\<rparr>"

definition rotating_router :: router where
  "rotating_router = \<lparr>r_arity = 1, r_shapes = [(''FAST'', Plain), (''VIEW_CHANGE'', Plain), (''NEW_VIEW'', Plain)]\<rparr>"

definition dumbox_router :: router where
  "dumbox_router = \<lparr>r_arity = 1, r_shapes = [(''ACS_VACS'', Plain), (''TPKE'', Plain)]\<rparr>"

definition mvbacs_router :: router where
  "mvbacs_router = \<lparr>r_arity = 0, r_shapes = [(''ACS_DIFFUSE'', Plain), (''ACS_MVBA'', Plain)]\<rparr>"

definition dumbomvba_router :: "nat \<Rightarrow> router" where
  "dumbomvba_router N = \<lparr>r_arity = 1, r_shapes =
     [(''MVBA_COIN'', Plain), (''MVBA_PD'', Row N), (''MVBA_PD_FINISH'', Plain), (''MVBA_RC_PREPARE'', Plain),
      (''MVBA_RC'', Plain), (''MVBA_ABA'', Table), (''MVBA_ABA_COIN'', Table)]\<rparr>"

definition vacs_router :: router where
  "vacs_router = \<lparr>r_arity = 0, r_shapes = [(''VACS_VAL'', Plain), (''VACS_VABA'', Plain)]\<rparr>"

definition vaba_router :: "nat \<Rightarrow> router" where
  "vaba_router N = \<lparr>r_arity = 1, r_shapes =
     [(''VABA_COIN'', Plain), (''VABA_COMMIT'', Row N), (''VABA_VOTE'', Table), (''VABA_ABA_COIN'', Table),
      (''VABA_CBC'', Row N), (''VABA_ABA'', Table)]\<rparr>"

definition smvba_router :: "nat \<Rightarrow> router" where
  "smvba_router N = \<lparr>r_arity = 2, r_shapes =
     [(''MVBA_SPBC'', Grid N), (''MVBA_ELECT'', Plain), (''MVBA_ABA'', Table), (''MVBA_HALT'', Plain)]\<rparr>"

section \<open>Buffering by round\<close>

datatype ('r, 'm) frame = Frame nat 'r "'m packet" | Garbage

type_synonym ('r, 'm) buffers = "'r \<Rightarrow> (nat \<times> 'm packet) list option"

text \<open>\<open>if r not in self._per_round_recv: self._per_round_recv[r] = Queue()\<close>\<close>

definition open_round :: "'r \<Rightarrow> ('r, 'm) buffers \<Rightarrow> ('r, 'm) buffers" where
  "open_round r d = (if d r = None then d(r \<mapsto> []) else d)"

text \<open>
  One turn of \<open>_recv_loop\<close>. A frame that cannot be unpacked, or whose round is not hashable, raises
  inside the loop: the drivers with a bare \<open>except: continue\<close> go on, the others lose the greenlet.
\<close>

fun recv_frame :: "bool \<Rightarrow> ('r, 'm) buffers \<Rightarrow> ('r, 'm) frame \<Rightarrow> (('r, 'm) buffers, unit, unit) reply" where
  "recv_frame guarded d Garbage = (if guarded then stay d else (d, [], Raised ValueError))"
| "recv_frame guarded d (Frame q r x) =
     stay (let d1 = open_round r d in d1(r \<mapsto> the (d1 r) @ [(q, x)]))"

definition hb_recv_loop :: "('r, 'm) buffers \<Rightarrow> ('r, 'm) frame \<Rightarrow> (('r, 'm) buffers, unit, unit) reply" where
  "hb_recv_loop = recv_frame False"

definition dumbo_recv_loop :: "('r, 'm) buffers \<Rightarrow> ('r, 'm) frame \<Rightarrow> (('r, 'm) buffers, unit, unit) reply" where
  "dumbo_recv_loop = recv_frame True"

definition speedy_recv_loop :: "('r, 'm) buffers \<Rightarrow> ('r, 'm) frame \<Rightarrow> (('r, 'm) buffers, unit, unit) reply" where
  "speedy_recv_loop = recv_frame True"

definition dumbox_recv_loop :: "('r, 'm) buffers \<Rightarrow> ('r, 'm) frame \<Rightarrow> (('r, 'm) buffers, unit, unit) reply" where
  "dumbox_recv_loop = recv_frame True"

definition mule_recv_loop :: "('r, 'm) buffers \<Rightarrow> ('r, 'm) frame \<Rightarrow> (('r, 'm) buffers, unit, unit) reply" where
  "mule_recv_loop = recv_frame True"

definition rbcmule_recv_loop :: "('r, 'm) buffers \<Rightarrow> ('r, 'm) frame \<Rightarrow> (('r, 'm) buffers, unit, unit) reply" where
  "rbcmule_recv_loop = recv_frame True"

definition rotating_recv_loop :: "('r, 'm) buffers \<Rightarrow> ('r, 'm) frame \<Rightarrow> (('r, 'm) buffers, unit, unit) reply" where
  "rotating_recv_loop = recv_frame True"

text \<open>The stable-leader driver has one queue and no rounds.\<close>

fun stable_recv_loop :: "(nat \<times> 'm) list \<Rightarrow> (nat \<times> 'm) option \<Rightarrow> ((nat \<times> 'm) list, unit, unit) reply" where
  "stable_recv_loop q None = stay q"
| "stable_recv_loop q (Some x) = stay (q @ [x])"

section \<open>The two greenlets of a node\<close>

text \<open>
  \<open>Net\<close> is a turn of the receive greenlet, \<open>Begin\<close> the driver entering a round (it opens the buffer
  and starts the router), \<open>Route\<close> a turn of the router of a round, \<open>Get\<close> a \<open>get\<close> of a sub-protocol on
  one queue; a \<open>get\<close> on an empty queue blocks. The output of a step is what a sub-protocol received.
  Killing the router of a finished round means that it takes no further turn.
\<close>

datatype ('r, 'm) io_event = Net "('r, 'm) frame" | Begin 'r | Route 'r | Get 'r channel

record ('r, 'm) node_io =
  io_recv :: "unit ctl"
  io_rounds :: "('r, 'm) buffers"
  io_router :: "'r \<Rightarrow> unit ctl option"
  io_queue :: "'r \<Rightarrow> 'm queues"

definition io_init :: "('r, 'm) node_io" where
  "io_init = \<lparr>io_recv = Running, io_rounds = (\<lambda>_. None), io_router = (\<lambda>_. None), io_queue = (\<lambda>_ _. [])\<rparr>"

definition route_turn :: "router \<Rightarrow> 'r \<Rightarrow> ('r, 'm) node_io \<Rightarrow> ('r, 'm) node_io" where
  "route_turn R r s =
     (if io_router s r \<noteq> Some Running then s
      else case io_rounds s r of
        Some (x # xs) \<Rightarrow>
          (case broadcast_receiver R (io_queue s r) x of
             (qs, _, k) \<Rightarrow> s\<lparr>io_rounds := (io_rounds s)(r \<mapsto> xs), io_router := (io_router s)(r \<mapsto> k),
                             io_queue := (io_queue s)(r := qs)\<rparr>)
      | _ \<Rightarrow> s)"

fun io_step :: "bool \<Rightarrow> router \<Rightarrow> ('r, 'm) node_io \<Rightarrow> ('r, 'm) io_event \<Rightarrow>
    ('r, 'm) node_io \<times> ('r \<times> channel \<times> nat \<times> 'm) list" where
  "io_step guarded R s (Net x) =
     (if io_recv s \<noteq> Running then (s, [])
      else case recv_frame guarded (io_rounds s) x of
        (d, _, k) \<Rightarrow> (s\<lparr>io_rounds := d, io_recv := k\<rparr>, []))"
| "io_step guarded R s (Begin r) =
     (s\<lparr>io_rounds := open_round r (io_rounds s),
        io_router := (if io_router s r = None then (io_router s)(r \<mapsto> Running) else io_router s)\<rparr>, [])"
| "io_step guarded R s (Route r) = (route_turn R r s, [])"
| "io_step guarded R s (Get r c) =
     (case io_queue s r c of
        [] \<Rightarrow> (s, [])
      | x # xs \<Rightarrow> (s\<lparr>io_queue := (io_queue s)(r := (io_queue s r)(c := xs))\<rparr>, [(r, c, x)]))"

fun io_run :: "('s \<Rightarrow> 'e \<Rightarrow> 's \<times> 'o list) \<Rightarrow> 's \<Rightarrow> 'e list \<Rightarrow> 's \<times> 'o list" where
  "io_run h s [] = (s, [])"
| "io_run h s (e # es) = (case h s e of (s1, o1) \<Rightarrow> case io_run h s1 es of (s2, o2) \<Rightarrow> (s2, o1 @ o2))"

section \<open>The abstract channels\<close>

text \<open>
  The specification: a FIFO channel per round, tag and index, which a well-addressed message enters
  when it arrives. A message that cannot be addressed closes all channels of its round for later
  messages; with an unguarded receive loop a frame that cannot be unpacked closes everything.
\<close>

record ('r, 'm) channels =
  c_down :: bool
  c_closed :: "'r \<Rightarrow> bool"
  c_chan :: "'r \<Rightarrow> 'm queues"

definition chan_init :: "('r, 'm) channels" where
  "chan_init = \<lparr>c_down = False, c_closed = (\<lambda>_. False), c_chan = (\<lambda>_ _. [])\<rparr>"

fun chan_step :: "bool \<Rightarrow> router \<Rightarrow> ('r, 'm) channels \<Rightarrow> ('r, 'm) io_event \<Rightarrow>
    ('r, 'm) channels \<times> ('r \<times> channel \<times> nat \<times> 'm) list" where
  "chan_step guarded R s (Net Garbage) = (if guarded \<or> c_down s then s else s\<lparr>c_down := True\<rparr>, [])"
| "chan_step guarded R s (Net (Frame q r x)) =
     ((if c_down s \<or> c_closed s r then s
       else case route R x of
         Inl _ \<Rightarrow> s\<lparr>c_closed := (c_closed s)(r := True)\<rparr>
       | Inr (c, m) \<Rightarrow> s\<lparr>c_chan := (c_chan s)(r := enqueue c (q, m) (c_chan s r))\<rparr>), [])"
| "chan_step guarded R s (Get r c) =
     (case c_chan s r c of
        [] \<Rightarrow> (s, [])
      | x # xs \<Rightarrow> (s\<lparr>c_chan := (c_chan s)(r := (c_chan s r)(c := xs))\<rparr>, [(r, c, x)]))"
| "chan_step guarded R s _ = (s, [])"

text \<open>The messages of a buffer that will reach channel \<open>c\<close>.\<close>

fun routed :: "router \<Rightarrow> channel \<Rightarrow> (nat \<times> 'm packet) list \<Rightarrow> (nat \<times> 'm) list" where
  "routed R c [] = []"
| "routed R c ((q, x) # xs) =
     (case route R x of
        Inl _ \<Rightarrow> []
      | Inr (c', m) \<Rightarrow> (if c' = c then [(q, m)] else []) @ routed R c xs)"

definition unroutable :: "router \<Rightarrow> (nat \<times> 'm packet) list \<Rightarrow> bool" where
  "unroutable R xs \<longleftrightarrow> list_ex (\<lambda>x. isl (route R (snd x))) xs"

definition pending :: "('r, 'm) node_io \<Rightarrow> 'r \<Rightarrow> (nat \<times> 'm packet) list" where
  "pending s r = (case io_rounds s r of None \<Rightarrow> [] | Some xs \<Rightarrow> xs)"

definition router_dead :: "('r, 'm) node_io \<Rightarrow> 'r \<Rightarrow> bool" where
  "router_dead s r \<longleftrightarrow> io_router s r \<notin> {None, Some Running}"

definition to_come :: "router \<Rightarrow> ('r, 'm) node_io \<Rightarrow> 'r \<Rightarrow> channel \<Rightarrow> (nat \<times> 'm) list" where
  "to_come R s r c = (if router_dead s r then [] else routed R c (pending s r))"

text \<open>The abstraction function: what is queued, followed by what the router will still queue.\<close>

definition abs_io :: "router \<Rightarrow> ('r, 'm) node_io \<Rightarrow> ('r, 'm) channels" where
  "abs_io R s =
     \<lparr>c_down = (io_recv s \<noteq> Running),
      c_closed = (\<lambda>r. router_dead s r \<or> unroutable R (pending s r)),
      c_chan = (\<lambda>r c. io_queue s r c @ to_come R s r c)\<rparr>"

section \<open>Refinement\<close>

text \<open>
  Refinement up to stuttering: every step either is a step of the specification on the abstract state
  or leaves it as it is, outputs nothing, and is not one of the steps that must be matched.
\<close>

locale stuttering_refinement =
  fixes hc :: "'s \<Rightarrow> 'e \<Rightarrow> 's \<times> 'o list"
    and ha :: "'a \<Rightarrow> 'e \<Rightarrow> 'a \<times> 'o list"
    and absf :: "'s \<Rightarrow> 'a"
    and shown :: "'e \<Rightarrow> bool"
  assumes refines: "hc s e = (s', os) \<Longrightarrow>
      ha (absf s) e = (absf s', os) \<or> \<not> shown e \<and> absf s' = absf s \<and> os = []"
begin

lemma run_refines:
  "\<exists>as. subseq as es \<and> filter shown as = filter shown es \<and>
     io_run ha (absf s) as = (absf (fst (io_run hc s es)), snd (io_run hc s es))"
proof (induction es arbitrary: s)
  case Nil
  show ?case by (intro exI [of _ "[]"]) simp
next
  case (Cons e es)
  obtain s1 o1 where h: "hc s e = (s1, o1)" by (cases "hc s e")
  from Cons obtain as where as: "subseq as es" "filter shown as = filter shown es"
    "io_run ha (absf s1) as = (absf (fst (io_run hc s1 es)), snd (io_run hc s1 es))" by blast
  from refines [OF h] show ?case
  proof
    assume "ha (absf s) e = (absf s1, o1)"
    with h as show ?thesis by (intro exI [of _ "e # as"]) (auto split: prod.splits)
  next
    assume "\<not> shown e \<and> absf s1 = absf s \<and> o1 = []"
    with h as show ?thesis by (intro exI [of _ as]) (auto split: prod.splits)
  qed
qed

end

lemma routed_snoc:
  "routed R c (xs @ [(q, x)]) = routed R c xs @
     (if unroutable R xs then []
      else case route R x of Inl _ \<Rightarrow> [] | Inr (c', m) \<Rightarrow> if c' = c then [(q, m)] else [])"
  by (induction xs) (auto simp: unroutable_def split: sum.splits)

lemma unroutable_simps:
  "\<not> unroutable R []" "unroutable R (x # xs) \<longleftrightarrow> isl (route R (snd x)) \<or> unroutable R xs"
  "unroutable R (xs @ [x]) \<longleftrightarrow> unroutable R xs \<or> isl (route R (snd x))"
  by (simp_all add: unroutable_def)

fun is_net :: "('r, 'm) io_event \<Rightarrow> bool" where
  "is_net (Net x) = True"
| "is_net _ = False"

lemma pending_open: "pending (s\<lparr>io_rounds := open_round r (io_rounds s)\<rparr>) r' = pending s r'"
  by (simp add: pending_def open_round_def)

lemma pending_receive:
  "pending (s\<lparr>io_rounds := (open_round r (io_rounds s))(r \<mapsto> the (open_round r (io_rounds s) r) @ [(q, x)])\<rparr>) r' =
     (if r' = r then pending s r @ [(q, x)] else pending s r')"
  by (auto simp: pending_def open_round_def)

lemma abs_frame:
  assumes "io_recv s = Running"
  shows "abs_io R (fst (io_step g R s (Net (Frame q r x)))) = fst (chan_step g R (abs_io R s) (Net (Frame q r x)))"
proof -
  let ?s' = "s\<lparr>io_rounds := (open_round r (io_rounds s))(r \<mapsto> the (open_round r (io_rounds s) r) @ [(q, x)])\<rparr>"
  have p: "pending ?s' r' = (if r' = r then pending s r @ [(q, x)] else pending s r')" for r'
    by (rule pending_receive)
  have d: "router_dead ?s' r' = router_dead s r'" for r' by (simp add: router_dead_def)
  have "fst (io_step g R s (Net (Frame q r x))) = ?s'" using assms by (simp add: Let_def)
  moreover have "abs_io R ?s' = fst (chan_step g R (abs_io R s) (Net (Frame q r x)))"
    using assms
    by (cases "route R x")
      (auto simp: abs_io_def to_come_def p d fun_eq_iff enqueue_def routed_snoc unroutable_simps split: prod.splits)
  ultimately show ?thesis by simp
qed

lemma abs_route: "abs_io R (route_turn R r s) = abs_io R s"
proof (cases "io_router s r = Some Running \<and> pending s r \<noteq> []")
  case False
  then have "route_turn R r s = s"
    by (auto simp: route_turn_def pending_def split: option.splits list.splits)
  then show ?thesis by simp
next
  case True
  then obtain q x xs where p: "io_rounds s r = Some ((q, x) # xs)"
    by (cases "io_rounds s r") (auto simp: pending_def neq_Nil_conv)
  show ?thesis
    using True p
    by (cases "route R x") (auto simp: route_turn_def broadcast_receiver_def abs_io_def to_come_def pending_def
        router_dead_def unroutable_simps enqueue_def fun_eq_iff split: prod.splits)
qed

lemma abs_same:
  assumes "\<And>r. pending s' r = pending s r" and "\<And>r. router_dead s' r = router_dead s r"
  shows "to_come R s' = to_come R s" and "c_closed (abs_io R s') = c_closed (abs_io R s)"
  by (simp_all add: to_come_def abs_io_def fun_eq_iff assms)

lemma abs_get:
  assumes "io_queue s r c = x # xs"
  shows "chan_step g R (abs_io R s) (Get r c) =
    (abs_io R (s\<lparr>io_queue := (io_queue s)(r := (io_queue s r)(c := xs))\<rparr>), [(r, c, x)])"
proof -
  let ?s' = "s\<lparr>io_queue := (io_queue s)(r := (io_queue s r)(c := xs))\<rparr>"
  have "to_come R ?s' = to_come R s" "c_closed (abs_io R ?s') = c_closed (abs_io R s)"
    by (rule abs_same; simp add: pending_def router_dead_def)+
  with assms show ?thesis by (simp add: abs_io_def fun_eq_iff)
qed

interpretation io: stuttering_refinement "io_step g R" "chan_step g R" "abs_io R" is_net
  for g R
proof (unfold_locales, goal_cases)
  case (1 s e s' os)
  show ?case
  proof (cases e)
    case (Net x)
    show ?thesis
    proof (cases x)
      case (Frame q r y)
      have "os = []" using 1 Net Frame by (auto split: if_splits)
      moreover have "abs_io R s' = fst (chan_step g R (abs_io R s) e)"
      proof (cases "io_recv s = Running")
        case True
        then show ?thesis using abs_frame [of s R g q r y] 1 Net Frame by simp
      next
        case False
        then show ?thesis using 1 Net Frame by (auto simp: abs_io_def)
      qed
      ultimately show ?thesis using Net Frame by (auto simp: prod_eq_iff)
    next
      case Garbage
      then show ?thesis
        using 1 Net by (auto simp: abs_io_def to_come_def router_dead_def pending_def fun_eq_iff split: if_splits)
    qed
  next
    case (Begin r)
    have p: "pending s' r' = pending s r'" "router_dead s' r' = router_dead s r'" for r'
      using 1 Begin by (auto simp: pending_def open_round_def router_dead_def split: if_splits)
    have "io_recv s' = io_recv s" "io_queue s' = io_queue s" "os = []" using 1 Begin by auto
    then show ?thesis using Begin abs_same [of s' s R] p by (simp add: abs_io_def)
  next
    case (Route r)
    then show ?thesis using 1 abs_route [of R r s] by auto
  next
    case (Get r c)
    show ?thesis
    proof (cases "io_queue s r c")
      case Nil
      then show ?thesis using 1 Get by simp
    next
      case (Cons y ys)
      then show ?thesis using 1 Get abs_get [OF Cons, of g R] by auto
    qed
  qed
qed

section \<open>What the channels deliver\<close>

text \<open>The messages received for one round, and the deliveries on one channel.\<close>

fun frames_of :: "bool \<Rightarrow> 'r \<Rightarrow> ('r, 'm) io_event list \<Rightarrow> (nat \<times> 'm packet) list" where
  "frames_of guarded r [] = []"
| "frames_of guarded r (Net Garbage # es) = (if guarded then frames_of guarded r es else [])"
| "frames_of guarded r (Net (Frame q r' x) # es) = (if r' = r then [(q, x)] else []) @ frames_of guarded r es"
| "frames_of guarded r (_ # es) = frames_of guarded r es"

definition delivered :: "'r \<Rightarrow> channel \<Rightarrow> ('r \<times> channel \<times> nat \<times> 'm) list \<Rightarrow> (nat \<times> 'm) list" where
  "delivered r c os = map (\<lambda>(_, _, x). x) (filter (\<lambda>(r', c', _). r' = r \<and> c' = c) os)"

lemma delivered_simps [simp]:
  "delivered r c [] = []"
  "delivered r c (x # os) = (if fst x = r \<and> fst (snd x) = c then [snd (snd x)] else []) @ delivered r c os"
  "delivered r c (os @ os') = delivered r c os @ delivered r c os'"
  by (auto simp: delivered_def)

lemma frames_of_net: "frames_of g r (filter is_net es) = frames_of g r es"
  by (induction g r es rule: frames_of.induct) auto

lemma routed_append: "routed R c (xs @ ys) = routed R c xs @ (if unroutable R xs then [] else routed R c ys)"
  by (induction R c xs rule: routed.induct) (auto simp: unroutable_simps split: sum.splits)

lemma chan_conserves:
  "io_run (chan_step g R) s es = (s', os) \<Longrightarrow>
     delivered r c os @ c_chan s' r c =
     c_chan s r c @ (if c_down s \<or> c_closed s r then [] else routed R c (frames_of g r es))"
proof (induction es arbitrary: s os)
  case Nil
  then show ?case by simp
next
  case (Cons e es)
  obtain s1 o1 where h: "chan_step g R s e = (s1, o1)" by (cases "chan_step g R s e")
  with Cons.prems obtain o2 where t: "io_run (chan_step g R) s1 es = (s', o2)" "os = o1 @ o2"
    by (auto split: prod.splits)
  note ih = Cons.IH [OF t(1)]
  show ?case
  proof (cases e)
    case (Net x)
    show ?thesis
    proof (cases x)
      case (Frame q r' y)
      show ?thesis
        using ih h t(2) Net Frame
        by (cases "route R y") (auto simp: enqueue_def split: if_splits prod.splits)
    next
      case Garbage
      then show ?thesis using ih h t(2) Net by (auto split: if_splits)
    qed
  next
    case (Get r' c')
    show ?thesis
      using ih h t(2) Get by (cases "c_chan s r' c'") (auto split: if_splits)
  qed (use ih h t(2) in auto)
qed

lemma io_abs_init: "abs_io R io_init = chan_init"
  by (simp add: abs_io_def to_come_def io_init_def chan_init_def router_dead_def pending_def unroutable_def fun_eq_iff)

text \<open>Delivered, queued and still to be routed messages together are the messages that arrived.\<close>

lemma io_conserves:
  assumes "io_run (io_step g R) io_init es = (s, os)"
  shows "delivered r c os @ c_chan (abs_io R s) r c = routed R c (frames_of g r es)"
proof -
  from io.run_refines [of es g R io_init] assms obtain as where
    as: "filter is_net as = filter is_net es" "io_run (chan_step g R) chan_init as = (abs_io R s, os)"
    by (auto simp: io_abs_init)
  have "frames_of g r as = frames_of g r es"
    using frames_of_net [of g r as] frames_of_net [of g r es] as(1) by simp
  with chan_conserves [OF as(2), of r c] show ?thesis
    by (simp add: chan_init_def)
qed

lemma frames_of_append:
  "frames_of True r (es @ es') = frames_of True r es @ frames_of True r es'"
  by (induction True r es rule: frames_of.induct) auto

lemma delivered_closed:
  assumes "route R x = Inl e" and "io_run (io_step True R) io_init (es @ Net (Frame q r x) # es') = (s, os)"
  shows "\<exists>rest. routed R c (frames_of True r es) = delivered r c os @ rest"
proof -
  have "routed R c (frames_of True r (es @ Net (Frame q r x) # es')) = routed R c (frames_of True r es)"
    using assms(1) by (simp add: frames_of_append routed_append)
  with io_conserves [OF assms(2), of r c] show ?thesis by metis
qed

section \<open>The queues that exist\<close>

definition legal_channel :: "router \<Rightarrow> channel \<Rightarrow> bool" where
  "legal_channel R c \<longleftrightarrow>
     (case map_of (r_shapes R) (fst c) of
        None \<Rightarrow> False
      | Some Plain \<Rightarrow> snd c = []
      | Some (Row n) \<Rightarrow> (\<exists>k < n. snd c = [Num (int k)])
      | Some Table \<Rightarrow> (\<exists>j. snd c = [j])
      | Some (Grid n) \<Rightarrow> (\<exists>j. \<exists>k < n. snd c = [j, Num (int k)]))"

lemma row_index_Inr: "row_index n j = Inr k \<Longrightarrow> \<exists>i < n. k = Num (int i)"
  by (auto simp: row_index_def res_bind_Inr dest: py_index_in_set split: idx.splits)

lemma route_legal: "route_key R tag ix = Inr c \<Longrightarrow> legal_channel R c"
  by (auto simp: route_key_def legal_channel_def res_bind_Inr dest: row_index_Inr
      split: if_splits option.splits qshape.splits)

definition queues_ok :: "router \<Rightarrow> ('r, 'm) node_io \<Rightarrow> bool" where
  "queues_ok R s \<longleftrightarrow> (\<forall>r c. io_queue s r c \<noteq> [] \<longrightarrow> legal_channel R c)"

lemma io_run_invariant:
  assumes "P s" and "\<And>s e. P s \<Longrightarrow> P (fst (h s e))"
  shows "P (fst (io_run h s es))"
  using assms(1)
proof (induction es arbitrary: s)
  case (Cons e es)
  then have "P (fst (io_run h (fst (h s e)) es))" using assms(2) by blast
  then show ?case by (auto split: prod.splits)
qed simp

lemma queues_ok_step: "queues_ok R s \<Longrightarrow> queues_ok R (fst (io_step g R s e))"
proof (cases e)
  case (Route r)
  assume ok: "queues_ok R s"
  have "legal_channel R c" if "route R x = Inr (c, m)" for x c and m :: 'b
    using that by (cases x) (auto simp: res_bind_Inr dest: route_legal)
  with ok Route show ?thesis
    by (auto simp: queues_ok_def route_turn_def broadcast_receiver_def enqueue_def
        split: option.splits list.splits sum.splits prod.splits)
next
  case (Get r c)
  assume "queues_ok R s"
  with Get show ?thesis by (auto simp: queues_ok_def split: list.splits) (metis list.distinct(1))
next
  case (Net x)
  assume "queues_ok R s"
  with Net show ?thesis by (auto simp: queues_ok_def split: prod.splits)
qed (simp add: queues_ok_def)

section \<open>Properties\<close>

text \<open>
  C25: Per-round buffering and routing by tag together implement FIFO channels. Every run of the
  receive greenlet, the routers and the sub-protocols' reads, in any interleaving, matches a run of the
  channel specification with the same arrivals in the same order and the same outputs, up to steps that
  change nothing; the abstraction function maps the node's state to the channels' state.
\<close>

theorem pipeline_refines_channels:
  "\<exists>as. subseq as es \<and> filter is_net as = filter is_net es \<and>
     io_run (chan_step guarded R) chan_init as =
       (abs_io R (fst (io_run (io_step guarded R) io_init es)), snd (io_run (io_step guarded R) io_init es))"
  using io.run_refines [of es guarded R io_init] by (simp add: io_abs_init)

text \<open>
  What one channel has delivered is a prefix of what arrived for it, in the order of arrival: no
  message is duplicated, reordered, or handed to another sub-protocol or round, however the greenlets
  are scheduled and however early the message came.
\<close>

theorem pipeline_in_order:
  "\<exists>rest. routed R c (frames_of guarded r es) =
     delivered r c (snd (io_run (io_step guarded R) io_init es)) @ rest"
  using io_conserves [of guarded R es _ _ r c] by (metis prod.collapse)

text \<open>
  C27: One message with an unknown tag, a bad index or the wrong number of components, from any sender,
  ends the router of its round: whatever arrives for the round afterwards is never delivered to any
  sub-protocol, although the receive loop goes on.
\<close>

theorem router_poisoned:
  assumes "route R x = Inl e"
  shows "\<exists>rest. routed R c (frames_of True r es) =
     delivered r c (snd (io_run (io_step True R) io_init (es @ Net (Frame q r x) # es'))) @ rest"
  using delivered_closed [OF assms, of es q r es' _ _ c] by (metis prod.collapse)

text \<open>
  C26: Well-typed queues: in every reachable state a non-empty queue belongs to a tag of the router, and
  below the tag to one of the queues the module created for it: the plain queue, an entry of a list
  within its bounds (negative indices are resolved), or an entry of a dictionary.
\<close>

theorem queues_well_typed:
  "{c. io_queue (fst (io_run (io_step guarded R) io_init es)) r c \<noteq> []} \<subseteq> {c. legal_channel R c}"
proof -
  have "queues_ok R (fst (io_run (io_step guarded R) io_init es))"
    by (rule io_run_invariant [where P = "queues_ok R"])
      (simp add: queues_ok_def io_init_def, rule queues_ok_step)
  then show ?thesis unfolding queues_ok_def by blast
qed

definition ex_poison :: "(nat, nat) io_event list" where
  "ex_poison = [Net (Frame 2 0 (Packet ''BOOM'' [Num 0] 5))]"

definition ex_after :: "(nat, nat) io_event list" where
  "ex_after = [Net (Frame 1 0 (Packet ''TPKE'' [Str ''''] 7)), Begin 0, Route 0, Route 0, Get 0 (''TPKE'', [])]"

theorem router_poisoned_witness:
  "delivered 0 (''TPKE'', []) (snd (io_run (io_step True (dumbo_router 4)) io_init (ex_poison @ ex_after))) =
     ([] :: (nat \<times> nat) list)"
proof -
  have "route (dumbo_router 4) (Packet ''BOOM'' [Num 0] 5 :: nat packet) = Inl UnknownTagError"
    by (simp add: dumbo_router_def route_key_def)
  from router_poisoned [OF this, of "(''TPKE'', [])" 0 "[]" 2 ex_after] show ?thesis
    by (simp add: ex_poison_def)
qed

end
