(* ===== verification/MillerRabin.thy ===== *)
theory MillerRabin
  imports Prelude
begin

text \<open>
  The primality test \<open>is_probable_prime\<close> of \<open>src/crypto/threshsig/millerrabin.py\<close>. The loop that
  writes \<open>n - 1\<close> as \<open>2^s * d\<close> has no bound in the code, so it is a partial function whose value
  \<open>None\<close> stands for not returning. The bases the random source draws are an argument.
\<close>

section \<open>Model\<close>

partial_function (option) mr_split :: "nat \<Rightarrow> int \<Rightarrow> (nat \<times> int) option" where
  "mr_split s d = (if d mod 2 = 1 then Some (s, d) else mr_split (s + 1) (d div 2))"

declare mr_split.simps [code]

definition py_pow :: "int \<Rightarrow> int \<Rightarrow> int \<Rightarrow> int" where
  "py_pow a e n = a ^ nat e mod n"

definition try_composite :: "int \<Rightarrow> nat \<Rightarrow> int \<Rightarrow> int \<Rightarrow> bool" where
  "try_composite n s d a =
     (if py_pow a d n = 1 then False
      else if list_ex (\<lambda>i. py_pow a (2 ^ i * d) n = n - 1) [0..<s] then False
      else True)"

text \<open>Outside \<open>Some\<close> the function does not return; \<open>bases\<close> are the draws of \<open>randrange(2, n)\<close>.\<close>

definition is_probable_prime :: "int list \<Rightarrow> int \<Rightarrow> (py_error + bool) option" where
  "is_probable_prime bases n =
     (if n < 2 then Some (Inl AssertionError)
      else if n = 2 then Some (Inr True)
      else if n mod 2 = 0 then Some (Inr False)
      else case mr_split 0 (n - 1) of
        None \<Rightarrow> None
      | Some (s, d) \<Rightarrow>
          if 2 ^ s * d \<noteq> n - 1 then Some (Inl AssertionError)
          else Some (Inr (\<not> list_ex (try_composite n s d) bases)))"

text \<open>
  \<open>generateLargePrime\<close> makes at most \<open>100 * (log2 k + 1)\<close> attempts, each with a number drawn from
  \<open>[2^(k-1), 2^k)\<close> and the bases of its test; \<open>None\<close> inside the result is the failure string.
\<close>

fun generateLargePrime :: "(int \<times> int list) list \<Rightarrow> (py_error + int option) option" where
  "generateLargePrime [] = Some (Inr None)"
| "generateLargePrime ((n, bases) # rest) =
     (case is_probable_prime bases n of
        None \<Rightarrow> None
      | Some (Inl e) \<Rightarrow> Some (Inl e)
      | Some (Inr True) \<Rightarrow> Some (Inr (Some n))
      | Some (Inr False) \<Rightarrow> generateLargePrime rest)"

section \<open>The loop\<close>

lemma mr_split_total:
  "0 < d \<Longrightarrow> \<exists>s' d'. mr_split s d = Some (s', d') \<and> s \<le> s' \<and> d' mod 2 = 1 \<and> 0 < d' \<and> 2 ^ (s' - s) * d' = d"
proof (induction "nat d" arbitrary: s d rule: less_induct)
  case less
  show ?case
  proof (cases "d mod 2 = 1")
    case True
    then show ?thesis using less.prems by (simp add: mr_split.simps)
  next
    case False
    then have e: "d = 2 * (d div 2)" by presburger
    with less.prems have "0 < d div 2" "nat (d div 2) < nat d" by auto
    from less.hyps [OF this(2,1), of "s + 1"] obtain s' d' where
      r: "mr_split (s + 1) (d div 2) = Some (s', d')" "s + 1 \<le> s'" "d' mod 2 = 1" "0 < d'"
      "2 ^ (s' - (s + 1)) * d' = d div 2"
      by blast
    have "s' - s = Suc (s' - (s + 1))" using r(2) by simp
    then have "2 ^ (s' - s) * d' = d" using r(5) e by (simp add: mult.assoc)
    moreover have "mr_split s d = Some (s', d')" using False r(1) by (subst mr_split.simps) simp
    ultimately show ?thesis using r(2-4) by auto
  qed
qed

lemma probable_prime_cases:
  assumes "2 < n" and "n mod 2 = 1"
  obtains s d where "is_probable_prime bases n = Some (Inr (\<not> list_ex (try_composite n s d) bases))"
    and "2 ^ s * d = n - 1" and "0 < d" and "0 < s"
proof -
  obtain s d where r: "mr_split 0 (n - 1) = Some (s, d)" "d mod 2 = 1" "0 < d" "2 ^ s * d = n - 1"
    using mr_split_total [of "n - 1" 0] assms(1) by auto
  have "s \<noteq> 0"
  proof
    assume "s = 0"
    with r(2,4) have "(n - 1) mod 2 = 1" by simp
    with assms(2) show False by presburger
  qed
  with r assms show ?thesis
    by (intro that) (auto simp: is_probable_prime_def)
qed

section \<open>Fermat's theorem and square roots of one\<close>

definition prime_int :: "int \<Rightarrow> bool" where
  "prime_int p \<longleftrightarrow> 1 < p \<and> (\<forall>d. 0 < d \<and> d dvd p \<longrightarrow> d = 1 \<or> d = p)"

lemma prime_coprime:
  assumes "prime_int p" and "\<not> p dvd a"
  shows "coprime a p"
proof -
  have "gcd a p = 1 \<or> gcd a p = p"
    using assms(1) unfolding prime_int_def by (metis gcd_dvd2 gcd_pos_int less_numeral_extra(3) not_one_less_zero)
  moreover have "gcd a p \<noteq> p" using assms(2) by (metis gcd_dvd1)
  ultimately show ?thesis by (simp add: coprime_iff_gcd_eq_1)
qed

lemma prime_dvd_mult:
  assumes "prime_int p" and "p dvd a * b"
  shows "p dvd a \<or> p dvd b"
  using assms prime_coprime [OF assms(1)] coprime_dvd_mult_right_iff coprime_commute by blast

lemma prime_not_dvd_prod:
  assumes "prime_int p" and "finite A" and "\<And>x. x \<in> A \<Longrightarrow> \<not> p dvd x"
  shows "\<not> p dvd \<Prod>A"
  using assms(2,3)
proof (induction rule: finite_induct)
  case empty
  show ?case using assms(1) by (auto simp: prime_int_def)
next
  case (insert x A)
  then show ?case using prime_dvd_mult [OF assms(1)] by auto
qed

lemma small_not_dvd: "0 < (x::int) \<Longrightarrow> x < p \<Longrightarrow> \<not> p dvd x"
  using zdvd_not_zless by blast

lemma residues_permuted:
  assumes "prime_int p" and "\<not> p dvd a"
  shows "(\<lambda>x. a * x mod p) ` {0<..<p} = {0<..<p}" and "inj_on (\<lambda>x. a * x mod p) {0<..<p}"
proof -
  have p: "1 < p" using assms(1) by (simp add: prime_int_def)
  show inj: "inj_on (\<lambda>x. a * x mod p) {0<..<p}"
  proof (rule inj_onI)
    fix x y assume x: "x \<in> {0<..<p}" and y: "y \<in> {0<..<p}" and eq: "a * x mod p = a * y mod p"
    then have "p dvd a * (x - y)" by (simp add: mod_eq_dvd_iff right_diff_distrib)
    then have d: "p dvd x - y" using prime_dvd_mult [OF assms(1)] assms(2) by blast
    show "x = y"
    proof (rule ccontr)
      assume "x \<noteq> y"
      then have "0 < \<bar>x - y\<bar>" "\<bar>x - y\<bar> < p" using x y by auto
      then show False using d small_not_dvd [of "\<bar>x - y\<bar>" p] by simp
    qed
  qed
  have "(\<lambda>x. a * x mod p) ` {0<..<p} \<subseteq> {0<..<p}"
  proof (rule image_subsetI)
    fix x assume x: "x \<in> {0<..<p}"
    then have "\<not> p dvd a * x" using prime_dvd_mult [OF assms(1)] assms(2) small_not_dvd by auto
    then have "a * x mod p \<noteq> 0" by (simp add: dvd_eq_mod_eq_0)
    moreover have "0 \<le> a * x mod p" "a * x mod p < p" using p by simp_all
    ultimately show "a * x mod p \<in> {0<..<p}" by simp
  qed
  then show "(\<lambda>x. a * x mod p) ` {0<..<p} = {0<..<p}"
    by (rule endo_inj_surj [OF finite_greaterThanLessThan_int _ inj])
qed

lemma fermat:
  assumes "prime_int p" and "\<not> p dvd a"
  shows "a ^ nat (p - 1) mod p = 1"
proof -
  let ?A = "{0<..<p}"
  have p: "1 < p" using assms(1) by (simp add: prime_int_def)
  have "\<Prod>?A = (\<Prod>x \<in> ?A. a * x mod p)"
    using prod.reindex [OF residues_permuted(2) [OF assms], of id] residues_permuted(1) [OF assms]
    by (simp add: comp_def)
  then have "\<Prod>?A mod p = (\<Prod>x \<in> ?A. a * x) mod p"
    by (simp add: mod_prod_eq)
  also have "(\<Prod>x \<in> ?A. a * x) = a ^ nat (p - 1) * \<Prod>?A"
    by (simp add: prod.distrib)
  finally have "p dvd (a ^ nat (p - 1) - 1) * \<Prod>?A"
    by (simp add: mod_eq_dvd_iff algebra_simps dvd_diff_commute)
  moreover have "\<not> p dvd \<Prod>?A"
    by (rule prime_not_dvd_prod [OF assms(1)]) (auto simp: small_not_dvd)
  ultimately have "p dvd a ^ nat (p - 1) - 1"
    using prime_dvd_mult [OF assms(1)] by blast
  then have "a ^ nat (p - 1) mod p = 1 mod p" by (simp add: mod_eq_dvd_iff)
  then show ?thesis using p by simp
qed

lemma square_root_of_one:
  assumes "prime_int p" and "x * x mod p = 1"
  shows "x mod p = 1 \<or> x mod p = p - 1"
proof -
  have p: "1 < p" using assms(1) by (simp add: prime_int_def)
  have "x * x mod p = 1 mod p" using assms(2) p by simp
  then have "p dvd x * x - 1" by (simp only: mod_eq_dvd_iff)
  then have "p dvd (x - 1) * (x + 1)" by (simp add: algebra_simps)
  then have "p dvd x - 1 \<or> p dvd x + 1" by (rule prime_dvd_mult [OF assms(1)])
  then show ?thesis
  proof
    assume "p dvd x - 1"
    then have "x mod p = 1 mod p" by (simp add: mod_eq_dvd_iff)
    then show ?thesis using p by simp
  next
    assume "p dvd x + 1"
    then have "x mod p = (- 1) mod p" by (simp add: mod_eq_dvd_iff)
    then show ?thesis using p by (simp add: zmod_minus1)
  qed
qed

text \<open>If the \<open>s\<close>-th repeated square of \<open>x\<close> is one, then \<open>x\<close> is one or some square is minus one.\<close>

lemma repeated_squares:
  assumes "prime_int p"
  shows "x ^ (2 ^ s) mod p = 1 \<Longrightarrow> x mod p = 1 \<or> (\<exists>i < s. x ^ (2 ^ i) mod p = p - 1)"
proof (induction s)
  case 0
  then show ?case by simp
next
  case (Suc s)
  have "x ^ (2 ^ s) * x ^ (2 ^ s) mod p = 1"
    using Suc.prems by (simp add: power_add [symmetric] mult_2)
  from square_root_of_one [OF assms this] show ?case
    using Suc.IH less_Suc_eq by blast
qed

section \<open>What a base shows\<close>

lemma pow_split: "0 < d \<Longrightarrow> (a :: int) ^ nat (2 ^ i * d) = (a ^ nat d) ^ (2 ^ i)"
  by (simp add: nat_mult_distrib nat_power_eq power_mult [symmetric] mult.commute)

lemma prime_passes:
  assumes "prime_int n" and "0 < a" and "a < n" and "2 ^ s * d = n - 1" and "0 < d"
  shows "\<not> try_composite n s d a"
proof -
  have "\<not> n dvd a" using assms(2,3) by (rule small_not_dvd)
  then have "(a ^ nat d) ^ (2 ^ s) mod n = 1"
    using fermat [OF assms(1), of a] assms(4) pow_split [OF assms(5), of a s] by metis
  from repeated_squares [OF assms(1) this] show ?thesis
    by (auto simp: try_composite_def py_pow_def list_ex_iff pow_split [OF assms(5)])
qed

lemma one_pow_mod: "1 < n \<Longrightarrow> (x :: int) mod n = 1 \<Longrightarrow> x ^ k mod n = 1"
  by (metis mod_pos_pos_trivial power_mod power_one zero_le_one)

lemma minus_one_pow_mod: "1 < n \<Longrightarrow> (x :: int) mod n = n - 1 \<Longrightarrow> x ^ (2 ^ Suc k) mod n = 1"
proof -
  assume n: "1 < n" "x mod n = n - 1"
  have "n dvd (n - 1) * (n - 1) - 1" by (simp add: algebra_simps)
  then have "(n - 1) * (n - 1) mod n = 1 mod n" by (simp only: mod_eq_dvd_iff)
  moreover have "x * x mod n = (n - 1) * (n - 1) mod n" using n(2) by (metis mod_mult_eq)
  ultimately have "x\<^sup>2 mod n = 1" using n(1) by (simp add: power2_eq_square)
  then have "(x\<^sup>2) ^ (2 ^ k) mod n = 1" by (rule one_pow_mod [OF n(1)])
  then show ?thesis by (simp add: power_mult [symmetric])
qed

lemma passing_base:
  assumes "\<not> try_composite n s d a" and "2 < n" and "2 ^ s * d = n - 1" and "0 < d"
  shows "a ^ nat (n - 1) mod n = 1"
proof -
  have n: "1 < n" using assms(2) by simp
  have e: "a ^ nat (n - 1) = (a ^ nat d) ^ (2 ^ s)"
    using pow_split [OF assms(4), of a s] assms(3) by simp
  from assms(1) consider "a ^ nat d mod n = 1" | i where "i < s" "(a ^ nat d) ^ (2 ^ i) mod n = n - 1"
    by (auto simp: try_composite_def py_pow_def list_ex_iff pow_split [OF assms(4)] split: if_splits)
  then show ?thesis
  proof cases
    case 1
    then show ?thesis unfolding e by (rule one_pow_mod [OF n])
  next
    case 2
    then obtain k where "s = i + Suc k" using less_imp_Suc_add by auto
    then have "(a ^ nat d) ^ (2 ^ s) = ((a ^ nat d) ^ (2 ^ i)) ^ (2 ^ Suc k)"
      by (simp only: power_mult [symmetric] power_add mult.assoc)
    then show ?thesis unfolding e using minus_one_pow_mod [OF n 2(2)] by simp
  qed
qed

section \<open>Properties\<close>

text \<open>
  The test returns for every argument, although its loop has no bound: it raises exactly below 2,
  and otherwise gives a boolean. (The loop would not return for \<open>d = 0\<close>, which never reaches it.)
\<close>

theorem mr_returns:
  "\<exists>v. is_probable_prime bases n = Some v \<and> (v = Inl AssertionError) = (n < 2) \<and>
     (\<exists>b. v = Inr b) = (2 \<le> n)"
proof -
  consider "n < 2" | "n = 2" | "2 < n" "n mod 2 = 0" | "2 < n" "n mod 2 = 1" by linarith
  then show ?thesis
  proof cases
    case 4
    then show ?thesis by (rule probable_prime_cases [of n bases]) (use 4 in auto)
  qed (auto simp: is_probable_prime_def)
qed

text \<open>
  C28: The answer is right on the side it promises: \<open>False\<close> is returned for no prime, whatever bases the
  random source draws, and after \<open>True\<close> every drawn base satisfies Fermat's congruence (so a base
  that violates it exposes a composite number).
\<close>

theorem mr_correct:
  assumes "is_probable_prime bases n = Some (Inr v)" and "set bases \<subseteq> {0<..<n}"
  shows "if v then n = 2 \<or> filter (\<lambda>a. a ^ nat (n - 1) mod n \<noteq> 1) bases = [] else \<not> prime_int n"
proof -
  have "\<not> n < 2" using assms(1) by (auto simp: is_probable_prime_def)
  then consider "n = 2" | "2 < n" "n mod 2 = 0" | "2 < n" "n mod 2 = 1" by linarith
  then show ?thesis
  proof cases
    case 1
    then show ?thesis using assms(1) by (simp add: is_probable_prime_def)
  next
    case 2
    then have "\<not> v" using assms(1) by (simp add: is_probable_prime_def)
    moreover have "2 dvd n" using 2(2) by presburger
    ultimately show ?thesis using 2(1) by (auto simp: prime_int_def intro!: exI [of _ 2])
  next
    case 3
    from probable_prime_cases [OF this, of bases] obtain s d where
      r: "is_probable_prime bases n = Some (Inr (\<not> list_ex (try_composite n s d) bases))"
      "2 ^ s * d = n - 1" "0 < d" by metis
    show ?thesis
    proof (cases v)
      case True
      then have "\<not> try_composite n s d a" if "a \<in> set bases" for a
        using that assms(1) r(1) by (auto simp: list_ex_iff)
      then show ?thesis using True passing_base [OF _ 3(1) r(2,3)] by (simp add: filter_empty_conv)
    next
      case False
      then obtain a where "a \<in> set bases" "try_composite n s d a"
        using assms(1) r(1) by (auto simp: list_ex_iff)
      with False assms(2) prime_passes [of n a s d] r(2,3) show ?thesis by auto
    qed
  qed
qed

lemma ex_composite: "is_probable_prime [2, 4] 15 = Some (Inr False)"
proof -
  have "mr_split 0 14 = Some (1, 7)" by (simp add: mr_split.simps)
  then show ?thesis by (simp add: is_probable_prime_def try_composite_def py_pow_def)
qed

theorem mr_correct_witness: "\<not> prime_int 15"
  using mr_correct [OF ex_composite] by simp

end
