(* ===== verification/Round.thy ===== *)
theory Round
  imports HBBlock DumboACS "HOL-Library.Multiset"
begin

text \<open>
  One round of Dumbo and Speedy Dumbo, \<open>_run_round\<close> of \<open>src/dumbobft/core/dumbo.py\<close> and
  \<open>src/speedydumbobft/core/speedydumbo.py\<close>: the encrypted proposal goes into the own broadcast, the
  common subset gives the vector of ciphertexts, \<open>honeybadger_block\<close> decrypts it and the
  transactions of the batches form the block. The lemmas show that correct nodes build the same block,
  also from ciphertexts of faulty proposers.
\<close>

section \<open>Model\<close>

text \<open>
  \<open>uSK\<close> is the node's decryption key; \<open>uloads\<close> is \<open>json.loads(batch.decode())\<close>, an error also where the
  result is no list of hashable values, so that the loop that adds them raises; \<open>uord\<close> is the order in
  which the node's Python lists a set whose elements were added in the given order (it depends on the
  hash seed of the process); \<open>uacs\<close> is the greenlet of the common subset.
\<close>

record ('z, 'g, 't, 'a, 'e, 'q, 'x) round_env =
  uE :: "('z, 'g, 't) hb_env"
  uSK :: 'z
  uloads :: "bytes \<Rightarrow> py_error + 'x list"
  uord :: "'x list \<Rightarrow> 'x list"
  uacs :: "'a \<Rightarrow> 'e \<Rightarrow> ('a, 'q, bytes option list) reply"

text \<open>
  What a round reacts to: an event of the common subset, or shares in the queue \<open>tpke_recv\<close>. What it
  emits: an input of the vector agreement, or the broadcast of its own decryption shares.
\<close>

datatype 'e round_event = AcsEvent 'e | TpkeShares nat "bytes option list"

datatype 'q round_msg = VacsInput 'q | TpkeBcast "bytes option list"

record ('a, 'g) round_state =
  u_acs :: 'a
  u_vall :: "bytes option list option"
  u_queue :: "(nat \<times> bytes option list) list"
  u_received :: "(nat, 'g option list) odict"

definition round_init :: "'a \<Rightarrow> ('a, 'g) round_state" where
  "round_init a = \<lparr>u_acs = a, u_vall = None, u_queue = [], u_received = []\<rparr>"

text \<open>
  \<open>block = set(); for batch in _output: for tx in json.loads(batch.decode()): block.add(tx)\<close>, and then
  \<open>list(block)\<close>.
\<close>

definition round_block ::
    "('x list \<Rightarrow> 'x list) \<Rightarrow> (bytes \<Rightarrow> py_error + 'x list) \<Rightarrow> bytes list \<Rightarrow> py_error + 'x list" where
  "round_block ord loads outs = res_bind (res_map loads outs) (\<lambda>batches. Inr (ord (concat batches)))"

definition round_output ::
    "('x list \<Rightarrow> 'x list) \<Rightarrow> (bytes \<Rightarrow> py_error + 'x list) \<Rightarrow> bytes list ctl \<Rightarrow> 'x list ctl" where
  "round_output ord loads c =
     (case c of Running \<Rightarrow> Running | Raised e \<Rightarrow> Raised e | Returned outs \<Rightarrow> raise_or (round_block ord loads outs))"

text \<open>What is assumed of the order: it lists every element of the set once.\<close>

definition lists_set :: "('x list \<Rightarrow> 'x list) \<Rightarrow> bool" where
  "lists_set ord \<longleftrightarrow> (\<forall>xs. distinct (ord xs) \<and> set (ord xs) = set xs)"

lemma lists_set_mset: "lists_set ord \<Longrightarrow> lists_set ord' \<Longrightarrow> mset (ord xs) = mset (ord' xs)"
  unfolding lists_set_def by (metis set_eq_iff_mset_eq_distinct)

lemma lists_set_remdups: "lists_set remdups" "lists_set (\<lambda>xs. rev (remdups xs))"
  by (simp_all add: lists_set_def)

definition as_round_msg :: "'q out \<Rightarrow> 'q round_msg out" where
  "as_round_msg x = (case x of Send k m \<Rightarrow> Send k (VacsInput m))"

text \<open>The common subset has returned: broadcast the shares, then take what is already queued.\<close>

definition round_decrypt ::
    "('z::field, 'g, 't, 'a, 'e, 'q, 'x) round_env \<Rightarrow> ('a, 'g) round_state \<Rightarrow> bytes option list \<Rightarrow>
       (('a, 'g) round_state, 'q round_msg, 'x list) reply" where
  "round_decrypt U s vall =
     (case hb_shares (uE U) (uSK U) vall of
        Inl e \<Rightarrow> (s, [], Raised e)
      | Inr my \<Rightarrow>
          (case run_loop (hb_recv (uE U) vall) [] (u_queue s) of
             (r, _, c) \<Rightarrow> (s\<lparr>u_vall := Some vall, u_queue := [], u_received := r\<rparr>,
                           [Send (-1) (TpkeBcast my)], round_output (uord U) (uloads U) c)))"

fun run_round ::
    "('z::field, 'g, 't, 'a, 'e, 'q, 'x) round_env \<Rightarrow> ('a, 'g) round_state \<Rightarrow> 'e round_event \<Rightarrow>
       (('a, 'g) round_state, 'q round_msg, 'x list) reply" where
  "run_round U s (AcsEvent e) =
     (if u_vall s \<noteq> None then stay s
      else case uacs U (u_acs s) e of
        (a, outs, c) \<Rightarrow>
          (let s1 = s\<lparr>u_acs := a\<rparr>; ms = map as_round_msg outs in
            case c of
              Running \<Rightarrow> (s1, ms, Running)
            | Raised x \<Rightarrow> (s1, ms, Raised x)
            | Returned vall \<Rightarrow> (case round_decrypt U s1 vall of (s2, ms', c') \<Rightarrow> (s2, ms @ ms', c'))))"
| "run_round U s (TpkeShares j shares) =
     (case u_vall s of
        None \<Rightarrow> stay (s\<lparr>u_queue := u_queue s @ [(j, shares)]\<rparr>)
      | Some vall \<Rightarrow>
          (case hb_recv (uE U) vall (u_received s) (j, shares) of
             (r, _, c) \<Rightarrow> (s\<lparr>u_received := r\<rparr>, [], round_output (uord U) (uloads U) c)))"

text \<open>The input of the own broadcast: the encrypted \<open>json.dumps(tx_to_send)\<close>.\<close>

definition round_propose ::
    "('z, 'g, 't) hb_env \<Rightarrow> ('x list \<Rightarrow> bytes) \<Rightarrow> bytes \<Rightarrow> bytes \<Rightarrow> 'z \<Rightarrow> 'x list \<Rightarrow> py_error + bytes" where
  "round_propose E dumps key iv r txs = hb_propose E key iv r (dumps txs)"

definition dumbo_round ::
    "('z, 'g, 't) hb_env \<Rightarrow> 'z \<Rightarrow> (bytes \<Rightarrow> py_error + 'x list) \<Rightarrow> ('x list \<Rightarrow> 'x list) \<Rightarrow> nat \<Rightarrow>
       ('z, 'g, 't, (bytes, 'q) dacs_state, (bytes, 'q) dacs_event, 'q, 'x) round_env" where
  "dumbo_round E SK loads ord pid =
     \<lparr>uE = E, uSK = SK, uloads = loads, uord = ord, uacs = dumbocommonsubset (hN E) pid\<rparr>"

definition speedy_round ::
    "('z, 'g, 't) hb_env \<Rightarrow> 'z \<Rightarrow> (bytes \<Rightarrow> py_error + 'x list) \<Rightarrow> ('x list \<Rightarrow> 'x list) \<Rightarrow>
       ('z, 'g, 't, (bytes, 'q) dacs_state, (bytes, 'q) sacs_event, 'q, 'x) round_env" where
  "speedy_round E SK loads ord =
     \<lparr>uE = E, uSK = SK, uloads = loads, uord = ord, uacs = speedydumbocommonsubset (hN E)\<rparr>"

subsection \<open>The predicate of the vector agreement\<close>

text \<open>
  \<open>prbc_proofs\<close> maps the identifier of a broadcast to its proof; it is filled by the outputs of the own
  broadcasts and by accepted proofs. A proof of a known broadcast is compared with the known root, its
  signatures are not looked at.
\<close>

type_synonym ('s, 'h, 'g) proofs = "'s \<Rightarrow> ('s \<times> 'h \<times> 'g sigmas) option"

definition vacs_predicate ::
    "('k, 'd, 'g, 'x) pki_scheme \<Rightarrow> ('s \<times> 'h \<Rightarrow> 'd) \<Rightarrow> (nat \<Rightarrow> 's) \<Rightarrow> ('s, 'h, 'g) proofs \<Rightarrow> nat \<Rightarrow>
       's \<times> 'h \<times> 'g sigmas \<Rightarrow> ('s, 'h, 'g) proofs \<times> bool" where
  "vacs_predicate P hsh sid proofs j vj =
     (case proofs (sid j) of
        Some (_, roothash, _) \<Rightarrow>
          (case vj of (sid', roothash', _) \<Rightarrow> (proofs, sid j = sid' \<and> roothash = roothash'))
      | None \<Rightarrow>
          if prbc_validate P hsh (sid j) vj then (proofs(sid j \<mapsto> vj), True) else (proofs, False))"

definition wait_for_prbc_output ::
    "(nat \<Rightarrow> 's) \<Rightarrow> ('s, 'h, 'g) proofs \<Rightarrow> nat \<Rightarrow> 's \<times> 'h \<times> 'g sigmas \<Rightarrow> ('s, 'h, 'g) proofs" where
  "wait_for_prbc_output sid proofs j proof = proofs(sid j \<mapsto> proof)"

definition speedy_vacs_predicate ::
    "('k, 'd, 'g, 'x) pki_scheme \<Rightarrow> ('s \<times> 'h \<Rightarrow> 'd) \<Rightarrow> (nat \<Rightarrow> 's) \<Rightarrow> ('s, 'h, 'g) proofs \<Rightarrow> nat \<Rightarrow>
       's \<times> 'h \<times> 'g sigmas \<Rightarrow> ('s, 'h, 'g) proofs \<times> bool" where
  "speedy_vacs_predicate P hsh sid proofs j vj =
     (case proofs (sid j) of
        Some (_, digest, _) \<Rightarrow>
          (case vj of (sid', digest', _) \<Rightarrow> (proofs, sid j = sid' \<and> digest = digest'))
      | None \<Rightarrow>
          if pb_validate P hsh (sid j) vj then (proofs(sid j \<mapsto> vj), True) else (proofs, False))"

section \<open>Decryption does not depend on the shares chosen\<close>

text \<open>
  Any \<open>k\<close> verified shares of a ciphertext combine to the same key, whoever made the ciphertext: the
  verification equation determines each share.
\<close>

lemma combine_any:
  fixes E :: "('z::field, 'g, 't) tpke_env"
  assumes ok: "tpke_ok E" and inj: "inj_on (point :: nat \<Rightarrow> 'z) {..<l}"
    and d: "tpke_dealer E l k secret rnd = Inr (PK, SKs)"
    and sh: "distinct (map fst shares)" "length shares = k"
    and r: "tpke_combine_shares E PK U V W shares = Inr m"
  shows "xor_bytes (eHashG E (gexp (eP E) U secret)) V = Inr m"
proof -
  let ?a = "tpke_coeffs k secret rnd"
  have d': "dealer (eP E) l k ?a = Inr (PK, SKs)" using d tpke_dealer_eq [OF ok] by metis
  obtain us where us: "res_map (\<lambda>(j, share). tpke_verify_share E PK j share U) shares = Inr us"
    and c: "res_bind (combine_shares (eP E) PK shares) (\<lambda>x. xor_bytes (eHashG E x) V) = Inr m"
    using r unfolding tpke_combine_shares_def combine_shares_def tpke_lagrange_eq
    by (auto simp: res_bind_def split: sum.splits if_splits)
  have "\<forall>(i, share) \<in> set shares. verify_share (eP E) PK share i U = Inr True"
  proof (clarify)
    fix i share assume m: "(i, share) \<in> set shares"
    then obtain n where n: "n < length shares" "shares ! n = (i, share)" by (auto simp: in_set_conv_nth)
    with res_map_nth [OF us] have "tpke_verify_share E PK i share U = Inr (us ! n)" by force
    then have "tpke_verify_share E PK i share U = Inr True"
      by (auto simp: tpke_verify_share_def res_bind_Inr split: if_splits)
    then show "verify_share (eP E) PK share i U = Inr True" by (simp add: tpke_verify_share_eq)
  qed
  from threshold_signature_aux [OF tpke_okD(1) [OF ok] inj d' sh this]
  have "combine_shares (eP E) PK shares = Inr (gexp (eP E) U secret)"
    by (simp add: tsign_def coeffs_secret)
  with c show ?thesis by simp
qed

text \<open>The keys of the threshold encryption come from a dealer.\<close>

definition hb_dealt :: "('z::field, 'g, 't) hb_env \<Rightarrow> bool" where
  "hb_dealt E \<longleftrightarrow> tpke_ok (hE E) \<and> inj_on (point :: nat \<Rightarrow> 'z) {..<hN E} \<and>
     (\<exists>secret rnd SKs. tpke_dealer (hE E) (hN E) (hf E + 1) secret rnd = Inr (hPK E, SKs))"

lemma hb_checked_keys: "res_map (hb_checked E U) xs = Inr ys \<Longrightarrow> map fst ys = map fst xs"
  by (induction xs arbitrary: ys) (auto simp: res_bind_Inr hb_checked_def split: option.splits)

lemma hb_share_keys: "res_map (hb_share_at i) xs = Inr ys \<Longrightarrow> map fst ys = map fst xs"
  by (induction xs arbitrary: ys) (auto simp: res_bind_Inr hb_share_at_def)

lemma hb_plain_result:
  fixes E :: "('z::field, 'g, 't) hb_env"
  assumes d: "tpke_ok (hE E)" "inj_on (point :: nat \<Rightarrow> 'z) {..<hN E}"
      "tpke_dealer (hE E) (hN E) (hf E + 1) secret rnd = Inr (hPK E, SKs)"
    and r: "distinct (map fst received)" "length received = hf E + 1"
    and p: "hb_plain E received i v = Inr x"
  shows "\<exists>U V W ciph key. hb_load E v = Inr ((U, V, W), ciph) \<and>
    xor_bytes (eHashG (hE E) (gexp (eP (hE E)) U secret)) V = Inr key \<and> aes_decrypt (hE E) key ciph = Inr x"
proof -
  from p obtain svec U V W ciph shares key where
    s: "res_map (hb_share_at i) received = Inr svec" "hb_load E v = Inr ((U, V, W), ciph)"
      "res_map (hb_checked E U) svec = Inr shares"
      "tpke_combine_shares (hE E) (hPK E) U V W shares = Inr key" "aes_decrypt (hE E) key ciph = Inr x"
    by (auto simp: hb_plain_def res_bind_Inr split: if_splits)
  have k: "map fst shares = map fst received"
    using hb_checked_keys [OF s(3)] hb_share_keys [OF s(1)] by simp
  then have "length shares = hf E + 1" using r(2) by (metis length_map)
  from combine_any [OF d _ this s(4)] k r(1) s(2,5) show ?thesis by auto
qed

lemma hb_plain_unique:
  assumes "hb_dealt E"
    and "distinct (map fst r1)" and "length r1 = hf E + 1" and "hb_plain E r1 i v = Inr x"
    and "distinct (map fst r2)" and "length r2 = hf E + 1" and "hb_plain E r2 i v = Inr y"
  shows "x = y"
proof -
  from assms(1) obtain secret rnd SKs where d: "tpke_ok (hE E)" "inj_on (point :: nat \<Rightarrow> 'a) {..<hN E}"
    "tpke_dealer (hE E) (hN E) (hf E + 1) secret rnd = Inr (hPK E, SKs)"
    unfolding hb_dealt_def by blast
  from hb_plain_result [OF d assms(2-4)] hb_plain_result [OF d assms(5-7)] show ?thesis by auto
qed

lemma res_map_unique:
  assumes "res_map f xs = Inr ys" and "res_map g xs = Inr zs"
    and "\<And>x y z. x \<in> set xs \<Longrightarrow> f x = Inr y \<Longrightarrow> g x = Inr z \<Longrightarrow> y = z"
  shows "ys = zs"
  using assms
proof (induction xs arbitrary: ys zs)
  case (Cons x xs)
  then obtain y ys' z zs' where p: "f x = Inr y" "res_map f xs = Inr ys'" "ys = y # ys'"
    "g x = Inr z" "res_map g xs = Inr zs'" "zs = z # zs'"
    by (auto simp: res_bind_Inr)
  from Cons.prems(3) [of x y z] p(1,4) have "y = z" by simp
  moreover have "ys' = zs'" using Cons.IH [OF p(2,5)] Cons.prems(3) by (meson list.set_intros(2))
  ultimately show ?case using p(3,6) by simp
qed simp

lemma hb_decrypt_unique:
  assumes "hb_dealt E"
    and "distinct (map fst r1)" and "length r1 = hf E + 1" and "hb_decrypt E vall r1 = Inr xs"
    and "distinct (map fst r2)" and "length r2 = hf E + 1" and "hb_decrypt E vall r2 = Inr ys"
  shows "xs = ys"
  by (rule res_map_unique [OF assms(4,7) [unfolded hb_decrypt_def]])
    (auto dest: hb_plain_unique [OF assms(1-3) _ assms(5,6)])

section \<open>What a round returns\<close>

definition collected :: "('z::field, 'g, 't) hb_env \<Rightarrow> bytes option list \<Rightarrow> bytes list \<Rightarrow> bool" where
  "collected E vall outs \<longleftrightarrow>
     (\<exists>r. distinct (map fst r) \<and> length r = hf E + 1 \<and> hb_decrypt E vall r = Inr outs)"

lemma collected_unique: "hb_dealt E \<Longrightarrow> collected E vall xs \<Longrightarrow> collected E vall ys \<Longrightarrow> xs = ys"
  unfolding collected_def using hb_decrypt_unique by blast

definition collecting :: "('z, 'g, 't) hb_env \<Rightarrow> (nat, 'g option list) odict \<Rightarrow> bool" where
  "collecting E r \<longleftrightarrow> distinct (map fst r) \<and> length r < hf E + 1"

lemma hb_recv_cases:
  assumes "collecting E r" and "hb_recv E vall r e = (r', os, c)"
  shows "c = Running \<Longrightarrow> collecting E r'" and "c = Returned outs \<Longrightarrow> collected E vall outs"
proof -
  obtain j raw where e: "e = (j, raw)" by (cases e)
  show "c = Running \<Longrightarrow> collecting E r'"
    using assms e od_set_distinct [of r j]
    by (auto simp: hb_recv_def collecting_def Let_def raise_or_def split: sum.splits if_splits)
  show "collected E vall outs" if "c = Returned outs"
  proof -
    from assms that e obtain shares where s: "j \<notin> fst ` set r" "r' = od_set j shares r"
      "\<not> length r' < hf E + 1" "hb_decrypt E vall r' = Inr outs"
      by (auto simp: hb_recv_def Let_def raise_or_def split: sum.splits if_splits)
    moreover have "distinct (map fst r')" "length r' \<le> hf E + 1"
      using assms(1) s(1,2) od_set_distinct [of r j shares] od_set_length [of j shares r]
      by (auto simp: collecting_def)
    ultimately show ?thesis unfolding collected_def by (intro exI [of _ r']) simp
  qed
qed

lemma hb_run_cases:
  "collecting E r \<Longrightarrow> run_loop (hb_recv E vall) r es = (r', os, c) \<Longrightarrow>
     (c = Running \<longrightarrow> collecting E r') \<and> (\<forall>outs. c = Returned outs \<longrightarrow> collected E vall outs)"
proof (induction es arbitrary: r os)
  case Nil
  then show ?case by auto
next
  case (Cons e es)
  obtain r1 o1 c1 where h: "hb_recv E vall r e = (r1, o1, c1)" by (cases "hb_recv E vall r e")
  show ?case
  proof (cases c1)
    case Running
    then obtain o2 where "run_loop (hb_recv E vall) r1 es = (r', o2, c)"
      using Cons.prems(2) h by (auto split: prod.splits)
    with Cons.IH [of r1] hb_recv_cases(1) [OF Cons.prems(1) h Running] show ?thesis by blast
  next
    case (Returned w)
    then show ?thesis using Cons.prems(2) h hb_recv_cases(2) [OF Cons.prems(1) h] by auto
  next
    case (Raised x)
    then show ?thesis using Cons.prems(2) h by auto
  qed
qed

fun acs_events :: "'e round_event list \<Rightarrow> 'e list" where
  "acs_events [] = []"
| "acs_events (AcsEvent e # es) = e # acs_events es"
| "acs_events (TpkeShares j x # es) = acs_events es"

definition round_ok :: "('z, 'g, 't, 'a, 'e, 'q, 'x) round_env \<Rightarrow> ('a, 'g) round_state \<Rightarrow> bool" where
  "round_ok U s \<longleftrightarrow> (u_vall s = None \<or> collecting (uE U) (u_received s))"

text \<open>\<open>built U vall B\<close>: the block \<open>B\<close> was decrypted from the vector \<open>vall\<close>.\<close>

definition built :: "('z::field, 'g, 't, 'a, 'e, 'q, 'x) round_env \<Rightarrow> bytes option list \<Rightarrow> 'x list \<Rightarrow> bool" where
  "built U vall B \<longleftrightarrow> (\<exists>outs. collected (uE U) vall outs \<and> round_block (uord U) (uloads U) outs = Inr B)"

lemma round_output_returned:
  "round_output ord loads c = Returned B \<longleftrightarrow> (\<exists>outs. c = Returned outs \<and> round_block ord loads outs = Inr B)"
  by (auto simp: round_output_def raise_or_def split: ctl.splits sum.splits)

lemma round_output_running: "round_output ord loads c = Running \<longleftrightarrow> c = Running"
  by (auto simp: round_output_def raise_or_def split: ctl.splits sum.splits)

lemma round_decrypt_cases:
  assumes "round_decrypt U s vall = (s', os, c)"
  shows "c = Running \<Longrightarrow> u_vall s' = Some vall \<and> round_ok U s'" and "c = Returned B \<Longrightarrow> built U vall B"
proof -
  have ini: "collecting (uE U) []" by (simp add: collecting_def)
  obtain r o1 c1 where h: "run_loop (hb_recv (uE U) vall) [] (u_queue s) = (r, o1, c1)"
    by (cases "run_loop (hb_recv (uE U) vall) [] (u_queue s)")
  note k = hb_run_cases [OF ini h]
  show "c = Running \<Longrightarrow> u_vall s' = Some vall \<and> round_ok U s'"
    using assms h k by (auto simp: round_decrypt_def round_ok_def round_output_running split: sum.splits)
  show "c = Returned B \<Longrightarrow> built U vall B"
    using assms h k by (auto simp: round_decrypt_def built_def round_output_returned split: sum.splits)
qed

text \<open>One event: either the common subset is still running, or its vector is known from now on.\<close>

lemma round_step_cases:
  assumes "round_ok U s" and "run_round U s e = (s1, o1, c)"
  shows "c = Running \<Longrightarrow> round_ok U s1"
    and "u_vall s = Some vall \<Longrightarrow> c = Running \<Longrightarrow> u_vall s1 = Some vall"
    and "u_vall s = Some vall \<Longrightarrow> c = Returned B \<Longrightarrow> built U vall B"
    and "u_vall s = None \<Longrightarrow> e = TpkeShares j x \<Longrightarrow> c = Running \<and> u_vall s1 = None \<and> u_acs s1 = u_acs s"
    and "u_vall s = None \<Longrightarrow> e = AcsEvent ev \<Longrightarrow> uacs U (u_acs s) ev = (a, ao, Running) \<Longrightarrow>
      c = Running \<and> u_vall s1 = None \<and> u_acs s1 = a"
    and "u_vall s = None \<Longrightarrow> e = AcsEvent ev \<Longrightarrow> uacs U (u_acs s) ev = (a, ao, Returned vall) \<Longrightarrow>
      (c = Running \<longrightarrow> u_vall s1 = Some vall) \<and> (\<forall>B. c = Returned B \<longrightarrow> built U vall B)"
    and "u_vall s = None \<Longrightarrow> e = AcsEvent ev \<Longrightarrow> uacs U (u_acs s) ev = (a, ao, Raised x') \<Longrightarrow> c = Raised x'"
proof -
  show "u_vall s = None \<Longrightarrow> e = TpkeShares j x \<Longrightarrow> c = Running \<and> u_vall s1 = None \<and> u_acs s1 = u_acs s"
    using assms(2) by auto
  show "u_vall s = None \<Longrightarrow> e = AcsEvent ev \<Longrightarrow> uacs U (u_acs s) ev = (a, ao, Running) \<Longrightarrow>
      c = Running \<and> u_vall s1 = None \<and> u_acs s1 = a"
    using assms(2) by auto
  show "u_vall s = None \<Longrightarrow> e = AcsEvent ev \<Longrightarrow> uacs U (u_acs s) ev = (a, ao, Raised x') \<Longrightarrow> c = Raised x'"
    using assms(2) by auto
  have acs: "(c = Running \<longrightarrow> u_vall s1 = Some vall \<and> round_ok U s1) \<and> (\<forall>B. c = Returned B \<longrightarrow> built U vall B)"
    if "u_vall s = None" "e = AcsEvent ev" "uacs U (u_acs s) ev = (a, ao, Returned vall)" for ev a ao vall
  proof -
    obtain s2 ms' c' where d: "round_decrypt U (s\<lparr>u_acs := a\<rparr>) vall = (s2, ms', c')"
      by (cases "round_decrypt U (s\<lparr>u_acs := a\<rparr>) vall")
    then have "s1 = s2" "c = c'" using assms(2) that by (auto simp: Let_def)
    then show ?thesis using round_decrypt_cases [OF d] by blast
  qed
  then show "(c = Running \<longrightarrow> u_vall s1 = Some vall) \<and> (\<forall>B. c = Returned B \<longrightarrow> built U vall B)"
    if "u_vall s = None" "e = AcsEvent ev" "uacs U (u_acs s) ev = (a, ao, Returned vall)" for ev a ao vall
    using that by blast
  show vall: "built U vall B" if "u_vall s = Some vall" "c = Returned B"
  proof (cases e)
    case (TpkeShares j x)
    obtain r ro rc where h: "hb_recv (uE U) vall (u_received s) (j, x) = (r, ro, rc)"
      by (cases "hb_recv (uE U) vall (u_received s) (j, x)")
    have "collecting (uE U) (u_received s)" using assms(1) that(1) by (simp add: round_ok_def)
    from hb_recv_cases(2) [OF this h] show ?thesis
      using assms(2) that TpkeShares h by (auto simp: built_def round_output_returned)
  next
    case (AcsEvent ev)
    then show ?thesis using assms(2) that by simp
  qed
  show "u_vall s = Some vall \<Longrightarrow> c = Running \<Longrightarrow> u_vall s1 = Some vall"
    using assms(2) by (cases e) (auto split: prod.splits)
  show "round_ok U s1" if "c = Running"
  proof (cases "u_vall s")
    case None
    show ?thesis
    proof (cases e)
      case (AcsEvent ev)
      obtain a ao ac where ha: "uacs U (u_acs s) ev = (a, ao, ac)" by (cases "uacs U (u_acs s) ev")
      show ?thesis
      proof (cases ac)
        case (Returned vall)
        then show ?thesis using acs [OF None AcsEvent] ha that by blast
      qed (use assms(2) that None AcsEvent ha in \<open>auto simp: round_ok_def\<close>)
    next
      case (TpkeShares j x)
      then show ?thesis using assms(2) None by (auto simp: round_ok_def)
    qed
  next
    case (Some vall)
    show ?thesis
    proof (cases e)
      case (TpkeShares j x)
      obtain r ro rc where h: "hb_recv (uE U) vall (u_received s) (j, x) = (r, ro, rc)"
        by (cases "hb_recv (uE U) vall (u_received s) (j, x)")
      have "collecting (uE U) (u_received s)" using assms(1) Some by (simp add: round_ok_def)
      from hb_recv_cases(1) [OF this h] show ?thesis
        using assms(2) that Some TpkeShares h by (auto simp: round_ok_def round_output_running)
    next
      case (AcsEvent ev)
      then show ?thesis using assms that Some by (auto simp: round_ok_def)
    qed
  qed
qed

lemma round_built:
  "round_ok U s \<Longrightarrow> run_loop (run_round U) s es = (s', os, Returned B) \<Longrightarrow>
    \<exists>vall. built U vall B \<and>
      (if u_vall s = None then ctl_of (run_loop (uacs U) (u_acs s) (acs_events es)) = Returned vall
       else u_vall s = Some vall)"
proof (induction es arbitrary: s os)
  case Nil
  then show ?case by simp
next
  case (Cons e es)
  obtain s1 o1 c1 where h: "run_round U s e = (s1, o1, c1)" by (cases "run_round U s e")
  note step = round_step_cases [OF Cons.prems(1) h]
  have c: "c1 = Returned B \<or> c1 = Running \<and> (\<exists>o2. run_loop (run_round U) s1 es = (s', o2, Returned B))"
    using Cons.prems(2) h by (auto split: ctl.splits prod.splits)
  have ih: "c1 = Running \<Longrightarrow> \<exists>vall. built U vall B \<and>
      (if u_vall s1 = None then ctl_of (run_loop (uacs U) (u_acs s1) (acs_events es)) = Returned vall
       else u_vall s1 = Some vall)"
    using c Cons.IH step(1) by blast
  show ?case
  proof (cases "u_vall s")
    case (Some vall)
    then show ?thesis using c ih step(2,3) by (metis option.distinct(1) option.inject)
  next
    case None
    show ?thesis
    proof (cases e)
      case (TpkeShares j x)
      from step(4) [OF None TpkeShares] ih show ?thesis using None TpkeShares by simp
    next
      case (AcsEvent ev)
      obtain a ao ac where ha: "uacs U (u_acs s) ev = (a, ao, ac)" by (cases "uacs U (u_acs s) ev")
      show ?thesis
      proof (cases ac)
        case Running
        with step(5) [OF None AcsEvent] ha ih show ?thesis
          using None AcsEvent by (auto split: prod.splits)
      next
        case (Returned vall)
        with step(6) [OF None AcsEvent] ha have r: "c1 = Running \<longrightarrow> u_vall s1 = Some vall"
          "\<forall>B. c1 = Returned B \<longrightarrow> built U vall B" by auto
        then have "built U vall B" using c ih by fastforce
        then show ?thesis using None AcsEvent ha Returned by auto
      next
        case (Raised x)
        with step(7) [OF None AcsEvent] ha c show ?thesis by simp
      qed
    qed
  qed
qed

text \<open>
  Two nodes whose common subsets return one vector build one block, up to the order in which each lists
  it.
\<close>

lemma round_agreement:
  assumes "hb_dealt E" and "uE U = E" and "uE U' = E" and "uloads U = uloads U'"
    and ord: "lists_set (uord U)" "lists_set (uord U')"
    and run: "run_loop (run_round U) (round_init a) es = (s, os, Returned B)"
      "run_loop (run_round U') (round_init a') es' = (s', os', Returned B')"
    and same: "\<And>v v'. ctl_of (run_loop (uacs U) a (acs_events es)) = Returned v \<Longrightarrow>
      ctl_of (run_loop (uacs U') a' (acs_events es')) = Returned v' \<Longrightarrow> v = v'"
  shows "mset B = mset B'"
proof -
  have ini: "round_ok U (round_init a)" "round_ok U' (round_init a')"
    by (simp_all add: round_ok_def round_init_def)
  from round_built [OF ini(1) run(1)] obtain v where
    v: "built U v B" "ctl_of (run_loop (uacs U) a (acs_events es)) = Returned v"
    by (auto simp: round_init_def)
  from round_built [OF ini(2) run(2)] obtain v' where
    v': "built U' v' B'" "ctl_of (run_loop (uacs U') a' (acs_events es')) = Returned v'"
    by (auto simp: round_init_def)
  have "v = v'" using same v(2) v'(2) by blast
  with v(1) v'(1) obtain outs where
    "round_block (uord U) (uloads U) outs = Inr B" "round_block (uord U') (uloads U) outs = Inr B'"
    using collected_unique [OF assms(1)] assms(2-4) unfolding built_def by metis
  then obtain xs where "B = uord U xs" "B' = uord U' xs"
    by (auto simp: round_block_def res_bind_Inr)
  then show ?thesis using lists_set_mset [OF ord] by simp
qed

section \<open>The predicate is stable\<close>

text \<open>
  The calls of one round: proofs put in by the own broadcasts, and questions of the vector agreement.
\<close>

datatype ('s, 'h, 'g) proof_event = OwnProof nat "'s \<times> 'h \<times> 'g sigmas" | Ask nat "'s \<times> 'h \<times> 'g sigmas"

fun proof_step :: "('k, 'd, 'g, 'x) pki_scheme \<Rightarrow> ('s \<times> 'h \<Rightarrow> 'd) \<Rightarrow> (nat \<Rightarrow> 's) \<Rightarrow> ('s, 'h, 'g) proofs \<Rightarrow>
    ('s, 'h, 'g) proof_event \<Rightarrow> ('s, 'h, 'g) proofs" where
  "proof_step P hsh sid proofs (OwnProof j q) = wait_for_prbc_output sid proofs j q"
| "proof_step P hsh sid proofs (Ask j q) = fst (vacs_predicate P hsh sid proofs j q)"

text \<open>An own proof is for the root the node already holds for that broadcast, if it holds one.\<close>

fun own_consistent :: "(nat \<Rightarrow> 's) \<Rightarrow> (nat \<Rightarrow> 'h) \<Rightarrow> ('s, 'h, 'g) proof_event \<Rightarrow> bool" where
  "own_consistent sid rt (OwnProof j q) = (fst q = sid j \<and> fst (snd q) = rt j)"
| "own_consistent sid rt (Ask j q) = True"

definition accepted_as :: "('s, 'h, 'g) proofs \<Rightarrow> 's \<Rightarrow> 'h \<Rightarrow> bool" where
  "accepted_as proofs i r \<longleftrightarrow> (\<exists>q. proofs i = Some q \<and> fst (snd q) = r)"

lemma accepted_step:
  assumes "accepted_as proofs (sid j) (rt j)" and "inj sid" and "own_consistent sid rt e"
  shows "accepted_as (proof_step P hsh sid proofs e) (sid j) (rt j)"
  using assms
  by (cases e) (auto simp: accepted_as_def vacs_predicate_def wait_for_prbc_output_def inj_eq
      split: option.splits prod.splits)

lemma accepted_run:
  "accepted_as proofs (sid j) (rt j) \<Longrightarrow> inj sid \<Longrightarrow> list_all (own_consistent sid rt) es \<Longrightarrow>
    accepted_as (foldl (proof_step P hsh sid) proofs es) (sid j) (rt j)"
  by (induction es arbitrary: proofs) (auto intro: accepted_step)

lemma predicate_accepts:
  assumes "vacs_predicate P hsh sid proofs j q = (proofs', True)"
  shows "fst q = sid j" and "accepted_as proofs' (sid j) (fst (snd q))"
  using assms
  by (auto simp: vacs_predicate_def accepted_as_def prbc_validate_def split: option.splits prod.splits if_splits)

lemma accepted_predicate:
  "accepted_as proofs (sid j) (fst (snd q)) \<Longrightarrow> fst q = sid j \<Longrightarrow> snd (vacs_predicate P hsh sid proofs j q)"
  by (auto simp: accepted_as_def vacs_predicate_def split: prod.splits)

lemma dumbo_round_agreement_aux:
  assumes "hb_dealt E"
    and ord: "lists_set ord" "lists_set ord'"
    and acs: "\<forall>j < hN E. prbc_instance (rc j) (rs j) \<and> p \<notin> fst (snd (rc j)) \<and> p' \<notin> fst (snd (rc j))"
      "from_prbc rs p (acs_events es)" "from_prbc rs p' (acs_events es')"
      "(\<Union>e \<in> set (acs_events es) \<union> set (acs_events es'). dacs_vectors e) \<subseteq> {Some vec}"
    and run: "ctl_of (run_loop (run_round (dumbo_round E SK loads ord p)) (round_init (dacs_init (hN E))) es) = Returned B"
      "ctl_of (run_loop (run_round (dumbo_round E SK' loads ord' p')) (round_init (dacs_init (hN E))) es') = Returned B'"
  shows "mset B = mset B'"
proof -
  obtain s os where r: "run_loop (run_round (dumbo_round E SK loads ord p)) (round_init (dacs_init (hN E))) es = (s, os, Returned B)"
    using run(1) by (metis prod.collapse)
  obtain s' os' where r': "run_loop (run_round (dumbo_round E SK' loads ord' p')) (round_init (dacs_init (hN E))) es' = (s', os', Returned B')"
    using run(2) by (metis prod.collapse)
  show ?thesis
  proof (rule round_agreement [OF assms(1) _ _ _ _ _ r r'])
    fix v v'
    assume "ctl_of (run_loop (uacs (dumbo_round E SK loads ord p)) (dacs_init (hN E)) (acs_events es)) = Returned v"
      "ctl_of (run_loop (uacs (dumbo_round E SK' loads ord' p')) (dacs_init (hN E)) (acs_events es')) = Returned v'"
    then show "v = v'"
      using dumbo_acs_agreement_aux [OF acs] by (simp add: dumbo_round_def)
  qed (simp_all add: dumbo_round_def ord)
qed

section \<open>Properties\<close>

text \<open>
  Agreement on the block of a Dumbo round. Two correct nodes get the vector of proofs from one
  vector agreement and the ciphertexts from runs of \<open>provablereliablebroadcast\<close> with at most \<open>f\<close> Byzantine
  nodes; whatever shares they collect and in whatever order, and whoever made the ciphertexts, if both
  rounds return then both blocks hold the same transactions, once each.
\<close>

theorem dumbo_round_agreement:
  assumes "hb_dealt E"
    and "lists_set ord" and "lists_set ord'"
    and "\<forall>j < hN E. prbc_instance (rc j) (rs j) \<and> p \<notin> fst (snd (rc j)) \<and> p' \<notin> fst (snd (rc j))"
    and "from_prbc rs p (acs_events es)" and "from_prbc rs p' (acs_events es')"
    and "(\<Union>e \<in> set (acs_events es) \<union> set (acs_events es'). dacs_vectors e) \<subseteq> {Some vec}"
    and "ctl_of (run_loop (run_round (dumbo_round E SK loads ord p)) (round_init (dacs_init (hN E))) es) = Returned B"
    and "ctl_of (run_loop (run_round (dumbo_round E SK' loads ord' p')) (round_init (dacs_init (hN E))) es') = Returned B'"
  shows "mset B = mset B'"
  using assms by (rule dumbo_round_agreement_aux)

text \<open>
  The predicate of the vector agreement does not change its mind. Once \<open>vacs_predicate\<close> has accepted
  a proof for a broadcast, it accepts every proof for the same broadcast and root ever after, whatever
  is asked and whichever own broadcasts end in between, provided these end with that root (which is
  the agreement of the broadcast).
\<close>

theorem vacs_predicate_stable:
  assumes "inj sid" and "vacs_predicate P hsh sid proofs j q = (proofs', True)"
    and "list_all (own_consistent sid rt) es" and "rt j = fst (snd q)"
    and "fst q' = fst q" and "fst (snd q') = fst (snd q)"
  shows "snd (vacs_predicate P hsh sid (foldl (proof_step P hsh sid) proofs' es) j q')"
  using predicate_accepts [OF assms(2)] assms(4-6) accepted_run [OF _ assms(1,3), of proofs' j P hsh]
  by (intro accepted_predicate) simp_all

section \<open>Witnesses\<close>

definition ex_one_signer_proof :: "nat \<times> bytes \<times> (nat \<times> bytes \<times> nat) sigmas" where
  "ex_one_signer_proof = (9, [7], map (\<lambda>i. (int i, i, [9, 7], 0)) [0, 1, 2])"

theorem vacs_predicate_stable_witness:
  "snd (vacs_predicate ex_pki ex_pair_hash id
     (foldl (proof_step ex_pki ex_pair_hash id) [9 \<mapsto> ex_one_signer_proof] [Ask 1 (1, [2], []), OwnProof 9 (9, [7], [])])
     9 (9, [7], []))"
proof (rule vacs_predicate_stable [where rt = "\<lambda>_. [7]", OF inj_on_id])
  have "prbc_validate ex_pki ex_pair_hash (id 9) ex_one_signer_proof" by code_simp
  then show "vacs_predicate ex_pki ex_pair_hash id Map.empty 9 ex_one_signer_proof = ([9 \<mapsto> ex_one_signer_proof], True)"
    by (simp add: vacs_predicate_def)
qed (simp_all add: ex_one_signer_proof_def)

definition ex_round_hb :: "(rat, rat, rat) hb_env" where
  "ex_round_hb = ex_hb\<lparr>hLoads := (\<lambda>_. Inr ((replicate 65 3, replicate 32 9, replicate 65 12),
     replicate 16 1 @ rev (tpke_pad [65, 66])))\<rparr>"

definition ex_round_shares :: "8 word \<Rightarrow> bytes option list" where
  "ex_round_shares x = [Some (replicate 65 x), None, Some (replicate 65 x), Some (replicate 65 x)]"

definition ex_round_events :: "nat list \<Rightarrow> nat \<Rightarrow> 8 word \<Rightarrow> nat \<Rightarrow> 8 word \<Rightarrow> (bytes, nat) dacs_event round_event list" where
  "ex_round_events js i x j y = TpkeShares i (ex_round_shares x) # map AcsEvent (ex_dacs_events js) @
     [TpkeShares j (ex_round_shares y)]"

lemma ex_round_dealt: "hb_dealt ex_round_hb"
  unfolding hb_dealt_def
proof (intro conjI exI)
  show "tpke_dealer (hE ex_round_hb) (hN ex_round_hb) (hf ex_round_hb + 1) 5 (\<lambda>_. 2) = Inr (hPK ex_round_hb, snd ex_tpke_key)"
    using ex_tpke_dealer by (simp add: ex_round_hb_def ex_hb_def numeral_2_eq_2)
qed (use ex_tpke_ok point_rat_inj in \<open>simp_all add: ex_round_hb_def ex_hb_def\<close>)

definition ex_round_vall :: "bytes option list" where
  "ex_round_vall = [Some [5], None, Some [5], Some [5]]"

lemma ex_round_load: "hb_load ex_round_hb v = Inr ((3, replicate 32 9, 12), replicate 16 1 @ rev (tpke_pad [65, 66]))"
  by (simp add: hb_load_def ex_round_hb_def ex_hb_def deserialize_UVW_def)

lemma ex_round_my: "hb_shares ex_round_hb x ex_round_vall = Inr (map (tpke_serialize ex_round_hb) [Some (3 * x), None, Some (3 * x), Some (3 * x)])"
proof -
  have "verify_ciphertext ex_tpke 3 (replicate 32 9) 12 = Inr True"
    by (rule ciphertext_valid [OF ex_tpke_ok ex_tpke_ciphertext])
  then have "decrypt_share (hE ex_round_hb) x 3 (replicate 32 9) 12 = Inr (3 * x)"
    by (simp add: decrypt_share_def ex_round_hb_def ex_hb_def) (simp add: ex_tpke_def ex_pairing_def)
  then show ?thesis
    by (simp add: hb_shares_def hb_my_share_def ex_round_load ex_round_vall_def) (simp add: ex_round_hb_def ex_hb_def)
qed

lemma ex_round_verify:
  "\<forall>(i, share) \<in> set [(0, 21), (1, 27), (2, 33), (3, 39)]. tpke_verify_share ex_tpke (fst ex_tpke_key) i share 3 = Inr True"
  by code_simp

lemma ex_round_combine:
  assumes "{(a, x), (b, y)} \<subseteq> set [(0, 21), (1, 27), (2, 33), (3, 39)]" and "a \<noteq> b"
  shows "tpke_combine_shares ex_tpke (fst ex_tpke_key) 3 (replicate 32 9) 12 [(a, x), (b, y)] = Inr (replicate 32 6)"
  by (rule tpke_decrypts_aux [OF ex_tpke_ok point_rat_inj ex_tpke_dealer ex_tpke_ciphertext])
    (use assms ex_round_verify in auto)

lemma ex_round_aes: "aes_decrypt ex_tpke (replicate 32 6) (replicate 16 1 @ rev (tpke_pad [65, 66])) = Inr [65, 66]"
  by (rule aes_round_trip_aux [OF ex_aes_ok, of "replicate 16 1"]) (simp_all add: aes_encrypt_def ex_tpke_def)

definition ex_round_row :: "rat \<Rightarrow> rat option list" where
  "ex_round_row x = [Some x, None, Some x, Some x]"

lemma ex_round_plain:
  assumes "{(a, x), (b, y)} \<subseteq> set [(0, 21), (1, 27), (2, 33), (3, 39)]" and "a \<noteq> b" and "i \<in> {0, 2, 3}"
  shows "hb_plain ex_round_hb [(a, ex_round_row x), (b, ex_round_row y)] i v = Inr [65, 66]"
proof -
  have p: "hE ex_round_hb = ex_tpke" "hPK ex_round_hb = fst ex_tpke_key" "tl (fst ex_tpke_key) = 4"
    by (simp_all add: ex_round_hb_def ex_hb_def ex_tpke_key_def key_of_def)
  have "py_index (ex_round_row z) (int i) = Inr (Some z)" for z
    using assms(3) by (auto simp: ex_round_row_def py_index_def)
  moreover have "a < 4" "b < 4" using assms(1) by auto
  moreover have "tpke_verify_share ex_tpke (fst ex_tpke_key) a x 3 = Inr True"
    "tpke_verify_share ex_tpke (fst ex_tpke_key) b y 3 = Inr True"
    using assms(1) ex_round_verify by auto
  ultimately show ?thesis
    using ex_round_combine [OF assms(1,2)] ex_round_aes
    by (simp add: hb_plain_def hb_share_at_def ex_round_load hb_checked_def p)
qed

lemma ex_round_deserialize:
  "\<forall>(w, x) \<in> set [(21, 21), (27, 27), (33, 33), (39, 39)]. res_map (tpke_deserialize ex_round_hb) (ex_round_shares w) = Inr (ex_round_row x)"
  by code_simp

lemma ex_round_collect:
  assumes "{(a, x), (b, y)} \<subseteq> set [(0, 21), (1, 27), (2, 33), (3, 39)]" and "a \<noteq> b"
    and "{(w, x), (w', y)} \<subseteq> set [(21, 21), (27, 27), (33, 33), (39, 39)]"
  shows "hb_recv ex_round_hb ex_round_vall [] (a, ex_round_shares w) = ([(a, ex_round_row x)], [], Running)"
    and "hb_recv ex_round_hb ex_round_vall [(a, ex_round_row x)] (b, ex_round_shares w') =
      ([(a, ex_round_row x), (b, ex_round_row y)], [], Returned [[65, 66], [65, 66], [65, 66]])"
proof -
  have d: "res_map (tpke_deserialize ex_round_hb) (ex_round_shares w) = Inr (ex_round_row x)"
    "res_map (tpke_deserialize ex_round_hb) (ex_round_shares w') = Inr (ex_round_row y)"
    using assms(3) ex_round_deserialize by auto
  have f: "hf ex_round_hb = 1" by (simp add: ex_round_hb_def ex_hb_def)
  show "hb_recv ex_round_hb ex_round_vall [] (a, ex_round_shares w) = ([(a, ex_round_row x)], [], Running)"
    using d f by (simp add: hb_recv_def)
  have "hb_decrypt ex_round_hb ex_round_vall [(a, ex_round_row x), (b, ex_round_row y)] =
      Inr [[65, 66], [65, 66], [65, 66]]"
    using ex_round_plain [OF assms(1,2)] by (simp add: hb_decrypt_def ex_round_vall_def)
  then show "hb_recv ex_round_hb ex_round_vall [(a, ex_round_row x)] (b, ex_round_shares w') =
      ([(a, ex_round_row x), (b, ex_round_row y)], [], Returned [[65, 66], [65, 66], [65, 66]])"
    using d f assms(2) by (simp add: hb_recv_def raise_or_def)
qed

lemma acs_part_running:
  "run_loop (uacs U) (u_acs s) evs = (a, os, Running) \<Longrightarrow> u_vall s = None \<Longrightarrow>
    run_loop (run_round U) s (map AcsEvent evs) = (s\<lparr>u_acs := a\<rparr>, map as_round_msg os, Running)"
proof (induction evs arbitrary: s os)
  case Nil
  then show ?case by simp
next
  case (Cons ev evs)
  obtain a1 o1 c1 where h: "uacs U (u_acs s) ev = (a1, o1, c1)" by (cases "uacs U (u_acs s) ev")
  with Cons.prems(1) have c: "c1 = Running" by (cases c1) auto
  with Cons.prems(1) h obtain o2 where o: "run_loop (uacs U) a1 evs = (a, o2, Running)" "os = o1 @ o2"
    by (auto split: prod.splits ctl.splits)
  from Cons.IH [of "s\<lparr>u_acs := a1\<rparr>" o2] o(1) Cons.prems(2)
  have "run_loop (run_round U) (s\<lparr>u_acs := a1\<rparr>) (map AcsEvent evs) = (s\<lparr>u_acs := a\<rparr>, map as_round_msg o2, Running)"
    by simp
  then show ?case using h c o(2) Cons.prems(2) by simp
qed

text \<open>A node whose common subset returns the vector, with one share before and one after that.\<close>

lemma ex_round_run:
  fixes x y :: rat and evs :: "(bytes, nat) dacs_event list"
  assumes "ctl_of (run_loop (dumbocommonsubset 4 p) (dacs_init 4) evs) = Running"
    and "ctl_of (run_loop (dumbocommonsubset 4 p) (dacs_init 4) (evs @ [ev])) = Returned ex_round_vall"
    and "{(a, x), (b, y)} \<subseteq> set [(0, 21), (1, 27), (2, 33), (3, 39)]" and "a \<noteq> b"
    and "{(w, x), (w', y)} \<subseteq> set [(21, 21), (27, 27), (33, 33), (39, 39)]"
  shows "ctl_of (run_loop (run_round (dumbo_round ex_round_hb SK Inr ord p)) (round_init (dacs_init 4))
     (TpkeShares a (ex_round_shares w) # map AcsEvent (evs @ [ev]) @ [TpkeShares b (ex_round_shares w')])) =
     Returned (ord [65, 66, 65, 66, 65, 66])"
proof -
  let ?U = "dumbo_round ex_round_hb SK Inr ord p ::
    (rat, rat, rat, (bytes, nat) dacs_state, (bytes, nat) dacs_event, nat, 8 word) round_env"
  have U: "uacs ?U = dumbocommonsubset 4 p" "uE ?U = ex_round_hb" "uloads ?U = Inr" "uSK ?U = SK" "uord ?U = ord"
    by (simp_all add: dumbo_round_def ex_round_hb_def ex_hb_def)
  obtain d os where d: "run_loop (dumbocommonsubset 4 p) (dacs_init 4) evs = (d, os, Running)"
    using assms(1) by (metis prod.collapse)
  obtain d' os' c' where e: "dumbocommonsubset 4 p d ev = (d', os', c')" by (cases "dumbocommonsubset 4 p d ev")
  have c': "c' = Returned ex_round_vall"
    using assms(2) d e by (cases c') (auto simp: run_loop_append)
  note k = ex_round_collect [OF assms(3-5)]
  have s: "\<exists>my. hb_shares ex_round_hb SK ex_round_vall = Inr my" using ex_round_my by blast
  define s1 :: "((bytes, nat) dacs_state, rat) round_state" where
    "s1 = (round_init (dacs_init 4))\<lparr>u_queue := [(a, ex_round_shares w)]\<rparr>"
  have m: "run_loop (run_round ?U) s1 (map AcsEvent evs) = (s1\<lparr>u_acs := d\<rparr>, map as_round_msg os, Running)"
    by (rule acs_part_running) (use d U in \<open>simp_all add: s1_def round_init_def\<close>)
  define s2 where "s2 = s1\<lparr>u_acs := d', u_vall := Some ex_round_vall, u_queue := [], u_received := [(a, ex_round_row x)]\<rparr>"
  obtain o2 where l: "run_round ?U (s1\<lparr>u_acs := d\<rparr>) (AcsEvent ev) = (s2, o2, Running)"
    using e c' s k(1) U by (auto simp: s1_def s2_def round_init_def round_decrypt_def round_output_def)
  have i: "run_round ?U (round_init (dacs_init 4)) (TpkeShares a (ex_round_shares w)) = (s1, [], Running)"
    by (simp add: s1_def round_init_def)
  have f: "ctl_of (run_round ?U s2 (TpkeShares b (ex_round_shares w'))) = Returned (ord [65, 66, 65, 66, 65, 66])"
    using k(2) U by (simp add: s2_def round_output_def round_block_def raise_or_def)
  show ?thesis
    using i m l f
    by (cases "run_round ?U s2 (TpkeShares b (ex_round_shares w'))")
      (simp add: run_loop_append del: run_round.simps)
qed

lemma acs_events_split: "acs_events (TpkeShares i x # map AcsEvent evs @ [TpkeShares j y]) = evs"
proof -
  have "acs_events (map AcsEvent evs @ [TpkeShares j y]) = evs" by (induction evs) simp_all
  then show ?thesis by simp
qed

theorem dumbo_round_agreement_witness: "mset [65, 66] = mset ([66, 65] :: bytes)"
proof (rule dumbo_round_agreement [OF ex_round_dealt lists_set_remdups, where p = 0 and p' = 1])
  have N: "hN ex_round_hb = 4" by (simp add: ex_round_hb_def ex_hb_def)
  let ?es = "TpkeShares 0 (ex_round_shares 21) # map AcsEvent (ex_dacs_events [1, 0, 2] @ [PRBC_OUT 3 [5] 3]) @
    [TpkeShares 2 (ex_round_shares 33)] :: (bytes, nat) dacs_event round_event list"
  let ?es' = "TpkeShares 3 (ex_round_shares 39) # map AcsEvent (ex_dacs_events [3, 2] @ [PRBC_OUT 0 [5] 0]) @
    [TpkeShares 1 (ex_round_shares 27)] :: (bytes, nat) dacs_event round_event list"
  show "\<forall>j < hN ex_round_hb. prbc_instance (ex_prbc, {3}, [5]) ex_prbc_final \<and>
      (0::nat) \<notin> fst (snd (ex_prbc, {3}, [5::8 word])) \<and> (1::nat) \<notin> fst (snd (ex_prbc, {3}, [5::8 word]))"
    using ex_dacs_prbc by simp
  show "from_prbc (\<lambda>_. ex_prbc_final) 0 (acs_events ?es)" "from_prbc (\<lambda>_. ex_prbc_final) 1 (acs_events ?es')"
    unfolding acs_events_split
    using ex_prbc_ended by (auto simp: from_prbc_def ex_dacs_events_def prbc_outputs_def ex_prbc_value_def)
  show "(\<Union>e \<in> set (acs_events ?es) \<union> set (acs_events ?es'). dacs_vectors e) \<subseteq> {Some [Some 7, None, Some 8, Some 9]}"
    unfolding acs_events_split by (auto simp: ex_dacs_events_def)
  have r: "ctl_of (run_loop (dumbocommonsubset 4 0) (dacs_init 4) (ex_dacs_events [1, 0, 2])) = Running"
    "ctl_of (run_loop (dumbocommonsubset 4 0) (dacs_init 4) (ex_dacs_events [1, 0, 2] @ [PRBC_OUT 3 [5] 3])) = Returned ex_round_vall"
    "ctl_of (run_loop (dumbocommonsubset 4 1) (dacs_init 4) (ex_dacs_events [3, 2])) = Running"
    "ctl_of (run_loop (dumbocommonsubset 4 1) (dacs_init 4) (ex_dacs_events [3, 2] @ [PRBC_OUT 0 [5] 0])) = Returned ex_round_vall"
    by code_simp+
  show "ctl_of (run_loop (run_round (dumbo_round ex_round_hb 7 Inr remdups 0)) (round_init (dacs_init (hN ex_round_hb))) ?es) =
      Returned [65, 66]"
    unfolding N using ex_round_run [OF r(1,2), of 0 21 2 33 21 33 7 remdups] by simp
  show "ctl_of (run_loop (run_round (dumbo_round ex_round_hb 9 Inr (\<lambda>xs. rev (remdups xs)) 1)) (round_init (dacs_init (hN ex_round_hb))) ?es') =
      Returned [66, 65]"
    unfolding N using ex_round_run [OF r(3,4), of 3 39 1 27 39 27 9 "\<lambda>xs. rev (remdups xs)"] by simp
qed

end
