(* ===== verification/Drivers.thy ===== *)
theory Drivers
  imports Round
begin

text \<open>
  The drivers that run one round after another over a transaction buffer: \<open>HoneyBadgerBFT.run\<close>,
  \<open>Dumbo.run_bft\<close>, \<open>SpeedyDumbo.run_bft\<close> and \<open>mvba.run_bft\<close> (\<open>src/dumbomvba/core/dumbox.py\<close>).
  They differ in how they take a batch from the buffer and in what they put back. Transactions are
  submitted at any time; the end of a round is an event that carries what \<open>honeybadger_block\<close> gave.
  Muted nodes sleep for ever and are not modelled; clock times only feed log lines.
\<close>

section \<open>Model\<close>

record ('b, 'x) driver_env =
  gB :: nat
  gK :: nat
  gselect :: "nat \<Rightarrow> 'x list \<Rightarrow> py_error + 'x list \<times> 'x list"
  grun :: "'b \<Rightarrow> py_error + 'x list"
  gcount :: "'x list \<Rightarrow> nat"
  grequeue :: "'x list \<Rightarrow> 'x list \<Rightarrow> 'x list \<Rightarrow> 'x list"

datatype ('b, 'x) driver_event = SubmitTx 'x | RoundDone 'b

text \<open>\<open>dv_sent\<close> is the batch of the current round, \<open>dv_blocks\<close> the blocks delivered so far.\<close>

record 'x driver_state =
  dv_round :: nat
  dv_buffer :: "'x list"
  dv_sent :: "'x list"
  dv_blocks :: "'x list list"
  dv_txcnt :: nat

definition driver_init :: "'x list \<Rightarrow> 'x driver_state" where
  "driver_init backlog = \<lparr>dv_round = 0, dv_buffer = backlog, dv_sent = [], dv_blocks = [], dv_txcnt = 0\<rparr>"

definition submit_tx :: "'x driver_state \<Rightarrow> 'x \<Rightarrow> 'x driver_state" where
  "submit_tx s tx = s\<lparr>dv_buffer := dv_buffer s @ [tx]\<rparr>"

text \<open>The start of a round: take the batch.\<close>

definition driver_begin :: "('b, 'x) driver_env \<Rightarrow> 'x driver_state \<Rightarrow> ('x driver_state, unit, unit) reply" where
  "driver_begin G s =
     (case gselect G (gB G) (dv_buffer s) of
        Inl e \<Rightarrow> (s, [], Raised e)
      | Inr (txs, rest) \<Rightarrow> stay (s\<lparr>dv_sent := txs, dv_buffer := rest\<rparr>))"

definition driver_round ::
    "('b, 'x) driver_env \<Rightarrow> 'x driver_state \<Rightarrow> 'b \<Rightarrow> ('x driver_state, unit, unit) reply" where
  "driver_round G s b =
     (case grun G b of
        Inl e \<Rightarrow> (s, [], Raised e)
      | Inr new \<Rightarrow>
          (let s1 = s\<lparr>dv_txcnt := dv_txcnt s + gcount G new, dv_blocks := dv_blocks s @ [new],
                      dv_buffer := grequeue G (dv_sent s) new (dv_buffer s), dv_sent := [],
                      dv_round := dv_round s + 1\<rparr>
           in if gK G \<le> dv_round s1 then (s1, [], Returned ()) else driver_begin G s1))"

fun driver_step ::
    "('b, 'x) driver_env \<Rightarrow> 'x driver_state \<Rightarrow> ('b, 'x) driver_event \<Rightarrow> ('x driver_state, unit, unit) reply" where
  "driver_step G s (SubmitTx tx) = stay (submit_tx s tx)"
| "driver_step G s (RoundDone b) = driver_round G s b"

text \<open>
  The batch of Dumbo and Speedy Dumbo: at most \<open>B\<close> transactions; the loop breaks when the buffer runs
  out after a first transaction, and idles through its remaining turns when it was empty.
\<close>

fun dumbo_select :: "nat \<Rightarrow> bool \<Rightarrow> 'x list \<Rightarrow> 'x list \<times> 'x list" where
  "dumbo_select 0 isEmpty buf = ([], buf)"
| "dumbo_select (Suc n) isEmpty [] = (if isEmpty then dumbo_select n isEmpty [] else ([], []))"
| "dumbo_select (Suc n) isEmpty (tx # buf) =
     (case dumbo_select n False buf of (txs, rest) \<Rightarrow> (tx # txs, rest))"

text \<open>The batch of the other two: exactly \<open>B\<close> transactions, or the exception of the empty container.\<close>

fun strict_select :: "py_error \<Rightarrow> nat \<Rightarrow> 'x list \<Rightarrow> py_error + 'x list \<times> 'x list" where
  "strict_select e 0 buf = Inr ([], buf)"
| "strict_select e (Suc n) [] = Inl e"
| "strict_select e (Suc n) (tx # buf) = res_bind (strict_select e n buf) (\<lambda>(txs, rest). Inr (tx # txs, rest))"

fun dumbo_requeue :: "'x list \<Rightarrow> 'x list \<Rightarrow> 'x list \<Rightarrow> 'x list" where
  "dumbo_requeue [] new buf = buf"
| "dumbo_requeue (tx # txs) new buf = dumbo_requeue txs new (if tx \<in> set new then buf else buf @ [tx])"

fun hb_requeue :: "'x list \<Rightarrow> 'x list \<Rightarrow> 'x list \<Rightarrow> 'x list" where
  "hb_requeue [] new buf = buf"
| "hb_requeue (tx # txs) new buf = hb_requeue txs new (if tx \<in> set new then buf else tx # buf)"

text \<open>\<open>ord\<close> is the order in which the process lists a set (theory \<open>Round\<close>).\<close>

definition dumbo_run :: "nat \<Rightarrow> nat \<Rightarrow> ('x list \<Rightarrow> 'x list) \<Rightarrow> (bytes \<Rightarrow> py_error + 'x list) \<Rightarrow> (py_error + bytes list, 'x) driver_env" where
  "dumbo_run B K ord loads = \<lparr>gB = B, gK = K, gselect = (\<lambda>n buf. Inr (dumbo_select n True buf)),
     grun = (\<lambda>b. res_bind b (round_block ord loads)), gcount = length, grequeue = dumbo_requeue\<rparr>"

text \<open>Speedy Dumbo has the put-back commented out.\<close>

definition speedy_run :: "nat \<Rightarrow> nat \<Rightarrow> ('x list \<Rightarrow> 'x list) \<Rightarrow> (bytes \<Rightarrow> py_error + 'x list) \<Rightarrow> (py_error + bytes list, 'x) driver_env" where
  "speedy_run B K ord loads = \<lparr>gB = B, gK = K, gselect = (\<lambda>n buf. Inr (dumbo_select n True buf)),
     grun = (\<lambda>b. res_bind b (round_block ord loads)), gcount = length, grequeue = (\<lambda>sent new buf. buf)\<rparr>"

text \<open>
  \<open>HoneyBadgerBFT\<close> and the \<open>mvba\<close> driver call \<open>honeybadger_block\<close> with the keyword arguments
  \<open>acs_in\<close> and \<open>acs_out\<close>, which it does not have: every round ends with a \<open>TypeError\<close>. \<open>dummies\<close> counts
  the occurrences of a marker in the printed block.
\<close>

definition hb_run :: "nat \<Rightarrow> nat \<Rightarrow> ('x list \<Rightarrow> nat) \<Rightarrow> (py_error + bytes list, 'x) driver_env" where
  "hb_run B K dummies = \<lparr>gB = B, gK = K, gselect = strict_select IndexError,
     grun = (\<lambda>_. Inl TypeError), gcount = dummies, grequeue = hb_requeue\<rparr>"

definition dumbox_run :: "nat \<Rightarrow> nat \<Rightarrow> ('x list \<Rightarrow> nat) \<Rightarrow> (py_error + bytes list, 'x) driver_env" where
  "dumbox_run B K dummies = \<lparr>gB = B, gK = K, gselect = strict_select QueueEmpty,
     grun = (\<lambda>_. Inl TypeError), gcount = dummies, grequeue = (\<lambda>sent new buf. buf)\<rparr>"

text \<open>From the start: the first batch, then the loop.\<close>

definition driver_loop ::
    "('b, 'x) driver_env \<Rightarrow> 'x driver_state \<Rightarrow> ('b, 'x) driver_event list \<Rightarrow> ('x driver_state, unit, unit) reply" where
  "driver_loop G s es =
     (case driver_begin G s of
        (s1, outs, Running) \<Rightarrow> run_loop (driver_step G) s1 es
      | r \<Rightarrow> r)"

subsection \<open>The driver with one stable leader\<close>

text \<open>
  \<open>Hotstuff\<close> of \<open>src/stablehotstuff/stablehotstuff.py\<close> runs one fast path and then updates its
  statistics inside a bare \<open>try ... except: pass\<close>: a missing result, or a division by zero, changes
  nothing. The argument is what the greenlet of the fast path returned.
\<close>

record stable_stats =
  st_txcnt :: nat
  st_txdelay :: rat

definition stable_run :: "('h \<times> 'c \<times> nat \<times> rat) option \<Rightarrow> stable_stats \<Rightarrow> stable_stats" where
  "stable_run result s =
     (case result of
        None \<Rightarrow> s
      | Some (_, _, epoch_txcnt, weighted_delay) \<Rightarrow>
          if st_txcnt s + epoch_txcnt = 0 then s
          else s\<lparr>st_txdelay := (of_nat (st_txcnt s) * st_txdelay s + of_nat epoch_txcnt * weighted_delay) /
                   of_nat (st_txcnt s + epoch_txcnt),
                 st_txcnt := st_txcnt s + epoch_txcnt\<rparr>)"

section \<open>Batches\<close>

lemma dumbo_select_eq: "dumbo_select n isEmpty buf = (take n buf, drop n buf)"
  by (induction n isEmpty buf rule: dumbo_select.induct) auto

lemma strict_select_eq:
  "strict_select e n buf = (if n \<le> length buf then Inr (take n buf, drop n buf) else Inl e)"
  by (induction e n buf rule: strict_select.induct) auto

lemma dumbo_requeue_eq: "dumbo_requeue txs new buf = buf @ filter (\<lambda>tx. tx \<notin> set new) txs"
  by (induction txs new buf rule: dumbo_requeue.induct) auto

lemma hb_requeue_eq: "hb_requeue txs new buf = rev (filter (\<lambda>tx. tx \<notin> set new) txs) @ buf"
  by (induction txs new buf rule: hb_requeue.induct) auto

section \<open>No transaction is lost\<close>

text \<open>The events a loop takes in before it stops, and the transactions among them.\<close>

fun consumed :: "('s \<Rightarrow> 'e \<Rightarrow> ('s, 'm, 'r) reply) \<Rightarrow> 's \<Rightarrow> 'e list \<Rightarrow> 'e list" where
  "consumed h s [] = []"
| "consumed h s (e # es) = e # (case h s e of (s', _, Running) \<Rightarrow> consumed h s' es | _ \<Rightarrow> [])"

fun submitted :: "('b, 'x) driver_event list \<Rightarrow> 'x set" where
  "submitted [] = {}"
| "submitted (SubmitTx tx # es) = insert tx (submitted es)"
| "submitted (RoundDone b # es) = submitted es"

text \<open>Where a transaction can be: waiting, in the current batch, or in a delivered block.\<close>

definition known_txs :: "'x driver_state \<Rightarrow> 'x set" where
  "known_txs s = set (dv_buffer s) \<union> set (dv_sent s) \<union> (\<Union>b \<in> set (dv_blocks s). set b)"

definition keeps_txs :: "('b, 'x) driver_env \<Rightarrow> bool" where
  "keeps_txs G \<longleftrightarrow>
     (\<forall>n buf txs rest. gselect G n buf = Inr (txs, rest) \<longrightarrow> set buf \<subseteq> set txs \<union> set rest) \<and>
     (\<forall>sent new buf. set sent \<union> set buf \<subseteq> set new \<union> set (grequeue G sent new buf))"

lemma begin_keeps:
  assumes "keeps_txs G" and "driver_begin G s = (s', outs, c)" and "dv_sent s = []"
  shows "known_txs s \<subseteq> known_txs s'"
proof (cases "gselect G (gB G) (dv_buffer s)")
  case (Inl e)
  then show ?thesis using assms(2) by (simp add: driver_begin_def)
next
  case (Inr x)
  obtain txs rest where x: "x = (txs, rest)" by (cases x)
  with assms(1) Inr have "set (dv_buffer s) \<subseteq> set txs \<union> set rest" unfolding keeps_txs_def by blast
  moreover have "s' = s\<lparr>dv_sent := txs, dv_buffer := rest\<rparr>"
    using assms(2) Inr x by (simp add: driver_begin_def)
  ultimately show ?thesis using assms(3) by (auto simp: known_txs_def)
qed

lemma step_keeps:
  assumes "keeps_txs G" and "driver_step G s e = (s', outs, c)"
  shows "known_txs s \<union> submitted [e] \<subseteq> known_txs s'"
proof (cases e)
  case (SubmitTx tx)
  then show ?thesis using assms(2) by (auto simp: known_txs_def submit_tx_def)
next
  case (RoundDone b)
  show ?thesis
  proof (cases "grun G b")
    case (Inl x)
    then show ?thesis using assms(2) RoundDone by (simp add: driver_round_def)
  next
    case (Inr new)
    define s1 where "s1 = s\<lparr>dv_txcnt := dv_txcnt s + gcount G new, dv_blocks := dv_blocks s @ [new],
                      dv_buffer := grequeue G (dv_sent s) new (dv_buffer s), dv_sent := [],
                      dv_round := dv_round s + 1\<rparr>"
    have "set (dv_sent s) \<union> set (dv_buffer s) \<subseteq> set new \<union> set (grequeue G (dv_sent s) new (dv_buffer s))"
      using assms(1) unfolding keeps_txs_def by blast
    then have "known_txs s \<subseteq> known_txs s1" by (auto simp: known_txs_def s1_def)
    moreover have "known_txs s1 \<subseteq> known_txs s'"
    proof -
      have r: "driver_round G s b = (if gK G \<le> dv_round s1 then (s1, [], Returned ()) else driver_begin G s1)"
        by (simp only: driver_round_def Inr Let_def s1_def sum.case)
      show ?thesis
      proof (cases "gK G \<le> dv_round s1")
        case True
        then show ?thesis using assms(2) RoundDone r by simp
      next
        case False
        then have "driver_begin G s1 = (s', outs, c)" using assms(2) RoundDone r by simp
        then show ?thesis by (rule begin_keeps [OF assms(1)]) (simp add: s1_def)
      qed
    qed
    ultimately show ?thesis using RoundDone by auto
  qed
qed

lemma run_keeps:
  "keeps_txs G \<Longrightarrow> run_loop (driver_step G) s es = (s', outs, c) \<Longrightarrow>
    known_txs s \<union> submitted (consumed (driver_step G) s es) \<subseteq> known_txs s'"
proof (induction es arbitrary: s outs)
  case Nil
  then show ?case by simp
next
  case (Cons e es)
  obtain s1 o1 c1 where h: "driver_step G s e = (s1, o1, c1)" by (cases "driver_step G s e")
  note k = step_keeps [OF Cons.prems(1) h]
  have sub: "submitted (e # es') = submitted [e] \<union> submitted es'" for es'
    by (cases e) auto
  show ?case
  proof (cases c1)
    case Running
    then obtain o2 where "run_loop (driver_step G) s1 es = (s', o2, c)"
      using Cons.prems(2) h by (auto split: prod.splits)
    from Cons.IH [OF Cons.prems(1) this] k show ?thesis
      using sub [of "consumed (driver_step G) s1 es"] h Running by auto
  next
    case (Returned x)
    then show ?thesis using Cons.prems(2) h k sub [of "[]"] by auto
  next
    case (Raised x)
    then show ?thesis using Cons.prems(2) h k sub [of "[]"] by auto
  qed
qed

lemma dumbo_keeps_txs: "keeps_txs (dumbo_run B K ord loads)"
proof -
  have "set buf \<subseteq> set (take n buf) \<union> set (drop n buf)" for n and buf :: "'a list"
    by (metis append_take_drop_id set_append subset_refl)
  then show ?thesis
    by (auto simp: keeps_txs_def dumbo_run_def dumbo_select_eq dumbo_requeue_eq)
qed

section \<open>The number of rounds\<close>

text \<open>The rounds whose outcome the driver accepts.\<close>

fun rounds_of :: "('b, 'x) driver_event list \<Rightarrow> 'b list" where
  "rounds_of [] = []"
| "rounds_of (SubmitTx tx # es) = rounds_of es"
| "rounds_of (RoundDone b # es) = b # rounds_of es"

definition select_total :: "('b, 'x) driver_env \<Rightarrow> bool" where
  "select_total G \<longleftrightarrow> (\<forall>n buf. \<exists>txs rest. gselect G n buf = Inr (txs, rest))"

lemma begin_total:
  "select_total G \<Longrightarrow> \<exists>s'. driver_begin G s = (s', [], Running) \<and> dv_round s' = dv_round s \<and> dv_blocks s' = dv_blocks s"
proof -
  assume "select_total G"
  then obtain txs rest where "gselect G (gB G) (dv_buffer s) = Inr (txs, rest)"
    unfolding select_total_def by blast
  then show ?thesis by (simp add: driver_begin_def)
qed

lemma dumbo_selects: "select_total (dumbo_run B K ord loads)" "select_total (speedy_run B K ord loads)"
  by (simp_all add: select_total_def dumbo_run_def speedy_run_def dumbo_select_eq)

lemma driver_ends:
  assumes "select_total G"
  shows "list_all (\<lambda>b. \<exists>new. grun G b = Inr new) (rounds_of es) \<Longrightarrow> gK G - dv_round s \<le> length (rounds_of es) \<Longrightarrow>
    rounds_of es \<noteq> [] \<Longrightarrow>
    \<exists>s' outs. run_loop (driver_step G) s es = (s', outs, Returned ()) \<and>
      length (dv_blocks s') = length (dv_blocks s) + max 1 (gK G - dv_round s)"
proof (induction es arbitrary: s)
  case Nil
  then show ?case by simp
next
  case (Cons e es)
  show ?case
  proof (cases e)
    case (SubmitTx tx)
    with Cons.IH [of "submit_tx s tx"] Cons.prems show ?thesis by (auto simp: submit_tx_def)
  next
    case (RoundDone b)
    with Cons.prems(1) obtain new where new: "grun G b = Inr new" by auto
    define s1 where "s1 = s\<lparr>dv_txcnt := dv_txcnt s + gcount G new, dv_blocks := dv_blocks s @ [new],
                      dv_buffer := grequeue G (dv_sent s) new (dv_buffer s), dv_sent := [],
                      dv_round := dv_round s + 1\<rparr>"
    have r: "driver_round G s b = (if gK G \<le> dv_round s1 then (s1, [], Returned ()) else driver_begin G s1)"
      by (simp only: driver_round_def new Let_def s1_def sum.case)
    have s1: "dv_round s1 = dv_round s + 1" "length (dv_blocks s1) = length (dv_blocks s) + 1"
      by (simp_all add: s1_def)
    show ?thesis
    proof (cases "gK G \<le> dv_round s1")
      case True
      then show ?thesis using RoundDone r s1 by simp
    next
      case False
      obtain s2 where s2: "driver_begin G s1 = (s2, [], Running)" "dv_round s2 = dv_round s1" "dv_blocks s2 = dv_blocks s1"
        using begin_total [OF assms] by blast
      have "gK G - dv_round s2 \<le> length (rounds_of es)" "rounds_of es \<noteq> []"
        using Cons.prems(2) RoundDone False s1(1) s2(2) by auto
      with Cons.IH [of s2] Cons.prems(1) RoundDone obtain s' outs where
        "run_loop (driver_step G) s2 es = (s', outs, Returned ())"
        "length (dv_blocks s') = length (dv_blocks s2) + max 1 (gK G - dv_round s2)"
        by auto
      then show ?thesis using RoundDone r s1 s2 False by auto
    qed
  qed
qed

section \<open>Speedy Dumbo as an optimisation\<close>

text \<open>In every round of the run the block holds the node's own batch.\<close>

fun batches_delivered :: "('b, 'x) driver_env \<Rightarrow> 'x driver_state \<Rightarrow> ('b, 'x) driver_event list \<Rightarrow> bool" where
  "batches_delivered G s [] \<longleftrightarrow> True"
| "batches_delivered G s (e # es) \<longleftrightarrow>
     (case e of
        RoundDone b \<Rightarrow> (case grun G b of Inr new \<Rightarrow> set (dv_sent s) \<subseteq> set new | Inl _ \<Rightarrow> True)
      | SubmitTx _ \<Rightarrow> True) \<and>
     (case driver_step G s e of (s', _, _) \<Rightarrow> batches_delivered G s' es)"

lemma requeue_nothing: "set txs \<subseteq> set new \<Longrightarrow> dumbo_requeue txs new buf = buf"
proof -
  assume "set txs \<subseteq> set new"
  then have "filter (\<lambda>tx. tx \<notin> set new) txs = []" by (auto simp: filter_empty_conv)
  then show ?thesis by (simp add: dumbo_requeue_eq)
qed

lemma speedy_step:
  assumes "batches_delivered (dumbo_run B K ord loads) s [e]"
  shows "driver_step (speedy_run B K ord loads) s e = driver_step (dumbo_run B K ord loads) s e"
proof (cases e)
  case (RoundDone b)
  show ?thesis
  proof (cases "res_bind b (round_block ord loads)")
    case (Inr new)
    then have "set (dv_sent s) \<subseteq> set new" using assms RoundDone by (simp add: dumbo_run_def)
    moreover have "driver_begin (speedy_run B K ord loads) s' = driver_begin (dumbo_run B K ord loads) s'" for s'
      by (simp add: driver_begin_def dumbo_run_def speedy_run_def)
    moreover have "grun (speedy_run B K ord loads) b = Inr new" "grun (dumbo_run B K ord loads) b = Inr new"
      "gK (speedy_run B K ord loads) = gK (dumbo_run B K ord loads)" "gcount (speedy_run B K ord loads) = gcount (dumbo_run B K ord loads)"
      using Inr by (simp_all add: dumbo_run_def speedy_run_def)
    moreover have "grequeue (speedy_run B K ord loads) (dv_sent s) new (dv_buffer s) =
        grequeue (dumbo_run B K ord loads) (dv_sent s) new (dv_buffer s)"
      using \<open>set (dv_sent s) \<subseteq> set new\<close> by (simp add: dumbo_run_def speedy_run_def requeue_nothing)
    ultimately show ?thesis
      using RoundDone by (simp add: driver_round_def Let_def)
  qed (use RoundDone in \<open>simp add: driver_round_def dumbo_run_def speedy_run_def\<close>)
qed simp

lemma speedy_equals_dumbo_run:
  "batches_delivered (dumbo_run B K ord loads) s es \<Longrightarrow>
    run_loop (driver_step (speedy_run B K ord loads)) s es = run_loop (driver_step (dumbo_run B K ord loads)) s es"
proof (induction es arbitrary: s)
  case (Cons e es)
  obtain s1 o1 c1 where h: "driver_step (dumbo_run B K ord loads) s e = (s1, o1, c1)"
    by (cases "driver_step (dumbo_run B K ord loads) s e")
  with Cons.prems have "batches_delivered (dumbo_run B K ord loads) s1 es" by simp
  from Cons.IH [OF this] have "run_loop (driver_step (speedy_run B K ord loads)) s1 es =
      run_loop (driver_step (dumbo_run B K ord loads)) s1 es" .
  moreover have "driver_step (speedy_run B K ord loads) s e = (s1, o1, c1)"
    using speedy_step [of B K ord loads s e] Cons.prems h by auto
  ultimately show ?case using h by (cases c1) simp_all
qed simp

section \<open>Drivers that cannot finish a round\<close>

lemma strict_driver_raises:
  assumes "length buf < B"
  shows "ctl_of (driver_loop (hb_run B K dummies) (driver_init buf) es) = Raised IndexError"
    and "ctl_of (driver_loop (dumbox_run B K dummies) (driver_init buf) es) = Raised QueueEmpty"
  using assms
  by (simp_all add: driver_loop_def driver_begin_def hb_run_def dumbox_run_def strict_select_eq driver_init_def)

lemma first_round_raises:
  "rounds_of es \<noteq> [] \<Longrightarrow> grun G = (\<lambda>_. Inl TypeError) \<Longrightarrow>
    \<exists>s' outs. run_loop (driver_step G) s es = (s', outs, Raised TypeError) \<and> dv_blocks s' = dv_blocks s"
proof (induction es arbitrary: s)
  case (Cons e es)
  show ?case
  proof (cases e)
    case (SubmitTx tx)
    with Cons.IH [of "submit_tx s tx"] Cons.prems show ?thesis by (auto simp: submit_tx_def)
  next
    case (RoundDone b)
    then show ?thesis using Cons.prems(2) by (simp add: driver_round_def)
  qed
qed simp

text \<open>No run of these two drivers ever delivers a block.\<close>

lemma hb_driver_crashes:
  assumes "rounds_of es \<noteq> []" and "B \<le> length buf"
  shows "ctl_of (driver_loop (hb_run B K dummies) (driver_init buf) es) = Raised TypeError"
    and "ctl_of (driver_loop (dumbox_run B K dummies) (driver_init buf) es) = Raised TypeError"
proof -
  let ?s = "(driver_init buf)\<lparr>dv_sent := take B buf, dv_buffer := drop B buf\<rparr>"
  have "grun (hb_run B K dummies) = (\<lambda>_. Inl TypeError)" "grun (dumbox_run B K dummies) = (\<lambda>_. Inl TypeError)"
    by (simp_all add: hb_run_def dumbox_run_def)
  from first_round_raises [OF assms(1) this(1), of ?s] first_round_raises [OF assms(1) this(2), of ?s]
  obtain s1 o1 s2 o2 where "run_loop (driver_step (hb_run B K dummies)) ?s es = (s1, o1, Raised TypeError)"
    "run_loop (driver_step (dumbox_run B K dummies)) ?s es = (s2, o2, Raised TypeError)" by blast
  moreover have "driver_begin (hb_run B K dummies) (driver_init buf) = stay ?s"
    "driver_begin (dumbox_run B K dummies) (driver_init buf) = stay ?s"
    using assms(2) by (simp_all add: driver_begin_def hb_run_def dumbox_run_def strict_select_eq driver_init_def)
  ultimately show "ctl_of (driver_loop (hb_run B K dummies) (driver_init buf) es) = Raised TypeError"
    "ctl_of (driver_loop (dumbox_run B K dummies) (driver_init buf) es) = Raised TypeError"
    by (simp_all add: driver_loop_def)
qed

section \<open>Properties\<close>

text \<open>
  C29: Dumbo loses no transaction. The driver runs from its start, with the selection of the first batch.
  Whatever is submitted, and whatever the rounds give (errors included), every transaction of the initial
  backlog and every submitted one is, when the loop has stopped or is still running, in the buffer, in the
  batch of the current round, or in a delivered block.
\<close>

theorem dumbo_no_tx_lost:
  "set backlog \<union> submitted (consumed (driver_step (dumbo_run B K ord loads))
       (fst (driver_begin (dumbo_run B K ord loads) (driver_init backlog))) es) \<subseteq>
     known_txs (fst (driver_loop (dumbo_run B K ord loads) (driver_init backlog) es))"
proof -
  obtain s1 where s1: "driver_begin (dumbo_run B K ord loads) (driver_init backlog) = (s1, [], Running)"
    using begin_total [OF dumbo_selects(1)] by blast
  obtain s2 outs c where s2: "run_loop (driver_step (dumbo_run B K ord loads)) s1 es = (s2, outs, c)"
    by (rule prod_cases3)
  have "known_txs (driver_init backlog) = set backlog" by (simp add: known_txs_def driver_init_def)
  moreover have "known_txs (driver_init backlog) \<subseteq> known_txs s1"
    by (rule begin_keeps [OF dumbo_keeps_txs s1]) (simp add: driver_init_def)
  ultimately show ?thesis
    using run_keeps [OF dumbo_keeps_txs s2] s1 s2 by (auto simp: driver_loop_def)
qed

text \<open>
  C30: Dumbo and Speedy Dumbo run a bounded number of rounds. If every round yields a block that decodes,
  then after \<open>max 1 K\<close> rounds the loop, run from its start with the selection of the first batch, has
  returned, with exactly that many blocks delivered, however transactions are submitted meanwhile and even
  with an empty buffer.
\<close>

theorem dumbo_run_ends:
  assumes "G = dumbo_run B K ord loads \<or> G = speedy_run B K ord loads"
    and "list_all (\<lambda>b. \<exists>new. res_bind b (round_block ord loads) = Inr new) (rounds_of es)"
    and "max 1 K \<le> length (rounds_of es)"
  shows "ctl_of (driver_loop G (driver_init backlog) es) = Returned () \<and>
    length (dv_blocks (fst (driver_loop G (driver_init backlog) es))) = max 1 K"
proof -
  have G: "select_total G" "gK G = K" "grun G = (\<lambda>b. res_bind b (round_block ord loads))"
    using assms(1) dumbo_selects by (auto simp: dumbo_run_def speedy_run_def)
  obtain s1 where s1: "driver_begin G (driver_init backlog) = (s1, [], Running)" "dv_round s1 = 0" "dv_blocks s1 = []"
    using begin_total [OF G(1), of "driver_init backlog"] by (auto simp: driver_init_def)
  have "rounds_of es \<noteq> []" using assms(3) by auto
  with driver_ends [OF G(1), of es s1] assms(2,3) G(2,3) s1 obtain s' outs where
    "run_loop (driver_step G) s1 es = (s', outs, Returned ())" "length (dv_blocks s') = max 1 K"
    by auto
  then show ?thesis using s1(1) by (simp add: driver_loop_def)
qed

text \<open>
  C31: Speedy Dumbo behaves like Dumbo as long as every block holds the node's own batch: then dropping
  the put-back of undelivered transactions makes no difference, in any run. (Otherwise it loses them.)
\<close>

theorem speedy_equals_dumbo:
  assumes "batches_delivered (dumbo_run B K ord loads) s es"
  shows "run_loop (driver_step (speedy_run B K ord loads)) s es = run_loop (driver_step (dumbo_run B K ord loads)) s es"
  using assms by (rule speedy_equals_dumbo_run)

section \<open>Witnesses\<close>

definition ex_loads :: "bytes \<Rightarrow> py_error + nat list" where
  "ex_loads b = Inr (map unat b)"

definition ex_rounds :: "(py_error + bytes list, nat) driver_event list" where
  "ex_rounds = [SubmitTx 7, RoundDone (Inr [[1, 2], [2, 3]]), SubmitTx 8, RoundDone (Inr [[7]]), RoundDone (Inr [[9], [8]])]"

definition ex_batch :: "nat driver_state" where
  "ex_batch = (driver_init [])\<lparr>dv_sent := [1, 3]\<rparr>"

theorem dumbo_run_ends_witness:
  "length (dv_blocks (fst (driver_loop (dumbo_run 2 3 remdups ex_loads) (driver_init [1, 2, 3]) ex_rounds))) = 3"
proof -
  have "length (rounds_of ex_rounds) = 3" by (simp add: ex_rounds_def)
  then show ?thesis
    using dumbo_run_ends [OF disjI1 [OF refl], of remdups ex_loads ex_rounds 3 2 "[1, 2, 3]"]
    by (simp add: ex_rounds_def round_block_def ex_loads_def)
qed

theorem speedy_equals_dumbo_witness:
  "dv_blocks (fst (run_loop (driver_step (speedy_run 2 3 remdups ex_loads)) ex_batch ex_rounds)) = [[1, 2, 3], [7], [9, 8]]"
proof -
  have "batches_delivered (dumbo_run 2 3 remdups ex_loads) ex_batch ex_rounds" by code_simp
  from speedy_equals_dumbo [OF this] show ?thesis
    by (simp add: ex_rounds_def ex_batch_def driver_init_def submit_tx_def driver_round_def dumbo_run_def
        round_block_def ex_loads_def driver_begin_def dumbo_select_eq dumbo_requeue_eq)
qed

end
