(* ===== verification/Mule.thy ===== *)
theory Mule
  imports Round
begin

text \<open>
  One epoch of Mule, of RbcMule and of the rotating-leader variant (\<open>_run_epoch\<close> in
  \<open>src/mulebft/core/mule.py\<close>, \<open>src/rbcmulebft/core/rbcmule.py\<close>, \<open>src/mulebft/core/rotatinghotstuff.py\<close>): a
  fast path outputs notarized blocks; when it ends, or when enough view-change messages came, the node
  reports its latest notarized slot; the greatest of \<open>N - f\<close> reported slots goes into a two-value
  agreement, and if that gives no delivered slot the epoch falls back to a round of Dumbo. The fast path
  and the two-value agreement are events here (theories HotStuff, FastPath and TVA model them). Clock
  times and the averages computed from them are not modelled, the divisions they make are.
\<close>

section \<open>Counting view-change messages\<close>

record 'p vc_state =
  vc_count :: nat
  vc_max :: int
  vc_proofs :: 'p

definition vc_init :: "'p \<Rightarrow> 'p vc_state" where
  "vc_init p = \<lparr>vc_count = 0, vc_max = 0, vc_proofs = p\<rparr>"

text \<open>
  One turn of \<open>handle_viewchange_msg\<close>. The check of a message raises, rejects it, or gives its slot;
  the message is counted without looking at its sender. The message emitted is the input of the
  two-value agreement.
\<close>

definition vc_collect ::
    "nat \<Rightarrow> ('p \<Rightarrow> 'v \<Rightarrow> py_error + 'p \<times> int option) \<Rightarrow> 'p vc_state \<Rightarrow> 'v \<Rightarrow> ('p vc_state, int, unit) reply" where
  "vc_collect quota check s v =
     (case check (vc_proofs s) v of
        Inl e \<Rightarrow> (s, [], Raised e)
      | Inr (p, None) \<Rightarrow> stay (s\<lparr>vc_proofs := p\<rparr>)
      | Inr (p, Some slot) \<Rightarrow>
          (let s1 = s\<lparr>vc_proofs := p, vc_count := vc_count s + 1,
                      vc_max := (if slot > vc_max s then slot else vc_max s)\<rparr>
           in if quota \<le> vc_count s1 then (s1, [Send 0 (vc_max s1)], Returned ()) else stay s1))"

text \<open>
  Mule: a block header \<open>(sid, slot, hash of the parent, digest of the payload)\<close> with the signatures of its
  notarization, both optional. Only the number of signatures and each signature are checked.
\<close>

type_synonym ('s, 'd) header = "'s \<times> int \<times> 'd \<times> 'd"

type_synonym ('s, 'd, 'g) mule_vc = "('s, 'd) header option \<times> 'g sigmas option"

definition mule_vc_check ::
    "('k, 'd, 'g, 'x) pki_scheme \<Rightarrow> (('s, 'd) header \<Rightarrow> 'd) \<Rightarrow> 'p \<Rightarrow> ('s, 'd, 'g) mule_vc \<Rightarrow> py_error + 'p \<times> int option" where
  "mule_vc_check P hsh p v =
     (case v of
        (None, None) \<Rightarrow> Inr (p, Some 0)
      | (Some _, None) \<Rightarrow> Inl AssertionError
      | (None, Some _) \<Rightarrow> Inl TypeError
      | (Some hdr, Some sigs) \<Rightarrow>
          if \<not> kN P - kf P \<le> length sigs then Inr (p, None)
          else case sig_loop P (hsh hdr) sigs of
            Inl AssertionError \<Rightarrow> Inr (p, None)
          | Inl e \<Rightarrow> Inl e
          | Inr _ \<Rightarrow> Inr (p, Some (fst (snd hdr))))"

text \<open>
  RbcMule: a slot and the proof of its broadcast. Proofs that validated are kept with their slot; the
  proof of a slot already known is not looked at.
\<close>

type_synonym ('s, 'h, 'g) slot_proofs = "'s \<Rightarrow> (int \<times> ('s \<times> 'h \<times> 'g sigmas)) option"

definition rbcmule_vc_check ::
    "('k, 'd, 'g, 'x) pki_scheme \<Rightarrow> ('s \<times> 'h \<Rightarrow> 'd) \<Rightarrow> (int \<Rightarrow> 's) \<Rightarrow> ('s, 'h, 'g) slot_proofs \<Rightarrow>
       int option \<times> ('s \<times> 'h \<times> 'g sigmas) option \<Rightarrow> py_error + ('s, 'h, 'g) slot_proofs \<times> int option" where
  "rbcmule_vc_check P hsh sid p v =
     (case v of
        (None, _) \<Rightarrow> Inr (p, Some 0)
      | (Some slot, proof) \<Rightarrow>
          (case p (sid slot) of
             Some (slot', _) \<Rightarrow> Inr (p, if slot = slot' then Some slot else None)
           | None \<Rightarrow>
               (case proof of
                  None \<Rightarrow> Inr (p, None)
                | Some q \<Rightarrow>
                    if prbc_validate P hsh (sid slot) q then Inr (p(sid slot \<mapsto> (slot, q)), Some slot)
                    else Inr (p, None))))"

section \<open>The epoch\<close>

text \<open>
  \<open>ycheck\<close> is the check above, \<open>yreport\<close> what the node reports of its latest notarized block (with the
  statistics it updates), \<open>ydelivered\<close> the slots delivered for an output of the two-value agreement, and
  \<open>yblkcnt\<close> the transactions counted for a fallback block.
\<close>

record ('b, 'n, 'p, 'v) epoch_env =
  yquota :: nat
  ycheck :: "'p \<Rightarrow> 'v \<Rightarrow> py_error + 'p \<times> int option"
  yreport :: "'p \<Rightarrow> nat \<Rightarrow> ('b \<times> 'n) option \<Rightarrow> py_error + 'p \<times> nat \<times> 'v option"
  ydelivered :: "int \<Rightarrow> int"
  yblkcnt :: nat

datatype ('o, 'v, 'e) epoch_event =
    FastOutput 'o
  | FastReturn
  | ViewChange 'v
  | TcvbaOut int
  | FallbackEvent 'e

datatype ('v, 'q, 'x) epoch_msg = ViewChangeMsg 'v | TcvbaInput int | Fallback 'q | Propose "'x list"

text \<open>
  \<open>y_fast\<close> is the one-place queue \<open>fast_blocks\<close>, \<open>y_delivered\<close> and \<open>y_latest\<close> the block taken out of it
  last and the one put in last; \<open>y_vc\<close> is the state of the view-change greenlet and \<open>y_vc_end\<close> how it
  ended, \<open>y_ready\<close> the event \<open>vc_ready\<close>, \<open>y_tcvba\<close> the queue \<open>tcvba_output\<close>, \<open>y_fallback\<close> the state of
  the fallback round and \<open>y_block\<close> the variable \<open>block\<close>, its set of transactions, as a list. \<open>y_buffer\<close> and
  \<open>y_txcnt\<close> belong to the object and survive the epoch.
\<close>

record ('o, 'p, 'w, 'x) epoch_state =
  y_fast :: "'o option"
  y_delivered :: "'o option"
  y_latest :: "'o option"
  y_vc :: "'p vc_state"
  y_vc_end :: "unit ctl"
  y_ready :: bool
  y_tcvba :: "int option"
  y_fallback :: "'w option"
  y_block :: "'x list option"
  y_txcnt :: nat
  y_buffer :: "'x list"

definition epoch_init :: "'p \<Rightarrow> nat \<Rightarrow> 'x list \<Rightarrow> ('o, 'p, 'w, 'x) epoch_state" where
  "epoch_init p txcnt buffer = \<lparr>y_fast = None, y_delivered = None, y_latest = None, y_vc = vc_init p,
     y_vc_end = Running, y_ready = False, y_tcvba = None, y_fallback = None, y_block = None,
     y_txcnt = txcnt, y_buffer = buffer\<rparr>"

type_synonym ('o, 'p, 'w, 'x, 'v, 'q) epoch_reply =
  "(('o, 'p, 'w, 'x) epoch_state, ('v, 'q, 'x) epoch_msg, int) reply"

definition fastpath_output :: "'o \<Rightarrow> ('o, 'p, 'w, 'x) epoch_state \<Rightarrow> ('o, 'p, 'w, 'x) epoch_state" where
  "fastpath_output ob s =
     (let s1 = (if y_fast s = None then s else s\<lparr>y_delivered := y_fast s, y_fast := None\<rparr>)
      in s1\<lparr>y_latest := Some ob, y_fast := Some ob\<rparr>)"

text \<open>
  The output of the two-value agreement: the epoch ends, or the fallback starts with one transaction
  taken from the buffer and proposed \<open>FALLBACK_BATCH_SIZE\<close> times (\<open>get_nowait\<close> on an empty gevent queue
  raises \<open>queue.Empty\<close>, which \<open>except IndexError\<close> does not catch).
\<close>

definition epoch_decide ::
    "('b, 'n, 'p, 'v) epoch_env \<Rightarrow> nat \<Rightarrow> 'w \<Rightarrow> ('o, 'p, 'w, 'x) epoch_state \<Rightarrow> int \<Rightarrow> ('o, 'p, 'w, 'x, 'v, 'q) epoch_reply" where
  "epoch_decide Y B w s v =
     (if ydelivered Y v > 0 then (s, [], Returned (ydelivered Y v))
      else case y_buffer s of
        [] \<Rightarrow> (s, [], Raised QueueEmpty)
      | tx # rest \<Rightarrow> (s\<lparr>y_buffer := rest, y_fallback := Some w\<rparr>, [Send 0 (Propose (replicate B tx))], Running))"

text \<open>\<open>vc_ready\<close> is set: report, then wait for the two-value agreement.\<close>

definition epoch_report ::
    "('b, 'n, 'p, 'v) epoch_env \<Rightarrow> nat \<Rightarrow> 'w \<Rightarrow> ('b \<times> 'n, 'p, 'w, 'x) epoch_state \<Rightarrow> ('b \<times> 'n, 'p, 'w, 'x, 'v, 'q) epoch_reply" where
  "epoch_report Y B w s =
     (case yreport Y (vc_proofs (y_vc s)) (y_txcnt s) (y_latest s) of
        Inl e \<Rightarrow> (s\<lparr>y_ready := True\<rparr>, [], Raised e)
      | Inr (p, n, payload) \<Rightarrow>
          (let s1 = s\<lparr>y_ready := True, y_vc := (y_vc s)\<lparr>vc_proofs := p\<rparr>, y_txcnt := n\<rparr>;
               ms = (case payload of None \<Rightarrow> [] | Some v \<Rightarrow> [Send (-1) (ViewChangeMsg v)])
           in case y_tcvba s of
                None \<Rightarrow> (s1, ms, Running)
              | Some v \<Rightarrow> (case epoch_decide Y B w s1 v of (s2, ms', c) \<Rightarrow> (s2, ms @ ms', c))))"

definition epoch_viewchange ::
    "('b, 'n, 'p, 'v) epoch_env \<Rightarrow> nat \<Rightarrow> 'w \<Rightarrow> ('b \<times> 'n, 'p, 'w, 'x) epoch_state \<Rightarrow> 'v \<Rightarrow> ('b \<times> 'n, 'p, 'w, 'x, 'v, 'q) epoch_reply" where
  "epoch_viewchange Y B w s v =
     (if y_vc_end s \<noteq> Running then stay s
      else case vc_collect (yquota Y) (ycheck Y) (y_vc s) v of
        (vc, ins, c) \<Rightarrow>
          (let s1 = s\<lparr>y_vc := vc, y_vc_end := c\<rparr>; ms = map (\<lambda>x. case x of Send k m \<Rightarrow> Send k (TcvbaInput m)) ins
           in if c = Returned () \<and> \<not> y_ready s
              then (case epoch_report Y B w s1 of (s2, ms', c') \<Rightarrow> (s2, ms @ ms', c'))
              else (s1, ms, Running)))"

text \<open>
  One event; \<open>Returned d\<close> is the end of the epoch with \<open>d\<close> as its \<open>delivered_slots\<close> (the method itself
  returns nothing). \<open>w\<close> and \<open>rstep\<close> are the initial state and the step function of the fallback round.\<close>

fun epoch_step ::
    "('b, 'n, 'p, 'v) epoch_env \<Rightarrow> nat \<Rightarrow> 'w \<Rightarrow> ('w \<Rightarrow> 'e \<Rightarrow> ('w, 'q, 'x list) reply) \<Rightarrow>
       ('b \<times> 'n, 'p, 'w, 'x) epoch_state \<Rightarrow> ('b \<times> 'n, 'v, 'e) epoch_event \<Rightarrow> ('b \<times> 'n, 'p, 'w, 'x, 'v, 'q) epoch_reply" where
  "epoch_step Y B w rstep s (FastOutput ob) = stay (fastpath_output ob s)"
| "epoch_step Y B w rstep s FastReturn = (if y_ready s then stay s else epoch_report Y B w s)"
| "epoch_step Y B w rstep s (ViewChange v) = epoch_viewchange Y B w s v"
| "epoch_step Y B w rstep s (TcvbaOut v) =
     (if y_tcvba s \<noteq> None then stay s
      else if y_ready s then epoch_decide Y B w (s\<lparr>y_tcvba := Some v\<rparr>) v
      else stay (s\<lparr>y_tcvba := Some v\<rparr>))"
| "epoch_step Y B w rstep s (FallbackEvent e) =
     (case y_fallback s of
        None \<Rightarrow> stay s
      | Some w0 \<Rightarrow>
          (case rstep w0 e of
             (w1, outs, c) \<Rightarrow>
               (let s1 = s\<lparr>y_fallback := Some w1\<rparr>; ms = map (\<lambda>x. case x of Send k m \<Rightarrow> Send k (Fallback m)) outs
                in case c of
                     Running \<Rightarrow> (s1, ms, Running)
                   | Raised x \<Rightarrow> (s1, ms, Raised x)
                   | Returned block \<Rightarrow>
                       if y_txcnt s + yblkcnt Y = 0 then (s1\<lparr>y_block := Some block\<rparr>, ms, Raised ZeroDivisionError)
                       else (s1\<lparr>y_block := Some block, y_txcnt := y_txcnt s + yblkcnt Y\<rparr>, ms, Returned 0))))"

section \<open>Mule and RbcMule\<close>

text \<open>
  Mule's report: the header is computed from the block, the signatures are those of its notarization
  (the comparison of the two is commented out); the average delay divides by the transactions counted.
  A notarization is \<open>(hash, signatures, transactions)\<close>, a block \<open>(sid, slot, parent, payload)\<close>.
\<close>

definition mule_report ::
    "('b \<Rightarrow> 'd) \<Rightarrow> 'p \<Rightarrow> nat \<Rightarrow> (('s \<times> int \<times> 'd \<times> 'b) \<times> ('d \<times> 'g sigmas \<times> nat)) option \<Rightarrow>
       py_error + 'p \<times> nat \<times> ('s, 'd, 'g) mule_vc option" where
  "mule_report dig p txcnt latest =
     (case latest of
        None \<Rightarrow> Inr (p, txcnt, Some (None, None))
      | Some ((sid, slot, hp, payload), (_, sigs, n)) \<Rightarrow>
          if txcnt + n = 0 then Inl ZeroDivisionError
          else Inr (p, txcnt + n, Some (Some (sid, slot, hp, dig payload), Some sigs)))"

definition mule_epoch ::
    "('k, 'd, 'g, 'x) pki_scheme \<Rightarrow> (('s, 'd) header \<Rightarrow> 'd) \<Rightarrow> ('b \<Rightarrow> 'd) \<Rightarrow> nat \<Rightarrow>
       ('s \<times> int \<times> 'd \<times> 'b, 'd \<times> 'g sigmas \<times> nat, unit, ('s, 'd, 'g) mule_vc) epoch_env" where
  "mule_epoch P hsh dig B = \<lparr>yquota = kN P - kf P, ycheck = mule_vc_check P hsh, yreport = mule_report dig,
     ydelivered = (\<lambda>v. max (v - 1) 0), yblkcnt = B * (kN P - kf P)\<rparr>"

text \<open>
  RbcMule's report: the asserts on the own notarization are caught, so that a node whose fast path
  gave something inconsistent reports nothing at all; the division is guarded.
\<close>

definition rbcmule_report ::
    "('k, 'd, 'g, 'x) pki_scheme \<Rightarrow> ('s \<times> 'h \<Rightarrow> 'd) \<Rightarrow> (int \<Rightarrow> 's) \<Rightarrow> 'i \<Rightarrow> nat \<Rightarrow> ('s, 'h, 'g) slot_proofs \<Rightarrow> nat \<Rightarrow>
       (('i \<times> int \<times> nat \<times> 'b) \<times> (int \<times> ('s \<times> 'h \<times> 'g sigmas) \<times> nat)) option \<Rightarrow>
       py_error + ('s, 'h, 'g) slot_proofs \<times> nat \<times> (int option \<times> ('s \<times> 'h \<times> 'g sigmas) option) option" where
  "rbcmule_report P hsh sid epoch_id leader p txcnt latest =
     (case latest of
        None \<Rightarrow> Inr (p, txcnt, Some (None, None))
      | Some ((i, slot', l, _), (slot, proof, n)) \<Rightarrow>
          if epoch_id = i \<and> leader = l \<and> slot' = slot \<and> prbc_validate P hsh (sid slot) proof
          then Inr (p(sid slot \<mapsto> (slot, proof)), if txcnt + n \<noteq> 0 then txcnt + n else txcnt, Some (Some slot, Some proof))
          else Inr (p, txcnt, None))"

definition rbcmule_epoch ::
    "('k, 'd, 'g, 'x) pki_scheme \<Rightarrow> ('s \<times> 'h \<Rightarrow> 'd) \<Rightarrow> (int \<Rightarrow> 's) \<Rightarrow> 'i \<Rightarrow> nat \<Rightarrow> nat \<Rightarrow>
       ('i \<times> int \<times> nat \<times> 'b, int \<times> ('s \<times> 'h \<times> 'g sigmas) \<times> nat, ('s, 'h, 'g) slot_proofs,
        int option \<times> ('s \<times> 'h \<times> 'g sigmas) option) epoch_env" where
  "rbcmule_epoch P hsh sid epoch_id leader B =
     \<lparr>yquota = kN P - kf P, ycheck = rbcmule_vc_check P hsh sid,
      yreport = rbcmule_report P hsh sid epoch_id leader, ydelivered = (\<lambda>v. v), yblkcnt = B * (kN P - kf P)\<rparr>"

text \<open>The predicate of the fallback's vector agreement; unlike Dumbo's it does not keep accepted proofs.\<close>

definition mule_vacs_predicate ::
    "('k, 'd, 'g, 'x) pki_scheme \<Rightarrow> ('s \<times> 'h \<Rightarrow> 'd) \<Rightarrow> (nat \<Rightarrow> 's) \<Rightarrow> ('s, 'h, 'g) proofs \<Rightarrow> nat \<Rightarrow>
       's \<times> 'h \<times> 'g sigmas \<Rightarrow> bool" where
  "mule_vacs_predicate P hsh sid proofs j vj =
     (case proofs (sid j) of
        Some (_, roothash, _) \<Rightarrow> (case vj of (sid', roothash', _) \<Rightarrow> sid j = sid' \<and> roothash = roothash')
      | None \<Rightarrow> prbc_validate P hsh (sid j) vj)"

subsection \<open>The epochs of a run\<close>

text \<open>
  \<open>run_bft\<close>: an epoch at a time; an exception of the epoch ends the run. What an epoch gives is the
  argument.
\<close>

fun mule_run :: "nat \<Rightarrow> nat \<Rightarrow> int ctl \<Rightarrow> (nat, unit, unit) reply" where
  "mule_run K epoch (Raised e) = (epoch, [], Raised e)"
| "mule_run K epoch (Returned d) = (if K \<le> epoch + 1 then (epoch + 1, [], Returned ()) else stay (epoch + 1))"
| "mule_run K epoch Running = stay epoch"

section \<open>The rotating leader\<close>

text \<open>
  The variant without agreement and fallback: after its fast path the node reports as Mule does, and
  the view-change greenlet, once it has \<open>N - f\<close> messages, sends the greatest slot and the header of the
  \<^emph>\<open>last\<close> message to the next leader.
\<close>

record ('o, 's, 'd) rot_state =
  z_fast :: "'o option"
  z_delivered :: "'o option"
  z_latest :: "'o option"
  z_vc :: "unit vc_state"
  z_vc_end :: "unit ctl"
  z_reported :: bool
  z_txcnt :: nat

definition rot_init :: "nat \<Rightarrow> ('o, 's, 'd) rot_state" where
  "rot_init txcnt = \<lparr>z_fast = None, z_delivered = None, z_latest = None, z_vc = vc_init (),
     z_vc_end = Running, z_reported = False, z_txcnt = txcnt\<rparr>"

datatype ('s, 'd, 'g) rot_msg = RotViewChange "('s, 'd, 'g) mule_vc" | NewView nat int "('s, 'd) header option"

definition rot_output :: "'o \<Rightarrow> ('o, 's, 'd) rot_state \<Rightarrow> ('o, 's, 'd) rot_state" where
  "rot_output ob s =
     (let s1 = (if z_fast s = None then s else s\<lparr>z_delivered := z_fast s, z_fast := None\<rparr>)
      in s1\<lparr>z_latest := Some ob, z_fast := Some ob\<rparr>)"

definition rot_viewchange ::
    "('k, 'd, 'g, 'x) pki_scheme \<Rightarrow> (('s, 'd) header \<Rightarrow> 'd) \<Rightarrow> nat \<Rightarrow> ('o, 's, 'd) rot_state \<Rightarrow>
       ('s, 'd, 'g) mule_vc \<Rightarrow> (('o, 's, 'd) rot_state, ('s, 'd, 'g) rot_msg, unit) reply" where
  "rot_viewchange P hsh e s v =
     (if z_vc_end s \<noteq> Running then stay s
      else case vc_collect (kN P - kf P) (mule_vc_check P hsh) (z_vc s) v of
        (vc, ins, c) \<Rightarrow>
          (let s1 = s\<lparr>z_vc := vc, z_vc_end := c\<rparr>;
               ms = map (\<lambda>_. Send (int ((e + 1) mod kN P)) (NewView (e + 1) (vc_max vc) (fst v))) ins
           in (s1, ms, if c = Returned () \<and> z_reported s then Returned () else Running)))"

fun rotating_step ::
    "('k, 'd, 'g, 'x) pki_scheme \<Rightarrow> (('s, 'd) header \<Rightarrow> 'd) \<Rightarrow> ('b \<Rightarrow> 'd) \<Rightarrow> nat \<Rightarrow>
       (('s \<times> int \<times> 'd \<times> 'b) \<times> ('d \<times> 'g sigmas \<times> nat), 's, 'd) rot_state \<Rightarrow>
       (('s \<times> int \<times> 'd \<times> 'b) \<times> ('d \<times> 'g sigmas \<times> nat), ('s, 'd, 'g) mule_vc, unit) epoch_event \<Rightarrow>
       ((('s \<times> int \<times> 'd \<times> 'b) \<times> ('d \<times> 'g sigmas \<times> nat), 's, 'd) rot_state, ('s, 'd, 'g) rot_msg, unit) reply" where
  "rotating_step P hsh dig e s (FastOutput ob) = stay (rot_output ob s)"
| "rotating_step P hsh dig e s FastReturn =
     (if z_reported s then stay s
      else case mule_report dig () (z_txcnt s) (z_latest s) of
        Inl x \<Rightarrow> (s, [], Raised x)
      | Inr (_, n, payload) \<Rightarrow>
          (s\<lparr>z_reported := True, z_txcnt := n\<rparr>,
           (case payload of None \<Rightarrow> [] | Some v \<Rightarrow> [Send (-1) (RotViewChange v)]),
           if z_vc_end s = Returned () then Returned () else Running))"
| "rotating_step P hsh dig e s (ViewChange v) = rot_viewchange P hsh e s v"
| "rotating_step P hsh dig e s _ = stay s"

section \<open>The slot given to the two-value agreement\<close>

text \<open>
  The contract of a check of view-change messages: relative to the set \<open>V\<close> of messages seen, accepted
  slots other than 0 are certified, and the store of proofs stays sound; the node's own report, where it is
  one that \<open>report_in\<close> admits, keeps it sound as well.
\<close>

locale slot_check =
  fixes Y :: "('b, 'n, 'p, 'v) epoch_env"
    and sound :: "'v set \<Rightarrow> 'p \<Rightarrow> bool"
    and certified :: "'v set \<Rightarrow> int \<Rightarrow> bool"
    and report_in :: "'v set \<Rightarrow> 'v option \<Rightarrow> bool"
  assumes check_slot: "sound V p \<Longrightarrow> v \<in> V \<Longrightarrow> ycheck Y p v = Inr (p', Some slot) \<Longrightarrow> slot \<noteq> 0 \<Longrightarrow> certified V slot"
    and check_sound: "sound V p \<Longrightarrow> v \<in> V \<Longrightarrow> ycheck Y p v = Inr (p', r) \<Longrightarrow> sound V p'"
    and report_sound: "sound V p \<Longrightarrow> yreport Y p n l = Inr (p', n', x) \<Longrightarrow> report_in V x \<Longrightarrow> sound V p'"
begin

definition vc_sound :: "'v set \<Rightarrow> 'p vc_state \<Rightarrow> bool" where
  "vc_sound V s \<longleftrightarrow> sound V (vc_proofs s) \<and> (vc_max s = 0 \<or> certified V (vc_max s))"

lemma collect_sound:
  assumes "vc_sound V s" and "v \<in> V" and "vc_collect q (ycheck Y) s v = (s', outs, c)"
  shows "vc_sound V s'" and "Send k m \<in> set outs \<Longrightarrow> m = 0 \<or> certified V m"
proof -
  have c: "slot = 0 \<or> certified V slot" "sound V p'" if "ycheck Y (vc_proofs s) v = Inr (p', Some slot)" for p' slot
    using check_slot [OF _ assms(2) that] check_sound [OF _ assms(2) that] assms(1) by (auto simp: vc_sound_def)
  have n: "sound V p'" if "ycheck Y (vc_proofs s) v = Inr (p', None)" for p'
    using check_sound [OF _ assms(2) that] assms(1) by (auto simp: vc_sound_def)
  show "vc_sound V s'"
    using assms(1,3) c n
    by (auto simp: vc_collect_def vc_sound_def Let_def split: sum.splits option.splits if_splits)
  then show "Send k m \<in> set outs \<Longrightarrow> m = 0 \<or> certified V m"
    using assms(3) by (auto simp: vc_collect_def vc_sound_def Let_def split: sum.splits option.splits if_splits)
qed

end

text \<open>
  What an epoch emits: the reports it broadcasts, and the inputs it puts into the queue of the two-value
  agreement, in their order.
\<close>

definition reports :: "('v, 'q, 'x) epoch_msg out list \<Rightarrow> 'v set" where
  "reports outs = {v. ViewChangeMsg v \<in> out_msg ` set outs}"

definition tcvba_inputs :: "('v, 'q, 'x) epoch_msg out list \<Rightarrow> int list" where
  "tcvba_inputs outs = concat (map (\<lambda>x. case out_msg x of TcvbaInput m \<Rightarrow> [m] | _ \<Rightarrow> []) outs)"

fun viewchanges :: "('o, 'v, 'e) epoch_event list \<Rightarrow> 'v set" where
  "viewchanges [] = {}"
| "viewchanges (ViewChange v # es) = insert v (viewchanges es)"
| "viewchanges (_ # es) = viewchanges es"

lemma out_sets [simp]:
  "reports [] = {}" "tcvba_inputs [] = []"
  "reports (x @ y) = reports x \<union> reports y" "tcvba_inputs (x @ y) = tcvba_inputs x @ tcvba_inputs y"
  by (auto simp: reports_def tcvba_inputs_def)

lemma tcvba_inputs_wrapped:
  "tcvba_inputs (map (\<lambda>x. case x of Send k m \<Rightarrow> Send k (TcvbaInput m)) ins) = map out_msg ins"
  "tcvba_inputs (map (\<lambda>x. case x of Send k m \<Rightarrow> Send k (Fallback m)) fo) = []"
  by (induction ins) (simp_all add: tcvba_inputs_def split: out.split)

lemma decide_outs:
  assumes "epoch_decide Y B w s v = (s', outs, c)"
  shows "reports outs = {}" and "tcvba_inputs outs = []" and "y_vc s' = y_vc s" and "y_vc_end s' = y_vc_end s"
  using assms
  by (auto simp: epoch_decide_def reports_def tcvba_inputs_def split: if_splits list.splits)

lemma report_outs:
  fixes outs :: "('v, 'q, 'x) epoch_msg out list"
  assumes "epoch_report Y B w s = (s', outs, c)"
  shows "tcvba_inputs outs = []" and "y_vc_end s' = y_vc_end s" and "vc_max (y_vc s') = vc_max (y_vc s)"
    and "y_vc s' = y_vc s \<or> (\<exists>p n x. yreport Y (vc_proofs (y_vc s)) (y_txcnt s) (y_latest s) = Inr (p, n, x) \<and>
          vc_proofs (y_vc s') = p \<and> set_option x = reports outs)"
proof -
  have *: "tcvba_inputs outs = [] \<and> y_vc_end s' = y_vc_end s \<and> vc_max (y_vc s') = vc_max (y_vc s) \<and>
    (y_vc s' = y_vc s \<or> (\<exists>p n x. yreport Y (vc_proofs (y_vc s)) (y_txcnt s) (y_latest s) = Inr (p, n, x) \<and>
          vc_proofs (y_vc s') = p \<and> set_option x = reports outs))"
  proof (cases "yreport Y (vc_proofs (y_vc s)) (y_txcnt s) (y_latest s)")
    case (Inl e)
    then show ?thesis using assms by (auto simp: epoch_report_def)
  next
    case (Inr r)
    obtain p n x where r: "r = (p, n, x)" by (cases r)
    define s1 where "s1 = s\<lparr>y_ready := True, y_vc := (y_vc s)\<lparr>vc_proofs := p\<rparr>, y_txcnt := n\<rparr>"
    define ms :: "('v, 'q, 'x) epoch_msg out list" where
      "ms = (case x of None \<Rightarrow> [] | Some v \<Rightarrow> [Send (-1) (ViewChangeMsg v)])"
    have ms: "tcvba_inputs ms = []" "reports ms = set_option x"
      by (auto simp: ms_def tcvba_inputs_def reports_def split: option.splits)
    have s1: "y_vc_end s1 = y_vc_end s" "vc_max (y_vc s1) = vc_max (y_vc s)" "vc_proofs (y_vc s1) = p" "y_tcvba s1 = y_tcvba s"
      by (simp_all add: s1_def)
    have e: "epoch_report Y B w s = (case y_tcvba s1 of
                None \<Rightarrow> (s1, ms, Running)
              | Some v \<Rightarrow> (case epoch_decide Y B w s1 v of (s2, ms', c) \<Rightarrow> (s2, ms @ ms', c)))"
      by (simp add: epoch_report_def Inr r s1_def ms_def Let_def split: option.split)
    show ?thesis
    proof (cases "y_tcvba s1")
      case None
      then show ?thesis using assms e ms s1 Inr r by auto
    next
      case (Some v)
      obtain s2 c' and ms' :: "('v, 'q, 'x) epoch_msg out list" where
        d: "epoch_decide Y B w s1 v = (s2, ms', c')" by (metis prod.collapse)
      then have "s' = s2" "outs = ms @ ms'" using assms e Some by auto
      then show ?thesis using decide_outs [OF d] ms s1 Inr r by auto
    qed
  qed
  then show "tcvba_inputs outs = []" "y_vc_end s' = y_vc_end s" "vc_max (y_vc s') = vc_max (y_vc s)"
    "y_vc s' = y_vc s \<or> (\<exists>p n x. yreport Y (vc_proofs (y_vc s)) (y_txcnt s) (y_latest s) = Inr (p, n, x) \<and>
          vc_proofs (y_vc s') = p \<and> set_option x = reports outs)"
    by blast+
qed

text \<open>One event of an epoch, seen by the view-change greenlet.\<close>

lemma epoch_step_vc:
  fixes outs :: "('v, 'q, 'x) epoch_msg out list"
  assumes "epoch_step Y B w rstep s e = (s', outs, c)"
  shows "(\<exists>v vc ins k. e = ViewChange v \<and> y_vc_end s = Running \<and>
            vc_collect (yquota Y) (ycheck Y) (y_vc s) v = (vc, ins, k) \<and> y_vc_end s' = k \<and>
            tcvba_inputs outs = map out_msg ins \<and> vc_max (y_vc s') = vc_max vc \<and>
            (y_vc s' = vc \<or> (\<exists>p n n' l x. yreport Y (vc_proofs vc) n l = Inr (p, n', x) \<and>
               vc_proofs (y_vc s') = p \<and> set_option x = reports outs))) \<or>
         (y_vc_end s' = y_vc_end s \<and> tcvba_inputs outs = [] \<and> vc_max (y_vc s') = vc_max (y_vc s) \<and>
            (y_vc s' = y_vc s \<or> (\<exists>p n n' l x. yreport Y (vc_proofs (y_vc s)) n l = Inr (p, n', x) \<and>
               vc_proofs (y_vc s') = p \<and> set_option x = reports outs)))"
proof (cases e)
  case (ViewChange v)
  show ?thesis
  proof (cases "y_vc_end s = Running")
    case False
    then show ?thesis using assms ViewChange by (simp add: epoch_viewchange_def)
  next
    case True
    obtain vc ins k where h: "vc_collect (yquota Y) (ycheck Y) (y_vc s) v = (vc, ins, k)"
      by (cases "vc_collect (yquota Y) (ycheck Y) (y_vc s) v")
    define s1 where "s1 = s\<lparr>y_vc := vc, y_vc_end := k\<rparr>"
    define ms :: "('v, 'q, 'x) epoch_msg out list" where
      "ms = map (\<lambda>x. case x of Send k m \<Rightarrow> Send k (TcvbaInput m)) ins"
    have o: "out_msg (case x of Send k m \<Rightarrow> Send k (TcvbaInput m)) = TcvbaInput (out_msg x)" for x :: "int out"
      by (cases x) simp
    have "out_msg ` set ms = TcvbaInput ` out_msg ` set ins"
      by (simp only: ms_def set_map image_image o)
    then have ms: "tcvba_inputs ms = map out_msg ins" "reports ms = {}"
      by (simp_all only: ms_def tcvba_inputs_wrapped(1)) (auto simp: reports_def)
    have s1: "y_vc s1 = vc" "y_vc_end s1 = k" by (simp_all add: s1_def)
    have e: "epoch_step Y B w rstep s e = (if k = Returned () \<and> \<not> y_ready s
              then (case epoch_report Y B w s1 of (s2, ms', c') \<Rightarrow> (s2, ms @ ms', c'))
              else (s1, ms, Running))"
      using True by (simp add: ViewChange epoch_viewchange_def h s1_def ms_def Let_def)
    show ?thesis
    proof (cases "k = Returned () \<and> \<not> y_ready s")
      case True
      obtain s2 c' and ms' :: "('v, 'q, 'x) epoch_msg out list" where
        r: "epoch_report Y B w s1 = (s2, ms', c')" by (metis prod.collapse)
      then have "s' = s2" "outs = ms @ ms'" using assms e True by auto
      then show ?thesis
        using report_outs [OF r] ms s1 h \<open>y_vc_end s = Running\<close> ViewChange by auto
    next
      case False
      then have "s' = s1" "outs = ms" using assms e by auto
      then show ?thesis using ms s1 h \<open>y_vc_end s = Running\<close> ViewChange by auto
    qed
  qed
next
  case FastReturn
  show ?thesis
  proof (cases "y_ready s")
    case False
    then have "epoch_report Y B w s = (s', outs, c)" using assms FastReturn by simp
    from report_outs [OF this] show ?thesis using FastReturn by blast
  qed (use assms FastReturn in simp)
next
  case (TcvbaOut v)
  show ?thesis
  proof (cases "y_tcvba s = None \<and> y_ready s")
    case True
    then have "epoch_decide Y B w (s\<lparr>y_tcvba := Some v\<rparr>) v = (s', outs, c)" using assms TcvbaOut by simp
    from decide_outs [OF this] show ?thesis by simp
  qed (use assms TcvbaOut in \<open>auto split: if_splits\<close>)
next
  case (FallbackEvent ev)
  show ?thesis
  proof (cases "y_fallback s")
    case None
    then show ?thesis using assms FallbackEvent by simp
  next
    case (Some w0)
    obtain w1 fo k where f: "rstep w0 ev = (w1, fo, k)" by (cases "rstep w0 ev")
    have "outs = map (\<lambda>x. case x of Send k m \<Rightarrow> Send k (Fallback m)) fo"
      using assms FallbackEvent Some f by (cases k) (auto simp: Let_def split: if_splits)
    then have "tcvba_inputs outs = []" by (simp add: tcvba_inputs_wrapped(2))
    then show ?thesis using assms FallbackEvent Some f by (cases k) (auto simp: Let_def split: if_splits)
  qed
next
  case (FastOutput ob)
  have "y_vc (fastpath_output ob s) = y_vc s" "y_vc_end (fastpath_output ob s) = y_vc_end s"
    by (simp_all add: fastpath_output_def Let_def)
  then show ?thesis using assms FastOutput by auto
qed

lemma collect_once: "vc_collect q check s v = (s', outs, c) \<Longrightarrow> outs = [] \<or> c = Returned () \<and> length outs = 1"
  by (auto simp: vc_collect_def Let_def split: sum.splits option.splits if_splits)

lemma epoch_inputs_dead:
  assumes "y_vc_end s \<noteq> Running" and "run_loop (epoch_step Y B w rstep) s es = (s', outs, c)"
  shows "tcvba_inputs outs = []"
  using assms
proof (induction es arbitrary: s outs)
  case Nil
  then show ?case by simp
next
  case (Cons e es)
  obtain s1 o1 c1 where h: "epoch_step Y B w rstep s e = (s1, o1, c1)" by (cases "epoch_step Y B w rstep s e")
  from epoch_step_vc [OF h] have d: "y_vc_end s1 \<noteq> Running" "tcvba_inputs o1 = []"
    using Cons.prems(1) by auto
  obtain o2 where o2: "outs = o1 @ o2" "o2 = [] \<or> run_loop (epoch_step Y B w rstep) s1 es = (s', o2, c)"
    using Cons.prems(2) h by (cases c1) (auto split: prod.splits)
  then show ?case using d Cons.IH [OF d(1)] by auto
qed

context slot_check
begin

text \<open>
  In every run of an epoch from a sound store whose reports are admitted, an input of the two-value
  agreement is 0 or certified, and there is at most one.
\<close>

definition reports_in :: "'v set \<Rightarrow> ('v, 'q, 'x) epoch_msg out list \<Rightarrow> bool" where
  "reports_in V outs \<longleftrightarrow> (\<forall>x. set_option x \<subseteq> reports outs \<longrightarrow> report_in V x)"

lemma reports_in_append: "reports_in V (x @ y) \<Longrightarrow> reports_in V x \<and> reports_in V y"
  by (auto simp: reports_in_def)

lemma epoch_step_inputs:
  assumes "vc_sound V (y_vc s)" and "viewchanges [e] \<subseteq> V" and "reports_in V o1"
    and h: "epoch_step Y B w rstep s e = (s1, o1, c1)"
  shows "vc_sound V (y_vc s1) \<and> set (tcvba_inputs o1) \<subseteq> insert 0 {m. certified V m} \<and>
    (y_vc_end s \<noteq> Running \<longrightarrow> y_vc_end s1 \<noteq> Running \<and> tcvba_inputs o1 = []) \<and>
    (tcvba_inputs o1 = [] \<or> length (tcvba_inputs o1) = 1 \<and> y_vc_end s1 \<noteq> Running)"
proof -
  have r: "vc_sound V t" if "yreport Y q n l = Inr (p, n', x)" "sound V q" "vc_proofs t = p" "set_option x = reports o1"
    "vc_max t = 0 \<or> certified V (vc_max t)" for q n l p n' x t
    using report_sound [OF that(2,1)] that assms(3) by (simp add: vc_sound_def reports_in_def)
  from epoch_step_vc [OF h] show ?thesis
  proof (elim disjE exE conjE)
    fix v vc ins k
    assume a: "e = ViewChange v" "y_vc_end s = Running" "vc_collect (yquota Y) (ycheck Y) (y_vc s) v = (vc, ins, k)"
      "y_vc_end s1 = k" "tcvba_inputs o1 = map out_msg ins" "vc_max (y_vc s1) = vc_max vc"
    have v: "v \<in> V" using assms(2) a(1) by simp
    note c = collect_sound [OF assms(1) v a(3)]
    have ins: "set (tcvba_inputs o1) \<subseteq> insert 0 {m. certified V m}"
    proof
      fix m assume "m \<in> set (tcvba_inputs o1)"
      then obtain y where y: "y \<in> set ins" "m = out_msg y" unfolding a(5) by auto
      obtain k0 where "y = Send k0 m" using y(2) by (cases y) simp
      with y(1) have "Send k0 m \<in> set ins" by simp
      from c(2) [OF this] show "m \<in> insert 0 {m. certified V m}" by auto
    qed
    have one: "tcvba_inputs o1 = [] \<or> length (tcvba_inputs o1) = 1 \<and> y_vc_end s1 \<noteq> Running"
      using collect_once [OF a(3)] a(4,5) by (auto simp: length_Suc_conv)
    { assume "y_vc s1 = vc"
      then show ?thesis using c(1) ins one a(2) by simp
    next
      fix p n n' l x
      assume "yreport Y (vc_proofs vc) n l = Inr (p, n', x)" "vc_proofs (y_vc s1) = p" "set_option x = reports o1"
      then have "vc_sound V (y_vc s1)"
        using r [of "vc_proofs vc"] c(1) a(6) by (simp add: vc_sound_def)
      then show ?thesis using ins one a(2) by simp
    }
  next
    assume "y_vc_end s1 = y_vc_end s" "tcvba_inputs o1 = []" "vc_max (y_vc s1) = vc_max (y_vc s)" "y_vc s1 = y_vc s"
    then show ?thesis using assms(1) by simp
  next
    fix p n n' l x
    assume "y_vc_end s1 = y_vc_end s" "tcvba_inputs o1 = []" "vc_max (y_vc s1) = vc_max (y_vc s)"
      "yreport Y (vc_proofs (y_vc s)) n l = Inr (p, n', x)" "vc_proofs (y_vc s1) = p" "set_option x = reports o1"
    then show ?thesis using assms(1) r [of "vc_proofs (y_vc s)"] by (simp add: vc_sound_def)
  qed
qed

lemma epoch_inputs:
  "vc_sound V (y_vc s) \<Longrightarrow> viewchanges es \<subseteq> V \<Longrightarrow> reports_in V outs \<Longrightarrow>
    run_loop (epoch_step Y B w rstep) s es = (s', outs, c) \<Longrightarrow>
    set (tcvba_inputs outs) \<subseteq> insert 0 {m. certified V m} \<and> length (tcvba_inputs outs) \<le> 1 \<and>
    (y_vc_end s \<noteq> Running \<longrightarrow> tcvba_inputs outs = [])"
proof (induction es arbitrary: s outs)
  case Nil
  then show ?case by simp
next
  case (Cons e es)
  obtain s1 o1 c1 where h: "epoch_step Y B w rstep s e = (s1, o1, c1)" by (cases "epoch_step Y B w rstep s e")
  obtain o2 where o2: "outs = o1 @ o2" "o2 = [] \<or> run_loop (epoch_step Y B w rstep) s1 es = (s', o2, c)"
    using Cons.prems(4) h by (cases c1) (auto split: prod.splits)
  have V: "reports_in V o1" "reports_in V o2" using Cons.prems(3) reports_in_append o2(1) by blast+
  have es: "viewchanges es \<subseteq> V" "viewchanges [e] \<subseteq> V" using Cons.prems(2) by (cases e; auto)+
  note step = epoch_step_inputs [OF Cons.prems(1) es(2) V(1) h]
  show ?case
  proof (cases "o2 = []")
    case True
    then show ?thesis using step o2(1) by auto
  next
    case False
    with o2(2) Cons.IH [of s1 o2] step es V(2)
    have ih: "set (tcvba_inputs o2) \<subseteq> insert 0 {m. certified V m} \<and> length (tcvba_inputs o2) \<le> 1 \<and>
      (y_vc_end s1 \<noteq> Running \<longrightarrow> tcvba_inputs o2 = [])" by blast
    then show ?thesis using step o2(1) by auto
  qed
qed

lemma epoch_inputs_init:
  assumes "sound V p" and "viewchanges es \<subseteq> V" and "reports_in V outs"
    and "run_loop (epoch_step Y B w rstep) (epoch_init p n buffer) es = (s', outs, c)"
  shows "set (tcvba_inputs outs) \<subseteq> insert 0 {m. certified V m} \<and> length (tcvba_inputs outs) \<le> 1"
proof -
  have "vc_sound V (y_vc (epoch_init p n buffer :: (_, _, _, _) epoch_state))" for n buffer
    using assms(1) by (simp add: vc_sound_def epoch_init_def vc_init_def)
  from epoch_inputs [OF this assms(2-4)] show ?thesis by blast
qed

end


section \<open>The checks of Mule and of RbcMule\<close>

definition mule_certified ::
    "('k, 'd, 'g, 'x) pki_scheme \<Rightarrow> (('s, 'd) header \<Rightarrow> 'd) \<Rightarrow> ('s, 'd, 'g) mule_vc set \<Rightarrow> int \<Rightarrow> bool" where
  "mule_certified P hsh V m \<longleftrightarrow>
     (\<exists>sid hp d sigs. (Some (sid, m, hp, d), Some sigs) \<in> V \<and> kN P - kf P \<le> length sigs \<and>
        sig_loop P (hsh (sid, m, hp, d)) sigs = Inr ())"

lemma mule_vc_check_slot:
  assumes "v \<in> V" and "mule_vc_check P hsh p v = Inr (p', Some slot)" and "slot \<noteq> 0"
  shows "mule_certified P hsh V slot"
  using assms
  by (fastforce simp: mule_vc_check_def mule_certified_def
      split: option.splits prod.splits if_splits sum.splits py_error.splits)

interpretation mule_check: slot_check "mule_epoch P hsh dig B" "\<lambda>_ _. True" "mule_certified P hsh" "\<lambda>_ _. True" for P hsh dig B
  by unfold_locales (auto simp: mule_epoch_def intro: mule_vc_check_slot)

definition rbcmule_certified ::
    "('k, 'd, 'g, 'x) pki_scheme \<Rightarrow> ('s \<times> 'h \<Rightarrow> 'd) \<Rightarrow> (int \<Rightarrow> 's) \<Rightarrow>
       (int option \<times> ('s \<times> 'h \<times> 'g sigmas) option) set \<Rightarrow> int \<Rightarrow> bool" where
  "rbcmule_certified P hsh sid V m \<longleftrightarrow> (\<exists>q. (Some m, Some q) \<in> V \<and> prbc_validate P hsh (sid m) q)"

definition slot_proofs_sound ::
    "('k, 'd, 'g, 'x) pki_scheme \<Rightarrow> ('s \<times> 'h \<Rightarrow> 'd) \<Rightarrow> (int \<Rightarrow> 's) \<Rightarrow>
       (int option \<times> ('s \<times> 'h \<times> 'g sigmas) option) set \<Rightarrow> ('s, 'h, 'g) slot_proofs \<Rightarrow> bool" where
  "slot_proofs_sound P hsh sid V p \<longleftrightarrow>
     (\<forall>i x. p i = Some x \<longrightarrow> i = sid (fst x) \<and> prbc_validate P hsh (sid (fst x)) (snd x) \<and> (Some (fst x), Some (snd x)) \<in> V)"

lemma slot_proofs_sound_upd:
  assumes "slot_proofs_sound P hsh sid V p" and "prbc_validate P hsh (sid m) q" and "(Some m, Some q) \<in> V"
  shows "slot_proofs_sound P hsh sid V (p(sid m \<mapsto> (m, q)))"
  unfolding slot_proofs_sound_def
proof (intro allI impI)
  fix i x
  assume "(p(sid m \<mapsto> (m, q))) i = Some x"
  then have "i = sid m \<and> x = (m, q) \<or> p i = Some x" by (simp split: if_splits)
  then show "i = sid (fst x) \<and> prbc_validate P hsh (sid (fst x)) (snd x) \<and> (Some (fst x), Some (snd x)) \<in> V"
    using assms unfolding slot_proofs_sound_def by fastforce
qed

lemma rbcmule_vc_check_sound:
  assumes "slot_proofs_sound P hsh sid V p" and "v \<in> V" and "rbcmule_vc_check P hsh sid p v = Inr (p', r)"
  shows "slot_proofs_sound P hsh sid V p'" and "r = Some slot \<Longrightarrow> slot \<noteq> 0 \<Longrightarrow> rbcmule_certified P hsh sid V slot"
proof -
  have "slot_proofs_sound P hsh sid V p' \<and> (r = Some slot \<longrightarrow> slot \<noteq> 0 \<longrightarrow> rbcmule_certified P hsh sid V slot)"
  proof (cases "fst v")
    case None
    then show ?thesis using assms by (cases v) (auto simp: rbcmule_vc_check_def)
  next
    case (Some m)
    obtain q where v: "v = (Some m, q)" using Some by (cases v) simp
    show ?thesis
    proof (cases "p (sid m)")
      case (Some x)
      obtain m' q' where x: "x = (m', q')" by (cases x)
      have "rbcmule_certified P hsh sid V m'" if "p (sid m) = Some (m', q')"
        using assms(1) that unfolding slot_proofs_sound_def rbcmule_certified_def by (metis fst_conv snd_conv)
      then show ?thesis using assms Some x v by (auto simp: rbcmule_vc_check_def split: if_splits)
    next
      case None
      show ?thesis
      proof (cases q)
        case q: (Some q')
        show ?thesis
        proof (cases "prbc_validate P hsh (sid m) q'")
          case True
          then have "p' = p(sid m \<mapsto> (m, q'))" "r = Some m"
            using assms(2,3) v None q by (auto simp: rbcmule_vc_check_def)
          moreover have "rbcmule_certified P hsh sid V m"
            using assms(2) v q True unfolding rbcmule_certified_def by metis
          moreover have "slot_proofs_sound P hsh sid V (p(sid m \<mapsto> (m, q')))"
            using slot_proofs_sound_upd [OF assms(1) True] assms(2) v q by simp
          ultimately show ?thesis by auto
        qed (use assms v None q in \<open>auto simp: rbcmule_vc_check_def\<close>)
      qed (use assms v None in \<open>auto simp: rbcmule_vc_check_def\<close>)
    qed
  qed
  then show "slot_proofs_sound P hsh sid V p'" "r = Some slot \<Longrightarrow> slot \<noteq> 0 \<Longrightarrow> rbcmule_certified P hsh sid V slot"
    by blast+
qed

interpretation rbcmule_check: slot_check "rbcmule_epoch P hsh sid eid l B" "slot_proofs_sound P hsh sid"
    "rbcmule_certified P hsh sid" "\<lambda>V x. set_option x \<subseteq> V" for P hsh sid eid l B
proof unfold_locales
  fix V p v p' slot
  assume "slot_proofs_sound P hsh sid V p" "v \<in> V" "slot \<noteq> 0"
    "ycheck (rbcmule_epoch P hsh sid eid l B) p v = Inr (p', Some slot)"
  then show "rbcmule_certified P hsh sid V slot"
    using rbcmule_vc_check_sound(2) [OF _ _ _ refl] by (simp add: rbcmule_epoch_def)
next
  fix V p v p' r
  assume "slot_proofs_sound P hsh sid V p" "v \<in> V" "ycheck (rbcmule_epoch P hsh sid eid l B) p v = Inr (p', r)"
  then show "slot_proofs_sound P hsh sid V p'"
    using rbcmule_vc_check_sound(1) by (simp add: rbcmule_epoch_def)
next
  fix V p n lat p' n' x
  assume "slot_proofs_sound P hsh sid V p" "yreport (rbcmule_epoch P hsh sid eid l B) p n lat = Inr (p', n', x)"
    "set_option x \<subseteq> V"
  then show "slot_proofs_sound P hsh sid V p'"
    by (auto simp: rbcmule_epoch_def rbcmule_report_def intro: slot_proofs_sound_upd
        split: option.splits prod.splits if_splits)
qed

abbreviation epoch_outs :: "('s, 'm, 'r) reply \<Rightarrow> 'm out list" where
  "epoch_outs r \<equiv> fst (snd r)"

abbreviation epoch_end :: "('s, 'm, 'r) reply \<Rightarrow> 'r ctl" where
  "epoch_end r \<equiv> snd (snd r)"

text \<open>
  C32: view change, what goes into the agreement of Mule. In every run of an epoch, whatever messages
  arrive in whatever order, the node puts at most one input into its two-value agreement, and this is 0 or
  a slot for which one of the view-change messages it received carries a header and at least \<open>N - f\<close>
  signatures on it that all verify; the node's own report does not count.
\<close>

theorem mule_vc_certified:
  fixes es :: "(_, ('s, 'd, 'g) mule_vc, 'e) epoch_event list"
  shows "let ins = tcvba_inputs (epoch_outs (run_loop (epoch_step (mule_epoch P hsh dig B) B w rstep)
                     (epoch_init () n buffer) es))
   in length ins \<le> 1 \<and> set ins \<subseteq> insert 0 {m. mule_certified P hsh (viewchanges es) m}"
proof -
  obtain s' outs c where h: "run_loop (epoch_step (mule_epoch P hsh dig B) B w rstep) (epoch_init () n buffer) es = (s', outs, c)"
    by (cases "run_loop (epoch_step (mule_epoch P hsh dig B) B w rstep) (epoch_init () n buffer) es")
  have "mule_check.reports_in (viewchanges es) outs" by (simp add: mule_check.reports_in_def)
  from mule_check.epoch_inputs_init [OF TrueI order_refl this h] show ?thesis by (simp add: h)
qed

text \<open>
  view change, what goes into the agreement of RbcMule. In every run of an epoch that starts without
  proofs, at most one input goes into the two-value agreement, and this is 0 or a slot for which the node
  received, or itself reported, a broadcast proof that \<open>prbc_validate\<close> accepts under that slot's identity;
  the proofs it stores and reuses for later messages do not let any other slot through.
\<close>

theorem rbcmule_vc_certified:
  fixes es :: "(_, int option \<times> ('s \<times> 'h \<times> 'g sigmas) option, 'e) epoch_event list"
  shows "let outs = epoch_outs (run_loop (epoch_step (rbcmule_epoch P hsh sid eid l B) B w rstep)
                      (epoch_init (\<lambda>_. None) n buffer) es)
   in length (tcvba_inputs outs) \<le> 1 \<and>
      set (tcvba_inputs outs) \<subseteq> insert 0 {m. rbcmule_certified P hsh sid (viewchanges es \<union> reports outs) m}"
proof -
  obtain s' outs c where h: "run_loop (epoch_step (rbcmule_epoch P hsh sid eid l B) B w rstep)
      (epoch_init (\<lambda>_. None) n buffer) es = (s', outs, c)"
    by (cases "run_loop (epoch_step (rbcmule_epoch P hsh sid eid l B) B w rstep) (epoch_init (\<lambda>_. None) n buffer) es")
  have "slot_proofs_sound P hsh sid (viewchanges es \<union> reports outs) (\<lambda>_. None)"
    by (simp add: slot_proofs_sound_def)
  moreover have "rbcmule_check.reports_in (viewchanges es \<union> reports outs) outs"
    by (auto simp: rbcmule_check.reports_in_def)
  ultimately show ?thesis using rbcmule_check.epoch_inputs_init [OF _ _ _ h] by (simp add: h)
qed

text \<open>
  view change, one malformed message. In Mule, whatever the state of an epoch, once a view-change
  message with a header and no signatures arrives, the view-change greenlet is dead (its assertion stands
  outside the \<open>try\<close>): the node never gives its two-value agreement an input any more, whatever
  follows, unless it did so before.
\<close>

theorem mule_view_change_killed:
  "tcvba_inputs (epoch_outs (run_loop (epoch_step (mule_epoch P hsh dig B) B w rstep) s
     (ViewChange (Some h, None) # es))) = []"
proof -
  define s1 where "s1 = s\<lparr>y_vc_end := if y_vc_end s = Running then Raised AssertionError else y_vc_end s\<rparr>"
  have step: "epoch_step (mule_epoch P hsh dig B) B w rstep s (ViewChange (Some h, None)) = (s1, [], Running)"
    by (auto simp: epoch_viewchange_def vc_collect_def mule_vc_check_def mule_epoch_def s1_def Let_def)
  obtain s' outs c where h: "run_loop (epoch_step (mule_epoch P hsh dig B) B w rstep) s1 es = (s', outs, c)"
    by (cases "run_loop (epoch_step (mule_epoch P hsh dig B) B w rstep) s1 es")
  have "y_vc_end s1 \<noteq> Running" by (simp add: s1_def)
  then have "tcvba_inputs outs = []" by (rule epoch_inputs_dead [OF _ h])
  then show ?thesis using step h by simp
qed

section \<open>What an epoch delivers\<close>

fun tcvba_outs :: "('o, 'v, 'e) epoch_event list \<Rightarrow> int list" where
  "tcvba_outs [] = []"
| "tcvba_outs (TcvbaOut v # es) = v # tcvba_outs es"
| "tcvba_outs (_ # es) = tcvba_outs es"

definition hd_option :: "'a list \<Rightarrow> 'a option" where
  "hd_option xs = (case xs of [] \<Rightarrow> None | x # _ \<Rightarrow> Some x)"

fun option_list :: "'a option \<Rightarrow> 'a list" where
  "option_list None = []"
| "option_list (Some x) = [x]"

text \<open>The invariant: nothing is returned and no fallback runs before the agreement has given its output.\<close>

definition epoch_waiting :: "('b, 'n, 'p, 'v) epoch_env \<Rightarrow> int option \<Rightarrow> ('o, 'p, 'w, 'x) epoch_state \<Rightarrow> bool" where
  "epoch_waiting Y r s \<longleftrightarrow> y_tcvba s = r \<and> (y_fallback s \<noteq> None \<longrightarrow> (\<exists>v. r = Some v \<and> ydelivered Y v \<le> 0))"

lemma decide_result:
  assumes "epoch_decide Y B w s v = (s', outs, c)" and "epoch_waiting Y (Some v) s"
  shows "epoch_waiting Y (Some v) s' \<and> (\<forall>d. c = Returned d \<longrightarrow> d = max (ydelivered Y v) 0)"
  using assms by (auto simp: epoch_decide_def epoch_waiting_def split: if_splits list.splits)

lemma report_result:
  fixes outs :: "('v, 'q, 'x) epoch_msg out list"
  assumes "epoch_report Y B w s = (s', outs, c)" and "epoch_waiting Y r s"
  shows "epoch_waiting Y r s' \<and> (\<forall>d. c = Returned d \<longrightarrow> (\<exists>v. r = Some v \<and> d = max (ydelivered Y v) 0))"
proof (cases "yreport Y (vc_proofs (y_vc s)) (y_txcnt s) (y_latest s)")
  case (Inl e)
  then show ?thesis using assms by (auto simp: epoch_report_def epoch_waiting_def)
next
  case (Inr x)
  obtain p n y where x: "x = (p, n, y)" by (cases x)
  define s1 where "s1 = s\<lparr>y_ready := True, y_vc := (y_vc s)\<lparr>vc_proofs := p\<rparr>, y_txcnt := n\<rparr>"
  have w: "epoch_waiting Y r s1" using assms(2) by (simp add: epoch_waiting_def s1_def)
  show ?thesis
  proof (cases r)
    case None
    then show ?thesis using assms w Inr x by (auto simp: epoch_report_def epoch_waiting_def s1_def Let_def)
  next
    case (Some v)
    obtain s2 c' and ms' :: "('v, 'q, 'x) epoch_msg out list" where
      d: "epoch_decide Y B w s1 v = (s2, ms', c')" by (metis prod.collapse)
    have "y_tcvba s = Some v" using assms(2) Some by (simp add: epoch_waiting_def)
    then have "s' = s2" "c = c'"
      using assms(1) d Inr x by (auto simp: epoch_report_def s1_def Let_def)
    then show ?thesis using decide_result [OF d] w Some by simp
  qed
qed


lemma epoch_step_result:
  fixes outs :: "('v, 'q, 'x) epoch_msg out list"
  assumes h: "epoch_step Y B w rstep s e = (s', outs, c)" and wait: "epoch_waiting Y r s"
    and r': "r' = (case r of Some v \<Rightarrow> Some v | None \<Rightarrow> (case tcvba_outs [e] of [] \<Rightarrow> None | v # _ \<Rightarrow> Some v))"
  shows "epoch_waiting Y r' s' \<and> (\<forall>d. c = Returned d \<longrightarrow> (\<exists>v. r' = Some v \<and> d = max (ydelivered Y v) 0))"
proof (cases e)
  case (FastOutput ob)
  have "y_tcvba (fastpath_output ob s) = y_tcvba s" "y_fallback (fastpath_output ob s) = y_fallback s"
    by (simp_all add: fastpath_output_def Let_def)
  then have "epoch_waiting Y r (fastpath_output ob s)" using wait by (simp add: epoch_waiting_def)
  then show ?thesis using h r' FastOutput by (simp split: option.splits)
next
  case FastReturn
  have e: "r' = r" using r' FastReturn by (simp split: option.splits)
  show ?thesis
  proof (cases "y_ready s")
    case True
    then show ?thesis using h wait FastReturn e by simp
  next
    case False
    then have "epoch_report Y B w s = (s', outs, c)" using h FastReturn by simp
    then show ?thesis using report_result [OF _ wait] e by simp
  qed
next
  case (ViewChange v)
  have e: "r' = r" using r' ViewChange by (simp split: option.splits)
  show ?thesis
  proof (cases "y_vc_end s = Running")
    case False
    then show ?thesis using h wait ViewChange e by (simp add: epoch_viewchange_def)
  next
    case True
    obtain vc ins k where q: "vc_collect (yquota Y) (ycheck Y) (y_vc s) v = (vc, ins, k)"
      by (cases "vc_collect (yquota Y) (ycheck Y) (y_vc s) v")
    define s1 where "s1 = s\<lparr>y_vc := vc, y_vc_end := k\<rparr>"
    have w1: "epoch_waiting Y r s1" using wait by (simp add: epoch_waiting_def s1_def)
    obtain s2 c' and ms' :: "('v, 'q, 'x) epoch_msg out list" where
      p: "epoch_report Y B w s1 = (s2, ms', c')" by (metis prod.collapse)
    have "s' = s2 \<and> c = c' \<or> s' = s1 \<and> c = Running"
      using h True ViewChange q p by (auto simp: epoch_viewchange_def s1_def Let_def split: if_splits)
    then show ?thesis using report_result [OF p w1] w1 e by auto
  qed
next
  case (TcvbaOut v)
  show ?thesis
  proof (cases "y_tcvba s = None \<and> y_ready s")
    case True
    then have r: "r = None" "r' = Some v" using wait r' TcvbaOut by (auto simp: epoch_waiting_def)
    have w1: "epoch_waiting Y (Some v) (s\<lparr>y_tcvba := Some v\<rparr>)" using wait r by (simp add: epoch_waiting_def)
    have "epoch_decide Y B w (s\<lparr>y_tcvba := Some v\<rparr>) v = (s', outs, c)" using h TcvbaOut True by simp
    from decide_result [OF this w1] show ?thesis using r by simp
  next
    case False
    then show ?thesis using h wait r' TcvbaOut
      by (cases "y_tcvba s") (auto simp: epoch_waiting_def split: option.splits)
  qed
next
  case (FallbackEvent ev)
  have e: "r' = r" using r' FallbackEvent by (simp split: option.splits)
  show ?thesis
  proof (cases "y_fallback s")
    case None
    then show ?thesis using h wait FallbackEvent e by simp
  next
    case (Some w0)
    then obtain v where v: "r = Some v" "ydelivered Y v \<le> 0" using wait by (auto simp: epoch_waiting_def)
    obtain w1 fo k where f: "rstep w0 ev = (w1, fo, k)" by (cases "rstep w0 ev")
    show ?thesis using h FallbackEvent Some f wait v e
      by (cases k) (auto simp: Let_def epoch_waiting_def split: if_splits)
  qed
qed

lemma epoch_result:
  "epoch_waiting Y r s \<Longrightarrow> run_loop (epoch_step Y B w rstep) s es = (s', outs, Returned d) \<Longrightarrow>
    \<exists>v. hd_option (option_list r @ tcvba_outs es) = Some v \<and> d = max (ydelivered Y v) 0"
proof (induction es arbitrary: s r outs)
  case Nil
  then show ?case by simp
next
  case (Cons e es)
  obtain s1 o1 c1 where h: "epoch_step Y B w rstep s e = (s1, o1, c1)" by (cases "epoch_step Y B w rstep s e")
  define r' where "r' = (case r of Some v \<Rightarrow> Some v | None \<Rightarrow> (case tcvba_outs [e] of [] \<Rightarrow> None | v # _ \<Rightarrow> Some v))"
  note st = epoch_step_result [OF h Cons.prems(1) r'_def]
  have eq: "hd_option (option_list r' @ tcvba_outs es) = hd_option (option_list r @ tcvba_outs (e # es))"
    by (cases e; cases r; cases "tcvba_outs es") (auto simp: r'_def hd_option_def)
  show ?case
  proof (cases c1)
    case Running
    then obtain o2 where "run_loop (epoch_step Y B w rstep) s1 es = (s', o2, Returned d)"
      using Cons.prems(2) h by (auto split: prod.splits)
    from Cons.IH [OF _ this, of r'] st eq show ?thesis by simp
  next
    case (Returned d')
    then have "d = d'" using Cons.prems(2) h by simp
    then obtain v where v: "r' = Some v" "d = max (ydelivered Y v) 0" using st Returned by blast
    then have "hd_option (option_list r @ tcvba_outs (e # es)) = Some v"
      using eq by (simp add: hd_option_def)
    then show ?thesis using v by blast
  next
    case (Raised x)
    then show ?thesis using Cons.prems(2) h by simp
  qed
qed


lemma epoch_result_init:
  assumes "run_loop (epoch_step Y B w rstep) (epoch_init p n buffer) es = (s', outs, Returned d)"
  shows "\<exists>v. hd_option (tcvba_outs es) = Some v \<and> d = max (ydelivered Y v) 0"
proof -
  have "epoch_waiting Y None (epoch_init p n buffer :: (_, _, _, _) epoch_state)" for n buffer
    by (simp add: epoch_waiting_def epoch_init_def)
  from epoch_result [OF this assms] show ?thesis by simp
qed

text \<open>
  epoch agreement. Two nodes whose two-value agreements gave the same first output return the same
  number of delivered slots from the epoch, whatever else each of them saw: fast-path outputs, view-change
  messages, their order, a fallback round, and whatever their buffers and counters were.
\<close>

theorem epoch_agreement:
  assumes "epoch_end (run_loop (epoch_step Y B w rstep) (epoch_init p n buffer) es) = Returned d"
    and "epoch_end (run_loop (epoch_step Y B' w' rstep') (epoch_init p' n' buffer') es') = Returned d'"
    and "hd_option (tcvba_outs es) = hd_option (tcvba_outs es')"
  shows "d = d'"
proof -
  obtain v where v: "hd_option (tcvba_outs es) = Some v" "d = max (ydelivered Y v) 0"
    using epoch_result_init [of Y B w rstep p n buffer es _ _ d] assms(1) by (metis prod.collapse)
  obtain v' where "hd_option (tcvba_outs es') = Some v'" "d' = max (ydelivered Y v') 0"
    using epoch_result_init [of Y B' w' rstep' p' n' buffer' es' _ _ d'] assms(2) by (metis prod.collapse)
  with v assms(3) show ?thesis by simp
qed

definition toy_pki :: "(nat, nat, nat) pki" where
  "toy_pki = \<lparr>kN = 4, kf = 1, kpks = [0, 1, 2, 3], kvr = (\<lambda>k d g. g = 10 * d + k), kmal = (\<lambda>g. False), ksgn = (\<lambda>i d. 10 * d + i)\<rparr>"

definition toy_mule ::
    "(nat \<times> int \<times> nat \<times> nat, nat \<times> nat sigmas \<times> nat, unit, (nat, nat, nat) mule_vc) epoch_env" where
  "toy_mule = mule_epoch toy_pki (\<lambda>(s, slot, d, e). s + nat slot + d + e) id 2"

theorem epoch_agreement_witness:
  "epoch_end (run_loop (epoch_step toy_mule 1 () (\<lambda>w (e :: unit). (w, [] :: unit out list, Running)))
     (epoch_init () 0 [7 :: nat]) [FastReturn, TcvbaOut 3]) = Returned 2 \<and>
   epoch_end (run_loop (epoch_step toy_mule 1 () (\<lambda>w (e :: unit). (w, [] :: unit out list, Running)))
     (epoch_init () 5 ([] :: nat list)) [TcvbaOut 3, FastOutput ((0, 1, 2, 3), (4, [], 6)), FastReturn]) = Returned (2 :: int) \<and>
   (2 :: int) = 2"
proof -
  have a: "epoch_end (run_loop (epoch_step toy_mule 1 () (\<lambda>w (e :: unit). (w, [] :: unit out list, Running)))
     (epoch_init () 0 [7 :: nat]) [FastReturn, TcvbaOut 3]) = Returned 2"
    by (simp add: toy_mule_def mule_epoch_def epoch_init_def epoch_report_def mule_report_def epoch_decide_def
        vc_init_def Let_def)
  have b: "epoch_end (run_loop (epoch_step toy_mule 1 () (\<lambda>w (e :: unit). (w, [] :: unit out list, Running)))
     (epoch_init () 5 ([] :: nat list)) [TcvbaOut 3, FastOutput ((0, 1, 2, 3), (4, [], 6)), FastReturn]) = Returned 2"
    by (simp add: toy_mule_def mule_epoch_def epoch_init_def epoch_report_def mule_report_def epoch_decide_def
        vc_init_def fastpath_output_def Let_def)
  have c: "(2 :: int) = 2" by (rule epoch_agreement [OF a b]) (simp add: hd_option_def)
  show ?thesis by (intro conjI a b c)
qed

section \<open>The division in the report\<close>

text \<open>
  An epoch whose notarized block carries no transaction, in a run that has counted none, ends in a
  \<open>ZeroDivisionError\<close> that the handler does not catch: the node reports nothing and leaves the protocol.
\<close>

lemma mule_report_division:
  assumes "\<not> y_ready s" and "y_latest s = Some ((sid, slot, hp, b), (d, sigs, 0))" and "y_txcnt s = 0"
  shows "epoch_step (mule_epoch P hsh dig B) B w rstep s FastReturn = (s\<lparr>y_ready := True\<rparr>, [], Raised ZeroDivisionError)"
  using assms by (simp add: epoch_report_def mule_report_def mule_epoch_def)

text \<open>
  The new view of the rotating leader carries the greatest slot and the header of the message counted
  last, here none.
\<close>

lemma rot_new_view_header:
  assumes "z_vc_end s = Running" and "kN P - kf P \<le> vc_count (z_vc s) + 1" and "0 \<le> vc_max (z_vc s)"
  shows "epoch_outs (rot_viewchange P hsh e s (None, None)) =
    [Send (int ((e + 1) mod kN P)) (NewView (e + 1) (vc_max (z_vc s)) None)]"
  using assms by (simp add: rot_viewchange_def vc_collect_def mule_vc_check_def Let_def)

end
