(* ===== verification/Dispersal.thy ===== *)
theory Dispersal
  imports RBC_Theorems
begin

text \<open>
  Dispersal and recast, the two halves of the broadcast of \<open>src/dumbomvba/core\<close>:
  \<open>provabledispersalbroadcast\<close> (\<open>provabledispersal.py\<close>) stores one stripe of the leader's value at every
  node and proves it with threshold signatures, \<open>recastsubprotocol\<close> (\<open>rebroadcast.py\<close>) collects the
  stripes again. The handlers are one definition per message tag. Payloads are typed as the code unpacks
  them; the tuples \<open>lock\<close> and \<open>store\<close> of a recast may also be the number 0, here \<open>None\<close>.
\<close>

section \<open>Dispersal\<close>

text \<open>
  \<open>pdes\<close> and \<open>pser\<close> are \<open>deserialize1\<close> and \<open>serialize\<close>; \<open>pstored\<close>, \<open>plocked\<close>, \<open>pready\<close> the hashes of the
  printed tuples that are signed; \<open>psign\<close>, \<open>pshare\<close>, \<open>pcert\<close>, \<open>pcombine\<close> the operations of the keys
  \<open>PK1\<close> and \<open>SK1\<close> (threshold \<open>N - f\<close>), the ones with a 0 those of \<open>PK\<close> and \<open>SK\<close> (threshold \<open>f + 1\<close>).
  A verification is called in an \<open>assert\<close> whose failure is caught, so it is a truth value here.
\<close>

record ('s, 'd, 'r, 'g) pd_env =
  pE :: rbc_env
  pdes :: "'r \<Rightarrow> py_error + 'g"
  pser :: "'g \<Rightarrow> 'r"
  pstored :: "'s \<Rightarrow> bytes \<Rightarrow> 'd"
  plocked :: "'s \<Rightarrow> bytes \<Rightarrow> 'd"
  pready :: "'s \<Rightarrow> 'd"
  psign :: "nat \<Rightarrow> 'd \<Rightarrow> 'g"
  pshare :: "'g \<Rightarrow> nat \<Rightarrow> 'd \<Rightarrow> bool"
  pcert :: "'g \<Rightarrow> 'd \<Rightarrow> bool"
  pcombine :: "(nat, 'g) odict \<Rightarrow> py_error + 'g"
  psign0 :: "nat \<Rightarrow> 'd \<Rightarrow> 'g"
  pshare0 :: "'g \<Rightarrow> nat \<Rightarrow> 'd \<Rightarrow> bool"
  pcert0 :: "'g \<Rightarrow> 'd \<Rightarrow> bool"
  pcombine0 :: "(nat, 'g) odict \<Rightarrow> py_error + 'g"

abbreviation pN :: "('s, 'd, 'r, 'g) pd_env \<Rightarrow> nat" where "pN D \<equiv> eN (pE D)"
abbreviation pf :: "('s, 'd, 'r, 'g) pd_env \<Rightarrow> nat" where "pf D \<equiv> ef (pE D)"
abbreviation pleader :: "('s, 'd, 'r, 'g) pd_env \<Rightarrow> nat" where "pleader D \<equiv> eleader (pE D)"

datatype ('s, 'r) pd_msg =
    STORE 's bytes bytes "bytes list"
  | STORED 's 'r
  | LOCK 's bytes 'r
  | LOCKED 's 'r

type_synonym stripe_store = "bytes \<times> nat \<times> bytes \<times> bytes list"

datatype ('s, 'g) pd_out = OutStore 's stripe_store | OutLock 's bytes 'g | OutDone 's bytes 'g

text \<open>
  \<open>pd_root\<close> is the variable \<open>roothash\<close>, unbound at first in a node that is not the leader; \<open>pd_outs\<close> is
  what was given to \<open>output\<close>. The flag \<open>stop\<close> is never set: \<open>abandon\<close> assigns a variable of its own.
\<close>

record ('s, 'g) pd_state =
  pd_root :: "bytes option"
  pd_store :: "stripe_store option"
  pd_lock :: "(bytes \<times> 'g) option"
  pd_recstored :: "nat set"
  pd_stored :: "bytes \<Rightarrow> nat set"
  pd_stored_shares :: "(nat, 'g) odict"
  pd_reclocked :: "nat set"
  pd_locked :: "bytes \<Rightarrow> nat set"
  pd_locked_shares :: "(nat, 'g) odict"
  pd_locksend :: bool
  pd_donesend :: bool
  pd_outs :: "('s, 'g) pd_out list"

definition pd_init :: "('s, 'g) pd_state" where
  "pd_init = \<lparr>pd_root = None, pd_store = None, pd_lock = None, pd_recstored = {}, pd_stored = (\<lambda>_. {}),
     pd_stored_shares = [], pd_reclocked = {}, pd_locked = (\<lambda>_. {}), pd_locked_shares = [],
     pd_locksend = False, pd_donesend = False, pd_outs = []\<rparr>"

type_synonym ('s, 'r, 'g) pd_reply = "(('s, 'g) pd_state, ('s, 'r) pd_msg, int) reply"

definition store_messages :: "('s, 'd, 'r, 'g) pd_env \<Rightarrow> 's \<Rightarrow> bytes list \<Rightarrow> bytes list \<Rightarrow>
    py_error + bytes \<times> ('s, 'r) pd_msg out list" where
  "store_messages D sid ss mt =
     res_bind (py_index mt 1) (\<lambda>root.
       res_bind (res_map (\<lambda>i. res_bind (getMerkleBranch i mt) (\<lambda>br.
         res_bind (py_index ss (int i)) (\<lambda>st. Inr (Send (int i) (STORE sid root st br))))) [0..<pN D])
       (\<lambda>ms. Inr (root, ms)))"

definition pd_start :: "('s, 'd, 'r, 'g) pd_env \<Rightarrow> 's \<Rightarrow> nat \<Rightarrow> bytes \<Rightarrow>
    py_error + ('s, 'g) pd_state \<times> ('s, 'r) pd_msg out list" where
  "pd_start D sid pid m =
     (if \<not> (3 * pf D + 1 \<le> pN D \<and> pleader D < pN D \<and> pid < pN D) then Inl AssertionError
      else if pid = pleader D then
        res_bind (encode (efe (pE D)) (eK (pE D)) (pN D) m) (\<lambda>ss.
          res_bind (merkleTree (eH (pE D)) ss) (\<lambda>mt.
            res_bind (store_messages D sid ss mt) (\<lambda>(root, ms). Inr (pd_init\<lparr>pd_root := Some root\<rparr>, ms))))
      else Inr (pd_init, []))"

text \<open>
  Every message binds \<open>sid\<close>, and \<open>STORE\<close> and \<open>LOCK\<close> bind \<open>roothash\<close>, before the sender is looked at.
\<close>

definition pd_on_store :: "('s, 'd, 'r, 'g) pd_env \<Rightarrow> nat \<Rightarrow> ('s, 'g) pd_state \<Rightarrow> nat \<Rightarrow> 's \<Rightarrow> bytes \<Rightarrow> bytes \<Rightarrow>
    bytes list \<Rightarrow> ('s, 'r, 'g) pd_reply" where
  "pd_on_store D pid s sender sid root stripe branch =
     (let s1 = s\<lparr>pd_root := Some root\<rparr> in
      if sender \<noteq> pleader D then stay s1
      else if pd_store s \<noteq> None then stay s1
      else if \<not> merkle_ok (eH (pE D)) (pN D) stripe root branch pid then stay s1
      else let store = (root, pid, stripe, branch);
               s2 = s1\<lparr>pd_store := Some store, pd_outs := pd_outs s1 @ [OutStore sid store]\<rparr>
        in (s2, [Send (int (pleader D)) (STORED sid (pser D (psign D pid (pstored D sid root))))],
            if pid \<noteq> pleader D \<and> pd_lock s2 \<noteq> None then Returned 1 else Running))"

definition pd_on_stored :: "('s, 'd, 'r, 'g) pd_env \<Rightarrow> nat \<Rightarrow> ('s, 'g) pd_state \<Rightarrow> nat \<Rightarrow> 's \<Rightarrow> 'r \<Rightarrow>
    ('s, 'r, 'g) pd_reply" where
  "pd_on_stored D pid s sender sid raw =
     (case pdes D raw of
        Inl e \<Rightarrow> (s, [], Raised e)
      | Inr sigma \<Rightarrow>
          if pid \<noteq> pleader D then stay s
          else if sender \<in> pd_recstored s then stay s
          else case pd_root s of
            None \<Rightarrow> (s, [], Raised NameError)
          | Some root \<Rightarrow>
              if \<not> pshare D sigma sender (pstored D sid root) then stay s
              else let s1 = s\<lparr>pd_recstored := insert sender (pd_recstored s),
                         pd_stored := (pd_stored s)(root := insert sender (pd_stored s root)),
                         pd_stored_shares := od_set sender sigma (pd_stored_shares s)\<rparr> in
                if 2 * pf D + 1 \<le> card (pd_stored s1 root) \<and> \<not> pd_locksend s1
                then (case pcombine D (take (pN D - pf D) (pd_stored_shares s1)) of
                        Inl e \<Rightarrow> (s1, [], Raised e)
                      | Inr Sigma1 \<Rightarrow>
                          (s1\<lparr>pd_locksend := True\<rparr>, to_all (pN D) (LOCK sid root (pser D Sigma1)), Running))
                else stay s1)"

definition pd_on_lock :: "('s, 'd, 'r, 'g) pd_env \<Rightarrow> nat \<Rightarrow> ('s, 'g) pd_state \<Rightarrow> nat \<Rightarrow> 's \<Rightarrow> bytes \<Rightarrow> 'r \<Rightarrow>
    ('s, 'r, 'g) pd_reply" where
  "pd_on_lock D pid s sender sid root raw =
     (let s1 = s\<lparr>pd_root := Some root\<rparr> in
      case pdes D raw of
        Inl e \<Rightarrow> (s1, [], Raised e)
      | Inr Sigma1 \<Rightarrow>
          if sender \<noteq> pleader D then stay s1
          else if pd_lock s \<noteq> None then stay s1
          else if \<not> pcert D Sigma1 (pstored D sid root) then stay s1
          else let s2 = s1\<lparr>pd_lock := Some (root, Sigma1), pd_outs := pd_outs s1 @ [OutLock sid root Sigma1]\<rparr>
            in (s2, [Send (int (pleader D)) (LOCKED sid (pser D (psign D pid (plocked D sid root))))],
                if pid \<noteq> pleader D \<and> pd_store s2 \<noteq> None then Returned 1 else Running))"

definition pd_on_locked :: "('s, 'd, 'r, 'g) pd_env \<Rightarrow> nat \<Rightarrow> ('s, 'g) pd_state \<Rightarrow> nat \<Rightarrow> 's \<Rightarrow> 'r \<Rightarrow>
    ('s, 'r, 'g) pd_reply" where
  "pd_on_locked D pid s sender sid raw =
     (case pdes D raw of
        Inl e \<Rightarrow> (s, [], Raised e)
      | Inr sigma2 \<Rightarrow>
          if pid \<noteq> pleader D then stay s
          else if sender \<in> pd_reclocked s then stay s
          else case pd_root s of
            None \<Rightarrow> (s, [], Raised NameError)
          | Some root \<Rightarrow>
              if \<not> pshare D sigma2 sender (plocked D sid root) then stay s
              else let s1 = s\<lparr>pd_reclocked := insert sender (pd_reclocked s),
                         pd_locked := (pd_locked s)(root := insert sender (pd_locked s root)),
                         pd_locked_shares := od_set sender sigma2 (pd_locked_shares s)\<rparr> in
                if 2 * pf D + 1 \<le> card (pd_locked s1 root) \<and> \<not> pd_donesend s1
                then (case pcombine D (take (pN D - pf D) (pd_locked_shares s1)) of
                        Inl e \<Rightarrow> (s1, [], Raised e)
                      | Inr Sigma2 \<Rightarrow>
                          (s1\<lparr>pd_donesend := True, pd_outs := pd_outs s1 @ [OutDone sid root Sigma2]\<rparr>, [], Returned 1))
                else stay s1)"

fun provabledispersalbroadcast ::
    "('s, 'd, 'r, 'g) pd_env \<Rightarrow> nat \<Rightarrow> ('s, 'g) pd_state \<Rightarrow> nat \<times> ('s, 'r) pd_msg \<Rightarrow> ('s, 'r, 'g) pd_reply" where
  "provabledispersalbroadcast D pid s (q, STORE sid root stripe branch) = pd_on_store D pid s q sid root stripe branch"
| "provabledispersalbroadcast D pid s (q, STORED sid raw) = pd_on_stored D pid s q sid raw"
| "provabledispersalbroadcast D pid s (q, LOCK sid root raw) = pd_on_lock D pid s q sid root raw"
| "provabledispersalbroadcast D pid s (q, LOCKED sid raw) = pd_on_locked D pid s q sid raw"

section \<open>Recast\<close>

datatype ('s, 'r) rc_msg =
    RCLOCK 's "(bytes \<times> 'r) option"
  | RCSTORE 's "(bytes \<times> int \<times> bytes \<times> bytes list) option"

record rc_state =
  rc_locksend :: bool
  rc_storerec :: "bool list"
  rc_commit :: "bytes \<Rightarrow> bytes option list"

definition rc_init :: "nat \<Rightarrow> rc_state" where
  "rc_init N = \<lparr>rc_locksend = False, rc_storerec = replicate N False, rc_commit = (\<lambda>_. replicate N None)\<rparr>"

text \<open>The tests \<open>lock != ()\<close> and \<open>store != ()\<close> hold for the number 0 as well, so both are always sent.\<close>

definition rc_start :: "('s, 'd, 'r, 'g) pd_env \<Rightarrow> 's \<Rightarrow> (bytes \<times> nat \<times> bytes \<times> bytes list) option \<Rightarrow> (bytes \<times> 'r) option \<Rightarrow>
    ('s, 'r) rc_msg out list" where
  "rc_start D sid store lock =
     to_all (pN D) (RCLOCK sid lock) @
     to_all (pN D) (RCSTORE sid (map_option (\<lambda>(root, i, stripe, br). (root, int i, stripe, br)) store))"

text \<open>The result when enough stripes are there; \<open>None\<close> is the number 0.\<close>

definition rc_decode :: "('s, 'd, 'r, 'g) pd_env \<Rightarrow> bytes option list \<Rightarrow> bytes \<Rightarrow> py_error + bytes option" where
  "rc_decode D ss root =
     res_bind (decode (efd (pE D)) (pf D + 1) (pN D) ss) (\<lambda>v.
       res_bind (encode (efe (pE D)) (pf D + 1) (pN D) v) (\<lambda>code.
         res_bind (tree_root (eH (pE D)) code) (\<lambda>r. Inr (if r = root then Some v else None))))"

definition rc_on_lock :: "('s, 'd, 'r, 'g) pd_env \<Rightarrow> rc_state \<Rightarrow> 's \<Rightarrow> (bytes \<times> 'r) option \<Rightarrow>
    (rc_state, ('s, 'r) rc_msg, bytes option) reply" where
  "rc_on_lock D s sid lock =
     (case lock of
        None \<Rightarrow> (s, [], Raised TypeError)
      | Some (root, raw) \<Rightarrow>
          (case pdes D raw of
             Inl e \<Rightarrow> stay s
           | Inr Sigma1 \<Rightarrow>
               if \<not> pcert D Sigma1 (pstored D sid root) then stay s
               else let s1 = s\<lparr>rc_locksend := True\<rparr>;
                        ms = (if rc_locksend s then [] else to_all (pN D) (RCLOCK sid lock))
                 in (s1, ms, if pf D + 1 \<le> present (rc_commit s1 root)
                             then raise_or (rc_decode D (rc_commit s1 root) root) else Running)))"

text \<open>
  The variable \<open>sender\<close> is bound to the index inside the message; a negative index reads the list from
  its end and is then refused by \<open>merkleVerify\<close>.
\<close>

definition rc_on_store :: "('s, 'd, 'r, 'g) pd_env \<Rightarrow> rc_state \<Rightarrow> (bytes \<times> int \<times> bytes \<times> bytes list) option \<Rightarrow>
    (rc_state, ('s, 'r) rc_msg, bytes option) reply" where
  "rc_on_store D s store =
     (case store of
        None \<Rightarrow> (s, [], Raised TypeError)
      | Some (root, i, stripe, branch) \<Rightarrow>
          (case py_index (rc_storerec s) i of
             Inl e \<Rightarrow> (s, [], Raised e)
           | Inr known \<Rightarrow>
               if known then stay s
               else if i < 0 \<or> \<not> merkle_ok (eH (pE D)) (pN D) stripe root branch (nat i) then stay s
               else stay (s\<lparr>rc_storerec := (rc_storerec s)[nat i := True],
                            rc_commit := (rc_commit s)(root := (rc_commit s root)[nat i := Some stripe])\<rparr>)))"

fun recastsubprotocol :: "('s, 'd, 'r, 'g) pd_env \<Rightarrow> rc_state \<Rightarrow> nat \<times> ('s, 'r) rc_msg \<Rightarrow>
    (rc_state, ('s, 'r) rc_msg, bytes option) reply" where
  "recastsubprotocol D s (q, RCLOCK sid lock) = rc_on_lock D s sid lock"
| "recastsubprotocol D s (q, RCSTORE sid store) = rc_on_store D s store"


section \<open>What a recast holds\<close>

definition rc_valid :: "('s, 'd, 'r, 'g) pd_env \<Rightarrow> (nat \<times> ('s, 'r) rc_msg) set \<Rightarrow> bytes \<Rightarrow> nat \<Rightarrow> bytes \<Rightarrow> bytes list \<Rightarrow> bool" where
  "rc_valid D X root i stripe branch \<longleftrightarrow>
     (\<exists>q sid. (q, RCSTORE sid (Some (root, int i, stripe, branch))) \<in> X) \<and>
     merkle_ok (eH (pE D)) (pN D) stripe root branch i"

definition rc_proved :: "('s, 'd, 'r, 'g) pd_env \<Rightarrow> (nat \<times> ('s, 'r) rc_msg) set \<Rightarrow> bytes \<Rightarrow> nat \<Rightarrow> bytes \<Rightarrow> bool" where
  "rc_proved D X root i stripe \<longleftrightarrow> (\<exists>branch. rc_valid D X root i stripe branch)"

definition rc_inv :: "('s, 'd, 'r, 'g) pd_env \<Rightarrow> (nat \<times> ('s, 'r) rc_msg) set \<Rightarrow> rc_state \<Rightarrow> bool" where
  "rc_inv D X s \<longleftrightarrow> length (rc_storerec s) = pN D \<and> (\<forall>root. length (rc_commit s root) = pN D) \<and>
     (\<forall>root i stripe. i < pN D \<longrightarrow> rc_commit s root ! i = Some stripe \<longrightarrow> rc_proved D X root i stripe)"

lemma rc_inv_init: "rc_inv D X (rc_init (pN D))"
  by (simp add: rc_inv_def rc_init_def)

lemma rc_inv_upd:
  assumes "rc_inv D X s" and "rc_proved D X root n stripe" and "n < pN D"
  shows "rc_inv D X (s\<lparr>rc_storerec := (rc_storerec s)[n := True],
                 rc_commit := (rc_commit s)(root := (rc_commit s root)[n := Some stripe])\<rparr>)"
  using assms by (auto simp: rc_inv_def nth_list_update split: if_splits)

lemma rc_store_step:
  assumes "rc_inv D X s" and "(q, RCSTORE sid (Some (root, i, stripe, branch))) \<in> X"
  shows "rc_on_store D s (Some (root, i, stripe, branch)) = stay s \<or>
    (\<exists>e. rc_on_store D s (Some (root, i, stripe, branch)) = (s, [], Raised e)) \<or>
    (\<exists>n. i = int n \<and> n < pN D \<and> \<not> rc_storerec s ! n \<and> rc_valid D X root n stripe branch \<and>
       rc_on_store D s (Some (root, i, stripe, branch)) =
         stay (s\<lparr>rc_storerec := (rc_storerec s)[n := True],
                 rc_commit := (rc_commit s)(root := (rc_commit s root)[n := Some stripe])\<rparr>))"
proof (cases "py_index (rc_storerec s) i")
  case (Inl e)
  then show ?thesis by (simp add: rc_on_store_def)
next
  case (Inr known)
  show ?thesis
  proof (cases "known \<or> i < 0 \<or> \<not> merkle_ok (eH (pE D)) (pN D) stripe root branch (nat i)")
    case True
    then show ?thesis using Inr by (auto simp: rc_on_store_def)
  next
    case False
    define n where "n = nat i"
    have i: "i = int n" using False by (simp add: n_def)
    have n: "n < pN D" using False by (auto simp: n_def dest: merkle_ok_index)
    have "py_index (rc_storerec s) i = Inr (rc_storerec s ! n)"
      using n assms(1) i py_index_nonneg [of n "rc_storerec s"] by (simp add: rc_inv_def)
    then have new: "\<not> rc_storerec s ! n" using Inr False by simp
    have ok: "merkle_ok (eH (pE D)) (pN D) stripe root branch n" using False by (simp add: n_def)
    have v: "rc_valid D X root n stripe branch"
      unfolding rc_valid_def using assms(2) [unfolded i] ok by blast
    have "rc_on_store D s (Some (root, i, stripe, branch)) =
        stay (s\<lparr>rc_storerec := (rc_storerec s)[n := True],
                rc_commit := (rc_commit s)(root := (rc_commit s root)[n := Some stripe])\<rparr>)"
      using Inr False i ok by (simp add: rc_on_store_def)
    with i n new v show ?thesis by blast
  qed
qed

lemma rc_lock_step:
  assumes "rc_on_lock D s sid lock = (s', outs, c)"
  shows "rc_commit s' = rc_commit s \<and> rc_storerec s' = rc_storerec s \<and>
    (\<forall>x. c = Returned x \<longrightarrow> (\<exists>root raw Sigma1. lock = Some (root, raw) \<and> pdes D raw = Inr Sigma1 \<and>
       pcert D Sigma1 (pstored D sid root) \<and> pf D + 1 \<le> present (rc_commit s root) \<and>
       rc_decode D (rc_commit s root) root = Inr x))"
proof (cases lock)
  case None
  then show ?thesis using assms by (auto simp: rc_on_lock_def)
next
  case (Some x)
  obtain root raw where x: "x = (root, raw)" by (cases x)
  show ?thesis
  proof (cases "pdes D raw")
    case (Inl e)
    then show ?thesis using assms Some x by (simp add: rc_on_lock_def)
  next
    case (Inr Sigma1)
    show ?thesis
    proof (cases "pcert D Sigma1 (pstored D sid root)")
      case True
      have "s' = s\<lparr>rc_locksend := True\<rparr>"
        "c = (if pf D + 1 \<le> present (rc_commit s root) then raise_or (rc_decode D (rc_commit s root) root) else Running)"
        using assms Some x Inr True by (auto simp: rc_on_lock_def Let_def)
      then show ?thesis using Some x Inr True by (auto simp: raise_or_def split: if_splits sum.splits)
    qed (use assms Some x Inr in \<open>simp add: rc_on_lock_def\<close>)
  qed
qed

lemma rc_step_inv:
  assumes "rc_inv D X s" and "e \<in> X" and "recastsubprotocol D s e = (s', outs, c)"
  shows "rc_inv D X s'"
proof -
  obtain q m where e: "e = (q, m)" by (cases e)
  show ?thesis
  proof (cases m)
    case (RCLOCK sid lock)
    then show ?thesis using rc_lock_step [of D s sid lock s' outs c] assms e by (simp add: rc_inv_def)
  next
    case (RCSTORE sid store)
    show ?thesis
    proof (cases store)
      case None
      then show ?thesis using assms e RCSTORE by (simp add: rc_on_store_def)
    next
      case (Some x)
      obtain root i stripe branch where x: "x = (root, i, stripe, branch)" by (cases x)
      have h: "rc_on_store D s (Some (root, i, stripe, branch)) = (s', outs, c)" "(q, RCSTORE sid (Some (root, i, stripe, branch))) \<in> X"
        using assms(2,3) e RCSTORE Some x by simp_all
      from rc_store_step [OF assms(1) h(2)] show ?thesis
      proof (elim disjE exE conjE)
        fix n
        assume n: "n < pN D" "rc_valid D X root n stripe branch" and r: "rc_on_store D s (Some (root, i, stripe, branch)) =
          stay (s\<lparr>rc_storerec := (rc_storerec s)[n := True],
                 rc_commit := (rc_commit s)(root := (rc_commit s root)[n := Some stripe])\<rparr>)"
        then have "rc_proved D X root n stripe" by (auto simp: rc_proved_def)
        from rc_inv_upd [OF assms(1) this n(1)] h(1) r show ?thesis by simp
      qed (use assms(1) h(1) in simp_all)
    qed
  qed
qed

text \<open>
  Genuine stripes give the value back. Recast takes \<open>K = f + 1\<close>; the dispersal, as the broadcasts do, takes
  \<open>K = N - 2f\<close>, which is the same number only for \<open>N = 3f + 1\<close>.
\<close>

definition rc_coder :: "('s, 'd, 'r, 'g) pd_env \<Rightarrow> fec_encoder \<times> fec_decoder \<times> nat \<times> nat" where
  "rc_coder D = (efe (pE D), efd (pE D), pf D + 1, pN D)"

definition rc_code :: "('s, 'd, 'r, 'g) pd_env \<Rightarrow> bytes \<Rightarrow> bytes list \<Rightarrow> bytes \<Rightarrow> bool" where
  "rc_code D v code root \<longleftrightarrow>
     encode (efe (pE D)) (pf D + 1) (pN D) v = Inr code \<and> tree_root (eH (pE D)) code = Inr root"

definition rc_bound :: "('s, 'd, 'r, 'g) pd_env \<Rightarrow> bytes list \<Rightarrow> bytes \<Rightarrow> (nat \<times> ('s, 'r) rc_msg) set \<Rightarrow> bool" where
  "rc_bound D code root X \<longleftrightarrow>
     (\<forall>i stripe branch. rc_valid D X root i stripe branch \<longrightarrow> branch_bound (eH (pE D)) code stripe branch i)"

lemma rc_decode_genuine:
  assumes "coder_ok (rc_coder D)" and "rc_code D v code root" and "rc_bound D code root X"
    and "rc_inv D X s" and "pf D + 1 \<le> present (rc_commit s root)"
  shows "rc_decode D (rc_commit s root) root = Inr (Some v)"
proof -
  have len: "length code = pN D"
    using coder.enc_length [of "rc_coder D" v code] assms(1,2) by (simp add: rc_coder_def rc_code_def)
  have root: "tree_root (eH (pE D)) code = Inr root" using assms(2) by (simp add: rc_code_def)
  have entries: "\<forall>i stripe. i < length (rc_commit s root) \<longrightarrow> rc_commit s root ! i = Some stripe \<longrightarrow>
      (\<exists>br. merkle_ok (eH (pE D)) (length code) stripe root br i \<and> branch_bound (eH (pE D)) code stripe br i)"
  proof (intro allI impI)
    fix i stripe
    assume i: "i < length (rc_commit s root)" "rc_commit s root ! i = Some stripe"
    then have "rc_proved D X root i stripe" using assms(4) by (simp add: rc_inv_def)
    then obtain br where v: "rc_valid D X root i stripe br" by (auto simp: rc_proved_def)
    moreover from v assms(3) have "branch_bound (eH (pE D)) code stripe br i" unfolding rc_bound_def by blast
    ultimately show "\<exists>br. merkle_ok (eH (pE D)) (length code) stripe root br i \<and> branch_bound (eH (pE D)) code stripe br i"
      using len by (auto simp: rc_valid_def)
  qed
  have "length (rc_commit s root) = length code" using assms(4) len by (simp add: rc_inv_def)
  from mk.proved_entries [OF root this entries] this have "consistent code (rc_commit s root)"
    by (simp add: consistent_def)
  from coder.dec_enc [of "rc_coder D" v code, OF assms(1) _ this] assms(2,5)
  have "decode (efd (pE D)) (pf D + 1) (pN D) (rc_commit s root) = Inr v"
    by (simp add: rc_coder_def rc_code_def)
  then show ?thesis using assms(2) root by (simp add: rc_decode_def rc_code_def res_bind_def)
qed


text \<open>What a return of the loop means.\<close>

lemma rc_returned:
  "rc_inv D X s \<Longrightarrow> set es \<subseteq> X \<Longrightarrow> run_loop (recastsubprotocol D) s es = (s', outs, Returned x) \<Longrightarrow>
    \<exists>l q sid root raw Sigma1. rc_inv D X l \<and> (q, RCLOCK sid (Some (root, raw))) \<in> set es \<and> pdes D raw = Inr Sigma1 \<and>
      pcert D Sigma1 (pstored D sid root) \<and> pf D + 1 \<le> present (rc_commit l root) \<and>
      rc_decode D (rc_commit l root) root = Inr x"
proof (induction es arbitrary: s outs)
  case Nil
  then show ?case by simp
next
  case (Cons e es)
  obtain s1 o1 c1 where h: "recastsubprotocol D s e = (s1, o1, c1)" by (cases "recastsubprotocol D s e")
  have i1: "rc_inv D X s1" using rc_step_inv [OF Cons.prems(1) _ h] Cons.prems(2) by simp
  show ?case
  proof (cases c1)
    case Running
    then obtain o2 where "run_loop (recastsubprotocol D) s1 es = (s', o2, Returned x)"
      using Cons.prems(3) h by (auto split: prod.splits)
    from Cons.IH [OF i1 _ this] Cons.prems(2) show ?thesis by (meson list.set_intros(2) set_subset_Cons subset_trans)
  next
    case (Returned y)
    obtain q m where e: "e = (q, m)" by (cases e)
    have y: "y = x" using Cons.prems(3) h Returned by simp
    show ?thesis
    proof (cases m)
      case (RCLOCK sid lock)
      then have "rc_on_lock D s sid lock = (s1, o1, Returned x)" using h e Returned y by simp
      from rc_lock_step [OF this] obtain root raw Sigma1 where
        "lock = Some (root, raw)" "pdes D raw = Inr Sigma1" "pcert D Sigma1 (pstored D sid root)"
        "pf D + 1 \<le> present (rc_commit s root)" "rc_decode D (rc_commit s root) root = Inr x" by blast
      with Cons.prems(1) e RCLOCK show ?thesis by (metis list.set_intros(1))
    next
      case (RCSTORE sid store)
      then have "rc_on_store D s store = (s1, o1, Returned x)" using h e Returned y by simp
      then show ?thesis by (auto simp: rc_on_store_def split: option.splits prod.splits sum.splits if_splits)
    qed
  next
    case (Raised z)
    then show ?thesis using Cons.prems(3) h by simp
  qed
qed

text \<open>The roots for which a message set holds a certificate that verifies.\<close>

definition certified_roots :: "('s, 'd, 'r, 'g) pd_env \<Rightarrow> (nat \<times> ('s, 'r) rc_msg) set \<Rightarrow> bytes set" where
  "certified_roots D X = {root. \<exists>q sid raw Sigma1. (q, RCLOCK sid (Some (root, raw))) \<in> X \<and> pdes D raw = Inr Sigma1 \<and>
     pcert D Sigma1 (pstored D sid root)}"

lemma recast_agreement_aux:
  assumes "coder_ok (rc_coder D)" and "certified_roots D (set es \<union> set es') \<subseteq> {root}"
    and bnd: "\<And>v code. Some v \<in> {x, x'} \<Longrightarrow> rc_code D v code root \<Longrightarrow> rc_bound D code root (set es \<union> set es')"
    and r: "ctl_of (run_loop (recastsubprotocol D) (rc_init (pN D)) es) = Returned x"
    and r': "ctl_of (run_loop (recastsubprotocol D) (rc_init (pN D)) es') = Returned x'"
  shows "x = x'"
proof -
  let ?X = "set es \<union> set es'"
  have got: "\<exists>l. rc_inv D ?X l \<and> pf D + 1 \<le> present (rc_commit l root) \<and> rc_decode D (rc_commit l root) root = Inr y"
    if g: "ctl_of (run_loop (recastsubprotocol D) (rc_init (pN D)) fs) = Returned y" and sub: "set fs \<subseteq> ?X" for fs y
  proof -
    obtain s' outs where "run_loop (recastsubprotocol D) (rc_init (pN D)) fs = (s', outs, Returned y)"
      using g by (cases "run_loop (recastsubprotocol D) (rc_init (pN D)) fs") auto
    from rc_returned [OF rc_inv_init sub this] obtain l q sid root1 raw Sigma1 where
      l: "rc_inv D ?X l" "(q, RCLOCK sid (Some (root1, raw))) \<in> set fs" "pdes D raw = Inr Sigma1"
        "pcert D Sigma1 (pstored D sid root1)" "pf D + 1 \<le> present (rc_commit l root1)"
        "rc_decode D (rc_commit l root1) root1 = Inr y" by blast
    then have "root1 \<in> certified_roots D ?X" using sub unfolding certified_roots_def by blast
    then have "root1 = root" using assms(2) by blast
    with l show ?thesis by blast
  qed
  have value_case: "z = Some v" if y: "ctl_of (run_loop (recastsubprotocol D) (rc_init (pN D)) fs) = Returned (Some v)"
      and z: "ctl_of (run_loop (recastsubprotocol D) (rc_init (pN D)) gs) = Returned z"
      and sub: "set fs \<subseteq> ?X" "set gs \<subseteq> ?X" and v: "Some v \<in> {x, x'}" for fs gs z v
  proof -
    obtain code where c: "rc_code D v code root"
      using got [OF y sub(1)] by (auto simp: rc_decode_def rc_code_def res_bind_Inr split: if_splits)
    obtain l where "rc_inv D ?X l" "pf D + 1 \<le> present (rc_commit l root)" "rc_decode D (rc_commit l root) root = Inr z"
      using got [OF z sub(2)] by blast
    then show ?thesis using rc_decode_genuine [OF assms(1) c bnd [OF v c], of l] by simp
  qed
  show ?thesis
  proof (cases x)
    case (Some v)
    then show ?thesis using value_case [of es v es' x'] r r' by simp
  next
    case None
    then show ?thesis using value_case [of es' "the x'" es x] r r' by (cases x') auto
  qed
qed


section \<open>Recovering a value\<close>

text \<open>Stripe messages that, where their branch verifies, are for \<open>root\<close>; anybody may send them, any number of times.\<close>

fun stripe_for :: "('s, 'd, 'r, 'g) pd_env \<Rightarrow> bytes \<Rightarrow> nat \<times> ('s, 'r) rc_msg \<Rightarrow> bool" where
  "stripe_for D root (q, RCSTORE sid (Some (r, i, stripe, branch))) =
     (0 \<le> i \<and> i < int (pN D) \<and> (merkle_ok (eH (pE D)) (pN D) stripe r branch (nat i) \<longrightarrow> r = root))"
| "stripe_for D root _ = False"

fun stripe_index :: "('s, 'd, 'r, 'g) pd_env \<Rightarrow> nat \<times> ('s, 'r) rc_msg \<Rightarrow> nat set" where
  "stripe_index D (q, RCSTORE sid (Some (r, i, stripe, branch))) =
     (if 0 \<le> i \<and> merkle_ok (eH (pE D)) (pN D) stripe r branch (nat i) then {nat i} else {})"
| "stripe_index D _ = {}"

definition stripe_indices :: "('s, 'd, 'r, 'g) pd_env \<Rightarrow> (nat \<times> ('s, 'r) rc_msg) set \<Rightarrow> nat set" where
  "stripe_indices D X = (\<Union>e \<in> X. stripe_index D e)"

definition rc_filled :: "('s, 'd, 'r, 'g) pd_env \<Rightarrow> bytes \<Rightarrow> nat set \<Rightarrow> rc_state \<Rightarrow> bool" where
  "rc_filled D root I s \<longleftrightarrow> length (rc_storerec s) = pN D \<and> length (rc_commit s root) = pN D \<and>
     (\<forall>i < pN D. rc_storerec s ! i = (i \<in> I) \<and> (rc_commit s root ! i \<noteq> None) = (i \<in> I))"

lemma rc_fill_step:
  assumes "rc_filled D root I s" and "stripe_for D root e"
  shows "\<exists>s'. recastsubprotocol D s e = stay s' \<and> rc_filled D root (I \<union> stripe_index D e) s'"
proof -
  obtain q sid r i stripe branch where e: "e = (q, RCSTORE sid (Some (r, i, stripe, branch)))"
    using assms(2) by (cases "(D, root, e)" rule: stripe_for.cases) auto
  define n where "n = nat i"
  have i: "i = int n" and n: "n < pN D" using assms(2) e by (simp_all add: n_def nat_less_iff)
  have known: "py_index (rc_storerec s) i = Inr (n \<in> I)"
    using assms(1) n i by (simp add: rc_filled_def)
  show ?thesis
  proof (cases "n \<notin> I \<and> merkle_ok (eH (pE D)) (pN D) stripe r branch n")
    case True
    then have r: "r = root" using assms(2) e by (simp add: n_def)
    have "rc_filled D root (insert n I) (s\<lparr>rc_storerec := (rc_storerec s)[n := True],
                rc_commit := (rc_commit s)(root := (rc_commit s root)[n := Some stripe])\<rparr>)"
      using assms(1) n by (auto simp: rc_filled_def nth_list_update)
    moreover have "stripe_index D e = {n}" using True e i by simp
    moreover have "recastsubprotocol D s e = stay (s\<lparr>rc_storerec := (rc_storerec s)[n := True],
                rc_commit := (rc_commit s)(root := (rc_commit s root)[n := Some stripe])\<rparr>)"
      using known True e i r by (simp add: rc_on_store_def)
    ultimately show ?thesis by simp
  next
    case False
    have "I \<union> stripe_index D e = I" using False e i by auto
    moreover have "recastsubprotocol D s e = stay s" using known False e i by (auto simp: rc_on_store_def)
    ultimately show ?thesis using assms(1) by simp
  qed
qed

lemma rc_fill:
  "rc_filled D root I s \<Longrightarrow> list_all (stripe_for D root) es \<Longrightarrow>
    \<exists>s'. run_loop (recastsubprotocol D) s es = stay s' \<and> rc_filled D root (I \<union> stripe_indices D (set es)) s'"
proof (induction es arbitrary: s I)
  case Nil
  then show ?case by (simp add: stripe_indices_def)
next
  case (Cons e es)
  from rc_fill_step [OF Cons.prems(1), of e] Cons.prems(2) obtain s1 where
    s1: "recastsubprotocol D s e = stay s1" "rc_filled D root (I \<union> stripe_index D e) s1" by auto
  from Cons.IH [OF s1(2)] Cons.prems(2) obtain s' where
    s': "run_loop (recastsubprotocol D) s1 es = stay s'"
      "rc_filled D root (I \<union> stripe_index D e \<union> stripe_indices D (set es)) s'" by auto
  have "I \<union> stripe_index D e \<union> stripe_indices D (set es) = I \<union> stripe_indices D (set (e # es))"
    by (auto simp: stripe_indices_def)
  with s1(1) s' show ?case by simp
qed

lemma rc_filled_present:
  assumes "rc_filled D root I s" and "I \<subseteq> {..<pN D}"
  shows "present (rc_commit s root) = card I"
proof -
  have len: "length (rc_commit s root) = pN D" using assms(1) by (simp add: rc_filled_def)
  have "present (rc_commit s root) = card {i. i < length (rc_commit s root) \<and> rc_commit s root ! i \<noteq> None}"
    unfolding present_def by (simp add: length_filter_conv_card)
  also have "{i. i < length (rc_commit s root) \<and> rc_commit s root ! i \<noteq> None} = I"
    using assms len by (auto simp: rc_filled_def)
  finally show ?thesis .
qed

lemma stripe_indices_below: "stripe_indices D X \<subseteq> {..<pN D}"
proof -
  have "stripe_index D e \<subseteq> {..<pN D}" for e
    by (cases "(D, e)" rule: stripe_index.cases) (auto dest: merkle_ok_index)
  then show ?thesis unfolding stripe_indices_def by blast
qed

lemma run_loop_inv:
  assumes "\<And>s e s' outs c. I s \<Longrightarrow> e \<in> X \<Longrightarrow> h s e = (s', outs, c) \<Longrightarrow> I s'"
  shows "I s \<Longrightarrow> set es \<subseteq> X \<Longrightarrow> run_loop h s es = (s', outs, c) \<Longrightarrow> I s'"
proof (induction es arbitrary: s outs)
  case Nil
  then show ?case by simp
next
  case (Cons e es)
  obtain s1 o1 c1 where h: "h s e = (s1, o1, c1)" by (cases "h s e")
  have "I s1" using assms [OF Cons.prems(1) _ h] Cons.prems(2) by simp
  with Cons.prems(2,3) h Cons.IH [of s1] show ?case by (cases c1) (auto split: prod.splits)
qed

lemma recast_recovers_aux:
  assumes "coder_ok (rc_coder D)" and "rc_code D v code root" and "rc_bound D code root (set es)"
    and "list_all (stripe_for D root) es" and "pf D + 1 \<le> card (stripe_indices D (set es))"
    and "pdes D raw = Inr Sigma1" and "pcert D Sigma1 (pstored D sid root)"
  shows "ctl_of (run_loop (recastsubprotocol D) (rc_init (pN D)) (es @ [(q, RCLOCK sid (Some (root, raw)))])) =
    Returned (Some v)"
proof -
  have "rc_filled D root {} (rc_init (pN D))" by (simp add: rc_filled_def rc_init_def)
  from rc_fill [OF this assms(4)] obtain s where
    s: "run_loop (recastsubprotocol D) (rc_init (pN D)) es = stay s" "rc_filled D root (stripe_indices D (set es)) s"
    by auto
  have "rc_inv D (set es) s"
    by (rule run_loop_inv [where I = "rc_inv D (set es)" and h = "recastsubprotocol D", OF _ rc_inv_init subset_refl s(1)])
      (rule rc_step_inv)
  moreover have "pf D + 1 \<le> present (rc_commit s root)"
    using rc_filled_present [OF s(2) stripe_indices_below] assms(5) by simp
  ultimately have d: "rc_decode D (rc_commit s root) root = Inr (Some v)" "pf D + 1 \<le> present (rc_commit s root)"
    using rc_decode_genuine [OF assms(1-3)] by blast+
  have "ctl_of (recastsubprotocol D s (q, RCLOCK sid (Some (root, raw)))) = Returned (Some v)"
    using d assms(6,7) by (simp add: rc_on_lock_def Let_def raise_or_def)
  then show ?thesis by (auto simp: run_loop_append s(1) split: prod.splits ctl.splits)
qed


text \<open>The root under which a leader disperses its value is that of the stripes of this value.\<close>

lemma pd_start_code:
  assumes "pd_start D sid (pleader D) m = Inr (s0, ms)" and "pd_root s0 = Some root"
  shows "\<exists>code. encode (efe (pE D)) (eK (pE D)) (pN D) m = Inr code \<and> tree_root (eH (pE D)) code = Inr root"
  using assms
  by (auto simp: pd_start_def store_messages_def tree_root_def res_bind_Inr pd_init_def split: if_splits)


text \<open>
  C34: Agreement of recast. If among the lock messages two nodes receive the certificates that verify are
  for one root, then the two nodes return the same, be it a value or the failure 0: a node cannot
  recover a value where another one finds the stripes inconsistent. The messages are otherwise arbitrary.
\<close>

theorem recast_agreement:
  assumes "coder_ok (rc_coder D)" and "certified_roots D (set es \<union> set es') \<subseteq> {root}"
    and "\<And>v code. Some v \<in> {x, x'} \<Longrightarrow> rc_code D v code root \<Longrightarrow> rc_bound D code root (set es \<union> set es')"
    and "ctl_of (run_loop (recastsubprotocol D) (rc_init (pN D)) es) = Returned x"
    and "ctl_of (run_loop (recastsubprotocol D) (rc_init (pN D)) es') = Returned x'"
  shows "x = x'"
  using assms by (rule recast_agreement_aux)

subsection \<open>A small instance\<close>

text \<open>
  Four nodes; a share of node \<open>p\<close> on \<open>d\<close> is \<open>([p], d)\<close>, a certificate the list of the signers with \<open>d\<close>,
  and it verifies when three different nodes signed.
\<close>

definition ex_pd :: "(nat, nat \<times> nat \<times> bytes, nat list \<times> nat \<times> nat \<times> bytes, nat list \<times> nat \<times> nat \<times> bytes) pd_env" where
  "ex_pd = \<lparr>pE = ex_env, pdes = Inr, pser = id, pstored = (\<lambda>s r. (0, s, r)), plocked = (\<lambda>s r. (1, s, r)),
     pready = (\<lambda>s. (2, s, [])), psign = (\<lambda>p d. ([p], d)), pshare = (\<lambda>g p d. g = ([p], d)),
     pcert = (\<lambda>g d. snd g = d \<and> 3 \<le> card (set (fst g))),
     pcombine = (\<lambda>sh. Inr (map fst sh, snd (snd (hd sh)))),
     psign0 = (\<lambda>p d. ([p], d)), pshare0 = (\<lambda>g p d. g = ([p], d)),
     pcert0 = (\<lambda>g d. snd g = d \<and> 2 \<le> card (set (fst g))), pcombine0 = (\<lambda>sh. Inr (map fst sh, snd (snd (hd sh))))\<rparr>"

definition ex_tree :: "bytes \<Rightarrow> bytes list" where
  "ex_tree v = (case res_bind (encode rep_enc 2 4 v) (merkleTree toy_hash) of Inr mt \<Rightarrow> mt | Inl _ \<Rightarrow> [])"

definition ex_stripe :: "nat \<Rightarrow> bytes \<Rightarrow> nat \<Rightarrow> (nat, nat list \<times> nat \<times> nat \<times> bytes) rc_msg" where
  "ex_stripe sid v i =
     (case (encode rep_enc 2 4 v, getMerkleBranch i (ex_tree v)) of
        (Inr code, Inr br) \<Rightarrow> RCSTORE sid (Some (ex_tree v ! 1, int i, code ! i, br))
      | _ \<Rightarrow> RCSTORE sid None)"

definition ex_lock :: "nat \<Rightarrow> bytes \<Rightarrow> (nat, nat list \<times> nat \<times> nat \<times> bytes) rc_msg" where
  "ex_lock sid v = RCLOCK sid (Some (ex_tree v ! 1, ([0, 1, 2], 0, sid, ex_tree v ! 1)))"

text \<open>
  One faulty node breaks the agreement of recast. The session of a lock message is taken from the
  message, and the index of a stripe from the stripe. In the recast of dispersal 0, whose leader dispersed
  one value, a node that hears the honest nodes first returns that value; a node that hears the faulty node
  3 first gets from it alone all stripes of another value and the lock certificate of another
  dispersal, the faulty node's own, and returns that other value.
\<close>

theorem recast_disagreement:
  "ctl_of (run_loop (recastsubprotocol ex_pd) (rc_init 4)
     [(1, ex_lock 0 [5]), (1, ex_stripe 0 [5] 1), (2, ex_stripe 0 [5] 2), (2, ex_lock 0 [5])]) = Returned (Some [5]) \<and>
   ctl_of (run_loop (recastsubprotocol ex_pd) (rc_init 4)
     [(3, ex_stripe 0 [6] 1), (3, ex_stripe 0 [6] 2), (3, ex_lock 3 [6])]) = Returned (Some [6])"
  by code_simp

lemma ex_pd_coder: "coder_ok (rc_coder ex_pd)"
  by (simp add: rc_coder_def ex_pd_def ex_env_def rep_zfec_ok)

text \<open>The tests of collision freedom over the messages of a run, in a form that evaluates.\<close>

fun stripe_bound :: "(bytes \<Rightarrow> bytes) \<Rightarrow> bytes list \<Rightarrow> bytes \<Rightarrow> nat \<times> ('s, 'r) rc_msg \<Rightarrow> bool" where
  "stripe_bound H code root (q, RCSTORE sid (Some (r, i, stripe, branch))) =
     (r \<noteq> root \<or> inj_on H (merkle_inputs H code \<union> verify_inputs H stripe branch (nat i)))"
| "stripe_bound H code root _ = True"

lemma rc_boundI:
  fixes es :: "(nat \<times> ('s, 'r) rc_msg) list"
  assumes "uniform_hash (eH (pE D))" and "list_all (stripe_bound (eH (pE D)) code root) es"
  shows "rc_bound D code root (set es)"
  unfolding rc_bound_def
proof (intro allI impI)
  fix i stripe branch
  assume "rc_valid D (set es) root i stripe branch"
  then obtain q sid where "(q, RCSTORE sid (Some (root, int i, stripe, branch))) \<in> set es"
    by (auto simp: rc_valid_def)
  then have "stripe_bound (eH (pE D)) code root (q, RCSTORE sid (Some (root, int i, stripe, branch)) :: ('s, 'r) rc_msg)"
    by (rule bspec [OF assms(2) [unfolded list_all_iff]])
  then show "branch_bound (eH (pE D)) code stripe branch i"
    using assms(1) by (simp add: branch_bound_def)
qed

definition ex_rc_stores :: "(nat \<times> (nat, nat list \<times> nat \<times> nat \<times> bytes) rc_msg) list" where
  "ex_rc_stores = [(2, ex_stripe 0 [5] 2), (2, ex_stripe 0 [5] 2), (0, RCSTORE 0 (Some ([9], 1, [], []))), (1, ex_stripe 0 [5] 1)]"

lemma ex_rc_bound: "rc_bound ex_pd [[5, 1], [5, 1], [5, 1], [5, 1]] (ex_tree [5] ! 1) (set ex_rc_stores)"
proof (rule rc_boundI)
  show "uniform_hash (eH (pE ex_pd))" by (simp add: ex_pd_def ex_env_def toy_uniform)
qed code_simp

lemma ex_pd_starts: "\<exists>s0 ms. pd_start ex_pd 0 (pleader ex_pd) [5] = Inr (s0, ms) \<and> pd_root s0 = Some (ex_tree [5] ! 1)"
proof -
  have "case pd_start ex_pd 0 (pleader ex_pd) [5] of Inr (s0, ms) \<Rightarrow> pd_root s0 = Some (ex_tree [5] ! 1) | Inl _ \<Rightarrow> False"
    by code_simp
  then show ?thesis by (auto split: sum.splits)
qed


text \<open>
  With more than \<open>3f + 1\<close> nodes the numbers of stripes differ. Five nodes, one of them possibly faulty: the
  dispersal of a value by a correct leader passes its asserts, every node has the stripe that the leader
  sent it and the certificate is genuine, and yet the recast returns the failure 0.
\<close>

definition ex_pd_five :: "(nat, nat \<times> nat \<times> bytes, nat list \<times> nat \<times> nat \<times> bytes, nat list \<times> nat \<times> nat \<times> bytes) pd_env" where
  "ex_pd_five = ex_pd\<lparr>pE := ex_env\<lparr>eN := 5\<rparr>\<rparr>"

text \<open>What the nodes that got a stripe from the leader send at the start of the recast.\<close>

definition recast_stores :: "('s, 'r) pd_msg out list \<Rightarrow> (nat \<times> ('s, 'r) rc_msg) list" where
  "recast_stores ms = concat (map (\<lambda>x. case x of
     Send i (STORE sid root stripe br) \<Rightarrow> [(nat i, RCSTORE sid (Some (root, i, stripe, br)))] | _ \<Rightarrow> []) ms)"

theorem recast_fails_on_five:
  "case pd_start ex_pd_five 0 0 [5] of
     Inr (s0, ms) \<Rightarrow>
       (case pd_root s0 of
          Some root \<Rightarrow> length (recast_stores ms :: (nat \<times> (nat, nat list \<times> nat \<times> nat \<times> bytes) rc_msg) list) = 5 \<and>
            ctl_of (run_loop (recastsubprotocol ex_pd_five) (rc_init 5)
              (recast_stores ms @ [(0, RCLOCK 0 (Some (root, ([0, 1, 2, 3], 0, 0, root))))])) = Returned None
        | None \<Rightarrow> False)
   | Inl _ \<Rightarrow> False"
  by code_simp

theorem recast_agreement_witness: "Some [5 :: 8 word] = Some [5]"
proof (rule recast_agreement [OF ex_pd_coder])
  let ?es = "ex_rc_stores @ [(3, ex_lock 0 [5])]"
  show "certified_roots ex_pd (set ?es \<union> set ?es) \<subseteq> {ex_tree [5] ! 1}"
    by (auto simp: certified_roots_def ex_rc_stores_def ex_lock_def ex_stripe_def split: sum.splits)
  show "ctl_of (run_loop (recastsubprotocol ex_pd) (rc_init (pN ex_pd)) ?es) = Returned (Some [5])" by code_simp
  then show "ctl_of (run_loop (recastsubprotocol ex_pd) (rc_init (pN ex_pd)) ?es) = Returned (Some [5])" .
  fix v code
  assume v: "Some v \<in> {Some [5 :: 8 word], Some [5]}" "rc_code ex_pd v code (ex_tree [5] ! 1)"
  have "encode (efe (pE ex_pd)) (pf ex_pd + 1) (pN ex_pd) [5] = Inr [[5, 1], [5, 1], [5, 1], [5, 1]]" by code_simp
  with v have c: "code = [[5, 1], [5, 1], [5, 1], [5, 1]]" by (simp add: rc_code_def)
  show "rc_bound ex_pd code (ex_tree [5] ! 1) (set ?es \<union> set ?es)"
    using ex_rc_bound unfolding c rc_bound_def rc_valid_def ex_lock_def by simp
qed

section \<open>What a dispersal certifies\<close>

definition pd_signed :: "('s, 'd, 'r, 'g) pd_env \<Rightarrow> nat \<Rightarrow> 'd \<Rightarrow> ('s, 'r) pd_msg out list \<Rightarrow> bool" where
  "pd_signed D p d outs \<longleftrightarrow> (\<exists>k sid. Send k (STORED sid (pser D (psign D p d))) \<in> set outs)"

definition pd_holds :: "('s, 'd, 'r, 'g) pd_env \<Rightarrow> nat \<Rightarrow> bytes \<Rightarrow> ('s, 'g) pd_state \<Rightarrow> bool" where
  "pd_holds D p root s \<longleftrightarrow>
     (\<exists>stripe branch. pd_store s = Some (root, p, stripe, branch) \<and> merkle_ok (eH (pE D)) (pN D) stripe root branch p)"

text \<open>A node answers a \<open>STORE\<close> once, and keeps the stripe whose branch it has checked.\<close>

lemma pd_step_store:
  assumes "provabledispersalbroadcast D p s e = (s', outs, c)"
  shows "(pd_store s' = pd_store s \<and> (\<forall>k sid raw. Send k (STORED sid raw) \<notin> set outs)) \<or>
    (pd_store s = None \<and> (\<exists>sid root. pd_holds D p root s' \<and>
       outs = [Send (int (pleader D)) (STORED sid (pser D (psign D p (pstored D sid root))))]))"
proof -
  obtain q m where e: "e = (q, m)" by (cases e)
  show ?thesis
  proof (cases m)
    case (STORE sid root stripe branch)
    show ?thesis
    proof (cases "q = pleader D \<and> pd_store s = None \<and> merkle_ok (eH (pE D)) (pN D) stripe root branch p")
      case True
      then show ?thesis using assms e STORE
        by (intro disjI2) (auto simp: pd_on_store_def pd_holds_def Let_def)
    next
      case False
      then show ?thesis using assms e STORE by (auto simp: pd_on_store_def Let_def split: if_splits)
    qed
  next
    case (STORED sid raw)
    then show ?thesis using assms e
      by (auto simp: pd_on_stored_def Let_def to_all_def split: sum.splits option.splits if_splits)
  next
    case (LOCK sid root raw)
    then show ?thesis using assms e
      by (auto simp: pd_on_lock_def Let_def split: sum.splits if_splits)
  next
    case (LOCKED sid raw)
    then show ?thesis using assms e
      by (auto simp: pd_on_locked_def Let_def split: sum.splits option.splits if_splits)
  qed
qed

text \<open>Whatever the node has answered is about the stripe it holds.\<close>

lemma pd_signed_holds:
  "run_loop (provabledispersalbroadcast D p) s es = (s', outs, c) \<Longrightarrow> Send k (STORED sid raw) \<in> set outs \<Longrightarrow>
    \<exists>root. raw = pser D (psign D p (pstored D sid root)) \<and> pd_holds D p root s' \<and> pd_store s = None"
  and pd_store_kept: "run_loop (provabledispersalbroadcast D p) s es = (s', outs, c) \<Longrightarrow> pd_store s \<noteq> None \<Longrightarrow>
    pd_store s' = pd_store s"
proof -
  have both: "run_loop (provabledispersalbroadcast D p) s es = (s', outs, c) \<Longrightarrow>
    (\<forall>k sid raw. Send k (STORED sid raw) \<in> set outs \<longrightarrow>
       (\<exists>root. raw = pser D (psign D p (pstored D sid root)) \<and> pd_holds D p root s' \<and> pd_store s = None)) \<and>
    (pd_store s \<noteq> None \<longrightarrow> pd_store s' = pd_store s)" for s outs
  proof (induction es arbitrary: s outs)
    case Nil
    then show ?case by simp
  next
    case (Cons e es)
    obtain s1 o1 c1 where h: "provabledispersalbroadcast D p s e = (s1, o1, c1)"
      by (cases "provabledispersalbroadcast D p s e")
    show ?case
    proof (cases "c1 = Running")
      case False
      then have "s' = s1" "outs = o1" using Cons.prems h by (auto split: ctl.splits)
      then show ?thesis using pd_step_store [OF h] by fastforce
    next
      case True
      obtain o2 where r: "run_loop (provabledispersalbroadcast D p) s1 es = (s', o2, c)" "outs = o1 @ o2"
        using Cons.prems h True by (auto split: prod.splits)
      note ih = Cons.IH [OF r(1)]
      from pd_step_store [OF h] show ?thesis
      proof (elim disjE conjE exE)
        assume a: "pd_store s1 = pd_store s" "\<forall>k sid raw. Send k (STORED sid raw) \<notin> set o1"
        then show ?thesis using ih r(2) by auto
      next
        fix sid root
        assume a: "pd_store s = None" "pd_holds D p root s1"
          "o1 = [Send (int (pleader D)) (STORED sid (pser D (psign D p (pstored D sid root))))]"
        then have "pd_store s1 \<noteq> None" by (auto simp: pd_holds_def)
        then have "pd_holds D p root s'" using ih a(2) by (simp add: pd_holds_def)
        then show ?thesis using ih r(2) a \<open>pd_store s1 \<noteq> None\<close> by fastforce
      qed
    qed
  qed
  show "run_loop (provabledispersalbroadcast D p) s es = (s', outs, c) \<Longrightarrow> Send k (STORED sid raw) \<in> set outs \<Longrightarrow>
    \<exists>root. raw = pser D (psign D p (pstored D sid root)) \<and> pd_holds D p root s' \<and> pd_store s = None"
    using both by blast
  show "run_loop (provabledispersalbroadcast D p) s es = (s', outs, c) \<Longrightarrow> pd_store s \<noteq> None \<Longrightarrow>
    pd_store s' = pd_store s"
    using both by blast
qed


text \<open>\<open>Sigma1\<close> cannot be forged: it verifies only on what \<open>N - f\<close> nodes signed, of them the faulty ones and those that \<open>signs\<close> names.\<close>

definition cert_unforged ::
    "('s, 'd, 'r, 'g) pd_env \<Rightarrow> nat set \<Rightarrow> (nat \<Rightarrow> 'd \<Rightarrow> bool) \<Rightarrow> 'g \<Rightarrow> bool" where
  "cert_unforged D B signs Sigma1 \<longleftrightarrow>
     (\<forall>d. pcert D Sigma1 d \<longrightarrow> pN D - pf D \<le> card (B \<union> {p. p < pN D \<and> p \<notin> B \<and> signs p d}))"

text \<open>
  The signature that a node has sent, for the stripe it holds, is not by chance also one on
  \<open>('STORED', sid, root)\<close> with another root.
\<close>

definition signature_apart ::
    "('s, 'd, 'r, 'g) pd_env \<Rightarrow> 's \<Rightarrow> bytes \<Rightarrow> nat \<Rightarrow> ('s, 'g) pd_state \<Rightarrow> ('s, 'r) pd_msg out list \<Rightarrow> bool" where
  "signature_apart D sid root p s outs \<longleftrightarrow>
     (\<forall>k sid' root'. Send k (STORED sid' (pser D (psign D p (pstored D sid' root')))) \<in> set outs \<longrightarrow> pd_holds D p root' s \<longrightarrow>
        pser D (psign D p (pstored D sid' root')) = pser D (psign D p (pstored D sid root)) \<longrightarrow> root' = root)"

text \<open>
  C35: A lock certificate proves availability. If a signature on \<open>('STORED', sid, root)\<close> verifies, then,
  whatever messages the correct nodes received, at least \<open>f + 1\<close> of them hold a stripe of their own under
  \<open>root\<close> whose branch verifies, which is what a recast needs. Assumed: at most \<open>f\<close> nodes are faulty and \<open>N\<close>
  is at least \<open>3f + 1\<close>; the signature is no forgery, that is, it verifies only on what \<open>N - f\<close> nodes, the
  faulty ones included, have signed; and the signature that a correct node has sent in the run is not equal
  to its signature on this tuple with another root.
\<close>

theorem pd_lock_available:
  assumes "\<And>p. p < pN D \<Longrightarrow> p \<notin> B \<Longrightarrow> run_loop (provabledispersalbroadcast D p) (st p) (es p) = (st' p, outs p, c p)"
    and "cert_unforged D B (\<lambda>p d. pd_signed D p d (outs p)) Sigma1" and "pcert D Sigma1 (pstored D sid root)"
    and "\<And>p. p < pN D \<Longrightarrow> p \<notin> B \<Longrightarrow> signature_apart D sid root p (st' p) (outs p)"
    and "finite B" and "card B \<le> pf D" and "3 * pf D + 1 \<le> pN D"
  shows "pf D + 1 \<le> card {p. p < pN D \<and> p \<notin> B \<and> pd_holds D p root (st' p)}"
proof -
  let ?S = "{p. p < pN D \<and> p \<notin> B \<and> pd_signed D p (pstored D sid root) (outs p)}"
  let ?H = "{p. p < pN D \<and> p \<notin> B \<and> pd_holds D p root (st' p)}"
  have "?S \<subseteq> ?H"
  proof
    fix p
    assume "p \<in> ?S"
    then obtain k sid' where p: "p < pN D" "p \<notin> B"
        "Send k (STORED sid' (pser D (psign D p (pstored D sid root)))) \<in> set (outs p)"
      by (auto simp: pd_signed_def)
    from pd_signed_holds [OF assms(1) [OF p(1,2)] p(3)] obtain root' where
      h: "pser D (psign D p (pstored D sid root)) = pser D (psign D p (pstored D sid' root'))" "pd_holds D p root' (st' p)"
      by blast
    have "root' = root"
      using assms(4) [OF p(1,2)] p(3) h unfolding signature_apart_def by metis
    then show "p \<in> ?H" using h(2) p by simp
  qed
  moreover have "finite ?H" by simp
  ultimately have "card ?S \<le> card ?H" by (rule card_mono [rotated])
  moreover have "pN D - pf D \<le> card (B \<union> ?S)" using assms(2,3) unfolding cert_unforged_def by blast
  moreover have "card (B \<union> ?S) \<le> card B + card ?S" by (rule card_Un_le)
  ultimately show ?thesis using assms(6,7) by linarith
qed


text \<open>The leader 0 and the nodes 1 and 2 answer the leader's messages; node 3 is faulty.\<close>

definition ex_pd_events :: "nat \<Rightarrow> (nat \<times> (nat, nat list \<times> nat \<times> nat \<times> bytes) pd_msg) list" where
  "ex_pd_events p = [(0, STORE 0 (ex_tree [5] ! 1) [5, 1] ex_branch), (3, LOCK 7 [9] ([], 0, 0, []))]"

definition ex_pd_run :: "nat \<Rightarrow> (nat, nat list \<times> nat \<times> nat \<times> bytes) pd_state \<times> (nat, nat list \<times> nat \<times> nat \<times> bytes) pd_msg out list \<times> int ctl" where
  "ex_pd_run p = run_loop (provabledispersalbroadcast ex_pd p) pd_init (ex_pd_events p)"

lemma ex_pd_outs:
  "fst (snd (ex_pd_run 0)) = [Send 0 (STORED 0 ([0], 0, 0, ex_tree [5] ! 1))]"
  "fst (snd (ex_pd_run 1)) = [Send 0 (STORED 0 ([1], 0, 0, ex_tree [5] ! 1))]"
  "fst (snd (ex_pd_run 2)) = [Send 0 (STORED 0 ([2], 0, 0, ex_tree [5] ! 1))]"
  by code_simp+

lemma ex_pd_unforged:
  "cert_unforged ex_pd {3} (\<lambda>p d. pd_signed ex_pd p d (fst (snd (ex_pd_run p)))) ([0, 1, 2], 0, 0, ex_tree [5] ! 1)"
  unfolding cert_unforged_def
proof (intro allI impI)
  fix d
  assume "pcert ex_pd ([0, 1, 2], 0, 0, ex_tree [5] ! 1) d"
  then have d: "d = (0, 0, ex_tree [5] ! 1)" by (auto simp: ex_pd_def)
  have "pd_signed ex_pd 0 d (fst (snd (ex_pd_run 0)))" "pd_signed ex_pd 1 d (fst (snd (ex_pd_run 1)))"
    "pd_signed ex_pd 2 d (fst (snd (ex_pd_run 2)))"
    unfolding ex_pd_outs pd_signed_def d by (auto simp: ex_pd_def)
  moreover have "p \<in> {0, 1, 2}" if "p < 4" "p \<noteq> 3" for p :: nat using that by auto
  ultimately have "{3} \<union> {p. p < pN ex_pd \<and> p \<notin> {3} \<and> pd_signed ex_pd p d (fst (snd (ex_pd_run p)))} = {0, 1, 2, 3}"
    by (auto simp: ex_pd_def ex_env_def)
  then show "pN ex_pd - pf ex_pd \<le> card ({3} \<union> {p. p < pN ex_pd \<and> p \<notin> {3} \<and> pd_signed ex_pd p d (fst (snd (ex_pd_run p)))})"
    by (simp add: ex_pd_def ex_env_def)
qed

theorem pd_lock_available_witness:
  "pf ex_pd + 1 \<le> card {p. p < pN ex_pd \<and> p \<notin> {3} \<and> pd_holds ex_pd p (ex_tree [5] ! 1) (fst (ex_pd_run p))}"
proof (rule pd_lock_available [where st = "\<lambda>_. pd_init" and es = ex_pd_events and sid = 0])
  show "run_loop (provabledispersalbroadcast ex_pd p) pd_init (ex_pd_events p) =
      (fst (ex_pd_run p), fst (snd (ex_pd_run p)), snd (snd (ex_pd_run p)))" for p
    by (simp add: ex_pd_run_def)
  show "cert_unforged ex_pd {3} (\<lambda>p d. pd_signed ex_pd p d (fst (snd (ex_pd_run p)))) ([0, 1, 2], 0, 0, ex_tree [5] ! 1)"
    by (rule ex_pd_unforged)
qed (auto simp: ex_pd_def ex_env_def signature_apart_def)

section \<open>A faulty node stops the dispersal of a correct leader\<close>

text \<open>
  The tuple of a \<open>STORED\<close> message that is not the leader's session is taken as it is: a share of a faulty
  node on another session counts, and the combination of the shares is no signature. Also, a \<open>STORE\<close> or
  \<open>LOCK\<close> of anybody rebinds \<open>roothash\<close> at the leader, who refuses all honest shares afterwards.
\<close>

lemma pd_root_rebound:
  assumes "q \<noteq> pleader D"
  shows "provabledispersalbroadcast D (pleader D) s (q, STORE sid root stripe branch) = stay (s\<lparr>pd_root := Some root\<rparr>)"
  using assms by (simp add: pd_on_store_def Let_def)

lemma pd_honest_refused:
  assumes "pd_root s = Some root" and "pdes D raw = Inr sigma" and "\<not> pshare D sigma q (pstored D sid root)"
  shows "provabledispersalbroadcast D (pleader D) s (q, STORED sid raw) = stay s"
  using assms by (simp add: pd_on_stored_def Let_def)

end
