(* ===== verification/DumboMVBA.thy ===== *)
theory DumboMVBA
  imports Dispersal
begin

text \<open>
  The multi-valued agreement of \<open>src/dumbomvba/core/dumbomvba.py\<close>, and the common subset built on it
  (\<open>mvbacommonsubset.py\<close>): dispersal of all inputs, a round of \<open>FINISH\<close> messages that ends the dispersals,
  a random permutation of the nodes, and for one node after the other a ballot and a binary agreement,
  until one is decided for and its value recast. The dispersals, the coins and the binary agreements are
  events; \<open>numpy\<close>'s permutation of the seed is part of the coin's event. Messages that arrive before the
  greenlet that reads them has started are queued.
\<close>

section \<open>Ending the dispersals\<close>

text \<open>\<open>quitPD\<close>. The last broadcast sends the signature object itself, not its serialization: \<open>Inr\<close>.\<close>

datatype ('s, 'r, 'g) quit_msg = DONE 's bytes 'r | READYQ 's 'r | FINISH 's "'r + 'g"

record 'g quit_state =
  q_provens :: nat
  q_rdy :: "nat set"
  q_rdy_shares :: "(nat, 'g) odict"
  q_recdone :: "nat set"
  q_recready :: "nat set"
  q_revfinish :: "nat set"
  q_sendfinish :: bool

definition quit_init :: "'g quit_state" where
  "quit_init = \<lparr>q_provens = 0, q_rdy = {}, q_rdy_shares = [], q_recdone = {}, q_recready = {}, q_revfinish = {},
     q_sendfinish = False\<rparr>"

type_synonym ('s, 'r, 'g) quit_reply = "('g quit_state, ('s, 'r, 'g) quit_msg, nat) reply"

definition quit_done :: "('s, 'd, 'r, 'g) pd_env \<Rightarrow> nat \<Rightarrow> 's \<Rightarrow> 'g quit_state \<Rightarrow> nat \<Rightarrow> 's \<Rightarrow> bytes \<Rightarrow> 'r \<Rightarrow>
    ('s, 'r, 'g) quit_reply" where
  "quit_done D pid gsid s q sid root raw =
     (case pdes D raw of
        Inl e \<Rightarrow> (s, [], Raised e)
      | Inr Sigma2 \<Rightarrow>
          if q \<in> q_recdone s then stay s
          else let s1 = s\<lparr>q_recdone := insert q (q_recdone s)\<rparr> in
            if \<not> pcert D Sigma2 (plocked D sid root) then stay s1
            else let s2 = s1\<lparr>q_provens := q_provens s1 + 1\<rparr> in
              if q_provens s2 = pN D - pf D
              then (s2, to_all (pN D) (READYQ gsid (pser D (psign0 D pid (pready D gsid)))), Running)
              else stay s2)"

definition quit_ready :: "('s, 'd, 'r, 'g) pd_env \<Rightarrow> 'g quit_state \<Rightarrow> nat \<Rightarrow> 's \<Rightarrow> 'r \<Rightarrow> ('s, 'r, 'g) quit_reply" where
  "quit_ready D s q sid raw =
     (case pdes D raw of
        Inl e \<Rightarrow> (s, [], Raised e)
      | Inr sigma \<Rightarrow>
          if q \<in> q_recready s then stay s
          else let s1 = s\<lparr>q_recready := insert q (q_recready s)\<rparr> in
            if \<not> pshare0 D sigma q (pready D sid) then stay s1
            else let s2 = s1\<lparr>q_rdy := insert q (q_rdy s1), q_rdy_shares := od_set q sigma (q_rdy_shares s1)\<rparr> in
              if card (q_rdy s2) = pf D + 1
              then (case pcombine0 D (take (pf D + 1) (q_rdy_shares s2)) of
                      Inl e \<Rightarrow> (s2, [], Raised e)
                    | Inr Sigma_rdy \<Rightarrow>
                        if q_sendfinish s2 then stay s2
                        else (s2\<lparr>q_sendfinish := True\<rparr>, to_all (pN D) (FINISH sid (Inl (pser D Sigma_rdy))), Running))
              else stay s2)"

definition quit_finish :: "('s, 'd, 'r, 'g) pd_env \<Rightarrow> 'g quit_state \<Rightarrow> nat \<Rightarrow> 's \<Rightarrow> 'r + 'g \<Rightarrow> ('s, 'r, 'g) quit_reply" where
  "quit_finish D s q sid payload =
     (case (case payload of Inl raw \<Rightarrow> pdes D raw | Inr _ \<Rightarrow> Inl TypeError) of
        Inl e \<Rightarrow> (s, [], Raised e)
      | Inr Sigma_rdy \<Rightarrow>
          if q \<in> q_revfinish s then stay s
          else let s1 = s\<lparr>q_revfinish := insert q (q_revfinish s)\<rparr> in
            if \<not> pcert0 D Sigma_rdy (pready D sid) then stay s1
            else if q_sendfinish s1 then (s1, [], Returned q)
            else (s1\<lparr>q_sendfinish := True\<rparr>, to_all (pN D) (FINISH sid (Inr Sigma_rdy)), Returned q))"

fun quitPD :: "('s, 'd, 'r, 'g) pd_env \<Rightarrow> nat \<Rightarrow> 's \<Rightarrow> 'g quit_state \<Rightarrow> nat \<times> ('s, 'r, 'g) quit_msg \<Rightarrow>
    ('s, 'r, 'g) quit_reply" where
  "quitPD D pid gsid s (q, DONE sid root raw) = quit_done D pid gsid s q sid root raw"
| "quitPD D pid gsid s (q, READYQ sid raw) = quit_ready D s q sid raw"
| "quitPD D pid gsid s (q, FINISH sid payload) = quit_finish D s q sid payload"

section \<open>The ballot on one node\<close>

text \<open>
  \<open>RCprepare\<close> for the node \<open>l\<close>: a lock certificate for its dispersal answers 1, \<open>2f + 1\<close> messages without
  one answer 0. The fields \<open>PREsid\<close> and \<open>PREl\<close> of a message are not compared with the ballot. \<open>rcp_drain\<close>
  runs it over a queue and gives back what it has not read.
\<close>

type_synonym ('s, 'r) rcp_msg = "'s \<times> nat \<times> (bytes \<times> 'r) option"

record 'r rcp_state =
  rcp_bottom :: "nat set"
  rcp_lock :: "(bytes \<times> 'r) option"

definition RCprepare :: "('s, 'd, 'r, 'g) pd_env \<Rightarrow> 's \<Rightarrow> 'r rcp_state \<Rightarrow> nat \<times> ('s, 'r) rcp_msg \<Rightarrow>
    ('r rcp_state, unit, int) reply" where
  "RCprepare D pdsid s x =
     (case snd (snd (snd x)) of
        Some (root, raw) \<Rightarrow>
          (case pdes D raw of
             Inl e \<Rightarrow> (s, [], Raised e)
           | Inr Sigma1 \<Rightarrow>
               if \<not> pcert D Sigma1 (pstored D pdsid root) then stay s
               else (s\<lparr>rcp_lock := Some (root, raw)\<rparr>, [], Returned 1))
      | None \<Rightarrow>
          (let s1 = s\<lparr>rcp_bottom := insert (fst x) (rcp_bottom s)\<rparr>
           in if 2 * pf D + 1 \<le> card (rcp_bottom s1) then (s1, [], Returned 0) else stay s1))"

fun rcp_drain :: "('s, 'd, 'r, 'g) pd_env \<Rightarrow> 's \<Rightarrow> 'r rcp_state \<Rightarrow> (nat \<times> ('s, 'r) rcp_msg) list \<Rightarrow>
    'r rcp_state \<times> (nat \<times> ('s, 'r) rcp_msg) list \<times> int ctl" where
  "rcp_drain D pdsid s [] = (s, [], Running)"
| "rcp_drain D pdsid s (x # xs) =
     (case RCprepare D pdsid s x of
        (s1, _, Running) \<Rightarrow> rcp_drain D pdsid s1 xs
      | (s1, _, c) \<Rightarrow> (s1, xs, c))"

section \<open>The main greenlet\<close>

text \<open>
  \<open>mSid j\<close> is the session of the dispersal of node \<open>j\<close>, \<open>mGsid\<close> that of the agreement, \<open>mPsid\<close> the one
  written into the messages of a ballot.
\<close>

record ('s, 'd, 'r, 'g) dm_env =
  mD :: "('s, 'd, 'r, 'g) pd_env"
  mSid :: "nat \<Rightarrow> 's"
  mGsid :: 's
  mPsid :: 's

datatype ('s, 'r, 'g) dm_event =
    PdReturned nat "('s, 'g) pd_out list"
  | FinishMsg nat "('s, 'r, 'g) quit_msg"
  | Permutation "nat list"
  | PrepareMsg nat "('s, 'r) rcp_msg"
  | AbaOut int
  | RcMsg nat "('s, 'r) rc_msg"

datatype ('s, 'r, 'g) dm_msg =
    QuitSend "('s, 'r, 'g) quit_msg"
  | GetPermutation
  | PrepareSend "('s, 'r) rcp_msg"
  | AbaInput nat int
  | RcSend "('s, 'r) rc_msg"

datatype dm_phase = WaitPds | WaitFinish | WaitCoin | Prepare | WaitAba | Recast

record ('s, 'r, 'g) dm_state =
  dm_phase :: dm_phase
  dm_delivered :: "nat set"
  dm_pd_outs :: "nat \<Rightarrow> ('s, 'g) pd_out list"
  dm_store :: "nat \<Rightarrow> stripe_store option"
  dm_lock :: "nat \<Rightarrow> (bytes \<times> 'r) option"
  dm_done :: "nat \<Rightarrow> (bytes \<times> 'r) option"
  dm_quit :: "'g quit_state"
  dm_finish_queue :: "(nat \<times> ('s, 'r, 'g) quit_msg) list"
  dm_pi :: "nat list"
  dm_r :: nat
  dm_bottom :: "nat set"
  dm_pre_queue :: "(nat \<times> ('s, 'r) rcp_msg) list"
  dm_rc :: rc_state
  dm_rc_queue :: "(nat \<times> ('s, 'r) rc_msg) list"

definition dm_init :: "nat \<Rightarrow> ('s, 'r, 'g) dm_state" where
  "dm_init N = \<lparr>dm_phase = WaitPds, dm_delivered = {}, dm_pd_outs = (\<lambda>_. []), dm_store = (\<lambda>_. None),
     dm_lock = (\<lambda>_. None), dm_done = (\<lambda>_. None), dm_quit = quit_init, dm_finish_queue = [], dm_pi = [], dm_r = 0,
     dm_bottom = {}, dm_pre_queue = [], dm_rc = rc_init N, dm_rc_queue = []\<rparr>"

type_synonym ('s, 'r, 'g) dm_reply = "(('s, 'r, 'g) dm_state, ('s, 'r, 'g) dm_msg, bytes option) reply"

text \<open>The outputs of the dispersal of \<open>j\<close>, in order.\<close>

fun dm_drain :: "('s, 'd, 'r, 'g) dm_env \<Rightarrow> nat \<Rightarrow> ('s, 'r, 'g) dm_state \<Rightarrow> ('s, 'g) pd_out list \<Rightarrow>
    ('s, 'r, 'g) dm_state \<times> ('s, 'r, 'g) dm_msg out list" where
  "dm_drain M j s [] = (s, [])"
| "dm_drain M j s (OutStore sid store # os) = dm_drain M j (s\<lparr>dm_store := (dm_store s)(j \<mapsto> store)\<rparr>) os"
| "dm_drain M j s (OutLock sid root Sigma1 # os) =
     dm_drain M j (s\<lparr>dm_lock := (dm_lock s)(j \<mapsto> (root, pser (mD M) Sigma1))\<rparr>) os"
| "dm_drain M j s (OutDone sid root Sigma2 # os) =
     (case dm_drain M j (s\<lparr>dm_done := (dm_done s)(j \<mapsto> (root, pser (mD M) Sigma2))\<rparr>) os of
        (s', ms) \<Rightarrow> (s', to_all (pN (mD M)) (QuitSend (DONE sid root (pser (mD M) Sigma2))) @ ms))"

fun dm_drain_all :: "('s, 'd, 'r, 'g) dm_env \<Rightarrow> ('s, 'r, 'g) dm_state \<Rightarrow> nat list \<Rightarrow>
    ('s, 'r, 'g) dm_state \<times> ('s, 'r, 'g) dm_msg out list" where
  "dm_drain_all M s [] = (s, [])"
| "dm_drain_all M s (j # js) =
     (case dm_drain M j s (dm_pd_outs s j) of
        (s1, ms1) \<Rightarrow> (case dm_drain_all M s1 js of (s2, ms2) \<Rightarrow> (s2, ms1 @ ms2)))"

definition as_quit :: "('s, 'r, 'g) quit_msg out \<Rightarrow> ('s, 'r, 'g) dm_msg out" where
  "as_quit x = (case x of Send k m \<Rightarrow> Send k (QuitSend m))"

definition as_rc :: "('s, 'r) rc_msg out \<Rightarrow> ('s, 'r, 'g) dm_msg out" where
  "as_rc x = (case x of Send k m \<Rightarrow> Send k (RcSend m))"

text \<open>What \<open>quitPD\<close> does on the given messages; when it ends, the coin is asked for the permutation.\<close>

definition dm_finish :: "('s, 'd, 'r, 'g) dm_env \<Rightarrow> nat \<Rightarrow> ('s, 'r, 'g) dm_state \<Rightarrow>
    (nat \<times> ('s, 'r, 'g) quit_msg) list \<Rightarrow> ('s, 'r, 'g) dm_reply" where
  "dm_finish M pid s xs =
     (case run_loop (quitPD (mD M) pid (mGsid M)) (dm_quit s) xs of
        (qs, outs, c) \<Rightarrow>
          (let s1 = s\<lparr>dm_quit := qs\<rparr>; ms = map as_quit outs in
            case c of
              Running \<Rightarrow> (s1, ms, Running)
            | Raised e \<Rightarrow> (s1, ms, Raised e)
            | Returned _ \<Rightarrow> (s1\<lparr>dm_phase := WaitCoin\<rparr>, ms @ [Send 0 GetPermutation], Running)))"

text \<open>The ballot on the node \<open>pi[r]\<close>, over the messages that are queued.\<close>

definition dm_prepare :: "('s, 'd, 'r, 'g) dm_env \<Rightarrow> ('s, 'r, 'g) dm_state \<Rightarrow> nat \<Rightarrow> ('s, 'r, 'g) dm_reply" where
  "dm_prepare M s l =
     (case rcp_drain (mD M) (mSid M l) \<lparr>rcp_bottom = dm_bottom s, rcp_lock = dm_lock s l\<rparr> (dm_pre_queue s) of
        (ps, rest, c) \<Rightarrow>
          (let s1 = s\<lparr>dm_bottom := rcp_bottom ps, dm_lock := (dm_lock s)(l := rcp_lock ps), dm_pre_queue := rest\<rparr> in
            case c of
              Running \<Rightarrow> stay s1
            | Raised e \<Rightarrow> (s1, [], Raised e)
            | Returned b \<Rightarrow> (s1\<lparr>dm_phase := WaitAba\<rparr>, [Send 0 (AbaInput (dm_r s1) b)], Running)))"

definition dm_ballot :: "('s, 'd, 'r, 'g) dm_env \<Rightarrow> ('s, 'r, 'g) dm_state \<Rightarrow> ('s, 'r, 'g) dm_reply" where
  "dm_ballot M s =
     (if length (dm_pi s) \<le> dm_r s then (s, [], Raised IndexError)
      else let l = dm_pi s ! dm_r s;
               ms = to_all (pN (mD M)) (PrepareSend (mPsid M, l, dm_lock s l))
        in (case dm_prepare M (s\<lparr>dm_phase := Prepare, dm_bottom := {}\<rparr>) l of (s1, ms', c) \<Rightarrow> (s1, ms @ ms', c)))"

definition dm_recast :: "('s, 'd, 'r, 'g) dm_env \<Rightarrow> ('s, 'r, 'g) dm_state \<Rightarrow> (nat \<times> ('s, 'r) rc_msg) list \<Rightarrow>
    ('s, 'r, 'g) dm_reply" where
  "dm_recast M s xs =
     (case run_loop (recastsubprotocol (mD M)) (dm_rc s) xs of
        (rs, outs, c) \<Rightarrow> (s\<lparr>dm_rc := rs\<rparr>, map as_rc outs, c))"

text \<open>The output of a binary agreement: recast the value of the node, or go on to the next one.\<close>

definition dm_aba :: "('s, 'd, 'r, 'g) dm_env \<Rightarrow> ('s, 'r, 'g) dm_state \<Rightarrow> int \<Rightarrow> ('s, 'r, 'g) dm_reply" where
  "dm_aba M s b =
     (if b = 1 then
        let l = dm_pi s ! dm_r s in
        (case dm_recast M (s\<lparr>dm_phase := Recast, dm_rc_queue := []\<rparr>) (dm_rc_queue s) of
           (s1, ms, c) \<Rightarrow> (s1, map as_rc (rc_start (mD M) (mSid M l) (dm_store s l) (dm_lock s l)) @ ms, c))
      else dm_ballot M (s\<lparr>dm_r := dm_r s + 1\<rparr>))"

fun dumbo_mvba :: "('s, 'd, 'r, 'g) dm_env \<Rightarrow> nat \<Rightarrow> ('s, 'r, 'g) dm_state \<Rightarrow> ('s, 'r, 'g) dm_event \<Rightarrow>
    ('s, 'r, 'g) dm_reply" where
  "dumbo_mvba M pid s (PdReturned j os) =
     (if dm_phase s \<noteq> WaitPds then stay s
      else let s1 = s\<lparr>dm_delivered := insert j (dm_delivered s), dm_pd_outs := (dm_pd_outs s)(j := os)\<rparr> in
        if pN (mD M) \<le> card (dm_delivered s1)
        then (case dm_drain_all M s1 [0..<pN (mD M)] of
                (s2, ms) \<Rightarrow>
                  (case dm_finish M pid (s2\<lparr>dm_phase := WaitFinish, dm_finish_queue := []\<rparr>) (dm_finish_queue s2) of
                     (s3, ms', c) \<Rightarrow> (s3, ms @ ms', c)))
        else stay s1)"
| "dumbo_mvba M pid s (FinishMsg q m) =
     (case dm_phase s of
        WaitPds \<Rightarrow> stay (s\<lparr>dm_finish_queue := dm_finish_queue s @ [(q, m)]\<rparr>)
      | WaitFinish \<Rightarrow> dm_finish M pid s [(q, m)]
      | _ \<Rightarrow> stay s)"
| "dumbo_mvba M pid s (Permutation pi) =
     (if dm_phase s = WaitCoin then dm_ballot M (s\<lparr>dm_pi := pi\<rparr>) else stay s)"
| "dumbo_mvba M pid s (PrepareMsg q m) =
     (let s1 = s\<lparr>dm_pre_queue := dm_pre_queue s @ [(q, m)]\<rparr>
      in if dm_phase s = Prepare then dm_prepare M s1 (dm_pi s ! dm_r s) else stay s1)"
| "dumbo_mvba M pid s (AbaOut b) = (if dm_phase s = WaitAba then dm_aba M s b else stay s)"
| "dumbo_mvba M pid s (RcMsg q m) =
     (if dm_phase s = Recast then dm_recast M s [(q, m)]
      else stay (s\<lparr>dm_rc_queue := dm_rc_queue s @ [(q, m)]\<rparr>))"


section \<open>Every dispersal must end\<close>

fun pd_return_of :: "nat \<Rightarrow> ('s, 'r, 'g) dm_event \<Rightarrow> bool" where
  "pd_return_of k (PdReturned j os) = (j = k)"
| "pd_return_of k _ = False"

text \<open>
  The main greenlet waits for the dispersals of all \<open>N\<close> nodes: while the one of a single node has not
  returned, because that node sends nothing, nothing is broadcast and nothing decided.
\<close>

theorem mvba_waits_for_all:
  assumes "k < pN (mD M)" and "list_all (\<lambda>e. \<not> pd_return_of k e) es"
    and "list_all (\<lambda>e. case e of PdReturned j _ \<Rightarrow> j < pN (mD M) | _ \<Rightarrow> True) es"
  shows "snd (run_loop (dumbo_mvba M pid) (dm_init (pN (mD M))) es) = ([], Running)"
proof -
  have "dm_phase s = WaitPds \<and> dm_delivered s \<subseteq> {..<pN (mD M)} - {k} \<Longrightarrow>
      snd (run_loop (dumbo_mvba M pid) s es) = ([], Running)" for s
    using assms(2,3)
  proof (induction es arbitrary: s)
    case Nil
    then show ?case by simp
  next
    case (Cons e es)
    have "\<exists>s1. dumbo_mvba M pid s e = stay s1 \<and> dm_phase s1 = WaitPds \<and> dm_delivered s1 \<subseteq> {..<pN (mD M)} - {k}"
    proof (cases e)
      case (PdReturned j os)
      define D where "D = insert j (dm_delivered s)"
      have sub: "D \<subseteq> {..<pN (mD M)} - {k}" using Cons.prems PdReturned by (auto simp: D_def)
      then have "card D \<le> card ({..<pN (mD M)} - {k})" by (intro card_mono) auto
      also have "\<dots> < pN (mD M)" using assms(1) by simp
      finally have "\<not> pN (mD M) \<le> card D" by simp
      then show ?thesis using Cons.prems(1) PdReturned sub by (simp add: D_def Let_def)
    qed (use Cons.prems(1) in \<open>auto simp: Let_def\<close>)
    then obtain s1 where "dumbo_mvba M pid s e = stay s1" "dm_phase s1 = WaitPds \<and> dm_delivered s1 \<subseteq> {..<pN (mD M)} - {k}"
      by blast
    with Cons.IH [of s1] Cons.prems show ?case by (auto split: prod.splits)
  qed
  then show ?thesis by (simp add: dm_init_def)
qed

section \<open>The inputs of the binary agreements\<close>

definition locked_in :: "('s, 'd, 'r, 'g) pd_env \<Rightarrow> 's \<Rightarrow> (nat \<times> ('s, 'r) rcp_msg) set \<Rightarrow> bool" where
  "locked_in D pdsid X \<longleftrightarrow> (\<exists>q sid l root raw Sigma1. (q, sid, l, Some (root, raw)) \<in> X \<and> pdes D raw = Inr Sigma1 \<and>
     pcert D Sigma1 (pstored D pdsid root))"

lemma prepare_step:
  "RCprepare D pdsid s x = (s', outs, c) \<Longrightarrow>
    (c = Returned 1 \<longrightarrow> locked_in D pdsid {x}) \<and> (\<forall>b. c = Returned b \<longrightarrow> b = 0 \<or> b = 1)"
  by (cases x) (auto simp: RCprepare_def locked_in_def Let_def split: option.splits sum.splits if_splits)

lemma drain_result:
  "rcp_drain D pdsid s xs = (s', rest, c) \<Longrightarrow>
    set rest \<subseteq> set xs \<and> (c = Returned 1 \<longrightarrow> locked_in D pdsid (set xs))"
proof (induction xs arbitrary: s)
  case Nil
  then show ?case by simp
next
  case (Cons x xs)
  obtain s1 o1 c1 where h: "RCprepare D pdsid s x = (s1, o1, c1)" by (cases "RCprepare D pdsid s x")
  have mono: "locked_in D pdsid A \<Longrightarrow> A \<subseteq> B \<Longrightarrow> locked_in D pdsid B" for A B
    unfolding locked_in_def by blast
  show ?case
  proof (cases c1)
    case Running
    then have "rcp_drain D pdsid s1 xs = (s', rest, c)" using Cons.prems h by simp
    from Cons.IH [OF this] show ?thesis using mono [of "set xs" "set (x # xs)"] by auto
  next
    case (Returned b)
    then have "rest = xs" "c = Returned b" using Cons.prems h by auto
    then show ?thesis using prepare_step [OF h] Returned mono [of "{x}" "set (x # xs)"] by auto
  next
    case (Raised e)
    then show ?thesis using Cons.prems h by auto
  qed
qed

definition aba_ones :: "('s, 'r, 'g) dm_msg out list \<Rightarrow> nat set" where
  "aba_ones outs = {r. AbaInput r 1 \<in> out_msg ` set outs}"

lemma aba_ones_simps [simp]:
  "aba_ones [] = {}" "aba_ones (x @ y) = aba_ones x \<union> aba_ones y"
  "aba_ones (map as_quit qs) = {}" "aba_ones (map as_rc rs) = {}"
  "aba_ones (to_all n (PrepareSend m)) = {}" "aba_ones (to_all n (QuitSend m')) = {}"
  by (auto simp: aba_ones_def as_quit_def as_rc_def to_all_def split: out.splits)

text \<open>\<open>X\<close> are the messages of ballots received, \<open>pi\<close> the permutation.\<close>

definition ballots_ok :: "('s, 'd, 'r, 'g) dm_env \<Rightarrow> (nat \<times> ('s, 'r) rcp_msg) set \<Rightarrow> nat list set \<Rightarrow> nat set \<Rightarrow> bool" where
  "ballots_ok M X P R \<longleftrightarrow> (\<forall>r \<in> R. \<exists>pi \<in> P. locked_in (mD M) (mSid M (pi ! r)) X)"

definition dm_inv :: "(nat \<times> ('s, 'r) rcp_msg) set \<Rightarrow> nat list set \<Rightarrow> ('s, 'r, 'g) dm_state \<Rightarrow> bool" where
  "dm_inv X P s \<longleftrightarrow> set (dm_pre_queue s) \<subseteq> X \<and> (dm_phase s \<in> {Prepare, WaitAba, Recast} \<longrightarrow> dm_pi s \<in> P)"

lemma dm_drain_frame:
  "dm_drain M j s os = (s', ms) \<Longrightarrow> dm_pre_queue s' = dm_pre_queue s \<and> aba_ones ms = {}"
proof (induction M j s os arbitrary: s' ms rule: dm_drain.induct)
  case (4 M j s sid root Sigma2 os)
  then show ?case by (auto split: prod.splits)
qed auto

lemma dm_drain_all_frame:
  "dm_drain_all M s js = (s', ms) \<Longrightarrow> dm_pre_queue s' = dm_pre_queue s \<and> aba_ones ms = {}"
proof (induction js arbitrary: s s' ms)
  case (Cons j js)
  obtain s1 m1 where d: "dm_drain M j s (dm_pd_outs s j) = (s1, m1)" by (cases "dm_drain M j s (dm_pd_outs s j)")
  obtain s2 m2 where a: "dm_drain_all M s1 js = (s2, m2)" by (cases "dm_drain_all M s1 js")
  have "s2 = s'" "ms = m1 @ m2" using Cons.prems d a by simp_all
  then show ?case using Cons.IH [OF a] dm_drain_frame [OF d] by simp
qed simp

lemma dm_finish_frame:
  "dm_finish M pid s xs = (s', ms, c) \<Longrightarrow> dm_inv X P s \<Longrightarrow> dm_phase s = WaitFinish \<Longrightarrow> dm_inv X P s' \<and> aba_ones ms = {}"
  by (auto simp: dm_finish_def dm_inv_def Let_def aba_ones_def as_quit_def split: prod.splits ctl.splits out.splits)

lemma dm_prepare_inv:
  assumes "dm_prepare M s (dm_pi s ! dm_r s) = (s', ms, c)" and "dm_inv X P s" and "dm_phase s = Prepare"
  shows "dm_inv X P s' \<and> ballots_ok M X P (aba_ones ms)"
proof -
  let ?l = "dm_pi s ! dm_r s"
  obtain ps rest k where d: "rcp_drain (mD M) (mSid M ?l) \<lparr>rcp_bottom = dm_bottom s, rcp_lock = dm_lock s ?l\<rparr> (dm_pre_queue s) = (ps, rest, k)"
    by (cases "rcp_drain (mD M) (mSid M ?l) \<lparr>rcp_bottom = dm_bottom s, rcp_lock = dm_lock s ?l\<rparr> (dm_pre_queue s)")
  note r = drain_result [OF d]
  have q: "set (dm_pre_queue s) \<subseteq> X" "dm_pi s \<in> P" using assms(2,3) by (simp_all add: dm_inv_def)
  have lock: "locked_in (mD M) (mSid M ?l) X" if "k = Returned 1"
    using r that q(1) unfolding locked_in_def by blast
  show ?thesis
  proof (cases k)
    case Running
    then show ?thesis using assms d r q by (auto simp: dm_prepare_def dm_inv_def Let_def ballots_ok_def)
  next
    case (Returned b)
    have "s' = s\<lparr>dm_bottom := rcp_bottom ps, dm_lock := (dm_lock s)(?l := rcp_lock ps), dm_pre_queue := rest, dm_phase := WaitAba\<rparr>"
      "ms = [Send 0 (AbaInput (dm_r s) b)]"
      using assms(1) d Returned by (auto simp: dm_prepare_def Let_def)
    then show ?thesis using r q lock Returned
      by (auto simp: dm_inv_def ballots_ok_def aba_ones_def)
  next
    case (Raised e)
    then show ?thesis using assms d r q by (auto simp: dm_prepare_def dm_inv_def Let_def ballots_ok_def)
  qed
qed


lemma dm_ballot_inv:
  assumes "dm_ballot M s = (s', ms, c)" and "dm_inv X P s" and "dm_pi s \<in> P" and "dm_phase s \<in> {WaitCoin, WaitAba}"
  shows "dm_inv X P s' \<and> ballots_ok M X P (aba_ones ms)"
proof (cases "length (dm_pi s) \<le> dm_r s")
  case True
  then show ?thesis using assms by (auto simp: dm_ballot_def ballots_ok_def)
next
  case False
  define t where "t = s\<lparr>dm_phase := Prepare, dm_bottom := {}\<rparr>"
  have t: "dm_inv X P t" "dm_phase t = Prepare" "dm_pi t = dm_pi s" "dm_r t = dm_r s"
    using assms(2,3) by (simp_all add: dm_inv_def t_def)
  obtain s1 m1 c1 where p: "dm_prepare M t (dm_pi s ! dm_r s) = (s1, m1, c1)"
    by (cases "dm_prepare M t (dm_pi s ! dm_r s)")
  have "s' = s1" "ms = to_all (pN (mD M)) (PrepareSend (mPsid M, dm_pi s ! dm_r s, dm_lock s (dm_pi s ! dm_r s))) @ m1"
    using assms(1) False p by (auto simp: dm_ballot_def t_def Let_def)
  then show ?thesis using dm_prepare_inv [of M t s1 m1 c1 X P] p t by simp
qed

lemma dm_recast_frame:
  "dm_recast M s xs = (s', ms, c) \<Longrightarrow> dm_pre_queue s' = dm_pre_queue s \<and> dm_pi s' = dm_pi s \<and> aba_ones ms = {}"
  by (auto simp: dm_recast_def split: prod.splits)

lemma dm_aba_inv:
  assumes "dm_aba M s b = (s', ms, c)" and "dm_inv X P s" and "dm_phase s = WaitAba"
  shows "dm_inv X P s' \<and> ballots_ok M X P (aba_ones ms)"
proof (cases "b = 1")
  case True
  obtain s1 m1 c1 where r: "dm_recast M (s\<lparr>dm_phase := Recast, dm_rc_queue := []\<rparr>) (dm_rc_queue s) = (s1, m1, c1)"
    by (cases "dm_recast M (s\<lparr>dm_phase := Recast, dm_rc_queue := []\<rparr>) (dm_rc_queue s)")
  have "s' = s1" "aba_ones ms = {}"
    using assms(1) True r dm_recast_frame [OF r] by (auto simp: dm_aba_def Let_def)
  then show ?thesis using dm_recast_frame [OF r] assms(2,3) by (simp add: dm_inv_def ballots_ok_def)
next
  case False
  then have "dm_ballot M (s\<lparr>dm_r := dm_r s + 1\<rparr>) = (s', ms, c)" using assms(1) by (simp add: dm_aba_def)
  then show ?thesis
    by (rule dm_ballot_inv) (use assms(2,3) in \<open>simp_all add: dm_inv_def\<close>)
qed

fun prepare_msgs :: "('s, 'r, 'g) dm_event list \<Rightarrow> (nat \<times> ('s, 'r) rcp_msg) set" where
  "prepare_msgs [] = {}"
| "prepare_msgs (PrepareMsg q m # es) = insert (q, m) (prepare_msgs es)"
| "prepare_msgs (_ # es) = prepare_msgs es"

fun permutations_in :: "('s, 'r, 'g) dm_event list \<Rightarrow> nat list set" where
  "permutations_in [] = {}"
| "permutations_in (Permutation pi # es) = insert pi (permutations_in es)"
| "permutations_in (_ # es) = permutations_in es"

lemma dm_step_inv:
  assumes h: "dumbo_mvba M pid s e = (s', ms, c)" and i: "dm_inv X P s"
    and X: "prepare_msgs [e] \<subseteq> X" and P: "permutations_in [e] \<subseteq> P"
  shows "dm_inv X P s' \<and> ballots_ok M X P (aba_ones ms)"
proof (cases e)
  case (PdReturned j os)
  define s1 where "s1 = s\<lparr>dm_delivered := insert j (dm_delivered s), dm_pd_outs := (dm_pd_outs s)(j := os)\<rparr>"
  show ?thesis
  proof (cases "dm_phase s = WaitPds \<and> pN (mD M) \<le> card (dm_delivered s1)")
    case True
    obtain s2 m2 where d: "dm_drain_all M s1 [0..<pN (mD M)] = (s2, m2)" by (cases "dm_drain_all M s1 [0..<pN (mD M)]")
    define t where "t = s2\<lparr>dm_phase := WaitFinish, dm_finish_queue := []\<rparr>"
    obtain s3 m3 c3 where f: "dm_finish M pid t (dm_finish_queue s2) = (s3, m3, c3)"
      by (cases "dm_finish M pid t (dm_finish_queue s2)")
    have "dm_inv X P t" using dm_drain_all_frame [OF d] i by (simp add: dm_inv_def t_def s1_def)
    from dm_finish_frame [OF f this] have "dm_inv X P s3 \<and> aba_ones m3 = {}" by (simp add: t_def)
    moreover have "s' = s3" "ms = m2 @ m3" using h PdReturned True d f by (auto simp: s1_def t_def Let_def)
    ultimately show ?thesis using dm_drain_all_frame [OF d] by (simp add: ballots_ok_def)
  next
    case False
    then have "s' = s \<or> s' = s1 \<and> dm_phase s = WaitPds" "ms = []"
      using h PdReturned by (auto simp: s1_def Let_def split: if_splits)
    then show ?thesis using i by (auto simp: dm_inv_def s1_def ballots_ok_def)
  qed
next
  case (FinishMsg q m)
  show ?thesis
  proof (cases "dm_phase s = WaitFinish")
    case True
    then have "dm_finish M pid s [(q, m)] = (s', ms, c)" using h FinishMsg by simp
    from dm_finish_frame [OF this i True] show ?thesis by (simp add: ballots_ok_def)
  next
    case False
    then have "s' = s \<or> s' = s\<lparr>dm_finish_queue := dm_finish_queue s @ [(q, m)]\<rparr>" "ms = []"
      using h FinishMsg by (auto split: dm_phase.splits)
    then show ?thesis using i by (auto simp: dm_inv_def ballots_ok_def)
  qed
next
  case (Permutation pi)
  show ?thesis
  proof (cases "dm_phase s = WaitCoin")
    case True
    then have b: "dm_ballot M (s\<lparr>dm_pi := pi\<rparr>) = (s', ms, c)" using h Permutation by simp
    show ?thesis
      by (rule dm_ballot_inv [OF b]) (use i True P Permutation in \<open>simp_all add: dm_inv_def\<close>)
  qed (use h i Permutation in \<open>simp add: ballots_ok_def\<close>)
next
  case (PrepareMsg q m)
  define t where "t = s\<lparr>dm_pre_queue := dm_pre_queue s @ [(q, m)]\<rparr>"
  have t: "dm_inv X P t" using i X PrepareMsg by (auto simp: dm_inv_def t_def)
  show ?thesis
  proof (cases "dm_phase s = Prepare")
    case True
    then have "dm_prepare M t (dm_pi t ! dm_r t) = (s', ms, c)" using h PrepareMsg by (simp add: t_def Let_def)
    then show ?thesis by (rule dm_prepare_inv) (use t True in \<open>simp_all add: t_def\<close>)
  next
    case False
    then have "s' = t" "ms = []" using h PrepareMsg by (simp_all add: t_def Let_def)
    then show ?thesis using t by (simp add: ballots_ok_def)
  qed
next
  case (AbaOut b)
  show ?thesis
  proof (cases "dm_phase s = WaitAba")
    case True
    then have "dm_aba M s b = (s', ms, c)" using h AbaOut by simp
    then show ?thesis by (rule dm_aba_inv [OF _ i True])
  qed (use h i AbaOut in \<open>simp add: ballots_ok_def\<close>)
next
  case (RcMsg q m)
  show ?thesis
  proof (cases "dm_phase s = Recast")
    case True
    then have r: "dm_recast M s [(q, m)] = (s', ms, c)" using h RcMsg by simp
    have "dm_phase s' = dm_phase s" using r by (auto simp: dm_recast_def split: prod.splits)
    then show ?thesis using dm_recast_frame [OF r] i by (simp add: dm_inv_def ballots_ok_def)
  next
    case False
    then have "s' = s\<lparr>dm_rc_queue := dm_rc_queue s @ [(q, m)]\<rparr>" "ms = []" using h RcMsg by simp_all
    then show ?thesis using i by (simp add: dm_inv_def ballots_ok_def)
  qed
qed

lemma dm_run_inv:
  "dm_inv X P s \<Longrightarrow> prepare_msgs es \<subseteq> X \<Longrightarrow> permutations_in es \<subseteq> P \<Longrightarrow>
    run_loop (dumbo_mvba M pid) s es = (s', ms, c) \<Longrightarrow> ballots_ok M X P (aba_ones ms)"
proof (induction es arbitrary: s ms)
  case Nil
  then show ?case by (simp add: ballots_ok_def)
next
  case (Cons e es)
  obtain s1 o1 c1 where h: "dumbo_mvba M pid s e = (s1, o1, c1)" by (cases "dumbo_mvba M pid s e")
  have sub: "prepare_msgs [e] \<subseteq> X" "permutations_in [e] \<subseteq> P" "prepare_msgs es \<subseteq> X" "permutations_in es \<subseteq> P"
    using Cons.prems(2,3) by (cases e; auto)+
  note st = dm_step_inv [OF h Cons.prems(1) sub(1,2)]
  obtain o2 where "ms = o1 @ o2" "o2 = [] \<or> run_loop (dumbo_mvba M pid) s1 es = (s', o2, c)"
    using Cons.prems(4) h by (cases c1) (auto split: prod.splits)
  then show ?case using st Cons.IH [of s1 o2] sub(3,4) by (auto simp: ballots_ok_def)
qed


text \<open>
  C36: What goes into the binary agreements. In every run, whatever arrives in whatever order, a node
  gives 1 to the binary agreement of ballot \<open>r\<close> only if it received a lock certificate that verifies for the
  dispersal of the node at position \<open>r\<close> of a permutation the coin gave, in a message of this or an
  earlier ballot. With the availability of locked dispersals, every ballot decided for can be recast.
\<close>

theorem mvba_ballot_certified:
  "ballots_ok M (prepare_msgs es) (permutations_in es)
     (aba_ones (fst (snd (run_loop (dumbo_mvba M pid) (dm_init (pN (mD M))) es))))"
proof -
  obtain s' ms c where h: "run_loop (dumbo_mvba M pid) (dm_init (pN (mD M))) es = (s', ms, c)"
    by (cases "run_loop (dumbo_mvba M pid) (dm_init (pN (mD M))) es")
  have "dm_inv (prepare_msgs es) (permutations_in es) (dm_init (pN (mD M)))"
    by (simp add: dm_inv_def dm_init_def)
  from dm_run_inv [OF this subset_refl subset_refl h] show ?thesis by (simp add: h)
qed

text \<open>
  After the decision for a node, the stripes and the lock that have already arrived are enough: the
  agreement decides the value dispersed.
\<close>

lemma mvba_decides:
  assumes "dm_phase s = WaitAba" and "dm_rc s = rc_init (pN (mD M))"
    and "dm_rc_queue s = es @ [(q, RCLOCK sid (Some (root, raw)))]"
    and "coder_ok (rc_coder (mD M))" and "rc_code (mD M) v code root" and "rc_bound (mD M) code root (set es)"
    and "list_all (stripe_for (mD M) root) es" and "pf (mD M) + 1 \<le> card (stripe_indices (mD M) (set es))"
    and "pdes (mD M) raw = Inr Sigma1" and "pcert (mD M) Sigma1 (pstored (mD M) sid root)"
  shows "ctl_of (dumbo_mvba M pid s (AbaOut 1)) = Returned (Some v)"
  using assms(1-3) recast_recovers_aux [OF assms(4-10), of q]
  by (auto simp: dm_aba_def dm_recast_def Let_def split: prod.splits)

section \<open>The common subset\<close>

text \<open>
  \<open>mvbacommonsubset\<close>: every node broadcasts its value with a signature share on it; the first \<open>N - f\<close>
  values make the input of the agreement, pickled, and the vector decided is the result. \<open>cdigest sid v\<close> is the
  hash of the printed pair, \<open>cdumps\<close> and \<open>cloads\<close> are \<open>pickle\<close>.
\<close>

record ('s, 'd, 'r, 'g, 'v) mcs_env =
  cD :: "('s, 'd, 'r, 'g) pd_env"
  cdigest :: "'s \<Rightarrow> 'v \<Rightarrow> 'd"
  cpred :: "nat \<Rightarrow> 'v \<Rightarrow> bool"
  cdumps :: "'v option list \<Rightarrow> bytes"
  cloads :: "bytes \<Rightarrow> py_error + 'v option list"

datatype ('s, 'r, 'v) mcs_msg = DIFFUSE 's 'v 'r | MvbaInput bytes

datatype ('s, 'r, 'v) mcs_event = Diffused nat 's 'v 'r | MvbaOutput "bytes option"

record 'v mcs_state =
  c_senders :: "nat set"
  c_values :: "'v option list"
  c_started :: bool

definition mcs_start :: "('s, 'd, 'r, 'g, 'v) mcs_env \<Rightarrow> 's \<Rightarrow> nat \<Rightarrow> 'v \<Rightarrow>
    py_error + 'v mcs_state \<times> ('s, 'r, 'v) mcs_msg out list" where
  "mcs_start C sid pid v =
     (if \<not> cpred C pid v then Inl AssertionError
      else Inr (\<lparr>c_senders = {}, c_values = replicate (pN (cD C)) None, c_started = False\<rparr>,
                to_all (pN (cD C)) (DIFFUSE sid v (pser (cD C) (psign (cD C) pid (cdigest C sid v))))))"

fun mvbacommonsubset :: "('s, 'd, 'r, 'g, 'v) mcs_env \<Rightarrow> 'v mcs_state \<Rightarrow> ('s, 'r, 'v) mcs_event \<Rightarrow>
    ('v mcs_state, ('s, 'r, 'v) mcs_msg, 'v option list) reply" where
  "mvbacommonsubset C s (Diffused q sid v raw) =
     (if c_started s then stay s
      else case pdes (cD C) raw of
        Inl e \<Rightarrow> (s, [], Raised e)
      | Inr sig \<Rightarrow>
          if \<not> pshare (cD C) sig q (cdigest C sid v) then stay s
          else let s1 = s\<lparr>c_senders := insert q (c_senders s), c_values := (c_values s)[q := Some v]\<rparr> in
            if pN (cD C) - pf (cD C) \<le> card (c_senders s1)
            then (s1\<lparr>c_started := True\<rparr>, [Send 0 (MvbaInput (cdumps C (c_values s1)))], Running)
            else stay s1)"
| "mvbacommonsubset C s (MvbaOutput x) =
     (if \<not> c_started s then stay s
      else case x of
        None \<Rightarrow> (s, [], Raised TypeError)
      | Some b \<Rightarrow> (case cloads C b of Inl e \<Rightarrow> (s, [], Raised e) | Inr vec \<Rightarrow> (s, [], Returned vec)))"

text \<open>
  \<open>mvba_predicate\<close> counts the entries of a tuple; what it would be asked about is the pickled vector, a
  byte string (\<open>Inl\<close>). \<open>dumbo_mvba\<close> never calls it.
\<close>

fun mvba_count :: "('s, 'd, 'r, 'g, 'v) mcs_env \<Rightarrow> ('v \<Rightarrow> 'd) \<Rightarrow> (nat \<Rightarrow> nat \<times> 'v \<times> 'g \<Rightarrow> bool) \<Rightarrow> nat \<Rightarrow>
    (nat \<times> 'v \<times> 'g) list \<Rightarrow> py_error + nat" where
  "mvba_count C dig pr i [] = Inr 0"
| "mvba_count C dig pr i ((j, vj, sig) # xs) =
     (if \<not> pr i (j, vj, sig) then mvba_count C dig pr (i + 1) xs
      else if \<not> pshare (cD C) sig j (dig vj) then Inl AssertionError
      else res_bind (mvba_count C dig pr (i + 1) xs) (\<lambda>n. Inr (n + 1)))"

definition mvba_predicate :: "('s, 'd, 'r, 'g, 'v) mcs_env \<Rightarrow> ('v \<Rightarrow> 'd) \<Rightarrow> (nat \<Rightarrow> nat \<times> 'v \<times> 'g \<Rightarrow> bool) \<Rightarrow>
    bytes + (nat \<times> 'v \<times> 'g) list \<Rightarrow> py_error + bool" where
  "mvba_predicate C dig pr m =
     res_bind (case m of
         Inl _ \<Rightarrow> Inr 0
       | Inr xs \<Rightarrow> if length xs = pN (cD C) then mvba_count C dig pr 0 xs else Inr 0)
       (\<lambda>counter. Inr (pN (cD C) - pf (cD C) \<le> counter))"

lemma mvba_predicate_never:
  assumes "3 * pf (cD C) + 1 \<le> pN (cD C)"
  shows "mvba_predicate C dig pr (Inl (cdumps C vec)) = Inr False"
  using assms by (simp add: mvba_predicate_def res_bind_def)

text \<open>The vector given to the agreement: \<open>N - f\<close> values, each with a valid share of its sender.\<close>

definition diffused_ok :: "('s, 'd, 'r, 'g, 'v) mcs_env \<Rightarrow> ('s, 'r, 'v) mcs_event set \<Rightarrow> nat \<Rightarrow> 'v \<Rightarrow> bool" where
  "diffused_ok C X q v \<longleftrightarrow> (\<exists>sid raw sig. Diffused q sid v raw \<in> X \<and> pdes (cD C) raw = Inr sig \<and>
     pshare (cD C) sig q (cdigest C sid v))"

definition mcs_vector :: "('s, 'd, 'r, 'g, 'v) mcs_env \<Rightarrow> ('s, 'r, 'v) mcs_event set \<Rightarrow> 'v option list \<Rightarrow> bool" where
  "mcs_vector C X vec \<longleftrightarrow> length vec = pN (cD C) \<and> (\<forall>q < length vec. \<forall>v. vec ! q = Some v \<longrightarrow> diffused_ok C X q v)"

definition mcs_inv :: "('s, 'd, 'r, 'g, 'v) mcs_env \<Rightarrow> ('s, 'r, 'v) mcs_event set \<Rightarrow> 'v mcs_state \<Rightarrow> bool" where
  "mcs_inv C X s \<longleftrightarrow> mcs_vector C X (c_values s) \<and> c_senders s = {q. q < pN (cD C) \<and> c_values s ! q \<noteq> None}"

lemma mcs_collect:
  assumes "mcs_inv C X s" and "diffused_ok C X q v" and "q < pN (cD C)"
  shows "mcs_inv C X (s\<lparr>c_senders := insert q (c_senders s), c_values := (c_values s)[q := Some v]\<rparr>)"
  using assms by (auto simp: mcs_inv_def mcs_vector_def nth_list_update)

lemma mcs_count:
  assumes "mcs_inv C X s"
  shows "present (c_values s) = card (c_senders s)"
  using assms by (auto simp: mcs_inv_def mcs_vector_def present_def length_filter_conv_card intro: arg_cong [where f = card])

text \<open>Senders are node numbers: the network says who sent a message.\<close>

fun from_node :: "nat \<Rightarrow> ('s, 'r, 'v) mcs_event \<Rightarrow> bool" where
  "from_node N (Diffused q sid v raw) = (q < N)"
| "from_node N _ = True"

lemma mcs_step_inv:
  assumes "mcs_inv C X s" and "e \<in> X" and "from_node (pN (cD C)) e" and "mvbacommonsubset C s e = (s', outs, c)"
  shows "mcs_inv C X s' \<and> (\<forall>k b. Send k (MvbaInput b) \<in> set outs \<longrightarrow>
    (\<exists>vec. b = cdumps C vec \<and> mcs_vector C X vec \<and> pN (cD C) - pf (cD C) \<le> present vec))"
proof (cases e)
  case (Diffused q sid v raw)
  show ?thesis
  proof (cases "c_started s")
    case True
    then show ?thesis using assms Diffused by simp
  next
    case False
    show ?thesis
    proof (cases "pdes (cD C) raw")
      case (Inl x)
      then show ?thesis using assms Diffused False by auto
    next
      case (Inr sig)
      define s1 where "s1 = s\<lparr>c_senders := insert q (c_senders s), c_values := (c_values s)[q := Some v]\<rparr>"
      show ?thesis
      proof (cases "pshare (cD C) sig q (cdigest C sid v)")
        case True
        then have "diffused_ok C X q v" using assms(2) Diffused Inr unfolding diffused_ok_def by blast
        then have i: "mcs_inv C X s1" unfolding s1_def using mcs_collect [OF assms(1)] assms(3) Diffused by simp
        have r: "mvbacommonsubset C s e = (if pN (cD C) - pf (cD C) \<le> card (c_senders s1)
            then (s1\<lparr>c_started := True\<rparr>, [Send 0 (MvbaInput (cdumps C (c_values s1)))], Running) else stay s1)"
          using Diffused False Inr True by (simp add: s1_def Let_def)
        show ?thesis
        proof (cases "pN (cD C) - pf (cD C) \<le> card (c_senders s1)")
          case True
          then have "s' = s1\<lparr>c_started := True\<rparr>" "outs = [Send 0 (MvbaInput (cdumps C (c_values s1)))]"
            using r assms(4) by auto
          then show ?thesis using i True mcs_count [OF i] by (auto simp: mcs_inv_def)
        next
          case False
          then show ?thesis using r assms(4) i by auto
        qed
      qed (use assms Diffused False Inr in auto)
    qed
  qed
next
  case (MvbaOutput x)
  then show ?thesis using assms by (auto split: option.splits sum.splits if_splits)
qed

lemma mcs_input_signed:
  "mcs_inv C X s \<Longrightarrow> set es \<subseteq> X \<Longrightarrow> list_all (from_node (pN (cD C))) es \<Longrightarrow>
    run_loop (mvbacommonsubset C) s es = (s', outs, c) \<Longrightarrow> Send k (MvbaInput b) \<in> set outs \<Longrightarrow>
    \<exists>vec. b = cdumps C vec \<and> mcs_vector C X vec \<and> pN (cD C) - pf (cD C) \<le> present vec"
proof (induction es arbitrary: s outs)
  case Nil
  then show ?case by simp
next
  case (Cons e es)
  obtain s1 o1 c1 where h: "mvbacommonsubset C s e = (s1, o1, c1)" by (cases "mvbacommonsubset C s e")
  note st = mcs_step_inv [OF Cons.prems(1) _ _ h]
  obtain o2 where o2: "outs = o1 @ o2" "o2 = [] \<or> run_loop (mvbacommonsubset C) s1 es = (s', o2, c)"
    using Cons.prems(4) h by (cases c1) (auto split: prod.splits)
  show ?case
  proof (cases "Send k (MvbaInput b) \<in> set o1")
    case True
    then show ?thesis using st Cons.prems(2,3) by auto
  next
    case False
    then have "run_loop (mvbacommonsubset C) s1 es = (s', o2, c)" "Send k (MvbaInput b) \<in> set o2"
      using o2 Cons.prems(5) by auto
    then show ?thesis using Cons.IH [of s1 o2] st Cons.prems(2,3) by auto
  qed
qed

end
