(* ===== verification/FastPath.thy ===== *)
theory FastPath
  imports Certs
begin

text \<open>
  The two other fast paths of one leader: \<open>fastpath\<close> of \<open>src/mulebft/core/fastpath.py\<close>, in which every
  node sends a batch with its vote and the leader combines threshold signatures, and \<open>rbcfastpath\<close> of
  \<open>src/rbcmulebft/core/rbcfastpath.py\<close>, a sequence of provable reliable broadcasts. Times are not modelled,
  timers are events; the counters the code divides by are modelled.
\<close>

section \<open>Threshold-signed slots\<close>

text \<open>
  \<open>fdes\<close> and \<open>fser\<close> are \<open>deserialize1\<close> and \<open>serialize\<close>, \<open>fsign\<close> .. \<open>fcombine\<close> the operations of \<open>PK1\<close> and
  \<open>SK1\<close> on the hash of a digest, \<open>ftx\<close> and \<open>ftxok\<close> the signing of a batch, \<open>finput n\<close> what the \<open>n\<close>-th call
  of \<open>json.dumps([get_input() ...])\<close> gives, \<open>fheader\<close> the hash of a block header. \<open>flogger\<close>: is there a
  logger? Without one the handler of a vote raises an \<open>AttributeError\<close>.
\<close>

record ('d, 'r, 'g, 'b, 'e) fp_env =
  fN :: nat
  ff :: nat
  fleader :: nat
  fslots :: nat
  fgenesis :: 'd
  fheader :: "nat \<times> 'd \<times> (nat \<times> 'b \<times> 'e) list \<Rightarrow> 'd"
  fdes :: "'r \<Rightarrow> py_error + 'g"
  fser :: "'g \<Rightarrow> 'r"
  fsign :: "nat \<Rightarrow> 'd \<Rightarrow> 'g"
  fshare :: "'g \<Rightarrow> nat \<Rightarrow> 'd \<Rightarrow> bool"
  fcert :: "'g \<Rightarrow> 'd \<Rightarrow> bool"
  fcombine :: "(nat, 'g) odict \<Rightarrow> py_error + 'g"
  ftx :: "nat \<Rightarrow> 'b \<Rightarrow> 'e"
  ftxok :: "nat \<Rightarrow> 'b \<Rightarrow> 'e \<Rightarrow> py_error + bool"
  finput :: "nat \<Rightarrow> py_error + 'b"
  fdummy :: 'b
  fdummies :: 'b
  fcount :: "(nat \<times> 'b \<times> 'e) list \<Rightarrow> nat"
  flogger :: bool

type_synonym ('b, 'e) batches = "(nat \<times> 'b \<times> 'e) list"

datatype ('d, 'r, 'b, 'e) fp_msg =
    FpVote nat 'd 'r 'b 'e
  | FpDecide nat 'd 'r "('b, 'e) batches"

text \<open>
  \<open>SlotTimer\<close>: a timer of the slot fires. Two timers run; when the second one also fires while the first is
  handled, the argument is true.
\<close>

datatype ('d, 'r, 'b, 'e) fp_event = FpRecv nat "('d, 'r, 'b, 'e) fp_msg" | SlotTimer bool

type_synonym ('d, 'r, 'b, 'e) fp_block = "nat \<times> 'd \<times> 'r \<times> ('b, 'e) batches"

record ('d, 'r, 'g, 'b, 'e) fp_state =
  fp_slot :: nat
  fp_prev :: 'd
  fp_pending :: "('d, 'r, 'b, 'e) fp_block option"
  fp_notarized :: "('d, 'r, 'b, 'e) fp_block option"
  fp_voters :: "nat \<Rightarrow> nat set"
  fp_votes :: "nat \<Rightarrow> (nat, 'g) odict"
  fp_batches :: "nat \<Rightarrow> (nat, 'b \<times> 'e) odict"
  fp_decide_sent :: "nat \<Rightarrow> bool"
  fp_txcnt :: "nat \<Rightarrow> nat"
  fp_total :: nat
  fp_calls :: nat
  fp_receiving :: bool
  fp_blocked :: bool
  fp_outputs :: "('d, 'r, 'b, 'e) fp_block list"

definition fp_init :: "('d, 'r, 'g, 'b, 'e) fp_env \<Rightarrow> ('d, 'r, 'g, 'b, 'e) fp_state" where
  "fp_init E = \<lparr>fp_slot = 1, fp_prev = fgenesis E, fp_pending = None, fp_notarized = None, fp_voters = (\<lambda>_. {}),
     fp_votes = (\<lambda>_. []), fp_batches = (\<lambda>_. []), fp_decide_sent = (\<lambda>_. False), fp_txcnt = (\<lambda>_. 0), fp_total = 0,
     fp_calls = 0, fp_receiving = True, fp_blocked = False, fp_outputs = []\<rparr>"

type_synonym ('d, 'r, 'g, 'b, 'e) fp_reply =
  "(('d, 'r, 'g, 'b, 'e) fp_state, ('d, 'r, 'b, 'e) fp_msg, ('d \<times> 'r) option) reply"

text \<open>The head of \<open>one_slot\<close>: a batch and the vote; only an \<open>IndexError\<close> of the input gives a dummy batch.\<close>

definition fp_batch :: "('d, 'r, 'g, 'b, 'e) fp_env \<Rightarrow> ('d, 'r, 'g, 'b, 'e) fp_state \<Rightarrow> py_error + 'b" where
  "fp_batch E s =
     (if fp_slot s = fslots E + 1 \<or> fp_slot s = fslots E + 2 then Inr (fdummy E)
      else case finput E (fp_calls s) of Inl IndexError \<Rightarrow> Inr (fdummies E) | x \<Rightarrow> x)"

definition fp_vote :: "('d, 'r, 'g, 'b, 'e) fp_env \<Rightarrow> nat \<Rightarrow> ('d, 'r, 'g, 'b, 'e) fp_state \<Rightarrow> ('d, 'r, 'g, 'b, 'e) fp_reply" where
  "fp_vote E pid s =
     (case fp_batch E s of
        Inl e \<Rightarrow> (s, [], Raised e)
      | Inr batch \<Rightarrow>
          (s\<lparr>fp_calls := fp_calls s + 1\<rparr>,
           [Send (int (fleader E)) (FpVote (fp_slot s) (fp_prev s) (fser E (fsign E pid (fp_prev s))) batch (ftx E pid batch))],
           Running))"

definition fp_start :: "('d, 'r, 'g, 'b, 'e) fp_env \<Rightarrow> nat \<Rightarrow> ('d, 'r, 'g, 'b, 'e) fp_reply" where
  "fp_start E pid = (if \<not> fleader E < fN E then (fp_init E, [], Raised AssertionError) else fp_vote E pid (fp_init E))"

definition fp_return :: "('d, 'r, 'g, 'b, 'e) fp_state \<Rightarrow> ('d \<times> 'r) option" where
  "fp_return s = (case (fp_notarized s, fp_pending s) of (Some _, Some (_, h, raw, _)) \<Rightarrow> Some (h, raw) | _ \<Rightarrow> None)"

text \<open>
  The rest of \<open>one_slot\<close>: the pending block is notarized and given out, the transactions of the one before
  are counted, the decided block becomes the pending one, and the next slot begins.
\<close>

definition fp_promote :: "('d, 'r, 'g, 'b, 'e) fp_env \<Rightarrow> ('d, 'r, 'g, 'b, 'e) fp_state \<Rightarrow>
    ('d, 'r, 'g, 'b, 'e) fp_state \<times> py_error option" where
  "fp_promote E s =
     (case fp_pending s of
        None \<Rightarrow> (s, None)
      | Some b \<Rightarrow>
          (let k = fst b;
               s1 = s\<lparr>fp_notarized := Some b, fp_outputs := fp_outputs s @ [b],
                      fp_txcnt := (fp_txcnt s)(k := fcount E (snd (snd (snd b))))\<rparr>
           in if k < 2 then (s1, None)
              else if fp_total s1 + fp_txcnt s1 (k - 1) = 0 then (s1, Some ZeroDivisionError)
              else (s1\<lparr>fp_total := fp_total s1 + fp_txcnt s1 (k - 1)\<rparr>, None)))"

definition fp_finish :: "('d, 'r, 'g, 'b, 'e) fp_env \<Rightarrow> nat \<Rightarrow> ('d, 'r, 'g, 'b, 'e) fp_state \<Rightarrow>
    'd \<times> 'r \<times> ('b, 'e) batches \<Rightarrow> ('d, 'r, 'g, 'b, 'e) fp_reply" where
  "fp_finish E pid s d =
     (case fp_promote E s of
        (s1, Some e) \<Rightarrow> (s1, [], Raised e)
      | (s1, None) \<Rightarrow>
          (case d of (h, raw, batches) \<Rightarrow>
            let s2 = s1\<lparr>fp_pending := Some (fp_slot s1, h, raw, batches),
                        fp_prev := fheader E (fp_slot s1, h, batches), fp_slot := fp_slot s1 + 1\<rparr>
            in if fp_slot s2 \<le> fslots E + 2 then fp_vote E pid s2 else (s2, [], Returned (fp_return s2))))"

text \<open>
  A vote at the leader. A failure outside the \<open>try\<close> blocks, or an exception that is no
  \<open>AssertionError\<close>, ends the greenlet that receives and leaves \<open>msg_noncritical_signal\<close> cleared. The
  handler yields before every message, so the slot goes on with a decision before the next message is
  looked at.
\<close>

definition fp_critical_error :: "('d, 'r, 'g, 'b, 'e) fp_state \<Rightarrow> ('d, 'r, 'g, 'b, 'e) fp_state" where
  "fp_critical_error s = s\<lparr>fp_receiving := False, fp_blocked := True\<rparr>"

definition to_others :: "nat \<Rightarrow> nat \<Rightarrow> 'm \<Rightarrow> 'm out list" where
  "to_others N pid m = map (\<lambda>i. Send (int i) m) (filter (\<lambda>i. i \<noteq> pid) [0..<N])"

definition fp_on_vote :: "('d, 'r, 'g, 'b, 'e) fp_env \<Rightarrow> nat \<Rightarrow> ('d, 'r, 'g, 'b, 'e) fp_state \<Rightarrow> nat \<Rightarrow> nat \<Rightarrow> 'd \<Rightarrow> 'r \<Rightarrow>
    'b \<Rightarrow> 'e \<Rightarrow> ('d, 'r, 'g, 'b, 'e) fp_reply" where
  "fp_on_vote E pid s q slot h raw batch tsig =
     (let deaf = stay (fp_critical_error s) in
      if pid \<noteq> fleader E \<or> \<not> card (fp_voters s (fp_slot s)) < fN E - ff E then stay s
      else case fdes E raw of
        Inl e \<Rightarrow> deaf
      | Inr sig \<Rightarrow>
          if q \<in> fp_voters s slot \<or> slot \<noteq> fp_slot s \<or> h \<noteq> fp_prev s then stay s
          else if \<not> flogger E then deaf
          else if \<not> fshare E sig q h \<or> ftxok E q batch tsig = Inr False then stay s
          else if ftxok E q batch tsig \<noteq> Inr True then deaf
          else let s1 = s\<lparr>fp_voters := (fp_voters s)(slot := insert q (fp_voters s slot)),
                          fp_votes := (fp_votes s)(slot := od_set q sig (fp_votes s slot)),
                          fp_batches := (fp_batches s)(slot := od_set q (batch, tsig) (fp_batches s slot))\<rparr> in
            if card (fp_voters s1 slot) = fN E - ff E \<and> \<not> fp_decide_sent s1 slot
            then (case fcombine E (fp_votes s1 slot) of
                    Inl e \<Rightarrow> stay (fp_critical_error s1)
                  | Inr Sig \<Rightarrow>
                      (case fp_finish E pid (s1\<lparr>fp_decide_sent := (fp_decide_sent s1)(slot := True)\<rparr>)
                              (h, fser E Sig, fp_batches s1 slot) of
                         (s2, outs, c) \<Rightarrow>
                           (s2, to_others (fN E) pid (FpDecide slot h (fser E Sig) (fp_batches s1 slot)) @ outs, c)))
            else stay s1)"

text \<open>
  A decision at another node: its sender is not looked at, its hash is not compared with \<open>hash_prev\<close>, and
  the results of the checks of the batches' signatures are dropped; only the index of a proposer can fail,
  or a signature that cannot be parsed.
\<close>

definition fp_checkable :: "('d, 'r, 'g, 'b, 'e) fp_env \<Rightarrow> ('b, 'e) batches \<Rightarrow> bool" where
  "fp_checkable E batches =
     list_all (\<lambda>(i, b, e). i < fN E \<and> (case ftxok E i b e of Inl _ \<Rightarrow> False | Inr _ \<Rightarrow> True)) batches"

definition fp_on_decide :: "('d, 'r, 'g, 'b, 'e) fp_env \<Rightarrow> nat \<Rightarrow> ('d, 'r, 'g, 'b, 'e) fp_state \<Rightarrow> nat \<Rightarrow> 'd \<Rightarrow> 'r \<Rightarrow>
    ('b, 'e) batches \<Rightarrow> ('d, 'r, 'g, 'b, 'e) fp_reply" where
  "fp_on_decide E pid s slot h raw batches =
     (if pid = fleader E then stay s
      else case fdes E raw of
        Inl e \<Rightarrow> stay (fp_critical_error s)
      | Inr Sig \<Rightarrow>
          if slot \<noteq> fp_slot s \<or> \<not> fcert E Sig h \<or> \<not> fN E - ff E \<le> length batches then stay s
          else if \<not> fp_checkable E batches then stay (fp_critical_error s)
          else fp_finish E pid s (h, raw, batches))"

text \<open>
  A timer: \<open>recv_thread\<close> is killed; if the second timer fires meanwhile, the loop ends, otherwise it goes
  on with the same slot and without anybody to receive messages. If the handler has died with
  \<open>msg_noncritical_signal\<close> cleared, the first timer waits for the second.
\<close>

fun fp_step :: "('d, 'r, 'g, 'b, 'e) fp_env \<Rightarrow> nat \<Rightarrow> ('d, 'r, 'g, 'b, 'e) fp_state \<Rightarrow> ('d, 'r, 'b, 'e) fp_event \<Rightarrow>
    ('d, 'r, 'g, 'b, 'e) fp_reply" where
  "fp_step E pid s (FpRecv q m) =
     (if \<not> fp_receiving s then stay s
      else if \<not> q < fN E then stay (s\<lparr>fp_receiving := False\<rparr>)
      else case m of
          FpVote slot h raw batch tsig \<Rightarrow> fp_on_vote E pid s q slot h raw batch tsig
        | FpDecide slot h raw batches \<Rightarrow> fp_on_decide E pid s slot h raw batches)"
| "fp_step E pid s (SlotTimer both) =
     (if both \<or> fp_blocked s then (s\<lparr>fp_receiving := False\<rparr>, [], Returned (fp_return s))
      else fp_vote E pid (s\<lparr>fp_receiving := False\<rparr>))"

section \<open>Slots of reliable broadcasts\<close>

text \<open>
  \<open>rbcfastpath\<close>: the outcome of a slot is an event, the value and the proof of the broadcast, the timer, or
  an exception (of \<open>get_input\<close> at the leader). A block is \<open>(slot, value)\<close>; the session and the leader are
  constant. \<open>rf_route\<close> is one turn of \<open>handle_messages\<close>.
\<close>

datatype ('v, 'p) rf_event = SlotDone 'v 'p | SlotOver | SlotRaised py_error

record ('v, 'p) rf_state =
  rf_slot :: nat
  rf_block :: "(nat \<times> 'v) option"
  rf_txcnt :: nat
  rf_outputs :: "((nat \<times> 'v) \<times> nat \<times> 'p) list"

definition rf_init :: "('v, 'p) rf_state" where
  "rf_init = \<lparr>rf_slot = 1, rf_block = None, rf_txcnt = 0, rf_outputs = []\<rparr>"

definition rf_route :: "nat \<Rightarrow> (nat \<Rightarrow> (nat \<times> 'm) list) \<Rightarrow> nat \<times> string \<times> nat \<times> 'm \<Rightarrow>
    (nat \<Rightarrow> (nat \<times> 'm) list, unit, unit) reply" where
  "rf_route Snum qs x =
     (case x of (q, tag, slot, m) \<Rightarrow>
        if tag \<noteq> ''FAST_PRBC'' then stay qs
        else if \<not> slot < Snum + 1 then (qs, [], Raised AssertionError)
        else stay (qs(slot := qs slot @ [(q, m)])))"

definition rf_result :: "('v, 'p) rf_state \<Rightarrow> (nat \<times> 'v \<times> nat) option" where
  "rf_result s = map_option (\<lambda>(slot, v). (slot, v, rf_txcnt s)) (rf_block s)"

fun rbcfastpath :: "nat \<Rightarrow> (nat \<times> 'v \<Rightarrow> nat) \<Rightarrow> ('v, 'p) rf_state \<Rightarrow> ('v, 'p) rf_event \<Rightarrow>
    (('v, 'p) rf_state, unit, (nat \<times> 'v \<times> nat) option) reply" where
  "rbcfastpath Snum cnt s SlotOver = (s, [], Returned (rf_result s))"
| "rbcfastpath Snum cnt s (SlotRaised e) = (s, [], Raised e)"
| "rbcfastpath Snum cnt s (SlotDone v proof) =
     (let n = (case rf_block s of None \<Rightarrow> 0 | Some b \<Rightarrow> cnt b) in
      if rf_block s \<noteq> None \<and> fst (the (rf_block s)) \<noteq> rf_slot s - 1 then (s, [], Raised AssertionError)
      else if rf_block s \<noteq> None \<and> rf_txcnt s + n = 0 then (s, [], Raised ZeroDivisionError)
      else let s1 = s\<lparr>rf_block := Some (rf_slot s, v), rf_txcnt := rf_txcnt s + n,
                      rf_outputs := rf_outputs s @ [((rf_slot s, v), rf_slot s, proof)], rf_slot := rf_slot s + 1\<rparr>
        in if rf_slot s1 \<le> Snum then stay s1 else (s1, [], Returned (rf_result s1)))"

section \<open>The outputs of \<open>rbcfastpath\<close>\<close>

definition rf_ok :: "('v \<times> 'p) list \<Rightarrow> ('v, 'p) rf_state \<Rightarrow> bool" where
  "rf_ok xs s \<longleftrightarrow> rf_slot s = length xs + 1 \<and>
     rf_outputs s = map (\<lambda>(k, v, p). ((k, v), k, p)) (zip [1..<length xs + 1] xs) \<and>
     rf_block s = (if xs = [] then None else Some (length xs, fst (last xs)))"

lemma rf_ok_step:
  assumes "rf_ok xs s" and "rbcfastpath Snum cnt s (SlotDone v p) = (s', outs, c)"
  shows "s' = s \<and> c = Raised ZeroDivisionError \<or>
    rf_ok (xs @ [(v, p)]) s' \<and> c = (if rf_slot s' \<le> Snum then Running else Returned (rf_result s'))"
proof -
  have z: "zip [1..<length xs + 2] (xs @ [(v, p)]) = zip [1..<length xs + 1] xs @ [(length xs + 1, v, p)]"
  proof -
    have "[1..<length xs + 2] = [1..<length xs + 1] @ [length xs + 1]"
      using upt_Suc_append [of 1 "length xs + 1"] by (simp del: upt_Suc)
    then show ?thesis by (simp del: upt_Suc)
  qed
  have a: "rf_block s = None \<or> fst (the (rf_block s)) = rf_slot s - 1" using assms(1) by (simp add: rf_ok_def)
  show ?thesis
  proof (cases "rf_block s \<noteq> None \<and> rf_txcnt s + (case rf_block s of None \<Rightarrow> 0 | Some b \<Rightarrow> cnt b) = 0")
    case True
    then show ?thesis using assms(2) a by (auto simp: Let_def)
  next
    case False
    define s1 where "s1 = s\<lparr>rf_block := Some (rf_slot s, v),
        rf_txcnt := rf_txcnt s + (case rf_block s of None \<Rightarrow> 0 | Some b \<Rightarrow> cnt b),
        rf_outputs := rf_outputs s @ [((rf_slot s, v), rf_slot s, p)], rf_slot := rf_slot s + 1\<rparr>"
    have "rf_ok (xs @ [(v, p)]) s1" using assms(1) z by (simp add: rf_ok_def s1_def)
    moreover have "s' = s1 \<and> c = (if rf_slot s1 \<le> Snum then Running else Returned (rf_result s1))"
      using assms(2) a False by (auto simp: s1_def Let_def split: if_splits)
    ultimately show ?thesis by simp
  qed
qed

text \<open>
  Whatever happens, the blocks given out are those of the slots 1, 2, 3, .. in order, with the broadcasts'
  values and proofs, and the assertion on the slot of the last block never fails.
\<close>

fun slot_values :: "('v, 'p) rf_event list \<Rightarrow> ('v \<times> 'p) list" where
  "slot_values [] = []"
| "slot_values (SlotDone v p # es) = (v, p) # slot_values es"
| "slot_values (_ # es) = slot_values es"

lemma rbcfastpath_chain:
  "rf_ok xs s \<Longrightarrow> run_loop (rbcfastpath Snum cnt) s es = (s', outs, c) \<Longrightarrow>
    (\<exists>n. rf_ok (xs @ take n (slot_values es)) s') \<and>
    (c = Raised AssertionError \<longrightarrow> SlotRaised AssertionError \<in> set es)"
proof (induction es arbitrary: s xs outs)
  case Nil
  then show ?case by (auto intro: exI [of _ 0])
next
  case (Cons e es)
  show ?case
  proof (cases e)
    case (SlotDone v p)
    obtain s1 o1 c1 where h: "rbcfastpath Snum cnt s (SlotDone v p) = (s1, o1, c1)"
      by (cases "rbcfastpath Snum cnt s (SlotDone v p)")
    from rf_ok_step [OF Cons.prems(1) h] show ?thesis
    proof (elim disjE conjE)
      assume "s1 = s" "c1 = Raised ZeroDivisionError"
      then have "s' = s" "c = Raised ZeroDivisionError" using Cons.prems(2) h SlotDone by auto
      then show ?thesis using Cons.prems(1) by (auto intro: exI [of _ 0])
    next
      assume i: "rf_ok (xs @ [(v, p)]) s1" and c1: "c1 = (if rf_slot s1 \<le> Snum then Running else Returned (rf_result s1))"
      show ?thesis
      proof (cases "rf_slot s1 \<le> Snum")
        case True
        then obtain o2 where "run_loop (rbcfastpath Snum cnt) s1 es = (s', o2, c)"
          using Cons.prems(2) h SlotDone c1 by (auto split: prod.splits)
        from Cons.IH [OF i this] obtain n where
          n: "rf_ok ((xs @ [(v, p)]) @ take n (slot_values es)) s'"
            "c = Raised AssertionError \<longrightarrow> SlotRaised AssertionError \<in> set es" by blast
        then have "rf_ok (xs @ take (Suc n) (slot_values (e # es))) s'" using SlotDone by simp
        with n(2) show ?thesis by auto
      next
        case False
        then have "s' = s1" "c = Returned (rf_result s1)" using Cons.prems(2) h SlotDone c1 by auto
        then show ?thesis using i SlotDone by (auto intro: exI [of _ 1])
      qed
    qed
  qed (use Cons.prems in \<open>auto intro: exI [of _ 0]\<close>)
qed

text \<open>The second slot of a run whose first block holds no transaction ends every node.\<close>

lemma rbcfastpath_division:
  assumes "2 \<le> Snum" and "cnt (1, v) = 0"
  shows "ctl_of (run_loop (rbcfastpath Snum cnt) rf_init [SlotDone v p, SlotDone w q]) = Raised ZeroDivisionError"
  using assms by (simp add: rf_init_def Let_def)

lemma rf_route_dies:
  "Snum < slot \<Longrightarrow> ctl_of (rf_route Snum qs (q, ''FAST_PRBC'', slot, m)) = Raised AssertionError"
  by (simp add: rf_route_def)


section \<open>The blocks of \<open>fastpath\<close>\<close>

text \<open>
  The blocks given out and the pending one are those of the slots 1, 2, 3, .. in order; \<open>fp_made\<close> lists
  them.
\<close>

definition fp_made :: "('d, 'r, 'g, 'b, 'e) fp_state \<Rightarrow> ('d, 'r, 'b, 'e) fp_block list" where
  "fp_made s = fp_outputs s @ (case fp_pending s of None \<Rightarrow> [] | Some b \<Rightarrow> [b])"

definition fp_ok :: "('d, 'r, 'g, 'b, 'e) fp_env \<Rightarrow> ('d, 'r, 'g, 'b, 'e) fp_state \<Rightarrow> bool" where
  "fp_ok E s \<longleftrightarrow> map fst (fp_made s) = [1..<fp_slot s] \<and> fp_slot s \<noteq> 0 \<and>
     (fp_pending s = None \<longrightarrow> fp_outputs s = [])"


lemma fp_vote_frame:
  "fp_vote E pid s = (s', outs, c) \<Longrightarrow> s' = s \<or> s' = s\<lparr>fp_calls := fp_calls s + 1\<rparr>"
  by (auto simp: fp_vote_def split: sum.splits)

lemma fp_ok_frame:
  "fp_slot s' = fp_slot s \<Longrightarrow> fp_pending s' = fp_pending s \<Longrightarrow> fp_outputs s' = fp_outputs s \<Longrightarrow> fp_ok E s' = fp_ok E s"
  by (simp add: fp_ok_def fp_made_def)

text \<open>After an error of the statistics the pending block has been given out and stays pending.\<close>

definition fp_list :: "('d, 'r, 'g, 'b, 'e) fp_state \<Rightarrow> bool" where
  "fp_list s \<longleftrightarrow> (\<exists>n. map fst (fp_outputs s) = [1..<n + 1] \<and> n < fp_slot s)"

lemma fp_ok_list: "fp_ok E s \<Longrightarrow> fp_list s"
proof -
  assume ok: "fp_ok E s"
  show "fp_list s"
  proof (cases "fp_pending s")
    case None
    then show ?thesis using ok by (auto simp: fp_ok_def fp_list_def intro!: exI [of _ 0])
  next
    case (Some b)
    then have m: "map fst (fp_outputs s) @ [fst b] = [1..<fp_slot s]" using ok by (simp add: fp_ok_def fp_made_def)
    have "fp_slot s \<ge> 2" using arg_cong [OF m, of length] by simp
    then obtain k where k: "fp_slot s = Suc k" "1 \<le> k" by (cases "fp_slot s") auto
    then have "map fst (fp_outputs s) = [1..<k]" using m by simp
    then show ?thesis unfolding fp_list_def using k by (intro exI [of _ "k - 1"]) simp
  qed
qed

lemma fp_finish_ok:
  assumes "fp_ok E s" and "fp_finish E pid s d = (s', outs, c)"
  shows "fp_list s' \<and> ((\<forall>x. c \<noteq> Raised x) \<longrightarrow> fp_ok E s')"
proof -
  obtain s1 x where p: "fp_promote E s = (s1, x)" by (cases "fp_promote E s")
  have slot: "fp_slot s1 = fp_slot s" and pend: "fp_pending s1 = fp_pending s" and out: "fp_outputs s1 = fp_made s"
    using p assms(1) by (auto simp: fp_promote_def fp_made_def fp_ok_def Let_def split: option.splits if_splits)
  have made: "map fst (fp_outputs s1) = [1..<fp_slot s]" "fp_slot s \<noteq> 0" using out assms(1) by (simp_all add: fp_ok_def)
  obtain k where k: "fp_slot s = Suc k" using made(2) by (cases "fp_slot s") auto
  have l1: "fp_list s1" unfolding fp_list_def using made slot k by (intro exI [of _ k]) simp
  obtain h raw batches where d: "d = (h, raw, batches)" by (cases d)
  define s2 where "s2 = s1\<lparr>fp_pending := Some (fp_slot s1, h, raw, batches),
      fp_prev := fheader E (fp_slot s1, h, batches), fp_slot := fp_slot s1 + 1\<rparr>"
  have ok2: "fp_ok E s2" using made slot k by (simp add: fp_ok_def fp_made_def s2_def)
  show ?thesis
  proof (cases x)
    case (Some e)
    then have "s' = s1" "c = Raised e" using assms(2) p by (auto simp: fp_finish_def)
    then show ?thesis using l1 by simp
  next
    case None
    have f: "fp_finish E pid s d = (if fp_slot s2 \<le> fslots E + 2 then fp_vote E pid s2 else (s2, [], Returned (fp_return s2)))"
      using p None d by (simp add: fp_finish_def s2_def Let_def)
    have "s' = s2 \<or> s' = s2\<lparr>fp_calls := fp_calls s2 + 1\<rparr>"
    proof (cases "fp_slot s2 \<le> fslots E + 2")
      case True
      then have "fp_vote E pid s2 = (s', outs, c)" using assms(2) f by simp
      then show ?thesis by (rule fp_vote_frame)
    next
      case False
      then show ?thesis using assms(2) f by simp
    qed
    then have "fp_ok E s'" using ok2 fp_ok_frame [of s' s2 E] by auto
    then show ?thesis using fp_ok_list by blast
  qed
qed

lemma fp_step_ok:
  assumes "fp_ok E s" and "fp_step E pid s e = (s', outs, c)"
  shows "fp_list s' \<and> ((\<forall>x. c \<noteq> Raised x) \<longrightarrow> fp_ok E s')"
proof -
  have quiet: ?thesis if "fp_slot s' = fp_slot s" "fp_pending s' = fp_pending s" "fp_outputs s' = fp_outputs s"
    using fp_ok_frame [OF that, of E] assms(1) fp_ok_list by blast
  show ?thesis
  proof (cases e)
    case (SlotTimer both)
    show ?thesis
    proof (cases "both \<or> fp_blocked s")
      case True
      then show ?thesis using assms(2) SlotTimer by (intro quiet) auto
    next
      case False
      then have "fp_vote E pid (s\<lparr>fp_receiving := False\<rparr>) = (s', outs, c)" using assms(2) SlotTimer by simp
      from fp_vote_frame [OF this] show ?thesis by (intro quiet) auto
    qed
  next
    case (FpRecv q m)
    show ?thesis
    proof (cases "fp_receiving s \<and> q < fN E")
      case False
      then show ?thesis using assms(2) FpRecv by (intro quiet) (auto split: if_splits)
    next
      case True
      show ?thesis
      proof (cases m)
        case (FpDecide slot h raw batches)
        then have r: "fp_on_decide E pid s slot h raw batches = (s', outs, c)" using assms(2) FpRecv True by simp
        show ?thesis
        proof (cases "fp_finish E pid s (h, raw, batches) = (s', outs, c)")
          case True
          then show ?thesis by (rule fp_finish_ok [OF assms(1)])
        next
          case False
          then show ?thesis using r
            by (intro quiet) (auto simp: fp_on_decide_def fp_critical_error_def split: if_splits sum.splits)
        qed
      next
        case (FpVote slot h raw batch tsig)
        then have r: "fp_on_vote E pid s q slot h raw batch tsig = (s', outs, c)" using assms(2) FpRecv True by simp
        define s1 where "s1 = s\<lparr>fp_voters := (fp_voters s)(slot := insert q (fp_voters s slot)),
            fp_votes := (fp_votes s)(slot := od_set q (case fdes E raw of Inr sig \<Rightarrow> sig) (fp_votes s slot)),
            fp_batches := (fp_batches s)(slot := od_set q (batch, tsig) (fp_batches s slot))\<rparr>"
        define s2 where "s2 = s1\<lparr>fp_decide_sent := (fp_decide_sent s1)(slot := True)\<rparr>"
        have ok2: "fp_ok E s2" using assms(1) fp_ok_frame [of s2 s E] by (simp add: s1_def s2_def)
        show ?thesis
        proof (cases "\<exists>d o1. fp_finish E pid s2 d = (s', o1, c)")
          case True
          then show ?thesis using fp_finish_ok [OF ok2] by blast
        next
          case False
          have "fp_slot s' = fp_slot s \<and> fp_pending s' = fp_pending s \<and> fp_outputs s' = fp_outputs s"
            using r False by (auto simp: fp_on_vote_def fp_critical_error_def s1_def s2_def Let_def split: if_splits sum.splits prod.splits)
          then show ?thesis by (intro quiet) auto
        qed
      qed
    qed
  qed
qed

text \<open>
  In every run the blocks a node gives out are those of the slots 1, 2, 3, .. up to a slot before the
  current one, each once and in order.
\<close>

lemma fastpath_in_order:
  "fp_ok E s \<Longrightarrow> run_loop (fp_step E pid) s es = (s', outs, c) \<Longrightarrow> fp_list s'"
proof (induction es arbitrary: s outs)
  case Nil
  then show ?case by (auto intro: fp_ok_list)
next
  case (Cons e es)
  obtain s1 o1 c1 where h: "fp_step E pid s e = (s1, o1, c1)" by (cases "fp_step E pid s e")
  note st = fp_step_ok [OF Cons.prems(1) h]
  show ?case
  proof (cases c1)
    case Running
    then obtain o2 where "run_loop (fp_step E pid) s1 es = (s', o2, c)"
      using Cons.prems(2) h by (auto split: prod.splits)
    then show ?thesis using Cons.IH [of s1] st Running by simp
  qed (use Cons.prems(2) h st in auto)
qed

section \<open>What a faulty node and a timer can do\<close>

text \<open>
  Any certificate that verifies, an old one for instance, makes any node but the leader accept any batches
  for the current slot from anybody: their signatures do not matter.
\<close>

lemma fastpath_unsigned_batches:
  assumes "pid \<noteq> fleader E" and "fp_pending s = None" and "fp_slot s = 1" and "fp_receiving s" and "q < fN E"
    and "fdes E raw = Inr Sig" and "fcert E Sig h" and "fN E - ff E \<le> length batches" and "fp_checkable E batches"
    and "finput E (fp_calls s) = Inr b" and "2 \<le> fslots E"
  shows "fp_pending (fst (fp_step E pid s (FpRecv q (FpDecide 1 h raw batches)))) = Some (1, h, raw, batches)"
  using assms by (simp add: fp_on_decide_def fp_finish_def fp_promote_def fp_vote_def fp_batch_def Let_def)

text \<open>
  After a timer has fired alone, nothing that arrives has any effect: the slot is repeated until two timers
  coincide.
\<close>

lemma fastpath_deaf:
  "\<not> fp_receiving s \<Longrightarrow> \<not> fp_blocked s \<Longrightarrow> list_all (\<lambda>e. case e of FpRecv q m \<Rightarrow> True | SlotTimer both \<Rightarrow> \<not> both) es \<Longrightarrow>
    run_loop (fp_step E pid) s es = (s', outs, c) \<Longrightarrow>
    \<not> fp_receiving s' \<and> fp_slot s' = fp_slot s \<and> fp_outputs s' = fp_outputs s \<and> (\<forall>r. c \<noteq> Returned r)"
proof (induction es arbitrary: s outs)
  case Nil
  then show ?case by auto
next
  case (Cons e es)
  obtain s1 o1 c1 where h: "fp_step E pid s e = (s1, o1, c1)" by (cases "fp_step E pid s e")
  have s1: "\<not> fp_receiving s1 \<and> \<not> fp_blocked s1 \<and> fp_slot s1 = fp_slot s \<and> fp_outputs s1 = fp_outputs s \<and> (\<forall>r. c1 \<noteq> Returned r)"
  proof (cases e)
    case (FpRecv q m)
    then show ?thesis using h Cons.prems(1,2) by auto
  next
    case (SlotTimer both)
    then have v: "fp_vote E pid (s\<lparr>fp_receiving := False\<rparr>) = (s1, o1, c1)" using h Cons.prems(2,3) by simp
    have "\<forall>r. c1 \<noteq> Returned r" using v by (auto simp: fp_vote_def split: sum.splits)
    then show ?thesis using fp_vote_frame [OF v] Cons.prems(2) by auto
  qed
  show ?case
  proof (cases c1)
    case Running
    then obtain o2 where "run_loop (fp_step E pid) s1 es = (s', o2, c)"
      using Cons.prems(4) h by (auto split: prod.splits)
    then show ?thesis using Cons.IH [of s1 o2] s1 Cons.prems(3) by simp
  qed (use Cons.prems(4) h s1 in auto)
qed

end
