(* ===== verification/Sends.thy ===== *)
theory Sends
  imports Routing
begin

text \<open>
  The other end of the routing: the functions \<open>prbc_send\<close>, \<open>coin_bcast\<close>, \<open>tpke_bcast\<close>, .. with which the
  sub-protocols of a driver tag what they send, one constructor per sub-protocol instance. Every packet a
  correct node sends in a round is routed to the queue of an instance, so correct nodes never poison a
  router; it is the queue of the instance the packet comes from, with one exception, the coins of the binary
  agreements in two of the modules.
\<close>

datatype hb_sub = HbCoin nat | HbAba nat | HbRbc nat | HbTpke

fun hb_send :: "hb_sub \<Rightarrow> 'm \<Rightarrow> 'm packet" where
  "hb_send (HbCoin j) o' = Packet ''ACS_COIN'' [Num (int j)] o'"
| "hb_send (HbAba j) o' = Packet ''ACS_ABA'' [Num (int j)] o'"
| "hb_send (HbRbc j) o' = Packet ''ACS_RBC'' [Num (int j)] o'"
| "hb_send HbTpke o' = Packet ''TPKE'' [Str ''''] o'"

datatype dumbo_sub = DuPrbc nat | DuVacs | DuTpke

fun dumbo_send :: "dumbo_sub \<Rightarrow> 'm \<Rightarrow> 'm packet" where
  "dumbo_send (DuPrbc j) o' = Packet ''ACS_PRBC'' [Num (int j)] o'"
| "dumbo_send DuVacs o' = Packet ''ACS_VACS'' [Str ''''] o'"
| "dumbo_send DuTpke o' = Packet ''TPKE'' [Str ''''] o'"

text \<open>Speedy Dumbo's provable broadcasts use the tag of Dumbo's.\<close>

fun speedy_send :: "dumbo_sub \<Rightarrow> 'm \<Rightarrow> 'm packet" where
  "speedy_send (DuPrbc j) o' = Packet ''ACS_PRBC'' [Num (int j)] o'"
| "speedy_send DuVacs o' = Packet ''ACS_VACS'' [Str ''''] o'"
| "speedy_send DuTpke o' = Packet ''TPKE'' [Str ''''] o'"

datatype mule_sub = MuFast | MuViewCoin | MuTcvba | MuViewChange | MuPrbc nat | MuVacs | MuTpke

fun mule_send :: "mule_sub \<Rightarrow> 'm \<Rightarrow> 'm packet" where
  "mule_send MuFast o' = Packet ''FAST'' [Str ''''] o'"
| "mule_send MuViewCoin o' = Packet ''VIEW_COIN'' [Str ''''] o'"
| "mule_send MuTcvba o' = Packet ''TCVBA'' [Str ''''] o'"
| "mule_send MuViewChange o' = Packet ''VIEW_CHANGE'' [Str ''''] o'"
| "mule_send (MuPrbc j) o' = Packet ''ACS_PRBC'' [Num (int j)] o'"
| "mule_send MuVacs o' = Packet ''ACS_VACS'' [Str ''''] o'"
| "mule_send MuTpke o' = Packet ''TPKE'' [Str ''''] o'"

fun rbcmule_send :: "mule_sub \<Rightarrow> 'm \<Rightarrow> 'm packet" where
  "rbcmule_send MuFast o' = Packet ''FAST'' [Str ''''] o'"
| "rbcmule_send MuViewCoin o' = Packet ''VIEW_COIN'' [Str ''''] o'"
| "rbcmule_send MuTcvba o' = Packet ''TCVBA'' [Str ''''] o'"
| "rbcmule_send MuViewChange o' = Packet ''VIEW_CHANGE'' [Str ''''] o'"
| "rbcmule_send (MuPrbc j) o' = Packet ''ACS_PRBC'' [Num (int j)] o'"
| "rbcmule_send MuVacs o' = Packet ''ACS_VACS'' [Str ''''] o'"
| "rbcmule_send MuTpke o' = Packet ''TPKE'' [Str ''''] o'"

text \<open>
  The three agreement modules go through rounds, with a variable \<open>r\<close> of the loop. Their send functions take
  as first argument the value \<open>r\<close> has when the packet is sent. Most functions are made by a \<open>make_..\<close>
  function that copies the round, or are called by the loop itself in the round of the message. The
  functions \<open>aba_coin_bcast\<close> of \<open>validatedagreement\<close> and \<open>coin_bcast\<close> of \<open>dumbo_mvba\<close>, given to the coin of the
  round's binary agreement, read the variable when they are called: the coin of round \<open>k\<close>, used by an
  agreement that runs on after its output, sends with the index of the round the node is in by then.
\<close>

datatype dm_sub = DmPd nat | DmFinish | DmCoin | DmPrepare | DmAba nat | DmAbaCoin nat | DmRc

fun dm_send :: "nat \<Rightarrow> dm_sub \<Rightarrow> 'm \<Rightarrow> 'm packet" where
  "dm_send r (DmPd j) o' = Packet ''MVBA_PD'' [Num (int j)] o'"
| "dm_send r DmFinish o' = Packet ''MVBA_PD_FINISH'' [Str ''quit''] o'"
| "dm_send r DmCoin o' = Packet ''MVBA_COIN'' [Str ''election''] o'"
| "dm_send r DmPrepare o' = Packet ''MVBA_RC_PREPARE'' [Str ''rc_pre''] o'"
| "dm_send r (DmAba k) o' = Packet ''MVBA_ABA'' [Num (int k)] o'"
| "dm_send r (DmAbaCoin k) o' = Packet ''MVBA_ABA_COIN'' [Num (int r)] o'"
| "dm_send r DmRc o' = Packet ''MVBA_RC'' [Str ''RC-l''] o'"

datatype vaba_sub = VaCbc nat | VaCommit nat | VaCoin | VaVote nat | VaAba nat | VaAbaCoin nat

fun vaba_send :: "nat \<Rightarrow> vaba_sub \<Rightarrow> 'm \<Rightarrow> 'm packet" where
  "vaba_send r (VaCbc j) o' = Packet ''VABA_CBC'' [Num (int j)] o'"
| "vaba_send r (VaCommit j) o' = Packet ''VABA_COMMIT'' [Num (int j)] o'"
| "vaba_send r VaCoin o' = Packet ''VABA_COIN'' [Str ''leader_election''] o'"
| "vaba_send r (VaVote k) o' = Packet ''VABA_VOTE'' [Num (int k)] o'"
| "vaba_send r (VaAba k) o' = Packet ''VABA_ABA'' [Num (int k)] o'"
| "vaba_send r (VaAbaCoin k) o' = Packet ''VABA_ABA_COIN'' [Num (int r)] o'"

text \<open>
  In \<open>speedmvba\<close> the elections of all rounds share one queue, and so do all halt messages. Both carry the
  loop's \<open>r\<close>, a halt message also the node's number, or \<open>r\<close> again where it is passed on: the argument \<open>j\<close>.
\<close>

datatype smvba_sub = SmSpbc nat nat | SmElect | SmAba nat | SmHalt

fun smvba_send :: "nat \<Rightarrow> nat \<Rightarrow> smvba_sub \<Rightarrow> 'm \<Rightarrow> 'm packet" where
  "smvba_send r j (SmSpbc k l) o' = Packet ''MVBA_SPBC'' [Num (int k), Num (int l)] o'"
| "smvba_send r j SmElect o' = Packet ''MVBA_ELECT'' [Num (int r), Str ''leader_election''] o'"
| "smvba_send r j (SmAba k) o' = Packet ''MVBA_ABA'' [Num (int k), Num (int k)] o'"
| "smvba_send r j SmHalt o' = Packet ''MVBA_HALT'' [Num (int r), Num (int j)] o'"

section \<open>Sent and received by the same instance\<close>

text \<open>
  \<open>separates R send S\<close>: with the router \<open>R\<close>, the packets of every instance in \<open>S\<close> arrive in a queue,
  unchanged, and no two instances of \<open>S\<close> share it.
\<close>

definition separates :: "router \<Rightarrow> ('i \<Rightarrow> 'm \<Rightarrow> 'm packet) \<Rightarrow> 'i set \<Rightarrow> bool" where
  "separates R send S \<longleftrightarrow>
     (\<exists>chan. inj_on chan S \<and> (\<forall>i \<in> S. \<forall>m. route R (send i m) = Inr (chan i, m)))"

text \<open>
  \<open>delivers R send home S\<close>, for a send function with the round of the node: the queue is that of the
  instance that \<open>home\<close> names.
\<close>

definition delivers :: "router \<Rightarrow> ('r \<Rightarrow> 'i \<Rightarrow> 'm \<Rightarrow> 'm packet) \<Rightarrow> ('r \<Rightarrow> 'i \<Rightarrow> 'i) \<Rightarrow> 'i set \<Rightarrow> bool" where
  "delivers R send home S \<longleftrightarrow>
     (\<exists>chan. inj_on chan S \<and> (\<forall>i \<in> S. \<forall>r m. route R (send r i m) = Inr (chan (home r i), m)))"

fun dm_home :: "nat \<Rightarrow> dm_sub \<Rightarrow> dm_sub" where
  "dm_home r (DmAbaCoin k) = DmAbaCoin r"
| "dm_home r i = i"

fun vaba_home :: "nat \<Rightarrow> vaba_sub \<Rightarrow> vaba_sub" where
  "vaba_home r (VaAbaCoin k) = VaAbaCoin r"
| "vaba_home r i = i"

lemma separatesI:
  assumes "\<And>i m. i \<in> S \<Longrightarrow> route R (send i m) = Inr (chan i, m)" and "inj_on chan S"
  shows "separates R send S"
  using assms unfolding separates_def by blast

lemma deliversI:
  assumes "\<And>i r m. i \<in> S \<Longrightarrow> route R (send r i m) = Inr (chan (home r i), m)" and "inj_on chan S"
  shows "delivers R send home S"
  using assms unfolding delivers_def by blast

lemma py_index_upt [simp]: "j < n \<Longrightarrow> py_index [0..<n] (int j) = Inr j"
  using py_index_nonneg [of j "[0..<n]"] by simp

lemma py_index_first [simp]: "py_index (x # xs) 0 = Inr x"
  using py_index_nonneg [of 0 "x # xs"] by simp

lemma py_index_second [simp]: "py_index (x # y # xs) 1 = Inr y"
  using py_index_nonneg [of 1 "x # y # xs"] by simp

lemmas route_simps = route_key_def row_index_def res_bind_def

fun num_idx :: "idx \<Rightarrow> bool" where
  "num_idx (Num i) = True"
| "num_idx (Str x) = False"

fun packet_chan :: "'m packet \<Rightarrow> channel" where
  "packet_chan (Packet tag ix m) = (tag, filter num_idx ix)"
| "packet_chan Malformed = ([], [])"

definition hb_instances :: "nat \<Rightarrow> hb_sub set" where
  "hb_instances N = insert HbTpke (\<Union>j \<in> {..<N}. {HbCoin j, HbAba j, HbRbc j})"

definition dumbo_instances :: "nat \<Rightarrow> dumbo_sub set" where
  "dumbo_instances N = {DuVacs, DuTpke} \<union> DuPrbc ` {..<N}"

definition mule_instances :: "nat \<Rightarrow> mule_sub set" where
  "mule_instances N = {MuFast, MuViewCoin, MuTcvba, MuViewChange, MuVacs, MuTpke} \<union> MuPrbc ` {..<N}"

definition dm_instances :: "nat \<Rightarrow> dm_sub set" where
  "dm_instances N = {DmFinish, DmCoin, DmPrepare, DmRc} \<union> DmPd ` {..<N} \<union> range DmAba \<union> range DmAbaCoin"

definition vaba_instances :: "nat \<Rightarrow> vaba_sub set" where
  "vaba_instances N = {VaCoin} \<union> VaCbc ` {..<N} \<union> VaCommit ` {..<N} \<union> range VaVote \<union> range VaAba \<union> range VaAbaCoin"

lemma hb_separates: "separates (hb_router N) hb_send (hb_instances N)"
proof (rule separatesI [where chan = "\<lambda>i. packet_chan (hb_send i ())"])
  show "route (hb_router N) (hb_send i m) = Inr (packet_chan (hb_send i ()), m)" if "i \<in> hb_instances N" for i m
    using that by (auto simp: hb_instances_def hb_router_def route_simps)
  show "inj_on (\<lambda>i. packet_chan (hb_send i ())) (hb_instances N)"
    by (auto simp: inj_on_def hb_instances_def)
qed

lemma dumbo_separates: "separates (dumbo_router N) dumbo_send (dumbo_instances N)"
proof (rule separatesI [where chan = "\<lambda>i. packet_chan (dumbo_send i ())"])
  show "route (dumbo_router N) (dumbo_send i m) = Inr (packet_chan (dumbo_send i ()), m)" if "i \<in> dumbo_instances N" for i m
    using that by (auto simp: dumbo_instances_def dumbo_router_def route_simps)
  show "inj_on (\<lambda>i. packet_chan (dumbo_send i ())) (dumbo_instances N)"
    by (auto simp: inj_on_def dumbo_instances_def)
qed

lemma speedy_separates: "separates (speedy_router N) speedy_send (dumbo_instances N)"
proof (rule separatesI [where chan = "\<lambda>i. packet_chan (speedy_send i ())"])
  show "route (speedy_router N) (speedy_send i m) = Inr (packet_chan (speedy_send i ()), m)" if "i \<in> dumbo_instances N" for i m
    using that by (auto simp: dumbo_instances_def speedy_router_def route_simps)
  show "inj_on (\<lambda>i. packet_chan (speedy_send i ())) (dumbo_instances N)"
    by (auto simp: inj_on_def dumbo_instances_def)
qed

lemma mule_separates: "separates (mule_router N) mule_send (mule_instances N)"
proof (rule separatesI [where chan = "\<lambda>i. packet_chan (mule_send i ())"])
  show "route (mule_router N) (mule_send i m) = Inr (packet_chan (mule_send i ()), m)" if "i \<in> mule_instances N" for i m
    using that by (auto simp: mule_instances_def mule_router_def route_simps)
  show "inj_on (\<lambda>i. packet_chan (mule_send i ())) (mule_instances N)"
    by (auto simp: inj_on_def mule_instances_def)
qed

lemma rbcmule_separates: "separates (rbcmule_router N) rbcmule_send (mule_instances N)"
proof (rule separatesI [where chan = "\<lambda>i. packet_chan (rbcmule_send i ())"])
  show "route (rbcmule_router N) (rbcmule_send i m) = Inr (packet_chan (rbcmule_send i ()), m)" if "i \<in> mule_instances N" for i m
    using that by (auto simp: mule_instances_def rbcmule_router_def route_simps)
  show "inj_on (\<lambda>i. packet_chan (rbcmule_send i ())) (mule_instances N)"
    by (auto simp: inj_on_def mule_instances_def)
qed

text \<open>The queue of an instance is the one it uses in its own round.\<close>

fun dm_queue :: "dm_sub \<Rightarrow> channel" where
  "dm_queue (DmAbaCoin k) = packet_chan (dm_send k (DmAbaCoin k) ())"
| "dm_queue i = packet_chan (dm_send 0 i ())"

fun vaba_queue :: "vaba_sub \<Rightarrow> channel" where
  "vaba_queue (VaAbaCoin k) = packet_chan (vaba_send k (VaAbaCoin k) ())"
| "vaba_queue i = packet_chan (vaba_send 0 i ())"

fun smvba_queue :: "smvba_sub \<Rightarrow> channel" where
  "smvba_queue (SmSpbc k l) = (''MVBA_SPBC'', [Num (int k), Num (int l)])"
| "smvba_queue SmElect = (''MVBA_ELECT'', [])"
| "smvba_queue (SmAba k) = (''MVBA_ABA'', [Num (int k)])"
| "smvba_queue SmHalt = (''MVBA_HALT'', [])"

definition smvba_instances :: "nat \<Rightarrow> smvba_sub set" where
  "smvba_instances N = {SmElect, SmHalt} \<union> (\<Union>j \<in> {..<N}. range (\<lambda>r. SmSpbc r j)) \<union> range SmAba"

lemma dm_delivers: "delivers (dumbomvba_router N) dm_send dm_home (dm_instances N)"
proof (rule deliversI [where chan = dm_queue])
  show "route (dumbomvba_router N) (dm_send r i m) = Inr (dm_queue (dm_home r i), m)" if "i \<in> dm_instances N" for i r m
    using that by (auto simp: dm_instances_def dumbomvba_router_def route_simps)
  show "inj_on dm_queue (dm_instances N)" by (auto simp: inj_on_def dm_instances_def)
qed

lemma vaba_delivers: "delivers (vaba_router N) vaba_send vaba_home (vaba_instances N)"
proof (rule deliversI [where chan = vaba_queue])
  show "route (vaba_router N) (vaba_send r i m) = Inr (vaba_queue (vaba_home r i), m)" if "i \<in> vaba_instances N" for i r m
    using that by (auto simp: vaba_instances_def vaba_router_def route_simps)
  show "inj_on vaba_queue (vaba_instances N)" by (auto simp: inj_on_def vaba_instances_def)
qed

lemma smvba_delivers: "delivers (smvba_router N) (\<lambda>(r, j). smvba_send r j) (\<lambda>_ i. i) (smvba_instances N)"
proof (rule deliversI [where chan = smvba_queue])
  show "route (smvba_router N) ((\<lambda>(r, j). smvba_send r j) r i m) = Inr (smvba_queue i, m)"
    if "i \<in> smvba_instances N" for i r m
    using that by (cases r) (auto simp: smvba_instances_def smvba_router_def route_simps)
  show "inj_on smvba_queue (smvba_instances N)" by (auto simp: inj_on_def smvba_instances_def)
qed

text \<open>
  A share that the coin of round \<open>k\<close> sends after its node has gone on to the next round arrives in the
  queue of the next round's coin, whose string it does not sign.
\<close>

lemma late_share_misrouted:
  "route (vaba_router N) (vaba_send (Suc k) (VaAbaCoin k) m) = Inr (vaba_queue (VaAbaCoin (Suc k)), m)"
  "route (dumbomvba_router N) (dm_send (Suc k) (DmAbaCoin k) m) = Inr (dm_queue (DmAbaCoin (Suc k)), m)"
  "vaba_queue (VaAbaCoin (Suc k)) \<noteq> vaba_queue (VaAbaCoin k)" "dm_queue (DmAbaCoin (Suc k)) \<noteq> dm_queue (DmAbaCoin k)"
  by (simp_all add: vaba_router_def dumbomvba_router_def route_simps)


end
