(* ===== verification/Network.thy ===== *)
theory Network
  imports Prelude "HOL-Library.Sublist"
begin

text \<open>
  The link between two nodes: \<open>src/network/socket_client.py\<close> and \<open>src/network/socket_server.py\<close>. The client
  sorts what the protocols send into one queue per node, pickles every object and sends it followed by a
  separator, either at once (\<open>_send\<close>) or in pieces under an emulated bandwidth (\<open>_dynamic_send\<close>); the server
  splits what arrives at the separators and derives the sender from the address. Pickling is a parameter,
  TCP an arbitrary cutting of the byte stream into chunks. The lemmas show when a link is a FIFO channel,
  which the other theories take it to be, and when it is not.
\<close>

section \<open>The client\<close>

definition SEP :: bytes where
  "SEP = [13, 10, 83, 69, 80, 13, 10, 83, 69, 80, 13, 10, 83, 69, 80, 13, 10]"

definition frame_bytes :: "('o \<Rightarrow> bytes) \<Rightarrow> 'o \<Rightarrow> bytes" where
  "frame_bytes dumps obj = dumps obj @ SEP"

text \<open>
  One turn of \<open>_handle_send_loop\<close>. The number that is compared for \<open>-2\<close> is \<open>self.pid\<close>, the process number the
  operating system gave to the client, not the number of the node; an index out of range is only logged.
\<close>

fun handle_send :: "int \<Rightarrow> 'o list list \<Rightarrow> int \<times> 'o \<Rightarrow> 'o list list" where
  "handle_send ospid qs (j, obj) =
     (if j = -1 then map (\<lambda>q. q @ [obj]) qs
      else if j = -2 then map (\<lambda>(i, q). if int i \<noteq> ospid then q @ [obj] else q) (enumerate 0 qs)
      else case py_index [0..<length qs] j of Inl e \<Rightarrow> qs | Inr i \<Rightarrow> qs[i := qs ! i @ [obj]])"

text \<open>\<open>_send\<close>: the arguments of \<open>sendall\<close>, one per object.\<close>

definition plain_send :: "('o \<Rightarrow> bytes) \<Rightarrow> 'o list \<Rightarrow> bytes list" where
  "plain_send dumps objs = map (frame_bytes dumps) objs"

text \<open>
  \<open>_dynamic_send\<close>: \<open>ds_cnt\<close> is the number of bytes that may still go in this period. A turn of its loop waits
  when there is nothing to send; its argument is the value of \<open>self.BYTES\<close> when a new period begins, which
  another greenlet changes.
\<close>

datatype 'o dyn_event = Enqueued 'o | Turn nat

record 'o dyn_state =
  ds_cnt :: nat
  ds_msg :: "bytes option"
  ds_queue :: "'o list"
  ds_sent :: "bytes list"

definition dyn_init :: "nat \<Rightarrow> 'o dyn_state" where
  "dyn_init bw = \<lparr>ds_cnt = bw, ds_msg = None, ds_queue = [], ds_sent = []\<rparr>"

definition dyn_put :: "nat \<Rightarrow> 'o dyn_state \<Rightarrow> bytes \<Rightarrow> 'o dyn_state" where
  "dyn_put bw s msg =
     (let (s1, cnt) =
        (if length msg \<le> ds_cnt s
         then (s\<lparr>ds_sent := ds_sent s @ [msg], ds_msg := None\<rparr>, ds_cnt s - length msg)
         else (s\<lparr>ds_sent := ds_sent s @ [take (ds_cnt s) msg], ds_msg := Some (drop (ds_cnt s) msg)\<rparr>, 0))
      in s1\<lparr>ds_cnt := if cnt = 0 then bw else cnt\<rparr>)"

fun dyn_step :: "('o \<Rightarrow> bytes) \<Rightarrow> 'o dyn_state \<Rightarrow> 'o dyn_event \<Rightarrow> 'o dyn_state" where
  "dyn_step dumps s (Enqueued obj) = s\<lparr>ds_queue := ds_queue s @ [obj]\<rparr>"
| "dyn_step dumps s (Turn bw) =
     (case (ds_msg s, ds_queue s) of
        (Some msg, _) \<Rightarrow> dyn_put bw s msg
      | (None, []) \<Rightarrow> s
      | (None, obj # objs) \<Rightarrow> dyn_put bw (s\<lparr>ds_queue := objs\<rparr>) (frame_bytes dumps obj))"

definition dynamic_send :: "('o \<Rightarrow> bytes) \<Rightarrow> nat \<Rightarrow> 'o dyn_event list \<Rightarrow> 'o dyn_state" where
  "dynamic_send dumps bw es = foldl (dyn_step dumps) (dyn_init bw) es"

text \<open>
  The emulated network: \<open>_partten\<close> reads the condition and sets the length of a period in milliseconds, the
  bytes per period and the delay; \<open>_change_network\<close> counts seconds once the protocol runs and changes the
  condition; here is one step of its counter.
\<close>

definition partten :: "bool \<Rightarrow> nat \<times> nat \<times> nat" where
  "partten good = (if good then (100, 2500000, 50) else (100, 625000, 300))"

fun change_network :: "nat \<times> bool \<Rightarrow> nat \<times> bool" where
  "change_network (seconds, good) =
     (let s = seconds + 1 in
      (s, if s < 59 then good else if s = 59 then False else if s < 61 then good else if s = 61 then True
          else if s mod 120 = 0 then \<not> (s div 120) mod 2 = 1 else good))"

section \<open>The server\<close>

text \<open>\<open>buf.split(SEP, 1)\<close>: the parts before and after the first separator, if there is one.\<close>

fun split_first :: "'a list \<Rightarrow> 'a list \<Rightarrow> ('a list \<times> 'a list) option" where
  "split_first sep [] = None"
| "split_first sep (x # xs) =
     (if take (length sep) (x # xs) = sep then Some ([], drop (length sep) (x # xs))
      else map_option (\<lambda>(a, b). (x # a, b)) (split_first sep xs))"

lemma split_first_Some: "split_first sep xs = Some (a, b) \<Longrightarrow> xs = a @ sep @ b"
proof (induction sep xs arbitrary: a b rule: split_first.induct)
  case (2 sep x xs)
  show ?case
  proof (cases "take (length sep) (x # xs) = sep")
    case True
    then show ?thesis using "2.prems" by (metis append_Nil append_take_drop_id option.inject prod.inject split_first.simps(2))
  next
    case False
    then show ?thesis using 2 by auto
  qed
qed simp

text \<open>
  The inner loop of the handler: the objects it hands over, the rest of the buffer, and the exception that
  ended it, if any. An empty frame raises \<open>ValueError\<close>.
\<close>

function drain :: "(bytes \<Rightarrow> py_error + 'o) \<Rightarrow> bytes \<Rightarrow> 'o list \<times> bytes \<times> py_error option" where
  "drain loads buf =
     (case split_first SEP buf of
        None \<Rightarrow> ([], buf, None)
      | Some (data, rest) \<Rightarrow>
          if data = [] then ([], rest, Some ValueError)
          else case loads data of
            Inl e \<Rightarrow> ([], rest, Some e)
          | Inr obj \<Rightarrow> (case drain loads rest of (objs, b, err) \<Rightarrow> (obj # objs, b, err)))"
  by pat_completeness auto
termination
  by (relation "measure (\<lambda>(_, buf). length buf)") (auto dest!: split_first_Some simp: SEP_def)

declare drain.simps [simp del]

text \<open>
  One turn of \<open>_handler\<close> with the bytes that \<open>recv\<close> returned: an exception is logged and ends the handler,
  and with it the connection.
\<close>

record 'o conn =
  cn_buf :: bytes
  cn_inbox :: "(int \<times> 'o) list"

definition conn_init :: "'o conn" where
  "conn_init = \<lparr>cn_buf = [], cn_inbox = []\<rparr>"

definition server_recv :: "(bytes \<Rightarrow> py_error + 'o) \<Rightarrow> int \<Rightarrow> 'o conn \<Rightarrow> bytes \<Rightarrow> ('o conn, unit, unit) reply" where
  "server_recv loads jid s chunk =
     (case drain loads (cn_buf s @ chunk) of (objs, b, err) \<Rightarrow>
        (s\<lparr>cn_buf := b, cn_inbox := cn_inbox s @ map (Pair jid) objs\<rparr>, [],
         if err = None then Running else Returned ()))"

text \<open>
  \<open>_address_to_id\<close>: by the host, if it is not the local one; otherwise by the port the client's socket
  is bound to, which is \<open>self.port + j + 1\<close>. Python's \<open>int\<close> rounds the quotient towards 0.
\<close>

definition address_to_id :: "(string \<times> int) list \<Rightarrow> string \<times> int \<Rightarrow> int" where
  "address_to_id addrs a =
     (case find (\<lambda>i. fst a \<noteq> ''127.0.0.1'' \<and> fst a = fst (addrs ! i)) [0..<length addrs] of
        Some i \<Rightarrow> int i
      | None \<Rightarrow> sgn (snd a - 10000) * (\<bar>snd a - 10000\<bar> div 200))"

definition bound_port :: "int \<Rightarrow> nat \<Rightarrow> int" where
  "bound_port port j = port + int j + 1"

section \<open>Frames\<close>

lemma SEP_length: "length SEP = 17" and SEP_nonempty [simp]: "SEP \<noteq> []"
  by (simp_all add: SEP_def)

lemma split_first_append:
  "split_first sep xs = Some (a, b) \<Longrightarrow> split_first sep (xs @ ys) = Some (a, b @ ys)"
proof (induction sep xs arbitrary: a b rule: split_first.induct)
  case (2 sep x xs)
  show ?case
  proof (cases "take (length sep) (x # xs) = sep")
    case True
    then have "length sep \<le> length (x # xs)" by (metis length_take min.cobounded1)
    then have "take (length sep) ((x # xs) @ ys) = take (length sep) (x # xs)"
      "drop (length sep) ((x # xs) @ ys) = drop (length sep) (x # xs) @ ys"
      by (simp_all only: take_append drop_append diff_is_0_eq [THEN iffD2] take0 drop0 append_Nil2)
    with 2 True show ?thesis by simp
  next
    case False
    then obtain a' where a': "a = x # a'" "split_first sep xs = Some (a', b)" using "2.prems" by auto
    show ?thesis
    proof (cases "take (length sep) ((x # xs) @ ys) = sep")
      case True
      with False have "length (x # xs) < length sep" by (metis not_le take_all take_append append_Nil2 diff_is_0_eq take0 take_eq_Nil)
      moreover have "length sep \<le> length xs" using split_first_Some [OF a'(2)] by simp
      ultimately show ?thesis by simp
    next
      case False
      then show ?thesis using "2.IH" [OF \<open>take (length sep) (x # xs) \<noteq> sep\<close> a'(2)] a'(1) by simp
    qed
  qed
qed simp

text \<open>
  Data that a separator can follow: it contains no separator and ends in a byte that is not in one (a
  pickle ends in the byte 46). Without the second half, the bytes \<open>CR LF S E P\<close> followed by a separator is cut too early.
\<close>

definition clean :: "bytes \<Rightarrow> bool" where
  "clean d \<longleftrightarrow> \<not> sublist SEP d \<and> (d = [] \<or> last d \<notin> set SEP)"

lemma clean_Cons:
  assumes "clean (x # d)"
  shows "clean d" and "take (length SEP) (x # d @ SEP @ b) \<noteq> SEP"
proof -
  show "clean d" using assms by (auto simp: clean_def sublist_Cons_right split: if_splits)
  show "take (length SEP) (x # d @ SEP @ b) \<noteq> SEP"
  proof
    assume t: "take (length SEP) (x # d @ SEP @ b) = SEP"
    show False
    proof (cases "length SEP \<le> length (x # d)")
      case True
      then have "take (length SEP) (x # d @ SEP @ b) = take (length SEP) (x # d)"
        by (metis append_Cons append_Nil2 diff_is_0_eq take0 take_append)
      with t have "prefix SEP (x # d)" by (metis take_is_prefix)
      then show False using assms prefix_imp_sublist by (auto simp: clean_def)
    next
      case False
      then have "take (length (x # d)) SEP = x # d"
        using arg_cong [OF t, of "take (length (x # d))"] by (simp add: min_def)
      then have "set (x # d) \<subseteq> set SEP" by (metis set_take_subset)
      moreover have "last (x # d) \<in> set (x # d)" by (rule last_in_set) simp
      ultimately show False using assms by (auto simp: clean_def)
    qed
  qed
qed

lemma split_frame: "clean d \<Longrightarrow> split_first SEP (d @ SEP @ b) = Some (d, b)"
proof (induction d)
  case Nil
  obtain y ys where "SEP @ b = y # ys" by (simp add: SEP_def)
  moreover have "take (length SEP) (SEP @ b) = SEP" "drop (length SEP) (SEP @ b) = b" by simp_all
  ultimately show ?case by (metis append_Nil split_first.simps(2))
next
  case (Cons x d)
  then show ?case using clean_Cons [OF Cons.prems] by simp
qed

lemma split_short:
  assumes "clean d" and "buf @ rest = d @ SEP @ b" and "length buf < length d + length SEP"
  shows "split_first SEP buf = None"
proof (cases "split_first SEP buf")
  case (Some x)
  obtain a c where x: "x = (a, c)" by (cases x)
  with Some have "split_first SEP (buf @ rest) = Some (a, c @ rest)" by (simp add: split_first_append)
  with assms(2) split_frame [OF assms(1)] have "a = d" by simp
  with split_first_Some [of SEP buf a c] Some x assms(3) show ?thesis by simp
qed simp

section \<open>The handler and the cutting of the stream\<close>

lemma drain_waits: "split_first SEP buf = None \<Longrightarrow> drain loads buf = ([], buf, None)"
  by (subst drain.simps) simp

lemma drain_rest: "drain loads buf = (objs, b, None) \<Longrightarrow> split_first SEP b = None"
proof (induction loads buf arbitrary: objs rule: drain.induct)
  case (1 loads buf)
  show ?case
  proof (cases "split_first SEP buf")
    case None
    then show ?thesis using "1.prems" by (simp add: drain_waits)
  next
    case (Some x)
    obtain data rest where x: "x = (data, rest)" by (cases x)
    have d: "data \<noteq> []" using "1.prems" Some x by (subst (asm) drain.simps) (auto split: if_splits)
    obtain obj where l: "loads data = Inr obj"
      using "1.prems" Some x d by (subst (asm) drain.simps) (auto split: sum.splits)
    obtain objs' where "drain loads rest = (objs', b, None)"
      using "1.prems" Some x d l by (subst (asm) drain.simps) (auto split: prod.splits)
    then show ?thesis using "1.IH" [OF Some x [symmetric] d l] by simp
  qed
qed

lemma drain_append:
  "drain loads (x @ y) =
     (case drain loads x of
        (objs, b, Some e) \<Rightarrow> (objs, b @ y, Some e)
      | (objs, b, None) \<Rightarrow> (case drain loads (b @ y) of (objs', b', err) \<Rightarrow> (objs @ objs', b', err)))"
proof (induction loads x rule: drain.induct)
  case (1 loads x)
  show ?case
  proof (cases "split_first SEP x")
    case None
    then show ?thesis by (simp add: drain_waits split: prod.splits)
  next
    case (Some p)
    obtain data rest where p: "p = (data, rest)" by (cases p)
    with Some have xy: "split_first SEP (x @ y) = Some (data, rest @ y)" by (simp add: split_first_append)
    show ?thesis
    proof (cases "data = [] \<or> (\<exists>e. loads data = Inl e)")
      case True
      then show ?thesis using Some p xy
        by (subst drain.simps, subst (2) drain.simps) auto
    next
      case False
      then obtain obj where d: "data \<noteq> []" "loads data = Inr obj" by (cases "loads data") auto
      have a: "drain loads (x @ y) = (case drain loads (rest @ y) of (objs, b, err) \<Rightarrow> (obj # objs, b, err))"
        using xy d by (subst drain.simps) simp
      have b: "drain loads x = (case drain loads rest of (objs, b, err) \<Rightarrow> (obj # objs, b, err))"
        using Some p d by (subst drain.simps) simp
      show ?thesis unfolding a b "1.IH" [OF Some p [symmetric] d]
        by (auto split: prod.splits option.splits)
    qed
  qed
qed

lemma server_recv_eq:
  "drain loads (cn_buf s @ chunk) = (objs, b, err) \<Longrightarrow> server_recv loads jid s chunk =
    (s\<lparr>cn_buf := b, cn_inbox := cn_inbox s @ map (Pair jid) objs\<rparr>, [], if err = None then Running else Returned ())"
  by (simp add: server_recv_def)

lemma server_run:
  assumes "split_first SEP (cn_buf s) = None" and "drain loads (cn_buf s @ concat chunks) = (objs, b, err)"
    and "run_loop (server_recv loads jid) s chunks = (s', outs, c)"
  shows "cn_inbox s' = cn_inbox s @ map (Pair jid) objs \<and> c = (if err = None then Running else Returned ()) \<and>
    (err = None \<longrightarrow> cn_buf s' = b)"
  using assms
proof (induction chunks arbitrary: s objs outs)
  case Nil
  then show ?case by (simp add: drain_waits)
next
  case (Cons chunk chunks)
  obtain objs1 b1 err1 where d: "drain loads (cn_buf s @ chunk) = (objs1, b1, err1)" by (cases "drain loads (cn_buf s @ chunk)")
  have all: "drain loads ((cn_buf s @ chunk) @ concat chunks) = (objs, b, err)" using Cons.prems(2) by simp
  show ?case
  proof (cases err1)
    case (Some e)
    with all d have "objs = objs1" "err = Some e" unfolding drain_append [of loads "cn_buf s @ chunk"] by auto
    with Cons.prems(3) Some show ?thesis by (auto simp: server_recv_eq [OF d])
  next
    case None
    let ?s = "s\<lparr>cn_buf := b1, cn_inbox := cn_inbox s @ map (Pair jid) objs1\<rparr>"
    obtain objs2 where o: "drain loads (b1 @ concat chunks) = (objs2, b, err)" "objs = objs1 @ objs2"
      using all d None unfolding drain_append [of loads "cn_buf s @ chunk"] by (auto split: prod.splits)
    obtain outs' where r: "run_loop (server_recv loads jid) ?s chunks = (s', outs', c)"
      using Cons.prems(3) None by (auto simp: server_recv_eq [OF d] split: prod.splits)
    have "split_first SEP (cn_buf ?s) = None" using drain_rest d None by auto
    with Cons.IH [OF this _ r] o show ?thesis by simp
  qed
qed

definition framable :: "('o \<Rightarrow> bytes) \<Rightarrow> (bytes \<Rightarrow> py_error + 'o) \<Rightarrow> 'o \<Rightarrow> bool" where
  "framable dumps loads obj \<longleftrightarrow> clean (dumps obj) \<and> dumps obj \<noteq> [] \<and> loads (dumps obj) = Inr obj"

lemma drain_frames:
  assumes "\<forall>obj \<in> set objs. framable dumps loads obj"
    and "buf @ rest = concat (map (frame_bytes dumps) objs)"
  shows "\<exists>n b. drain loads buf = (take n objs, b, None) \<and> (rest = [] \<longrightarrow> take n objs = objs \<and> b = [])"
  using assms
proof (induction objs arbitrary: buf)
  case Nil
  then show ?case by (simp add: drain_waits)
next
  case (Cons obj objs)
  let ?d = "dumps obj" and ?more = "concat (map (frame_bytes dumps) objs)"
  have c: "clean ?d" "?d \<noteq> []" "loads ?d = Inr obj" using Cons.prems(1) by (auto simp: framable_def)
  have e: "buf @ rest = ?d @ SEP @ ?more" using Cons.prems(2) by (simp add: frame_bytes_def [of dumps obj])
  show ?case
  proof (cases "length buf < length ?d + length SEP")
    case True
    then have "drain loads buf = ([], buf, None)" using drain_waits split_short [OF c(1) e] by blast
    moreover have "rest \<noteq> []" using True e by auto
    ultimately show ?thesis by (intro exI [of _ 0]) simp
  next
    case False
    have "take (length (?d @ SEP)) (buf @ rest) = ?d @ SEP" unfolding e by simp
    with False have "buf = (?d @ SEP) @ drop (length (?d @ SEP)) buf"
      by (metis append_take_drop_id append_Nil2 diff_is_0_eq length_append not_less take0 take_append)
    then obtain buf' where b: "buf = ?d @ SEP @ buf'" by auto
    with e have b: "buf = ?d @ SEP @ buf'" "buf' @ rest = ?more" by auto
    obtain n b' where "drain loads buf' = (take n objs, b', None)" "rest = [] \<longrightarrow> take n objs = objs \<and> b' = []"
      using Cons.IH [OF _ b(2)] Cons.prems(1) by auto
    moreover have "drain loads buf = (case drain loads buf' of (objs, b, err) \<Rightarrow> (obj # objs, b, err))"
      using c b(1) by (subst drain.simps) (simp add: split_frame)
    ultimately show ?thesis by (intro exI [of _ "Suc n"]) simp
  qed
qed

section \<open>The sender under a bandwidth\<close>

fun enqueued :: "'o dyn_event list \<Rightarrow> 'o list" where
  "enqueued [] = []"
| "enqueued (Enqueued obj # es) = obj # enqueued es"
| "enqueued (Turn bw # es) = enqueued es"

lemma enqueued_append: "enqueued (xs @ ys) = enqueued xs @ enqueued ys"
  by (induction xs rule: enqueued.induct) simp_all

definition dyn_bytes :: "('o \<Rightarrow> bytes) \<Rightarrow> 'o dyn_state \<Rightarrow> bytes" where
  "dyn_bytes dumps s = concat (ds_sent s) @ (case ds_msg s of None \<Rightarrow> [] | Some m \<Rightarrow> m) @
     concat (map (frame_bytes dumps) (ds_queue s))"

lemma dyn_put_bytes:
  "dyn_bytes dumps (dyn_put bw s msg) = concat (ds_sent s) @ msg @ concat (map (frame_bytes dumps) (ds_queue s))"
  by (simp add: dyn_put_def dyn_bytes_def Let_def)

lemma dyn_step_bytes:
  "dyn_bytes dumps (dyn_step dumps s e) = dyn_bytes dumps s @ concat (map (frame_bytes dumps) (enqueued [e]))"
proof (cases e)
  case (Turn bw)
  then show ?thesis by (auto simp: dyn_put_bytes split: option.splits list.splits) (simp_all add: dyn_bytes_def)
qed (simp add: dyn_bytes_def)

lemma dynamic_send_bytes: "dyn_bytes dumps (dynamic_send dumps bw es) = concat (map (frame_bytes dumps) (enqueued es))"
proof (induction es rule: rev_induct)
  case Nil
  then show ?case by (simp add: dynamic_send_def dyn_init_def dyn_bytes_def)
next
  case (snoc e es)
  have "dynamic_send dumps bw (es @ [e]) = dyn_step dumps (dynamic_send dumps bw es) e"
    by (simp add: dynamic_send_def)
  with snoc show ?case by (simp add: dyn_step_bytes enqueued_append)
qed

text \<open>The bytes that are still to be sent decrease in every turn, as long as the bandwidth is never 0.\<close>

definition dyn_left :: "('o \<Rightarrow> bytes) \<Rightarrow> 'o dyn_state \<Rightarrow> nat" where
  "dyn_left dumps s = (case ds_msg s of None \<Rightarrow> 0 | Some m \<Rightarrow> length m) +
     length (concat (map (frame_bytes dumps) (ds_queue s)))"

definition dyn_ok :: "'o dyn_state \<Rightarrow> bool" where
  "dyn_ok s \<longleftrightarrow> 0 < ds_cnt s \<and> ds_msg s \<noteq> Some []"

lemma dyn_put_left:
  assumes "0 < ds_cnt s" and "0 < bw" and "msg \<noteq> []"
  shows "dyn_ok (dyn_put bw s msg)"
    and "dyn_left dumps (dyn_put bw s msg) < length msg + length (concat (map (frame_bytes dumps) (ds_queue s)))"
  using assms by (auto simp: dyn_put_def dyn_ok_def dyn_left_def Let_def)

lemma dyn_turn_left:
  assumes "dyn_ok s" and "0 < bw"
  shows "dyn_ok (dyn_step dumps s (Turn bw)) \<and>
    dyn_left dumps (dyn_step dumps s (Turn bw)) \<le> dyn_left dumps s - 1"
proof (cases "ds_msg s")
  case (Some msg)
  with assms dyn_put_left(1) [of s bw msg] dyn_put_left(2) [of s bw msg dumps] show ?thesis
    by (auto simp: dyn_ok_def dyn_left_def)
next
  case None
  show ?thesis
  proof (cases "ds_queue s")
    case Nil
    with None assms show ?thesis by (simp add: dyn_left_def)
  next
    case (Cons obj objs)
    have "frame_bytes dumps obj \<noteq> []" by (simp add: frame_bytes_def)
    with None Cons assms dyn_put_left(1) [of "s\<lparr>ds_queue := objs\<rparr>" bw "frame_bytes dumps obj"]
      dyn_put_left(2) [of "s\<lparr>ds_queue := objs\<rparr>" bw "frame_bytes dumps obj" dumps]
    show ?thesis by (auto simp: dyn_ok_def dyn_left_def)
  qed
qed

lemma dyn_turns_left:
  assumes "dyn_ok s" and "\<forall>bw \<in> set bws. 0 < bw"
  shows "dyn_left dumps (foldl (dyn_step dumps) s (map Turn bws)) \<le> dyn_left dumps s - length bws"
  using assms
proof (induction bws arbitrary: s)
  case (Cons bw bws)
  then have a: "dyn_ok (dyn_step dumps s (Turn bw))" "dyn_left dumps (dyn_step dumps s (Turn bw)) \<le> dyn_left dumps s - 1"
    using dyn_turn_left [of s bw dumps] by auto
  have "dyn_left dumps (foldl (dyn_step dumps) (dyn_step dumps s (Turn bw)) (map Turn bws)) \<le>
      dyn_left dumps (dyn_step dumps s (Turn bw)) - length bws"
    using Cons a(1) by (simp del: dyn_step.simps)
  with a(2) show ?case by (simp del: dyn_step.simps)
qed simp

lemma dyn_done: "dyn_ok s \<Longrightarrow> dyn_left dumps s = 0 \<Longrightarrow> dyn_bytes dumps s = concat (ds_sent s)"
  by (auto simp: dyn_left_def dyn_bytes_def dyn_ok_def split: option.splits)

lemma dyn_ok_step: "dyn_ok s \<Longrightarrow> (\<And>bw. e = Turn bw \<Longrightarrow> 0 < bw) \<Longrightarrow> dyn_ok (dyn_step dumps s e)"
  using dyn_turn_left [of s _ dumps] by (cases e) (auto simp: dyn_ok_def simp del: dyn_step.simps(2))

definition turns_positive :: "'o dyn_event list \<Rightarrow> bool" where
  "turns_positive es \<longleftrightarrow> Turn 0 \<notin> set es"

lemma dyn_ok_run: "0 < bw \<Longrightarrow> turns_positive es \<Longrightarrow> dyn_ok (dynamic_send dumps bw es)"
proof (induction es rule: rev_induct)
  case Nil
  then show ?case by (simp add: dynamic_send_def dyn_init_def dyn_ok_def)
next
  case (snoc e es)
  then have "dyn_ok (dynamic_send dumps bw es)" by (simp add: turns_positive_def)
  then have "dyn_ok (dyn_step dumps (dynamic_send dumps bw es) e)"
  proof (rule dyn_ok_step)
    show "e = Turn bw' \<Longrightarrow> 0 < bw'" for bw' using snoc.prems by (cases bw') (auto simp: turns_positive_def)
  qed
  then show ?case by (simp add: dynamic_send_def)
qed

lemma dyn_sent_prefix: "prefix (concat (ds_sent s)) (dyn_bytes dumps s)"
  by (simp add: dyn_bytes_def)

lemma dyn_left_bytes: "dyn_left dumps s \<le> length (dyn_bytes dumps s)"
  by (simp add: dyn_left_def dyn_bytes_def split: option.splits)

lemma enqueued_turns [simp]: "enqueued (map Turn bws) = []"
  by (induction bws) simp_all

text \<open>The condition is a function of the time, and no condition stops the sender.\<close>

lemma change_network_at:
  "(change_network ^^ n) (0, True) = (n, if n < 59 then True else if n < 61 then False else even (n div 120))"
proof (induction n)
  case (Suc n)
  have d: "Suc n div 120 = (if Suc n mod 120 = 0 then Suc (n div 120) else n div 120)"
    by (simp add: div_Suc)
  show ?case
    by (simp add: Suc Let_def d) (auto simp: div_Suc mod_Suc odd_iff_mod_2_eq_one split: if_splits)
qed simp

lemma bandwidth_positive: "0 < fst (snd (partten good))"
  by (simp add: partten_def)

section \<open>The queues of the client\<close>

text \<open>What the client puts into the queue of node \<open>i\<close> when its process number is none of the \<open>N\<close> nodes' numbers.\<close>

definition addressed :: "nat \<Rightarrow> nat \<Rightarrow> (int \<times> 'o) list \<Rightarrow> 'o list" where
  "addressed N i sends = map snd (filter (\<lambda>(j, obj). j = -1 \<or> j = -2 \<or> j = int i \<or> j + int N = int i) sends)"

lemma py_index_positions:
  "i < N \<Longrightarrow> py_index [0..<N] j = Inr i \<longleftrightarrow> j = int i \<or> j + int N = int i"
  by (auto simp: py_index_def Let_def)

lemma handle_send_length [simp]: "length (handle_send ospid qs x) = length qs"
  by (cases x) (auto split: sum.splits)

lemma handle_send_nth:
  assumes "i < length qs" and "int i \<noteq> ospid"
  shows "handle_send ospid qs x ! i = qs ! i @ addressed (length qs) i [x]"
proof -
  obtain j obj where x: "x = (j, obj)" by (cases x)
  show ?thesis
  proof (cases "j = -1 \<or> j = -2")
    case True
    then show ?thesis using assms x by (auto simp: addressed_def nth_enumerate_eq)
  next
    case False
    then show ?thesis using assms x py_index_positions [of i "length qs" j]
      by (cases "py_index [0..<length qs] j") (auto simp: addressed_def nth_list_update)
  qed
qed

lemma client_queue:
  assumes "i < length qs" and "int i \<noteq> ospid"
  shows "foldl (handle_send ospid) qs sends ! i = qs ! i @ addressed (length qs) i sends"
  using assms
proof (induction sends arbitrary: qs)
  case Nil
  then show ?case by (simp add: addressed_def)
next
  case (Cons x sends)
  have "addressed (length qs) i (x # sends) = addressed (length qs) i [x] @ addressed (length qs) i sends"
    by (simp add: addressed_def)
  with Cons show ?case by (simp add: handle_send_nth del: handle_send.simps)
qed

section \<open>Properties\<close>

text \<open>
  C38: The emulated bandwidth does not change what is sent. After as many further turns as there are bytes,
  \<open>_dynamic_send\<close> has sent exactly the bytes \<open>_send\<close> would have sent, however the bandwidth changed and
  whatever was queued when, if the bandwidth is never 0.
\<close>

theorem dynamic_equals_plain:
  assumes "0 < bw" and "turns_positive (es @ map Turn bws)"
    and "length (concat (plain_send dumps (enqueued es))) \<le> length bws"
  shows "concat (ds_sent (dynamic_send dumps bw (es @ map Turn bws))) = concat (plain_send dumps (enqueued es))"
proof -
  let ?s = "dynamic_send dumps bw es" and ?t = "dynamic_send dumps bw (es @ map Turn bws)"
  have ok: "dyn_ok ?s" "dyn_ok ?t" using assms by (auto intro!: dyn_ok_run simp: turns_positive_def)
  have t: "?t = foldl (dyn_step dumps) ?s (map Turn bws)" by (simp add: dynamic_send_def)
  have "\<forall>b \<in> set bws. 0 < b" using assms(2) by (auto simp: turns_positive_def intro: gr0I)
  then have "dyn_left dumps ?t \<le> dyn_left dumps ?s - length bws"
    unfolding t by (rule dyn_turns_left [OF ok(1)])
  moreover have "dyn_left dumps ?s \<le> length bws"
    using dyn_left_bytes [of dumps ?s] assms(3) by (simp add: dynamic_send_bytes plain_send_def)
  ultimately have "dyn_bytes dumps ?t = concat (ds_sent ?t)" using ok(2) by (intro dyn_done) simp_all
  then show ?thesis by (simp add: dynamic_send_bytes enqueued_append plain_send_def)
qed

text \<open>
  C39: A link is a FIFO channel. Let a client hand its queue for node \<open>i\<close> to the bandwidth-limited sender, and
  let any part of the bytes sent so far arrive, in chunks of any size. Then the handler of the server still
  runs, and it has handed over, under the sender's number, the first messages addressed to \<open>i\<close> in the order
  in which they were sent; all of them, when all the bytes have arrived.
\<close>

theorem link_delivers:
  assumes "i < N" and "int i \<noteq> ospid"
    and "enqueued es = foldl (handle_send ospid) (replicate N []) sends ! i"
    and "\<forall>obj \<in> set (addressed N i sends). framable dumps loads obj"
    and "prefix (concat chunks) (concat (ds_sent (dynamic_send dumps bw es)))"
    and "run_loop (server_recv loads jid) conn_init chunks = (s, outs, c)"
  shows "c = Running \<and> prefix (cn_inbox s) (map (Pair jid) (addressed N i sends)) \<and>
    (concat chunks = concat (plain_send dumps (addressed N i sends)) \<longrightarrow>
      cn_inbox s = map (Pair jid) (addressed N i sends))"
proof -
  have q: "enqueued es = addressed N i sends" using client_queue [of i "replicate N []" ospid sends] assms(1-3) by simp
  have "prefix (concat chunks) (concat (plain_send dumps (addressed N i sends)))"
    using prefix_order.trans [OF assms(5) dyn_sent_prefix [where dumps = dumps]]
    by (simp add: dynamic_send_bytes q plain_send_def)
  then obtain rest where "concat chunks @ rest = concat (map (frame_bytes dumps) (addressed N i sends))"
    by (auto simp: prefix_def plain_send_def)
  from drain_frames [OF assms(4) this] obtain n b where d:
    "drain loads (concat chunks) = (take n (addressed N i sends), b, None)"
    "rest = [] \<longrightarrow> take n (addressed N i sends) = addressed N i sends" by auto
  have "cn_inbox s = map (Pair jid) (take n (addressed N i sends)) \<and> c = Running"
    using server_run [OF _ _ assms(6), where objs = "take n (addressed N i sends)" and b = b and err = None] d(1)
    by (simp add: conn_init_def)
  moreover have "concat chunks = concat (plain_send dumps (addressed N i sends)) \<Longrightarrow> rest = []"
    using \<open>concat chunks @ rest = _\<close> by (simp add: plain_send_def)
  ultimately show ?thesis using d(2) by (auto simp: take_map [symmetric] take_is_prefix)
qed

text \<open>
  C40: One message cuts a link. If the pickle of a message contains the separator, as the pickle of a message
  with bytes of a faulty node's choice does when they contain it, then the handler of the server gets a
  truncated pickle, raises and ends: neither this message nor anything the same node sends later arrives,
  however the bytes are cut.
\<close>

theorem link_poisoned:
  assumes "\<forall>obj \<in> set before. framable dumps loads obj"
    and "split_first SEP (dumps obj) = Some (a, b)" and "loads a = Inl e"
    and "concat chunks = concat (plain_send dumps before) @ frame_bytes dumps obj @ later"
    and "run_loop (server_recv loads jid) conn_init chunks = (s, outs, c)"
  shows "cn_inbox s = map (Pair jid) before \<and> c = Returned ()"
proof -
  let ?x = "concat (plain_send dumps before)" and ?y = "frame_bytes dumps obj @ later"
  have "drain loads ?x = (before, [], None)"
    using drain_frames [OF assms(1), of ?x "[]"] by (auto simp: plain_send_def)
  moreover obtain rest err where "drain loads ?y = ([], rest, Some err)"
  proof -
    have "split_first SEP ?y = Some (a, b @ SEP @ later)"
      unfolding frame_bytes_def by (simp add: split_first_append [OF assms(2)])
    then show ?thesis using that assms(3) by (cases "a = []") (simp_all add: drain.simps [of loads ?y])
  qed
  ultimately have "drain loads (?x @ ?y) = (before, rest, Some err)" by (simp add: drain_append [of loads ?x])
  then show ?thesis
    using server_run [OF _ _ assms(5), where objs = before and b = rest and err = "Some err"] assms(4)
    by (simp add: conn_init_def)
qed

text \<open>
  Where the number of a node is found: hosts are different or local, and local nodes have the ports
  \<open>10000 + 200 i\<close>. A client on the local host binds the port \<open>bound_port\<close>, any other one an arbitrary port.
\<close>

definition local_host :: string where
  "local_host = ''127.0.0.1''"

definition well_addressed :: "(string \<times> int) list \<Rightarrow> bool" where
  "well_addressed addrs \<longleftrightarrow> (\<forall>i < length addrs.
     if fst (addrs ! i) = local_host then snd (addrs ! i) = 10000 + 200 * int i
     else \<forall>k < length addrs. fst (addrs ! k) = fst (addrs ! i) \<longrightarrow> k = i)"

fun source_of :: "(string \<times> int) list \<Rightarrow> nat \<Rightarrow> nat \<Rightarrow> int \<Rightarrow> string \<times> int" where
  "source_of addrs i j port =
     (fst (addrs ! i), if fst (addrs ! i) = local_host then bound_port (snd (addrs ! i)) j else port)"

lemma find_upt:
  assumes "i < n" and "P i" and "\<And>k. k < n \<Longrightarrow> P k \<Longrightarrow> k = i"
  shows "find P [0..<n] = Some i"
proof -
  have "\<exists>k. find P [0..<n] = Some k" using assms(1,2) by (cases "find P [0..<n]") (auto simp: find_None_iff)
  then show ?thesis using assms(3) by (auto simp: find_Some_iff)
qed

text \<open>
  Messages are attributed to their sender. With up to 199 nodes, well addressed as above, the number the
  server derives from the address of an incoming connection of node \<open>i\<close> to node \<open>j\<close> is \<open>i\<close>.
\<close>

theorem sender_identified:
  assumes "well_addressed addrs" and "length addrs \<le> 199" and "i < length addrs" and "j < length addrs"
  shows "address_to_id addrs (source_of addrs i j port) = int i"
proof (cases "fst (addrs ! i) = local_host")
  case True
  then have p: "snd (addrs ! i) = 10000 + 200 * int i" using assms(1,3) by (auto simp: well_addressed_def)
  have "(200 * int i + int j + 1) div 200 = int i" using assms(2,4) by simp
  then show ?thesis
    using True p by (simp add: address_to_id_def bound_port_def local_host_def find_None_iff [THEN iffD2])
next
  case False
  then have "find (\<lambda>k. fst (addrs ! i) \<noteq> ''127.0.0.1'' \<and> fst (addrs ! i) = fst (addrs ! k)) [0..<length addrs] = Some i"
    using assms(1,3) by (intro find_upt) (auto simp: well_addressed_def local_host_def)
  with False show ?thesis by (simp add: address_to_id_def)
qed

text \<open>
  Two nodes on one host that is not the local one are both taken for the first; and the 200th node of a
  local network gets its messages attributed to the successors of their senders.
\<close>

lemma shared_host_confused:
  "address_to_id [(''10.0.0.1'', 10000), (''10.0.0.1'', 10200)] (source_of [(''10.0.0.1'', 10000), (''10.0.0.1'', 10200)] 1 0 port) = 0"
  by (simp add: address_to_id_def local_host_def upt_rec)

lemma node_200_confused:
  "address_to_id (map (\<lambda>i. (local_host, 10000 + 200 * int i)) [0..<200]) (local_host, bound_port 10000 199) = 1"
  by (simp add: address_to_id_def local_host_def bound_port_def find_None_iff [THEN iffD2])

section \<open>Witnesses\<close>

text \<open>A pickler of short byte strings: the length, the bytes, and the byte 46.\<close>

definition toy_dumps :: "bytes \<Rightarrow> bytes" where
  "toy_dumps d = of_nat (length d) # d @ [46]"

definition toy_loads :: "bytes \<Rightarrow> py_error + bytes" where
  "toy_loads d = (if d \<noteq> [] \<and> length d = unat (hd d) + 2 \<and> last d = 46 then Inr (butlast (tl d)) else Inl ValueError)"

definition ex_dyn_events :: "bytes dyn_event list" where
  "ex_dyn_events = [Enqueued [7], Turn 20, Enqueued [13, 10, 83, 69, 80], Turn 1, Turn 30]"

theorem dynamic_equals_plain_witness:
  "concat (ds_sent (dynamic_send toy_dumps 5 (ex_dyn_events @ map Turn (replicate 50 1)))) =
     [1, 7, 46] @ SEP @ [5, 13, 10, 83, 69, 80, 46] @ SEP"
proof -
  have "enqueued ex_dyn_events = [[7], [13, 10, 83, 69, 80]]" by (simp add: ex_dyn_events_def)
  then have p: "concat (plain_send toy_dumps (enqueued ex_dyn_events)) = [1, 7, 46] @ SEP @ [5, 13, 10, 83, 69, 80, 46] @ SEP"
    by (simp add: plain_send_def frame_bytes_def toy_dumps_def)
  have "concat (ds_sent (dynamic_send toy_dumps 5 (ex_dyn_events @ map Turn (replicate 50 1)))) =
      concat (plain_send toy_dumps (enqueued ex_dyn_events))"
    by (rule dynamic_equals_plain) (auto simp: turns_positive_def ex_dyn_events_def plain_send_def frame_bytes_def
        toy_dumps_def SEP_def)
  then show ?thesis by (simp only: p)
qed

lemma clean_iff: "clean d \<longleftrightarrow> SEP \<notin> set (sublists d) \<and> (d = [] \<or> last d \<notin> set SEP)"
  by (simp add: clean_def)

theorem link_delivers_witness:
  "prefix (cn_inbox (fst (run_loop (server_recv toy_loads 0) conn_init [[1, 7], 46 # SEP @ [5, 13, 10, 83]])))
     [(0, [7]), (0, [13, 10, 83, 69, 80])]"
proof -
  let ?sends = "[(-1, [7]), (0, [9]), (-2, [13, 10, 83, 69, 80])] :: (int \<times> bytes) list"
  have a: "addressed 2 1 ?sends = [[7], [13, 10, 83, 69, 80]]" by (simp add: addressed_def)
  have f: "framable toy_dumps toy_loads [7]" "framable toy_dumps toy_loads [13, 10, 83, 69, 80]"
    unfolding framable_def clean_iff by code_simp+
  obtain s outs c where r: "run_loop (server_recv toy_loads 0) conn_init [[1, 7], 46 # SEP @ [5, 13, 10, 83]] = (s, outs, c)"
    using prod_cases3 by blast
  have "c = Running \<and> prefix (cn_inbox s) (map (Pair 0) (addressed 2 1 ?sends)) \<and>
    (concat [[1, 7], 46 # SEP @ [5, 13, 10, 83]] = concat (plain_send toy_dumps (addressed 2 1 ?sends)) \<longrightarrow>
      cn_inbox s = map (Pair 0) (addressed 2 1 ?sends))"
  proof (rule link_delivers [where ospid = 77 and es = ex_dyn_events and bw = 5, OF _ _ _ _ _ r])
    show "enqueued ex_dyn_events = foldl (handle_send 77) (replicate 2 []) ?sends ! 1" by code_simp
    show "\<forall>obj \<in> set (addressed 2 1 ?sends). framable toy_dumps toy_loads obj" using a f by simp
    show "prefix (concat [[1, 7], 46 # SEP @ [5, 13, 10, 83]]) (concat (ds_sent (dynamic_send toy_dumps 5 ex_dyn_events)))"
      by code_simp
  qed simp_all
  then show ?thesis using a r by simp
qed

theorem link_poisoned_witness:
  "cn_inbox (fst (run_loop (server_recv toy_loads 3) conn_init
     ([1, 7] # (46 # SEP @ [17]) # SEP # [46] # SEP # [[1, 8, 46], SEP]))) = [(3, [7])]"
proof -
  let ?cs = "[1, 7] # (46 # SEP @ [17]) # SEP # [46] # SEP # [[1, 8, 46], SEP]"
  obtain s outs c where r: "run_loop (server_recv toy_loads 3) conn_init ?cs = (s, outs, c)" using prod_cases3 by blast
  have "cn_inbox s = map (Pair 3) [[7]] \<and> c = Returned ()"
  proof (rule link_poisoned [OF _ _ _ _ r])
    show "\<forall>obj \<in> set [[7]]. framable toy_dumps toy_loads obj" unfolding framable_def clean_iff by code_simp
    show "split_first SEP (toy_dumps SEP) = Some ([17], [46])" by code_simp
    show "toy_loads [17] = Inl ValueError" by code_simp
    show "concat ?cs = concat (plain_send toy_dumps [[7]]) @ frame_bytes toy_dumps SEP @ ([1, 8, 46] @ SEP)" by code_simp
  qed
  then show ?thesis using r by simp
qed

theorem sender_identified_witness:
  "address_to_id [(local_host, 10000), (''10.0.0.5'', 7), (local_host, 10400)] (local_host, bound_port 10400 1) = 2"
proof -
  let ?as = "[(local_host, 10000), (''10.0.0.5'', 7), (local_host, 10400)]"
  have "well_addressed ?as" by (auto simp: well_addressed_def local_host_def less_Suc_eq numeral_3_eq_3)
  then have "address_to_id ?as (source_of ?as 2 1 0) = int 2" by (rule sender_identified) simp_all
  then show ?thesis by simp
qed

end
