(* ===== verification/Ledger.thy ===== *)
theory Ledger
  imports Drivers VectorAgreement "HOL-Library.Sublist"
begin

text \<open>
  A whole node: the driver of \<open>Drivers\<close> with the round of \<open>Round\<close> inside, \<open>run_bft\<close> calling \<open>_run_round\<close> in
  \<open>src/dumbobft/core/dumbo.py\<close>. The theorem is the purpose of the program, atomic broadcast: the ledgers of
  two correct nodes never diverge.
\<close>

section \<open>Model\<close>

text \<open>
  \<open>InRound r e\<close>: the sub-protocols of round \<open>r\<close> give \<open>e\<close>. They exist only while \<open>r\<close> is the node's round; what
  arrives earlier waits in the queue of its round (theory \<open>Routing\<close>) and is an event when it is read. A
  message \<open>ProposeTxs r txs\<close> is the batch of round \<open>r\<close>.
\<close>

datatype ('e, 'x) node_event = Submit 'x | InRound nat 'e

datatype ('q, 'x) node_msg = ProposeTxs nat "'x list" | RoundSend nat 'q

record ('w, 'x) node_state =
  nd_driver :: "'x driver_state"
  nd_round :: 'w

type_synonym ('w, 'q, 'x) node_reply = "(('w, 'x) node_state, ('q, 'x) node_msg, unit) reply"

text \<open>The start of a round of the driver \<open>d\<close>, whose batch has been selected, and its end with a block.\<close>

definition node_enter :: "'w \<Rightarrow> 'x driver_state \<Rightarrow> ('w, 'q, 'x) node_reply" where
  "node_enter w d = (\<lparr>nd_driver = d, nd_round = w\<rparr>, [Send 0 (ProposeTxs (dv_round d) (dv_sent d))], Running)"

definition node_block :: "('x list, 'x) driver_env \<Rightarrow> 'w \<Rightarrow> ('w, 'x) node_state \<Rightarrow> 'x list \<Rightarrow> ('w, 'q, 'x) node_reply" where
  "node_block G w s block =
     (case driver_round G (nd_driver s) block of
        (d, _, Running) \<Rightarrow> node_enter w d
      | (d, _, c) \<Rightarrow> (s\<lparr>nd_driver := d\<rparr>, [], c))"

definition as_node_msg :: "nat \<Rightarrow> 'q out \<Rightarrow> ('q, 'x) node_msg out" where
  "as_node_msg r x = (case x of Send k m \<Rightarrow> Send k (RoundSend r m))"

fun node_step ::
    "('x list, 'x) driver_env \<Rightarrow> 'w \<Rightarrow> ('w \<Rightarrow> 'e \<Rightarrow> ('w, 'q, 'x list) reply) \<Rightarrow> ('w, 'x) node_state \<Rightarrow>
       ('e, 'x) node_event \<Rightarrow> ('w, 'q, 'x) node_reply" where
  "node_step G w rstep s (Submit tx) = stay (s\<lparr>nd_driver := submit_tx (nd_driver s) tx\<rparr>)"
| "node_step G w rstep s (InRound r e) =
     (if r \<noteq> dv_round (nd_driver s) then stay s
      else case rstep (nd_round s) e of
        (w1, outs, c) \<Rightarrow>
          (let s1 = s\<lparr>nd_round := w1\<rparr>; ms = map (as_node_msg r) outs
           in case c of
                Running \<Rightarrow> (s1, ms, Running)
              | Raised x \<Rightarrow> (s1, ms, Raised x)
              | Returned block \<Rightarrow> (case node_block G w s1 block of (s2, ms', c') \<Rightarrow> (s2, ms @ ms', c'))))"

text \<open>
  A node of Dumbo. The round function gives the block itself, so the driver takes it as it is; an exception
  of the round ends the node.
\<close>

definition ledger_driver :: "nat \<Rightarrow> nat \<Rightarrow> ('x list, 'x) driver_env" where
  "ledger_driver B K = \<lparr>gB = B, gK = K, gselect = (\<lambda>n buf. Inr (dumbo_select n True buf)), grun = Inr,
     gcount = length, grequeue = dumbo_requeue\<rparr>"

definition node_run ::
    "('x list, 'x) driver_env \<Rightarrow> 'w \<Rightarrow> ('w \<Rightarrow> 'e \<Rightarrow> ('w, 'q, 'x list) reply) \<Rightarrow> 'x list \<Rightarrow> ('e, 'x) node_event list \<Rightarrow>
       ('w, 'q, 'x) node_reply" where
  "node_run G w rstep backlog es =
     (case driver_begin G (driver_init backlog) of
        (d, _, Running) \<Rightarrow>
          (case node_enter w d of (s, outs, _) \<Rightarrow>
            (case run_loop (node_step G w rstep) s es of (s', outs', c) \<Rightarrow> (s', outs @ outs', c)))
      | (d, _, c) \<Rightarrow> (\<lparr>nd_driver = d, nd_round = w\<rparr>, [], c))"

definition dumbo_node ::
    "('z::field, 'g, 't) hb_env \<Rightarrow> 'z \<Rightarrow> (bytes \<Rightarrow> py_error + 'x list) \<Rightarrow> ('x list \<Rightarrow> 'x list) \<Rightarrow> nat \<Rightarrow> nat \<Rightarrow>
       nat \<Rightarrow> 'x list \<Rightarrow>
       ((bytes, 'q) dacs_event round_event, 'x) node_event list \<Rightarrow>
       (((bytes, 'q) dacs_state, 'g) round_state, 'q round_msg, 'x) node_reply" where
  "dumbo_node E SK loads ord pid B K =
     node_run (ledger_driver B K) (round_init (dacs_init (hN E))) (run_round (dumbo_round E SK loads ord pid))"

section \<open>The ledger is made of the rounds' blocks\<close>

fun round_events :: "nat \<Rightarrow> ('e, 'x) node_event list \<Rightarrow> 'e list" where
  "round_events r [] = []"
| "round_events r (Submit tx # es) = round_events r es"
| "round_events r (InRound k e # es) = (if k = r then e # round_events r es else round_events r es)"

text \<open>
  Over the events \<open>X\<close>: block number \<open>r\<close> of the ledger is what the round returns on some of its events; the
  round that runs has taken some of its events.
\<close>

definition ledger_ok :: "'w \<Rightarrow> ('w \<Rightarrow> 'e \<Rightarrow> ('w, 'q, 'x list) reply) \<Rightarrow> (nat \<Rightarrow> 'e set) \<Rightarrow> 'x driver_state \<Rightarrow> bool" where
  "ledger_ok w rstep X d \<longleftrightarrow> length (dv_blocks d) = dv_round d \<and>
     (\<forall>r < dv_round d. \<exists>xs. set xs \<subseteq> X r \<and> ctl_of (run_loop rstep w xs) = Returned (dv_blocks d ! r))"

definition round_running :: "'w \<Rightarrow> ('w \<Rightarrow> 'e \<Rightarrow> ('w, 'q, 'x list) reply) \<Rightarrow> (nat \<Rightarrow> 'e set) \<Rightarrow> ('w, 'x) node_state \<Rightarrow> bool" where
  "round_running w rstep X s \<longleftrightarrow>
     (\<exists>xs os. set xs \<subseteq> X (dv_round (nd_driver s)) \<and> run_loop rstep w xs = (nd_round s, os, Running))"



lemma driver_round_ledger:
  assumes "grun G = Inr" and "driver_round G d block = (d', outs, c)"
  shows "dv_blocks d' = dv_blocks d @ [block]" and "dv_round d' = dv_round d + 1"
  using assms by (auto simp: driver_round_def driver_begin_def Let_def split: if_splits sum.splits prod.splits)

lemma ledger_append:
  assumes "ledger_ok w rstep X d" and "dv_blocks d' = dv_blocks d @ [block]" and "dv_round d' = dv_round d + 1"
    and "set xs \<subseteq> X (dv_round d)" and "ctl_of (run_loop rstep w xs) = Returned block"
  shows "ledger_ok w rstep X d'"
  unfolding ledger_ok_def
proof (intro conjI allI impI)
  show "length (dv_blocks d') = dv_round d'" using assms(1-3) by (simp add: ledger_ok_def)
  fix r assume "r < dv_round d'"
  then consider "r < dv_round d" | "r = dv_round d" using assms(3) by linarith
  then show "\<exists>xs. set xs \<subseteq> X r \<and> ctl_of (run_loop rstep w xs) = Returned (dv_blocks d' ! r)"
  proof cases
    case 1
    then show ?thesis using assms(1,2) by (auto simp: ledger_ok_def nth_append)
  next
    case 2
    then show ?thesis using assms by (auto simp: ledger_ok_def nth_append)
  qed
qed

lemma node_block_ok:
  assumes "grun G = Inr" and "ledger_ok w rstep X (nd_driver s)" and "set xs \<subseteq> X (dv_round (nd_driver s))"
    and "ctl_of (run_loop rstep w xs) = Returned block" and "node_block G w s block = (s', ms, c)"
  shows "ledger_ok w rstep X (nd_driver s') \<and> (c = Running \<longrightarrow> round_running w rstep X s')"
proof -
  obtain d o1 c1 where d: "driver_round G (nd_driver s) block = (d, o1, c1)" by (cases "driver_round G (nd_driver s) block")
  have l: "ledger_ok w rstep X d"
    using ledger_append [OF assms(2) driver_round_ledger [OF assms(1) d] assms(3,4)] .
  have "round_running w rstep X \<lparr>nd_driver = d, nd_round = w\<rparr>"
    unfolding round_running_def by (intro exI [of _ "[]"]) simp
  then show ?thesis using assms(5) d l
    by (cases c1) (auto simp: node_block_def node_enter_def)
qed

lemma node_step_ok:
  fixes rstep :: "'w \<Rightarrow> 'e \<Rightarrow> ('w, 'q, 'x list) reply"
  assumes "grun G = Inr" and "ledger_ok w rstep X (nd_driver s)" and "round_running w rstep X s"
    and "\<And>r x. e = InRound r x \<Longrightarrow> x \<in> X r" and "node_step G w rstep s e = (s', ms, c)"
  shows "ledger_ok w rstep X (nd_driver s') \<and> (c = Running \<longrightarrow> round_running w rstep X s')"
proof (cases e)
  case (Submit tx)
  then have s': "s' = s\<lparr>nd_driver := submit_tx (nd_driver s) tx\<rparr>" using assms(5) by simp
  then have "ledger_ok w rstep X (nd_driver s')"
    using assms(2) by (simp add: submit_tx_def ledger_ok_def)
  then show ?thesis using assms(3) s' by (simp add: round_running_def submit_tx_def)
next
  case (InRound r x)
  show ?thesis
  proof (cases "r = dv_round (nd_driver s)")
    case False
    then show ?thesis using assms InRound by simp
  next
    case True
    obtain xs os where xs: "set xs \<subseteq> X r" "run_loop rstep w xs = (nd_round s, os, Running)"
      using assms(3) True by (auto simp: round_running_def)
    obtain w1 o1 c1 where r: "rstep (nd_round s) x = (w1, o1, c1)" by (cases "rstep (nd_round s) x")
    have run: "run_loop rstep w (xs @ [x]) = (w1, os @ o1, c1)"
      using xs(2) r by (cases c1) (simp_all add: run_loop_append)
    have sub: "set (xs @ [x]) \<subseteq> X r" using xs(1) assms(4) InRound by auto
    show ?thesis
    proof (cases c1)
      case (Returned block)
      let ?s1 = "s\<lparr>nd_round := w1\<rparr>"
      obtain s2 m2 c2 where b: "(node_block G w ?s1 block :: ('w, 'q, 'x) node_reply) = (s2, m2, c2)"
        by (cases "node_block G w ?s1 block :: ('w, 'q, 'x) node_reply")
      have "ledger_ok w rstep X (nd_driver ?s1)" using assms(2) by simp
      from node_block_ok [OF assms(1) this _ _ b, of "xs @ [x]"] sub run Returned True
      have "ledger_ok w rstep X (nd_driver s2) \<and> (c2 = Running \<longrightarrow> round_running w rstep X s2)" by simp
      then show ?thesis using assms(5) InRound True r Returned b by simp
    next
      case Running
      then have "s' = s\<lparr>nd_round := w1\<rparr>" using assms(5) InRound True r by simp
      moreover have "round_running w rstep X (s\<lparr>nd_round := w1\<rparr>)"
        unfolding round_running_def using sub run Running True by (intro exI [of _ "xs @ [x]"]) auto
      ultimately show ?thesis using assms(2) by simp
    next
      case (Raised y)
      then show ?thesis using assms(2,5) InRound True r by auto
    qed
  qed
qed

lemma node_loop_ok:
  assumes "grun G = Inr" and "\<And>r. set (round_events r es) \<subseteq> X r"
    and "ledger_ok w rstep X (nd_driver s)" and "round_running w rstep X s"
    and "run_loop (node_step G w rstep) s es = (s', outs, c)"
  shows "ledger_ok w rstep X (nd_driver s')"
  using assms
proof (induction es arbitrary: s outs)
  case Nil
  then show ?case by simp
next
  case (Cons e es)
  obtain s1 o1 c1 where h: "node_step G w rstep s e = (s1, o1, c1)" by (cases "node_step G w rstep s e")
  have e: "x \<in> X r" if "e = InRound r x" for r x using Cons.prems(2) [of r] that by simp
  have es: "set (round_events r es) \<subseteq> X r" for r using Cons.prems(2) [of r] by (cases e) (auto split: if_splits)
  note ok = node_step_ok [OF Cons.prems(1,3,4) e h]
  show ?case
  proof (cases c1)
    case Running
    with Cons.prems(5) h obtain o2 where "run_loop (node_step G w rstep) s1 es = (s', o2, c)"
      by (auto split: prod.splits)
    then show ?thesis using Cons.IH [OF Cons.prems(1) es] ok Running by blast
  qed (use Cons.prems(5) h ok in auto)
qed

lemma node_run_ok:
  assumes "grun G = Inr" and "node_run G w rstep backlog es = (s, outs, c)"
  shows "ledger_ok w rstep (\<lambda>r. set (round_events r es)) (nd_driver s)"
proof -
  let ?X = "\<lambda>r. set (round_events r es)"
  obtain d o1 c1 where d: "driver_begin G (driver_init backlog) = (d, o1, c1)" by (cases "driver_begin G (driver_init backlog)")
  then have l: "dv_blocks d = [] \<and> dv_round d = 0"
    by (auto simp: driver_begin_def driver_init_def split: sum.splits prod.splits)
  then have ok: "ledger_ok w rstep ?X d" by (simp add: ledger_ok_def)
  show ?thesis
  proof (cases c1)
    case Running
    let ?s = "\<lparr>nd_driver = d, nd_round = w\<rparr>"
    obtain o2 where r: "run_loop (node_step G w rstep) ?s es = (s, o2, c)"
      using assms(2) d Running by (auto simp: node_run_def node_enter_def split: prod.splits)
    have "round_running w rstep ?X ?s" unfolding round_running_def by (intro exI [of _ "[]"]) simp
    with node_loop_ok [OF assms(1) order_refl _ _ r] ok show ?thesis by simp
  qed (use assms(2) d ok in \<open>auto simp: node_run_def\<close>)
qed

text \<open>Two nodes whose rounds agree, up to the order inside a block, have comparable ledgers.\<close>

lemma prefix_of_takes:
  "take (min (length xs) (length ys)) xs = take (min (length xs) (length ys)) ys \<Longrightarrow> prefix xs ys \<or> prefix ys xs"
  by (metis min_def take_all_iff order_refl take_is_prefix nle_le)

lemma ledgers_comparable:
  assumes "ledger_ok w rstep X d" and "ledger_ok w' rstep' X' d'"
    and agree: "\<And>r xs ys b b'. set xs \<subseteq> X r \<Longrightarrow> set ys \<subseteq> X' r \<Longrightarrow> ctl_of (run_loop rstep w xs) = Returned b \<Longrightarrow>
      ctl_of (run_loop rstep' w' ys) = Returned b' \<Longrightarrow> mset b = mset b'"
  shows "prefix (map mset (dv_blocks d)) (map mset (dv_blocks d')) \<or>
    prefix (map mset (dv_blocks d')) (map mset (dv_blocks d))"
proof -
  let ?n = "min (length (dv_blocks d)) (length (dv_blocks d'))" and ?m = "\<lambda>d. map mset (dv_blocks d)"
  have "take ?n (?m d) = take ?n (?m d')"
  proof (rule nth_equalityI)
    fix r assume "r < length (take ?n (?m d))"
    then have r: "r < dv_round d" "r < dv_round d'" "r < ?n" "r < length (dv_blocks d)" "r < length (dv_blocks d')"
      using assms(1,2) by (auto simp: ledger_ok_def)
    obtain xs ys where "set xs \<subseteq> X r" "set ys \<subseteq> X' r" "ctl_of (run_loop rstep w xs) = Returned (dv_blocks d ! r)"
      "ctl_of (run_loop rstep' w' ys) = Returned (dv_blocks d' ! r)"
      using assms(1,2) r unfolding ledger_ok_def by meson
    then have "mset (dv_blocks d ! r) = mset (dv_blocks d' ! r)" by (rule agree)
    then show "take ?n (?m d) ! r = take ?n (?m d') ! r" using r(3-5) by simp
  qed simp
  with prefix_of_takes [of "?m d" "?m d'"] show ?thesis by simp
qed

lemma acs_events_mono: "set xs \<subseteq> set ys \<Longrightarrow> set (acs_events xs) \<subseteq> set (acs_events ys)"
proof -
  have "set (acs_events zs) = {e. AcsEvent e \<in> set zs}" for zs :: "'a round_event list"
    by (induction zs rule: acs_events.induct) auto
  then show "set xs \<subseteq> set ys \<Longrightarrow> set (acs_events xs) \<subseteq> set (acs_events ys)" by auto
qed

lemma from_prbc_mono: "from_prbc rs p ys \<Longrightarrow> set xs \<subseteq> set ys \<Longrightarrow> from_prbc rs p xs"
  unfolding from_prbc_def by blast

text \<open>Rounds of two nodes agree also when each has taken in only a part of the events.\<close>

lemma dumbo_round_agreement_on:
  assumes "hb_dealt E"
    and ord: "lists_set ord" "lists_set ord'"
    and "\<forall>j < hN E. prbc_instance (rc j) (rs j) \<and> p \<notin> fst (snd (rc j)) \<and> p' \<notin> fst (snd (rc j))"
    and "from_prbc rs p (acs_events es)" and "from_prbc rs p' (acs_events es')"
    and "vaba_world_ok W \<and> vector_view_ok W p V \<and> vector_view_ok W p' V'"
    and "from_vacs p V (acs_events es)" and "from_vacs p' V' (acs_events es')"
    and "set xs \<subseteq> set es" and "set ys \<subseteq> set es'"
    and "ctl_of (run_loop (run_round (dumbo_round E SK loads ord p)) (round_init (dacs_init (hN E))) xs) = Returned b"
    and "ctl_of (run_loop (run_round (dumbo_round E SK' loads ord' p')) (round_init (dacs_init (hN E))) ys) = Returned b'"
  shows "mset b = mset b'"
proof -
  obtain vec where vec: "(\<Union>e \<in> set (acs_events es) \<union> set (acs_events es'). dacs_vectors e) \<subseteq> {Some vec}"
    using one_vector [OF _ _ _ assms(8,9)] assms(7) by blast
  show ?thesis
  proof (rule dumbo_round_agreement_aux [OF assms(1) ord assms(4) _ _ _ assms(12,13)])
    show "from_prbc rs p (acs_events xs)" "from_prbc rs p' (acs_events ys)"
      using assms(5,6,10,11) from_prbc_mono acs_events_mono by blast+
    show "(\<Union>e \<in> set (acs_events xs) \<union> set (acs_events ys). dacs_vectors e) \<subseteq> {Some vec}"
      using vec acs_events_mono [OF assms(10)] acs_events_mono [OF assms(11)] by blast
  qed
qed

section \<open>Properties\<close>

text \<open>
  C1: Atomic broadcast. Two correct nodes of Dumbo run any number of rounds, with batches of any size and
  transactions submitted at any time, on messages in any order. At any time the ledger of one node is a
  prefix of the ledger of the other, block by block as sets of transactions: each node delivers
  \<open>list(block)\<close> of a Python set, in the order of its own process, so the theorem compares the blocks
  as multisets (a block holds a transaction once). Assumed of every round: the decryption keys are dealt by
  the dealer; the provable broadcasts and the binary agreements run with at most \<open>f\<close> Byzantine nodes and
  give the nodes their events; the coin gives all nodes one permutation; a certificate that a node takes or
  accepts in the vector agreement is genuine, that is, signed by \<open>N - f\<close> distinct nodes, the correct ones
  among them in their consistent broadcast (the code does not check that the signers are distinct). Of the
  hash: no two values that come with a certificate in the run have one digest, and the Merkle trees of the
  values delivered in the run do not collide.
\<close>

theorem dumbo_total_order:
  assumes "hb_dealt E"
    and "lists_set ord" and "lists_set ord'"
    and "\<forall>r. \<forall>j < hN E. prbc_instance (rc r j) (rs r j) \<and> p \<notin> fst (snd (rc r j)) \<and> p' \<notin> fst (snd (rc r j))"
    and "\<forall>r. from_prbc (rs r) p (acs_events (round_events r es))"
    and "\<forall>r. from_prbc (rs r) p' (acs_events (round_events r es'))"
    and "\<forall>r. vaba_world_ok (W r) \<and> vector_view_ok (W r) p (V r) \<and> vector_view_ok (W r) p' (V' r)"
    and "\<forall>r. from_vacs p (V r) (acs_events (round_events r es))"
    and "\<forall>r. from_vacs p' (V' r) (acs_events (round_events r es'))"
    and "dumbo_node E SK loads ord p B K backlog es = (s, outs, c)"
    and "dumbo_node E SK' loads ord' p' B' K' backlog' es' = (s', outs', c')"
  shows "prefix (map mset (dv_blocks (nd_driver s))) (map mset (dv_blocks (nd_driver s'))) \<or>
    prefix (map mset (dv_blocks (nd_driver s'))) (map mset (dv_blocks (nd_driver s)))"
proof (rule ledgers_comparable)
  show "ledger_ok (round_init (dacs_init (hN E))) (run_round (dumbo_round E SK loads ord p)) (\<lambda>r. set (round_events r es)) (nd_driver s)"
    using assms(10) unfolding dumbo_node_def by (rule node_run_ok [rotated]) (simp add: ledger_driver_def)
  show "ledger_ok (round_init (dacs_init (hN E))) (run_round (dumbo_round E SK' loads ord' p')) (\<lambda>r. set (round_events r es')) (nd_driver s')"
    using assms(11) unfolding dumbo_node_def by (rule node_run_ok [rotated]) (simp add: ledger_driver_def)
  fix r xs ys b b'
  assume x: "set xs \<subseteq> set (round_events r es)" "set ys \<subseteq> set (round_events r es')"
    and b: "ctl_of (run_loop (run_round (dumbo_round E SK loads ord p)) (round_init (dacs_init (hN E))) xs) = Returned b"
      "ctl_of (run_loop (run_round (dumbo_round E SK' loads ord' p')) (round_init (dacs_init (hN E))) ys) = Returned b'"
  show "mset b = mset b'"
    using dumbo_round_agreement_on [OF assms(1-3) assms(4-9) [THEN spec, of r] x b] by blast
qed

section \<open>Witness\<close>

lemma node_last_round:
  assumes "grun G = Inr" and "gK G \<le> dv_round (nd_driver s) + 1"
    and "ctl_of (run_loop rstep (nd_round s) xs) = Returned b"
  shows "dv_blocks (nd_driver (fst (run_loop (node_step G w rstep) s (map (InRound (dv_round (nd_driver s))) xs)))) =
    dv_blocks (nd_driver s) @ [b]"
  using assms(2,3)
proof (induction xs arbitrary: s)
  case Nil
  then show ?case by simp
next
  case (Cons x xs)
  obtain w1 o1 c1 where r: "rstep (nd_round s) x = (w1, o1, c1)" by (cases "rstep (nd_round s) x")
  show ?case
  proof (cases c1)
    case Running
    with r Cons.prems(2) have "ctl_of (run_loop rstep (nd_round (s\<lparr>nd_round := w1\<rparr>)) xs) = Returned b"
      by (auto split: prod.splits)
    with Cons.IH [of "s\<lparr>nd_round := w1\<rparr>"] Cons.prems(1) r Running show ?thesis by (auto split: prod.splits)
  next
    case (Returned b')
    then have "b' = b" using r Cons.prems(2) by simp
    then show ?thesis
      using r Returned Cons.prems(1) assms(1)
      by (auto simp: node_block_def node_enter_def driver_round_def Let_def split: if_splits prod.splits)
  next
    case (Raised e)
    then show ?thesis using r Cons.prems(2) by simp
  qed
qed

lemma dumbo_node_one_round:
  fixes evs :: "(bytes, 'q) dacs_event round_event list" and E :: "('z::field, 'g, 't) hb_env" and b :: "'x list"
  assumes "ctl_of (run_loop (run_round (dumbo_round E SK loads ord pid)) (round_init (dacs_init (hN E))) evs) = Returned b"
  shows "dv_blocks (nd_driver (fst (dumbo_node E SK loads ord pid B 1 backlog (map (InRound 0) evs)))) = [b]"
proof -
  let ?G = "ledger_driver B 1 :: ('x list, 'x) driver_env"
    and ?w = "round_init (dacs_init (hN E)) :: ((bytes, 'q) dacs_state, 'g) round_state"
  have "driver_begin ?G (driver_init backlog) =
      (\<lparr>dv_round = 0, dv_buffer = drop B backlog, dv_sent = take B backlog, dv_blocks = [], dv_txcnt = 0\<rparr>, [], Running)"
    by (simp add: driver_begin_def ledger_driver_def driver_init_def dumbo_select_eq)
  then show ?thesis
    using node_last_round [of ?G "\<lparr>nd_driver = \<lparr>dv_round = 0, dv_buffer = drop B backlog, dv_sent = take B backlog,
        dv_blocks = [], dv_txcnt = 0\<rparr>, nd_round = ?w\<rparr>" "run_round (dumbo_round E SK loads ord pid)" evs b ?w] assms
    by (auto simp: dumbo_node_def node_run_def node_enter_def ledger_driver_def split: prod.splits)
qed

definition ex_ledger_events :: "nat \<Rightarrow> nat \<Rightarrow> (bytes, nat) dacs_event list \<Rightarrow> nat \<Rightarrow> nat \<Rightarrow> (bytes, nat) dacs_event round_event list" where
  "ex_ledger_events a u evs b v =
     TpkeShares a (ex_round_shares (of_nat u)) # map AcsEvent evs @ [TpkeShares b (ex_round_shares (of_nat v))]"

lemma ex_ledger_acs: "acs_events (ex_ledger_events a u evs b v) = evs"
  unfolding ex_ledger_events_def by (rule acs_events_split)

abbreviation ex_ledger_0 :: "((bytes, nat) dacs_event round_event, 8 word) node_event list" where
  "ex_ledger_0 \<equiv> map (InRound 0) (ex_ledger_events 0 21 (ex_dacs_events [1, 0, 2] @ [PRBC_OUT 3 [5] 3]) 2 33)"

abbreviation ex_ledger_1 :: "((bytes, nat) dacs_event round_event, 8 word) node_event list" where
  "ex_ledger_1 \<equiv> map (InRound 0) (ex_ledger_events 3 39 (ex_dacs_events [3, 2] @ [PRBC_OUT 0 [5] 0]) 1 27)"

lemma round_events_map: "round_events r (map (InRound k) evs) = (if r = k then evs else [])"
  by (induction evs) auto

lemma ex_ledger_rounds:
  "ctl_of (run_loop (run_round (dumbo_round ex_round_hb 7 Inr remdups 0)) (round_init (dacs_init (hN ex_round_hb)))
     (ex_ledger_events 0 21 (ex_dacs_events [1, 0, 2] @ [PRBC_OUT 3 [5] 3]) 2 33)) = Returned [65, 66]"
  "ctl_of (run_loop (run_round (dumbo_round ex_round_hb 9 Inr (\<lambda>xs. rev (remdups xs)) 1)) (round_init (dacs_init (hN ex_round_hb)))
     (ex_ledger_events 3 39 (ex_dacs_events [3, 2] @ [PRBC_OUT 0 [5] 0]) 1 27)) = Returned [66, 65]"
proof -
  have N: "hN ex_round_hb = 4" by (simp add: ex_round_hb_def ex_hb_def)
  have r: "ctl_of (run_loop (dumbocommonsubset 4 0) (dacs_init 4) (ex_dacs_events [1, 0, 2])) = Running"
    "ctl_of (run_loop (dumbocommonsubset 4 0) (dacs_init 4) (ex_dacs_events [1, 0, 2] @ [PRBC_OUT 3 [5] 3])) = Returned ex_round_vall"
    "ctl_of (run_loop (dumbocommonsubset 4 1) (dacs_init 4) (ex_dacs_events [3, 2])) = Running"
    "ctl_of (run_loop (dumbocommonsubset 4 1) (dacs_init 4) (ex_dacs_events [3, 2] @ [PRBC_OUT 0 [5] 0])) = Returned ex_round_vall"
    by code_simp+
  show "ctl_of (run_loop (run_round (dumbo_round ex_round_hb 7 Inr remdups 0)) (round_init (dacs_init (hN ex_round_hb)))
     (ex_ledger_events 0 21 (ex_dacs_events [1, 0, 2] @ [PRBC_OUT 3 [5] 3]) 2 33)) = Returned [65, 66]"
    unfolding N ex_ledger_events_def using ex_round_run [OF r(1,2), of 0 21 2 33 21 33 7 remdups] by simp
  show "ctl_of (run_loop (run_round (dumbo_round ex_round_hb 9 Inr (\<lambda>xs. rev (remdups xs)) 1)) (round_init (dacs_init (hN ex_round_hb)))
     (ex_ledger_events 3 39 (ex_dacs_events [3, 2] @ [PRBC_OUT 0 [5] 0]) 1 27)) = Returned [66, 65]"
    unfolding N ex_ledger_events_def using ex_round_run [OF r(3,4), of 3 39 1 27 39 27 9 "\<lambda>xs. rev (remdups xs)"] by simp
qed

lemma ex_ledger_blocks:
  "dv_blocks (nd_driver (fst (dumbo_node ex_round_hb 7 Inr remdups 0 3 1 [1, 2, 3, 4] ex_ledger_0))) = [[65, 66]]"
  "dv_blocks (nd_driver (fst (dumbo_node ex_round_hb 9 Inr (\<lambda>xs. rev (remdups xs)) 1 2 1 [] ex_ledger_1))) = [[66, 65]]"
  by (rule dumbo_node_one_round [OF ex_ledger_rounds(1)], rule dumbo_node_one_round [OF ex_ledger_rounds(2)])

theorem dumbo_total_order_witness:
  "dv_blocks (nd_driver (fst (dumbo_node ex_round_hb 7 Inr remdups 0 3 1 [1, 2, 3, 4] ex_ledger_0))) = [[65, 66]] \<and>
   dv_blocks (nd_driver (fst (dumbo_node ex_round_hb 9 Inr (\<lambda>xs. rev (remdups xs)) 1 2 1 [] ex_ledger_1))) = [[66, 65]] \<and>
   (prefix [mset [65, 66]] [mset [66, 65 :: 8 word]] \<or> prefix [mset [66, 65]] [mset [65, 66 :: 8 word]])"
proof (intro conjI)
  have N: "hN ex_round_hb = 4" by (simp add: ex_round_hb_def ex_hb_def)
  obtain s os c s' os' c' where
    s: "dumbo_node ex_round_hb 7 Inr remdups 0 3 1 [1, 2, 3, 4] ex_ledger_0 = (s, os, c)" and
    s': "dumbo_node ex_round_hb 9 Inr (\<lambda>xs. rev (remdups xs)) 1 2 1 [] ex_ledger_1 = (s', os', c')"
    using prod_cases3 by metis
  have "prefix (map mset (dv_blocks (nd_driver s))) (map mset (dv_blocks (nd_driver s'))) \<or>
    prefix (map mset (dv_blocks (nd_driver s'))) (map mset (dv_blocks (nd_driver s)))"
  proof (rule dumbo_total_order [OF ex_round_dealt lists_set_remdups _ _ _ _ _ _ s s'])
    show "\<forall>r. \<forall>j < hN ex_round_hb. prbc_instance (ex_prbc, {3}, [5]) ex_prbc_final \<and>
        (0::nat) \<notin> fst (snd (ex_prbc, {3}, [5::8 word])) \<and> (1::nat) \<notin> fst (snd (ex_prbc, {3}, [5::8 word]))"
      using ex_dacs_prbc by simp
    show "\<forall>r. from_prbc (\<lambda>_. ex_prbc_final) 0 (acs_events (round_events r ex_ledger_0))"
      "\<forall>r. from_prbc (\<lambda>_. ex_prbc_final) 1 (acs_events (round_events r ex_ledger_1))"
      unfolding round_events_map using ex_prbc_ended
      by (auto simp: ex_ledger_acs from_prbc_def ex_dacs_events_def prbc_outputs_def ex_prbc_value_def)
    show "\<forall>r. vaba_world_ok ex_world \<and> vector_view_ok ex_world 0 (ex_view 0 [0, 1, 2]) \<and>
        vector_view_ok ex_world 1 (ex_view 1 [2, 0, 1])"
      using ex_world_ok ex_views_ok by simp
    show "\<forall>r. from_vacs 0 (ex_view 0 [0, 1, 2]) (acs_events (round_events r ex_ledger_0))"
      "\<forall>r. from_vacs 1 (ex_view 1 [2, 0, 1]) (acs_events (round_events r ex_ledger_1))"
      unfolding round_events_map using ex_view_runs(3,4)
      by (auto simp: ex_ledger_acs from_vacs_def ex_dacs_events_def ex_vec_def)
  qed
  then show "prefix [mset [65, 66]] [mset [66, 65 :: 8 word]] \<or> prefix [mset [66, 65]] [mset [65, 66 :: 8 word]]"
    using ex_ledger_blocks s s' by simp
qed (rule ex_ledger_blocks)+

end
