(* ===== verification/MuleNode.thy ===== *)
theory MuleNode
  imports Mule Ledger
begin

text \<open>
  A whole epoch of Mule and of RbcMule: the epoch of theory \<open>Mule\<close> with its fallback, a round of Dumbo (the
  second half of \<open>_run_epoch\<close> in \<open>src/mulebft/core/mule.py\<close> and \<open>src/rbcmulebft/core/rbcmule.py\<close>), and the loop
  over the epochs. Two correct nodes leave an epoch alike: with the same number of slots of the fast path,
  or with the same block of the fallback.
\<close>

section \<open>Model\<close>

text \<open>
  The fallback is Dumbo's round, except that the decryption shares are sent to one node after the other and
  that the predicate of the vector agreement is \<open>mule_vacs_predicate\<close>. Its block stays a set; \<open>ord\<close> lists it.
\<close>

definition fallback_msgs :: "nat \<Rightarrow> 'q round_msg out list \<Rightarrow> 'q round_msg out list" where
  "fallback_msgs N outs =
     concat (map (\<lambda>x. case x of Send k (TpkeBcast m) \<Rightarrow> to_all N (TpkeBcast m) | _ \<Rightarrow> [x]) outs)"

definition mule_fallback ::
    "('z::field, 'g, 't) hb_env \<Rightarrow> 'z \<Rightarrow> (bytes \<Rightarrow> py_error + 'x list) \<Rightarrow> ('x list \<Rightarrow> 'x list) \<Rightarrow> nat \<Rightarrow>
       ((bytes, 'q) dacs_state, 'g) round_state \<Rightarrow> (bytes, 'q) dacs_event round_event \<Rightarrow> (((bytes, 'q) dacs_state, 'g) round_state, 'q round_msg, 'x list) reply" where
  "mule_fallback E SK loads ord pid s e =
     (case run_round (dumbo_round E SK loads ord pid) s e of (s', outs, c) \<Rightarrow> (s', fallback_msgs (hN E) outs, c))"

definition mule_node_epoch where
  "mule_node_epoch P hsh dig B E SK loads ord pid =
     epoch_step (mule_epoch P hsh dig B) B (round_init (dacs_init (hN E))) (mule_fallback E SK loads ord pid)"

definition rbcmule_node_epoch where
  "rbcmule_node_epoch P hsh sid epoch_id leader B E SK loads ord pid =
     epoch_step (rbcmule_epoch P hsh sid epoch_id leader B) B (round_init (dacs_init (hN E))) (mule_fallback E SK loads ord pid)"

text \<open>
  \<open>run_bft\<close> of RbcMule is Mule's. The rotating leader has no result of an epoch, only its end.
\<close>

definition rbcmule_run :: "nat \<Rightarrow> nat \<Rightarrow> int ctl \<Rightarrow> (nat, unit, unit) reply" where
  "rbcmule_run K epoch c =
     (case c of
        Running \<Rightarrow> stay epoch
      | Raised e \<Rightarrow> (epoch, [], Raised e)
      | Returned d \<Rightarrow> if K \<le> epoch + 1 then (epoch + 1, [], Returned ()) else stay (epoch + 1))"

definition rotating_run :: "nat \<Rightarrow> nat \<Rightarrow> unit ctl \<Rightarrow> (nat, unit, unit) reply" where
  "rotating_run K epoch c =
     (case c of
        Running \<Rightarrow> stay epoch
      | Raised e \<Rightarrow> (epoch, [], Raised e)
      | Returned u \<Rightarrow> if K \<le> epoch + 1 then (epoch + 1, [], Returned ()) else stay (epoch + 1))"

section \<open>What the fallback has taken in\<close>

fun fallback_events :: "('o, 'v, 'e) epoch_event list \<Rightarrow> 'e list" where
  "fallback_events [] = []"
| "fallback_events (FallbackEvent e # es) = e # fallback_events es"
| "fallback_events (x # es) = fallback_events es"

lemma fallback_events_set: "set (fallback_events es) = {e. FallbackEvent e \<in> set es}"
  by (induction es rule: fallback_events.induct) auto

definition fallback_ok :: "'w \<Rightarrow> ('w \<Rightarrow> 'e \<Rightarrow> ('w, 'q, 'x list) reply) \<Rightarrow> 'e set \<Rightarrow> ('o, 'p, 'w, 'x) epoch_state \<Rightarrow> bool" where
  "fallback_ok w rstep X s \<longleftrightarrow>
     (\<forall>w1. y_fallback s = Some w1 \<longrightarrow> (\<exists>xs os. set xs \<subseteq> X \<and> run_loop rstep w xs = (w1, os, Running)))"

text \<open>An epoch without slots of the fast path ends with the block that its own fallback round returned.\<close>

definition fallback_ends ::
    "'w \<Rightarrow> ('w \<Rightarrow> 'e \<Rightarrow> ('w, 'q, 'x list) reply) \<Rightarrow> 'e set \<Rightarrow> ('o, 'p, 'w, 'x) epoch_state \<Rightarrow> int \<Rightarrow> bool" where
  "fallback_ends w rstep X s d \<longleftrightarrow>
     0 < d \<or> d = 0 \<and> (\<exists>xs b. y_block s = Some b \<and> set xs \<subseteq> X \<and> ctl_of (run_loop rstep w xs) = Returned b)"

lemma decide_fallback:
  assumes "fallback_ok w rstep X s" and "epoch_decide Y B w s v = (s', outs, c)"
  shows "fallback_ok w rstep X s' \<and> (\<forall>d. c = Returned d \<longrightarrow> 0 < d)"
proof -
  have "set ([] :: 'b list) \<subseteq> X \<and> run_loop rstep w [] = (w, [], Running)" by simp
  then show ?thesis using assms
    by (auto simp: epoch_decide_def fallback_ok_def split: list.splits if_splits intro: exI [of _ "[]"])
qed

lemma report_fallback:
  assumes "fallback_ok w rstep X s" and "epoch_report Y B w s = (s', outs, c)"
  shows "fallback_ok w rstep X s' \<and> (\<forall>d. c = Returned d \<longrightarrow> 0 < d)"
proof (cases "yreport Y (vc_proofs (y_vc s)) (y_txcnt s) (y_latest s)")
  case (Inl e)
  then show ?thesis using assms by (auto simp: epoch_report_def fallback_ok_def)
next
  case (Inr x)
  obtain p n payload where x: "x = (p, n, payload)" by (cases x)
  let ?s = "s\<lparr>y_ready := True, y_vc := (y_vc s)\<lparr>vc_proofs := p\<rparr>, y_txcnt := n\<rparr>"
  have ok: "fallback_ok w rstep X ?s" using assms(1) by (simp add: fallback_ok_def)
  show ?thesis
  proof (cases "y_tcvba s")
    case None
    then show ?thesis using assms(2) Inr x ok by (auto simp: epoch_report_def Let_def)
  next
    case (Some v)
    show ?thesis
      using assms(2) Inr x Some by (auto simp: epoch_report_def Let_def split: prod.splits dest: decide_fallback [OF ok])
  qed
qed

lemma epoch_step_fallback:
  fixes rstep :: "'w \<Rightarrow> 'e \<Rightarrow> ('w, 'q, 'x list) reply"
  assumes "fallback_ok w rstep X s" and "\<And>x. e = FallbackEvent x \<Longrightarrow> x \<in> X"
    and "epoch_step Y B w rstep s e = (s', outs, c)"
  shows "(c = Running \<longrightarrow> fallback_ok w rstep X s') \<and> (\<forall>d. c = Returned d \<longrightarrow> fallback_ends w rstep X s' d)"
proof (cases e)
  case (FastOutput ob)
  then show ?thesis using assms(1,3) by (auto simp: fastpath_output_def fallback_ok_def Let_def split: if_splits)
next
  case FastReturn
  then show ?thesis
    using assms(1,3) by (auto simp: fallback_ends_def split: if_splits dest: report_fallback)
next
  case (ViewChange v)
  obtain vc ins c1 where vc: "vc_collect (yquota Y) (ycheck Y) (y_vc s) v = (vc, ins, c1)"
    by (cases "vc_collect (yquota Y) (ycheck Y) (y_vc s) v")
  have "fallback_ok w rstep X (s\<lparr>y_vc := vc, y_vc_end := c1\<rparr>)" using assms(1) by (simp add: fallback_ok_def)
  then show ?thesis using assms(1,3) ViewChange vc
    by (auto simp: epoch_viewchange_def fallback_ends_def Let_def split: if_splits prod.splits dest: report_fallback)
next
  case (TcvbaOut v)
  have "fallback_ok w rstep X (s\<lparr>y_tcvba := Some v\<rparr>)" using assms(1) by (simp add: fallback_ok_def)
  then show ?thesis using assms(1,3) TcvbaOut
    by (auto simp: fallback_ends_def split: if_splits dest: decide_fallback)
next
  case (FallbackEvent x)
  show ?thesis
  proof (cases "y_fallback s")
    case None
    then show ?thesis using assms(1,3) FallbackEvent by auto
  next
    case (Some w0)
    obtain xs os where xs: "set xs \<subseteq> X" "run_loop rstep w xs = (w0, os, Running)"
      using assms(1) Some by (auto simp: fallback_ok_def)
    obtain w1 o1 c1 where r: "rstep w0 x = (w1, o1, c1)" by (cases "rstep w0 x")
    have run: "run_loop rstep w (xs @ [x]) = (w1, os @ o1, c1)"
      using xs(2) r by (cases c1) (simp_all add: run_loop_append)
    have sub: "set (xs @ [x]) \<subseteq> X" using xs(1) assms(2) FallbackEvent by auto
    show ?thesis
    proof (cases c1)
      case Running
      have "\<exists>xs os. set xs \<subseteq> X \<and> run_loop rstep w xs = (w1, os, Running)"
        using sub run Running by blast
      then show ?thesis using assms(3) FallbackEvent Some r Running by (auto simp: fallback_ok_def Let_def)
    next
      case (Returned b)
      have "\<exists>xs. set xs \<subseteq> X \<and> ctl_of (run_loop rstep w xs) = Returned b"
        using sub run Returned by (metis snd_conv)
      then show ?thesis using assms(3) FallbackEvent Some r Returned
        by (auto simp: fallback_ends_def Let_def split: if_splits)
    next
      case (Raised y)
      then show ?thesis using assms(3) FallbackEvent Some r by (auto simp: Let_def)
    qed
  qed
qed

lemma epoch_loop_fallback:
  fixes rstep :: "'w \<Rightarrow> 'e \<Rightarrow> ('w, 'q, 'x list) reply"
  assumes "fallback_ok w rstep X s" and "set (fallback_events es) \<subseteq> X"
    and "run_loop (epoch_step Y B w rstep) s es = (s', outs, Returned d)"
  shows "fallback_ends w rstep X s' d"
  using assms
proof (induction es arbitrary: s outs)
  case Nil
  then show ?case by simp
next
  case (Cons e es)
  obtain s1 o1 c1 where h: "epoch_step Y B w rstep s e = (s1, o1, c1)" by (cases "epoch_step Y B w rstep s e")
  have x: "x \<in> X" if "e = FallbackEvent x" for x using Cons.prems(2) that by simp
  have es: "set (fallback_events es) \<subseteq> X" using Cons.prems(2) by (auto simp: fallback_events_set)
  note st = epoch_step_fallback [OF Cons.prems(1) x h]
  show ?case
  proof (cases c1)
    case Running
    with Cons.prems(3) h obtain o2 where "run_loop (epoch_step Y B w rstep) s1 es = (s', o2, Returned d)"
      by (auto split: prod.splits)
    then show ?thesis using Cons.IH es st Running by blast
  qed (use Cons.prems(3) h st in auto)
qed

lemma epoch_fallback_ends:
  assumes "run_loop (epoch_step Y B w rstep) (epoch_init p n buffer) es = (s', outs, Returned d)"
  shows "fallback_ends w rstep (set (fallback_events es)) s' d"
proof (rule epoch_loop_fallback [OF _ order_refl assms])
  show "fallback_ok w rstep (set (fallback_events es)) (epoch_init p n buffer)" by (simp add: fallback_ok_def epoch_init_def)
qed

text \<open>Sending to one node after the other changes neither the states nor the result of a round.\<close>

lemma mule_fallback_eq:
  "run_round (dumbo_round E SK loads ord pid) s x = (s', os, c) \<Longrightarrow>
    mule_fallback E SK loads ord pid s x = (s', fallback_msgs (hN E) os, c)"
  by (simp add: mule_fallback_def)

lemma mule_fallback_run:
  "run_loop (run_round (dumbo_round E SK loads ord pid)) s xs = (s', os, c) \<Longrightarrow>
    \<exists>os'. run_loop (mule_fallback E SK loads ord pid) s xs = (s', os', c)"
proof (induction xs arbitrary: s os)
  case Nil
  then show ?case by simp
next
  case (Cons x xs)
  obtain s1 o1 c1 where h: "run_round (dumbo_round E SK loads ord pid) s x = (s1, o1, c1)"
    by (cases "run_round (dumbo_round E SK loads ord pid) s x")
  show ?case
  proof (cases c1)
    case Running
    with Cons.prems h obtain o2 where "run_loop (run_round (dumbo_round E SK loads ord pid)) s1 xs = (s', o2, c)"
      by (auto split: prod.splits)
    with Cons.IH obtain o3 where "run_loop (mule_fallback E SK loads ord pid) s1 xs = (s', o3, c)" by blast
    then show ?thesis using mule_fallback_eq [OF h] Running by simp
  qed (use Cons.prems h mule_fallback_eq [OF h] in auto)
qed

lemma mule_fallback_ctl:
  "ctl_of (run_loop (mule_fallback E SK loads ord pid) s xs) = ctl_of (run_loop (run_round (dumbo_round E SK loads ord pid)) s xs)"
proof -
  obtain s' os c where r: "run_loop (run_round (dumbo_round E SK loads ord pid)) s xs = (s', os, c)" by (rule prod_cases3)
  from mule_fallback_run [OF r] r show ?thesis by auto
qed

section \<open>Properties\<close>

text \<open>
  C2: Agreement on an epoch of Mule. If the epoch returns at two correct nodes, whose two-value agreements
  gave the same output, then they leave it alike, whatever their fast paths and view-change messages were:
  they deliver the same number of slots, and if that is none, then each node's own fallback has given it a
  block, and the two blocks are the same set of transactions. Assumed of the fallback is what atomic
  broadcast assumes of a round: keys dealt; the provable broadcasts and binary agreements run with at most
  \<open>f\<close> Byzantine nodes and give the nodes their events; one permutation of the coin; certificates genuine,
  that is, signed by \<open>N - f\<close> distinct nodes, the correct ones in their consistent broadcast; no two values
  that come with a certificate in the run with one digest, and no collision in the Merkle trees of the
  values delivered.
\<close>

theorem mule_epoch_agreement:
  assumes "hb_dealt E"
    and "lists_set ord" and "lists_set ord'"
    and "\<forall>j < hN E. prbc_instance (rc j) (rs j) \<and> p \<notin> fst (snd (rc j)) \<and> p' \<notin> fst (snd (rc j))"
    and "from_prbc rs p (acs_events (fallback_events es))" and "from_prbc rs p' (acs_events (fallback_events es'))"
    and "vaba_world_ok W \<and> vector_view_ok W p V \<and> vector_view_ok W p' V'"
    and "from_vacs p V (acs_events (fallback_events es))" and "from_vacs p' V' (acs_events (fallback_events es'))"
    and "hd_option (tcvba_outs es) = hd_option (tcvba_outs es')"
    and "run_loop (mule_node_epoch P hsh dig B E SK loads ord p) (epoch_init () n buffer) es = (s, outs, Returned d)"
    and "run_loop (mule_node_epoch P hsh dig B E SK' loads ord' p') (epoch_init () n' buffer') es' = (s', outs', Returned d')"
  shows "d = d' \<and>
    (0 < d \<or> (\<exists>b b'. y_block s = Some b \<and> y_block s' = Some b' \<and> mset b = mset b'))"
proof -
  let ?w = "round_init (dacs_init (hN E))"
  note run = assms(11,12) [unfolded mule_node_epoch_def]
  note e = run [THEN arg_cong [where f = "\<lambda>x. snd (snd x)"], unfolded snd_conv]
  have d: "d = d'" by (rule epoch_agreement [OF e assms(10)])
  have a: "fallback_ends ?w (mule_fallback E SK loads ord p) (set (fallback_events es)) s d"
    and b: "fallback_ends ?w (mule_fallback E SK' loads ord' p') (set (fallback_events es')) s' d"
    using epoch_fallback_ends [OF run(1)] epoch_fallback_ends [OF run(2)] d by simp_all
  show ?thesis
  proof (cases "0 < d")
    case False
    then obtain xs ys c c' where
      x: "y_block s = Some c" "set xs \<subseteq> set (fallback_events es)"
        "ctl_of (run_loop (mule_fallback E SK loads ord p) ?w xs) = Returned c" and
      y: "y_block s' = Some c'" "set ys \<subseteq> set (fallback_events es')"
        "ctl_of (run_loop (mule_fallback E SK' loads ord' p') ?w ys) = Returned c'"
      using a b unfolding fallback_ends_def by blast
    have "mset c = mset c'"
      by (rule dumbo_round_agreement_on [OF assms(1-9) x(2) y(2) x(3) [unfolded mule_fallback_ctl] y(3) [unfolded mule_fallback_ctl]])
    then show ?thesis using d x(1) y(1) by blast
  qed (use d in simp)
qed

section \<open>Witness\<close>

lemma epoch_fallback_run:
  fixes rstep :: "'w \<Rightarrow> 'e \<Rightarrow> ('w, 'q, 'x list) reply"
  assumes "y_fallback s = Some w0" and "0 < y_txcnt s + yblkcnt Y" and "ctl_of (run_loop rstep w0 xs) = Returned b"
  shows "\<exists>s' outs. run_loop (epoch_step Y B w rstep) s (map FallbackEvent xs) = (s', outs, Returned 0) \<and> y_block s' = Some b"
  using assms
proof (induction xs arbitrary: s w0)
  case Nil
  then show ?case by simp
next
  case (Cons x xs)
  obtain w1 o1 c1 where r: "rstep w0 x = (w1, o1, c1)" by (cases "rstep w0 x")
  show ?case
  proof (cases c1)
    case Running
    with r Cons.prems(3) have "ctl_of (run_loop rstep w1 xs) = Returned b" by (auto split: prod.splits)
    with Cons.IH [of "s\<lparr>y_fallback := Some w1\<rparr>" w1] Cons.prems(1,2) r Running show ?thesis
      by (auto simp: Let_def split: prod.splits)
  qed (use Cons.prems r in \<open>auto simp: Let_def\<close>)
qed

lemma fallback_events_map [simp]: "fallback_events (map FallbackEvent evs) = evs"
  by (induction evs) simp_all

lemma tcvba_outs_map [simp]: "tcvba_outs (map FallbackEvent evs) = []"
  by (induction evs) simp_all

definition ex_mule_events :: "nat \<Rightarrow> (bytes, nat) dacs_event round_event list \<Rightarrow>
    ((nat \<times> int \<times> nat \<times> nat) \<times> nat \<times> nat sigmas \<times> nat, (nat, nat, nat) mule_vc, (bytes, nat) dacs_event round_event) epoch_event list" where
  "ex_mule_events k evs = (if k = 0 then [FastReturn, TcvbaOut 1] else [TcvbaOut 1, FastReturn]) @ map FallbackEvent evs"

lemma ex_mule_events_parts:
  "fallback_events (ex_mule_events k evs) = evs" "tcvba_outs (ex_mule_events k evs) = [1]"
  by (simp_all add: ex_mule_events_def)

abbreviation ex_mule_epoch where
  "ex_mule_epoch SK ord pid \<equiv> mule_node_epoch toy_pki (\<lambda>(s, slot, d, e). s + nat slot + d + e) id 2 ex_round_hb SK Inr ord pid"

lemma ex_mule_run:
  assumes "ctl_of (run_loop (run_round (dumbo_round ex_round_hb SK Inr ord pid)) (round_init (dacs_init (hN ex_round_hb))) evs) = Returned b"
  shows "\<exists>s outs. run_loop (ex_mule_epoch SK ord pid) (epoch_init () 0 [tx]) (ex_mule_events k evs) = (s, outs, Returned 0) \<and>
    y_block s = Some b"
proof -
  let ?Y = "mule_epoch toy_pki (\<lambda>(s, slot, d, e). s + nat slot + d + e) id 2"
  let ?w = "round_init (dacs_init (hN ex_round_hb)) :: ((bytes, nat) dacs_state, rat) round_state"
    and ?r = "mule_fallback ex_round_hb SK Inr ord pid"
  have Y: "0 < yblkcnt ?Y" by (simp add: mule_epoch_def toy_pki_def)
  obtain s os where s: "run_loop (epoch_step ?Y 2 ?w ?r) (epoch_init () 0 [tx])
      (if k = 0 then [FastReturn, TcvbaOut 1] else [TcvbaOut 1, FastReturn]) = (s, os, Running)" "y_fallback s = Some ?w"
    by (cases "k = 0") (auto simp: epoch_init_def epoch_report_def mule_report_def mule_epoch_def epoch_decide_def Let_def)
  obtain s' os' where "run_loop (epoch_step ?Y 2 ?w ?r) s (map FallbackEvent evs) = (s', os', Returned 0)" "y_block s' = Some b"
    using epoch_fallback_run [OF s(2), of ?Y ?r evs b 2 ?w] Y assms by (auto simp: mule_fallback_ctl)
  then show ?thesis using s(1) by (simp add: mule_node_epoch_def ex_mule_events_def run_loop_append)
qed

abbreviation ex_mule_0 where
  "ex_mule_0 \<equiv> ex_mule_events 0 (ex_ledger_events 0 21 (ex_dacs_events [1, 0, 2] @ [PRBC_OUT 3 [5] 3]) 2 33)"

abbreviation ex_mule_1 where
  "ex_mule_1 \<equiv> ex_mule_events 1 (ex_ledger_events 3 39 (ex_dacs_events [3, 2] @ [PRBC_OUT 0 [5] 0]) 1 27)"

theorem mule_epoch_agreement_witness:
  "\<exists>b b'. y_block (fst (run_loop (ex_mule_epoch 7 remdups 0) (epoch_init () 0 [1]) ex_mule_0)) = Some b \<and>
     y_block (fst (run_loop (ex_mule_epoch 9 (\<lambda>xs. rev (remdups xs)) 1) (epoch_init () 0 [2]) ex_mule_1)) = Some b' \<and>
     mset b = mset b' \<and> b = [65, 66] \<and> b' = [66, 65]"
proof -
  obtain s os s' os' where
    r: "run_loop (ex_mule_epoch 7 remdups 0) (epoch_init () 0 [1 :: 8 word]) ex_mule_0 = (s, os, Returned 0)" "y_block s = Some [65, 66]" and
    r': "run_loop (ex_mule_epoch 9 (\<lambda>xs. rev (remdups xs)) 1) (epoch_init () 0 [2 :: 8 word]) ex_mule_1 = (s', os', Returned 0)"
      "y_block s' = Some [66, 65]"
    using ex_mule_run [OF ex_ledger_rounds(1), of 1 0] ex_mule_run [OF ex_ledger_rounds(2), of 2 1] by metis
  have "(0 :: int) < 0 \<or> (\<exists>b b'. y_block s = Some b \<and> y_block s' = Some b' \<and> mset b = mset b')"
  proof (rule mule_epoch_agreement [OF ex_round_dealt lists_set_remdups _ _ _ _ _ _ _ r(1) r'(1), THEN conjunct2])
    show "\<forall>j < hN ex_round_hb. prbc_instance (ex_prbc, {3}, [5]) ex_prbc_final \<and>
        (0::nat) \<notin> fst (snd (ex_prbc, {3}, [5::8 word])) \<and> (1::nat) \<notin> fst (snd (ex_prbc, {3}, [5::8 word]))"
      using ex_dacs_prbc by simp
    show "from_prbc (\<lambda>_. ex_prbc_final) 0 (acs_events (fallback_events ex_mule_0))"
      "from_prbc (\<lambda>_. ex_prbc_final) 1 (acs_events (fallback_events ex_mule_1))"
      unfolding ex_mule_events_parts ex_ledger_acs using ex_prbc_ended
      by (auto simp: from_prbc_def ex_dacs_events_def prbc_outputs_def ex_prbc_value_def)
    show "vaba_world_ok ex_world \<and> vector_view_ok ex_world 0 (ex_view 0 [0, 1, 2]) \<and>
        vector_view_ok ex_world 1 (ex_view 1 [2, 0, 1])"
      using ex_world_ok ex_views_ok by simp
    show "from_vacs 0 (ex_view 0 [0, 1, 2]) (acs_events (fallback_events ex_mule_0))"
      "from_vacs 1 (ex_view 1 [2, 0, 1]) (acs_events (fallback_events ex_mule_1))"
      unfolding ex_mule_events_parts ex_ledger_acs using ex_view_runs(3,4)
      by (auto simp: from_vacs_def ex_dacs_events_def ex_vec_def)
  qed (simp add: ex_mule_events_parts)
  then show ?thesis using r r' by simp
qed

end
