(* ===== verification/Spec2Isabelle.thy ===== *)
theory Spec2Isabelle
  imports HBBlock Coin ACS_Theorems DumboACS TVA VACS VABA_Theorems VectorAgreement SMVBA HotStuff
    Routing MillerRabin Drivers Mule DumboMVBA FastPath Sends Network Ledger MuleNode
begin

text \<open>
  A model of the Python code of Dumbo, a family of asynchronous Byzantine agreement protocols for atomic
  broadcast: HoneyBadger, Dumbo, Speedy Dumbo, Dumbo-MVBA, Mule (and RbcMule, RotatingLeaderHotstuff) and
  stable HotStuff. All of it is a shallow embedding; the model is executable and every exception the code can
  raise is a value.

  \<^bold>\<open>How the program works.\<close> \<open>N\<close> nodes, of which at most \<open>f < N/3\<close> are Byzantine, agree on one block of
  transactions per round or epoch. A driver (\<open>HoneyBadgerBFT\<close>, \<open>Dumbo\<close>, \<open>SpeedyDumbo\<close>, \<open>Mule\<close>, ..) takes a
  batch from its buffer, starts the sub-protocols of the round as greenlets and waits for their outputs:
  every node broadcasts its encrypted batch, a common subset chooses the batches that count (by one binary
  agreement for each, or by one multi-valued agreement on a vector of proofs), and the block is decrypted
  with the shares of \<open>f + 1\<close> nodes. Mule first tries a fast path of one leader and falls back to a round of
  Dumbo when a two-value agreement finds that no slot was certified. Greenlets talk through queues; a receive
  loop and one router per round sort the packets \<open>(round, (tag, index, message))\<close> of the network into them.

  \<^bold>\<open>Form of the model.\<close> A greenlet that loops over \<open>receive()\<close> is a function from its state (a record with the
  local variables of the code) and one \<open>(sender, message)\<close> to a reply: the new state, the messages sent in
  order, and whether it goes on, returns a value, or raises (Prelude: \<open>reply\<close>, \<open>ctl\<close>, \<open>run_loop\<close>). One definition per message tag or
  handler keeps the conditions and early exits of the code in their order. Blocking calls of the main greenlet
  are phases of its state; outputs of sub-protocols and timers are events. Greenlets are scheduled
  cooperatively, so a handler is one atomic step, and all interleavings are the orders of events. Where a
  handler and a second greenlet of a node meet at a queue of one place, the second one's turn is a message of
  the node to itself (\<open>SPBC_TAKE\<close>, \<open>SLOT_RUN\<close>, \<open>SLOT_TIMEOUT\<close>), so that the queue can be found full. A message to
  node \<open>-1\<close> is for all nodes, to \<open>-2\<close> for all others as the protocols mean it (theory \<open>Network\<close>: the
  client sends it to all). Exceptions that the code catches are branches, the
  others are \<open>Raised\<close>. Properties of one node hold for all sequences of messages; properties of several
  nodes are proved over \<open>AsyncNet\<close>, an inductive step relation in which the adversary delays, reorders and
  repeats messages of correct nodes and sends anything in the name of faulty ones.

  \<^bold>\<open>Foundations.\<close>
  \<^item> \<open>Prelude\<close>: errors, replies, Python indexing, ordered dictionaries, the loop over a list of messages, the locale
    \<open>node_invariant\<close>.
  \<^item> \<open>AsyncNet\<close>: configurations, the network, quorum intersection (locale \<open>quorum_system\<close>), the pattern of
    reliable broadcast (locales \<open>echo_ready\<close>, \<open>echo_ready_leader\<close>), and facts that are kept by what correct
    nodes send (locale \<open>sender_invariant\<close>). They are interpreted where a protocol has the pattern.
  \<^item> \<open>Erasure\<close>, \<open>Merkle\<close>: \<open>encode\<close>, \<open>decode\<close>, \<open>merkleTree\<close>, \<open>getMerkleBranch\<close>, \<open>merkleVerify\<close> of
    \<open>honeybadgerbft/core/reliablebroadcast.py\<close> over the coder zfec and SHA-256; round trip, and binding of
    branches in the absence of a collision among the strings that are hashed.
  \<^item> \<open>Certs\<close>: \<open>prbc_validate\<close>, \<open>cbc_validate\<close>, \<open>pb_validate\<close> (\<open>dumbobft/core/validators.py\<close>,
    \<open>speedydumbobft/core/validators.py\<close>); \<open>quorum_certificates\<close> gives uniqueness of what is certified.
  \<^item> \<open>ThreshSig\<close>, \<open>TPKE\<close>: \<open>crypto/threshsig/boldyreva.py\<close>, \<open>crypto/threshenc/tpke.py\<close>: Lagrange
    interpolation over any field, so that any \<open>k\<close> shares combine. \<open>MillerRabin\<close>: \<open>millerrabin.py\<close>.

  \<^bold>\<open>Broadcasts.\<close> \<open>RBC\<close> (\<open>reliablebroadcast.py\<close>), \<open>PRBC\<close> (\<open>provablereliablebroadcast.py\<close>), \<open>CBC\<close>
  (\<open>consistentbroadcast.py\<close>), \<open>PB\<close> (\<open>provablebroadcast.py\<close>), \<open>SPBC\<close> (\<open>spbc.py\<close>, \<open>spbc_ec.py\<close>), \<open>Dispersal\<close>
  (\<open>provabledispersal.py\<close>, \<open>rebroadcast.py\<close>). Shown: agreement, validity, availability of what a
  certificate promises, delivery when enough messages of correct nodes are there, recovery of a dispersed
  value; and where signers or roots are not compared, runs in which these fail.

  \<^bold>\<open>Agreements.\<close> \<open>BA\<close> (\<open>binaryagreement.py\<close>, \<open>baisedbinaryagreement.py\<close>), \<open>Coin\<close> (\<open>commoncoin.py\<close>), \<open>TVA\<close>
  (\<open>twovalueagreement.py\<close>, \<open>haltingtwovalueagreement.py\<close>), \<open>ACS\<close> (\<open>commonsubset.py\<close>), \<open>DumboACS\<close>
  (\<open>dumbocommonsubset.py\<close>, \<open>speedydumbocommonsubset.py\<close>), \<open>VACS\<close> (\<open>validatedcommonsubset.py\<close>), \<open>VABA\<close>
  (\<open>validatedagreement.py\<close>), \<open>SMVBA\<close> (\<open>smvba.py\<close>, \<open>smvba_e.py\<close>), \<open>DumboMVBA\<close> (\<open>dumbomvba.py\<close>,
  \<open>mvbacommonsubset.py\<close>). \<open>VectorAgreement\<close> puts \<open>VABA\<close> into \<open>VACS\<close> and that into \<open>DumboACS\<close>: all correct nodes
  get one vector. The locale \<open>agreed_outputs\<close> turns agreement of the sub-protocols into agreement
  of what is made of their outputs; it is interpreted for the broadcasts and binary agreements.

  \<^bold>\<open>Drivers and transport.\<close> \<open>HBBlock\<close> (\<open>honeybadger_block.py\<close>) and \<open>Round\<close> (\<open>_run_round\<close> of \<open>dumbo.py\<close> and
  \<open>speedydumbo.py\<close>) compose broadcasts, common subset and decryption: two correct nodes make blocks of the same transactions,
  each in the order in which its own process lists a set (the parameter \<open>ord\<close>, law \<open>lists_set\<close>).
  \<open>Drivers\<close> is the loop over the rounds (\<open>honeybadger.py\<close>, \<open>dumbo.py\<close>, \<open>speedydumbo.py\<close>, \<open>dumbox.py\<close>,
  \<open>stablehotstuff.py\<close>): no transaction is lost, \<open>K\<close> blocks end the loop, and Speedy Dumbo, which does not put
  transactions back, equals Dumbo when blocks hold whole batches. \<open>HotStuff\<close> (\<open>hsfastpath.py\<close>,
  \<open>hotstuff_notimeout.py\<close>, \<open>hotstuff_timeout.py\<close>) and \<open>FastPath\<close> (\<open>fastpath.py\<close>, \<open>rbcfastpath.py\<close>) are the
  fast paths, \<open>Mule\<close> the epochs around them (\<open>mule.py\<close>, \<open>rbcmule.py\<close>, \<open>rotatinghotstuff.py\<close>), with the
  locale \<open>slot_check\<close> for the two ways to check a certified slot. \<open>Routing\<close> models receive loops and
  routers of all drivers and refines them (locale \<open>stuttering_refinement\<close>) to one FIFO channel per round, tag and
  index; \<open>Sends\<close> shows that what a sub-protocol instance sends arrives in its own queue, except for the late
  coin shares of two modules, whose send function reads the round when it is called. \<open>Network\<close> models the links between the processes (\<open>network/socket_client.py\<close>,
  \<open>network/socket_server.py\<close>): queues, frames, the emulated bandwidth and the identification of senders; a link
  is a FIFO channel unless a pickle contains the separator or ends in a part of it.

  \<^bold>\<open>The whole.\<close> \<open>Ledger\<close> puts the rounds of Dumbo into the driver and proves atomic broadcast: the ledgers of
  two correct nodes are prefixes of each other, block by block as sets of transactions, from runs of the
  broadcasts and binary agreements with at most \<open>f\<close> Byzantine nodes. \<open>MuleNode\<close> puts the fallback into the
  epochs of Mule: two correct nodes leave an epoch with the same number of slots, or each with a block of
  its fallback, of the same transactions.

  \<^bold>\<open>Hypotheses.\<close> On what is not in the repository: the coder (\<open>zfec_ok\<close>: any \<open>K\<close> blocks give the data back); the
  pairing library (\<open>pairing_ok\<close>); pickle (round trip; no frame separator inside, where a link has to deliver)
  and the serialisation of group elements (round trip); AES (decryption of one block inverts encryption). Hash
  functions are any functions; where a theorem needs it, it assumes that there is no collision among values of
  the run, never injectivity: \<open>codes_apart\<close> and \<open>branch_bound\<close> (Merkle trees), \<open>roots_apart\<close>, \<open>digests_apart\<close>,
  \<open>block_apart\<close>, \<open>signature_apart\<close> name the values. A signature under a correct node's key, in a certificate
  that occurs, on a digest that the theorem is about was made by that node in the run (\<open>signs_bind\<close>, \<open>cert_unforged\<close>);
  a signature that coincurve cannot parse raises \<open>ValueError\<close>. On the certificates: where agreement rests on
  them, that their \<open>N - f\<close> signers are distinct, which the code does not check (\<open>validators_accept_one_signer\<close>,
  \<open>cbc_one_signer_disagreement\<close> show the check and what is lost without it); every such theorem says so.
  The permutation that the coin of a multi-valued agreement gives is one for all nodes. Every theorem with a
  hypothesis has a witness with concrete functions.

  \<^bold>\<open>Bounds.\<close> Python integers are \<open>int\<close> or \<open>nat\<close>, bytes are \<open>8 word\<close>. Loops over messages are folded over a list
  of any length, so there is no fuel, except that \<open>mr_split\<close> is a partial function which is proved to return
  and \<open>vote_loop\<close> and \<open>drain\<close> are recursive with a termination proof. Liveness is stated as: once certain messages have
  been received, the loop has returned. Randomness is an argument. Python iterates a set in an order that
  depends on hashes and on the process: it is a parameter, one for each node, or the order of first insertion
  where only the set of the result matters.

  \<^bold>\<open>Not modelled.\<close> Opening sockets and starting processes, command lines and experiments, tests, graphs,
  key files, logging, clock times and mean delays (but the divisions that can fail are), the busy waiting of
  muted nodes, failures of the sockets' \<open>sendall\<close>, messages that are not of the shape the handlers unpack (the routers are modelled for
  those as well), and the pools of processes for cryptography.
\<close>

end
